(* ===== verification/BambuPrelude.thy ===== *)
theory BambuPrelude
  imports Main "HOL-Library.Word" "HOL-Library.Signed_Division"
begin

text \<open>
  Shared vocabulary of the development: the C integer types as words, the
  collections of facts the component proofs use, and the arithmetic lemmas on
  shifts, masks and powers of two that several components share.
\<close>

unbundle bit_operations_syntax

type_synonym u8 = "8 word"
type_synonym u16 = "16 word"
type_synonym u32 = "32 word"
type_synonym u64 = "64 word"

named_theorems unat_simps
  \<open>how \<open>unat\<close> reads the word operations of the source\<close>

named_theorems macro_eval
  \<open>definitions to unfold when the model is evaluated on a concrete operand\<close>

subsection \<open>Reading words as natural numbers\<close>

lemma unat_less_exp: "unat (w :: 'a::len word) < 2 ^ LENGTH('a)"
  by (rule unsigned_less)

lemma unat_drop_bit_div [unat_simps]:
  "unat (drop_bit n (w :: 'a::len word)) = unat w div 2 ^ n"
  by (simp only: unat_drop_bit_eq drop_bit_eq_div [where 'a = nat])

lemma unat_take_bit_mod [unat_simps]:
  "unat (take_bit n (w :: 'a::len word)) = unat w mod 2 ^ n"
  by (metis take_bit_nat_def unsigned_take_bit_eq)

lemma unat_push_bit_mult [unat_simps]:
  "unat (push_bit n (w :: 'a::len word)) = unat w * 2 ^ n mod 2 ^ LENGTH('a)"
  by (simp only: unsigned_push_bit_eq push_bit_eq_mult [where 'a = nat]
      take_bit_eq_mod [where 'a = nat])

lemma unat_ucast_mod [unat_simps]:
  "unat (ucast (w :: 'a::len word) :: 'b::len word) = unat w mod 2 ^ LENGTH('b)"
  by (simp add: unsigned_ucast_eq take_bit_eq_mod)

lemma unat_neg_eq:
  "0 < unat w \<Longrightarrow> unat (- w :: 'a::len word) = 2 ^ LENGTH('a) - unat w"
  using unat_sub_if_size [of 0 w] by (simp add: word_size)

lemma unat_diff_le:
  "unat b \<le> unat a \<Longrightarrow> unat (a - b :: 'a::len word) = unat a - unat b"
  by (simp add: unat_sub word_le_nat_alt)

lemma word_eq_0_iff_unat: "w = 0 \<longleftrightarrow> unat (w :: 'a::len word) = 0"
  by (simp add: unat_eq_0)

lemma unat_add_small:
  "unat a + unat b < 2 ^ LENGTH('a) \<Longrightarrow> unat (a + b :: 'a::len word) = unat a + unat b"
  by (simp add: unat_word_ariths)

lemma push_or_add:
  assumes "unat (b :: 'a::len word) < 2 ^ k"
  shows "push_bit k a OR b = push_bit k a + b"
proof -
  have b: "take_bit k b = b" using assms by (simp add: word_unat_eq_iff unat_take_bit_mod)
  have "push_bit k a AND b = 0"
    by (subst b [symmetric]) (rule bit_word_eqI, auto simp only: bit_simps bit_0_eq bot_apply bot_bool_def)
  then show ?thesis by (simp add: disjunctive_add_eq_or)
qed

lemma unat_push_or:
  fixes a b :: "'a::len word"
  assumes "unat b < 2 ^ k" "unat a * 2 ^ k + unat b < 2 ^ LENGTH('a)"
  shows "unat (push_bit k a OR b) = unat a * 2 ^ k + unat b"
proof -
  have "push_bit k a OR b = push_bit k a + b" by (rule push_or_add [OF assms(1)])
  moreover have "unat (push_bit k a) = unat a * 2 ^ k" using assms(2) unfolding unat_push_bit_mult by simp
  ultimately show ?thesis using assms(2) by (simp add: unat_add_small)
qed

lemma bit_unat_div: "bit (w :: 'a::len word) m \<longleftrightarrow> odd (unat w div 2 ^ m)"
  using bit_unsigned_iff [where 'a = nat, of w m] by (auto simp: bit_imp_le_length simp flip: bit_iff_odd)

subsection \<open>Reading off the entries of a checked table\<close>

lemma list_all_uptD: "list_all P [a..<b] \<Longrightarrow> a \<le> n \<Longrightarrow> n < b \<Longrightarrow> P n"
  by (simp add: list_all_iff)

end
