(* ===== verification/BitMacros.thy ===== *)
theory BitMacros
  imports BambuPrelude
begin

text \<open>
  The bit-manipulation macros of \<^verbatim>\<open>etc/libbambu/bambu_macros.h\<close>. The macro layer works on
  \<^verbatim>\<open>UDATATYPE\<close>, an unsigned 64-bit integer; widths known to the preprocessor are natural
  numbers here. The second half shows that every variant of the leading-zero counter
  computes the number of leading zeros, and that the normalising variants shift left by
  exactly that amount.
\<close>

section \<open>The preprocessor's tables and field selectors\<close>

definition POW2_table :: "nat list" where
  "POW2_table =
    [1, 2, 4, 8, 16, 32, 64, 128, 256, 512, 1024, 2048, 4096, 8192, 16384, 32768, 65536,
     131072, 262144, 524288, 1048576, 2097152, 4194304, 8388608, 16777216, 33554432,
     67108864, 134217728, 268435456, 536870912, 1073741824, 2147483648, 4294967296,
     8589934592, 17179869184, 34359738368, 68719476736, 137438953472, 274877906944,
     549755813888, 1099511627776, 2199023255552, 4398046511104, 8796093022208,
     17592186044416, 35184372088832, 70368744177664, 140737488355328, 281474976710656,
     562949953421312, 1125899906842624, 2251799813685248, 4503599627370496,
     9007199254740992, 18014398509481984, 36028797018963968, 72057594037927936,
     144115188075855872, 288230376151711744, 576460752303423488, 1152921504606846976,
     2305843009213693952, 4611686018427387904, 9223372036854775808]"

definition POW2 :: "nat \<Rightarrow> nat" where
  "POW2 n = POW2_table ! n"

definition CEIL_LOG2_table :: "nat list" where
  "CEIL_LOG2_table =
    [0, 0, 1, 2, 2, 3, 3, 3, 3, 4, 4, 4, 4, 4, 4, 4, 4, 5, 5, 5, 5, 5, 5, 5, 5, 5, 5, 5,
     5, 5, 5, 5, 5, 6, 6, 6, 6, 6, 6, 6, 6, 6, 6, 6, 6, 6, 6, 6, 6, 6, 6, 6, 6, 6, 6, 6,
     6, 6, 6, 6, 6, 6, 6, 6, 6]"

definition CEIL_LOG2 :: "nat \<Rightarrow> nat" where
  "CEIL_LOG2 n = CEIL_LOG2_table ! n"

definition VAL_RESIZE :: "u64 \<Rightarrow> nat \<Rightarrow> u64" where
  "VAL_RESIZE v nbit = (if nbit < 64 then v AND (of_nat (POW2 nbit) - 1) else v)"

definition SELECT_BIT :: "'a::len word \<Rightarrow> nat \<Rightarrow> 'a word" where
  "SELECT_BIT v b = drop_bit b v AND 1"

definition SET_BIT :: "u64 \<Rightarrow> nat \<Rightarrow> u64 \<Rightarrow> u64" where
  "SET_BIT v b val = (v AND NOT (of_nat (POW2 b))) OR push_bit b (val AND 1)"

definition SELECT_RANGE :: "u64 \<Rightarrow> nat \<Rightarrow> nat \<Rightarrow> u64" where
  "SELECT_RANGE v high low = VAL_RESIZE (drop_bit low v) (high - low + 1)"

definition SET_RANGE :: "u64 \<Rightarrow> u64 \<Rightarrow> nat \<Rightarrow> nat \<Rightarrow> u64" where
  "SET_RANGE v val high low =
     (if high - low + 1 < 64
      then (v AND NOT (push_bit low (of_nat (POW2 (high - low + 1)) - 1)))
           OR push_bit low (VAL_RESIZE val (high - low + 1))
      else val)"

definition CONCAT :: "u64 \<Rightarrow> u64 \<Rightarrow> nat \<Rightarrow> u64" where
  "CONCAT var1 var2 var2bitsize = push_bit var2bitsize var1 OR VAL_RESIZE var2 var2bitsize"

text \<open>\<^verbatim>\<open>VECTORIZE_VALUE(var, nbits)\<close>: the flags \<open>var_0\<close>, \<open>var_1\<close>, \dots as a binary number.\<close>

fun VECTORIZE_VALUE :: "bool list \<Rightarrow> nat \<Rightarrow> u64" where
  "VECTORIZE_VALUE flags 0 = 0"
| "VECTORIZE_VALUE flags (Suc n) =
     VECTORIZE_VALUE flags n OR push_bit n (of_bool (flags ! n))"

definition RUNTIME_CEIL_LOG2 :: "nat \<Rightarrow> nat" where
  "RUNTIME_CEIL_LOG2 var =
     (if var \<le> 32 then (if var \<le> 16 then (if var \<le> 8 then (if var \<le> 4 then
        (if var \<le> 2 then (if var \<le> 1 then 0 else 1) else 2) else 3) else 4) else 5) else 6)"

section \<open>The leading-zero counters\<close>

text \<open>
  The selection tree that the counters share. Each flag says that the upper half of the
  window selected so far is empty; the guards \<open>g5 \<dots> g0\<close> are the \<^verbatim>\<open>man_bits <= k ||\<close>
  disjuncts with which a variant short-cuts a test. The flags come least significant first.
\<close>

definition clz_tree :: "bool \<Rightarrow> bool \<Rightarrow> bool \<Rightarrow> bool \<Rightarrow> bool \<Rightarrow> bool \<Rightarrow> u64 \<Rightarrow> bool list" where
  "clz_tree g5 g4 g3 g2 g1 g0 m =
    (let r5 = (g5 \<or> SELECT_RANGE m 63 32 = 0);
         r4 = (g4 \<or> (if r5 then SELECT_RANGE m 31 16 else SELECT_RANGE m 63 48) = 0);
         r3 = (g3 \<or> (if r4 then (if r5 then SELECT_RANGE m 15 8 else SELECT_RANGE m 47 40)
                     else (if r5 then SELECT_RANGE m 31 24 else SELECT_RANGE m 63 56)) = 0);
         r2 = (g2 \<or>
               (if r3 then (if r4 then (if r5 then SELECT_RANGE m 7 4 else SELECT_RANGE m 39 36)
                            else (if r5 then SELECT_RANGE m 23 20 else SELECT_RANGE m 55 52))
                else (if r4 then (if r5 then SELECT_RANGE m 15 12 else SELECT_RANGE m 47 44)
                      else (if r5 then SELECT_RANGE m 31 28 else SELECT_RANGE m 63 60))) = 0);
         val8 = (if r3 then (if r4 then (if r5 then SELECT_RANGE m 7 0 else SELECT_RANGE m 39 32)
                             else (if r5 then SELECT_RANGE m 23 16 else SELECT_RANGE m 55 48))
                 else (if r4 then (if r5 then SELECT_RANGE m 15 8 else SELECT_RANGE m 47 40)
                       else (if r5 then SELECT_RANGE m 31 24 else SELECT_RANGE m 63 56)));
         val4 = (if r2 then val8 AND 15 else drop_bit 4 val8 AND 15);
         r1 = (g1 \<or> drop_bit 2 val4 = 0);
         r0 = (if g0 \<or> r1 then NOT (drop_bit 1 (val4 AND 2)) AND 1
               else NOT (drop_bit 3 (val4 AND 8)) AND 1) \<noteq> 0
     in [r0, r1, r2, r3, r4, r5])"

text \<open>
  The variants with a compile-time width place the operand at the top of a window of 32
  or 64 bits; the run-time variants use the next power of two.
\<close>

definition clz_window :: "nat \<Rightarrow> u64 \<Rightarrow> u64" where
  "clz_window man_bits man_in =
     (if man_bits \<le> 32 then VAL_RESIZE (push_bit (32 - man_bits) man_in) 32
      else push_bit (64 - man_bits) man_in)"

definition clz_window_runtime :: "nat \<Rightarrow> u64 \<Rightarrow> u64" where
  "clz_window_runtime man_bits man_in =
     (if man_bits \<le> 1 then VAL_RESIZE (push_bit (1 - man_bits) man_in) 1
      else if man_bits \<le> 2 then VAL_RESIZE (push_bit (2 - man_bits) man_in) 2
      else if man_bits \<le> 4 then VAL_RESIZE (push_bit (4 - man_bits) man_in) 4
      else if man_bits \<le> 8 then VAL_RESIZE (push_bit (8 - man_bits) man_in) 8
      else if man_bits \<le> 16 then VAL_RESIZE (push_bit (16 - man_bits) man_in) 16
      else if man_bits \<le> 32 then VAL_RESIZE (push_bit (32 - man_bits) man_in) 32
      else push_bit (64 - man_bits) man_in)"

definition clz_flags :: "nat \<Rightarrow> u64 \<Rightarrow> bool list" where
  "clz_flags man_bits m = clz_tree (man_bits \<le> 32) False False False False False m"

definition clz_flags_runtime :: "nat \<Rightarrow> u64 \<Rightarrow> bool list" where
  "clz_flags_runtime man_bits m =
     clz_tree (man_bits \<le> 32) (man_bits \<le> 16) (man_bits \<le> 8) (man_bits \<le> 4) (man_bits \<le> 2)
       (man_bits \<le> 1) m"

definition clz_result :: "nat \<Rightarrow> bool list \<Rightarrow> u64" where
  "clz_result man_bits flags =
     VAL_RESIZE (if man_bits \<le> 32 then VECTORIZE_VALUE flags 5 else VECTORIZE_VALUE flags 6)
       (CEIL_LOG2 man_bits)"

definition clz_result_runtime :: "nat \<Rightarrow> bool list \<Rightarrow> u64" where
  "clz_result_runtime man_bits flags =
     (if man_bits \<le> 1 then VAL_RESIZE 0 1
      else if man_bits \<le> 2 then VAL_RESIZE (VECTORIZE_VALUE flags 1) 1
      else if man_bits \<le> 4 then VAL_RESIZE (VECTORIZE_VALUE flags 2) 2
      else if man_bits \<le> 8 then VAL_RESIZE (VECTORIZE_VALUE flags 3) 3
      else if man_bits \<le> 16 then VAL_RESIZE (VECTORIZE_VALUE flags 4) 4
      else if man_bits \<le> 32 then VAL_RESIZE (VECTORIZE_VALUE flags 5) 5
      else VAL_RESIZE (VECTORIZE_VALUE flags 6) 6)"

text \<open>The chain of conditional shifts of the normalising variants.\<close>

definition shift_by_flags :: "bool list \<Rightarrow> u64 \<Rightarrow> u64" where
  "shift_by_flags flags m =
    (let s = m;
         s = (if flags ! 5 then push_bit 32 s else s);
         s = (if flags ! 4 then push_bit 16 s else s);
         s = (if flags ! 3 then push_bit 8 s else s);
         s = (if flags ! 2 then push_bit 4 s else s);
         s = (if flags ! 1 then push_bit 2 s else s);
         s = (if flags ! 0 then push_bit 1 s else s)
     in s)"

definition count_leading_zero_macro :: "nat \<Rightarrow> u64 \<Rightarrow> u64" where
  "count_leading_zero_macro man_bits man_in =
     clz_result man_bits (clz_flags man_bits (clz_window man_bits man_in))"

definition count_leading_zero_runtime_macro :: "nat \<Rightarrow> u64 \<Rightarrow> u64" where
  "count_leading_zero_runtime_macro man_bits man_in =
     clz_result_runtime man_bits
       (clz_flags_runtime man_bits (clz_window_runtime man_bits man_in))"

definition count_leading_zero_lshift_macro :: "nat \<Rightarrow> u64 \<Rightarrow> u64 \<times> u64" where
  "count_leading_zero_lshift_macro man_bits man_in =
     (let m = clz_window man_bits man_in; flags = clz_flags man_bits m
      in (clz_result man_bits flags, drop_bit (64 - man_bits) (shift_by_flags flags m)))"

definition count_leading_zero_lshift_runtime_macro :: "nat \<Rightarrow> u64 \<Rightarrow> u64 \<times> u64" where
  "count_leading_zero_lshift_runtime_macro man_bits man_in =
     (let m = clz_window_runtime man_bits man_in; flags = clz_flags_runtime man_bits m
      in (clz_result_runtime man_bits flags, drop_bit (64 - man_bits) (shift_by_flags flags m)))"

text \<open>
  The \<^verbatim>\<open>lshift64\<close> variants test the top of the operand itself and shift as they go: one
  step tests whether the top \<open>n\<close> of \<open>man_bits\<close> bits are empty.
\<close>

definition lshift64_step :: "bool \<Rightarrow> nat \<Rightarrow> nat \<Rightarrow> u64 \<Rightarrow> bool \<times> u64" where
  "lshift64_step g man_bits n s =
     (let r = (g \<and> drop_bit (man_bits - n) s AND (2 ^ n - 1) = 0)
      in (r, if r then push_bit n s else s))"

definition lshift64_chain :: "(nat \<Rightarrow> bool) \<Rightarrow> nat \<Rightarrow> u64 \<Rightarrow> bool list \<times> u64" where
  "lshift64_chain g man_bits man_in =
    (let (r5, s) = lshift64_step (g 32) man_bits 32 man_in;
         (r4, s) = lshift64_step (g 16) man_bits 16 s;
         (r3, s) = lshift64_step (g 8) man_bits 8 s;
         (r2, s) = lshift64_step (g 4) man_bits 4 s;
         (r1, s) = lshift64_step (g 2) man_bits 2 s;
         (r0, s) = lshift64_step (g 1) man_bits 1 s
     in ([r0, r1, r2, r3, r4, r5], s))"

definition count_leading_zero_lshift64_macro :: "nat \<Rightarrow> u64 \<Rightarrow> u64 \<times> u64" where
  "count_leading_zero_lshift64_macro man_bits man_in =
     (let (flags, s) = lshift64_chain (\<lambda>n. True) man_bits man_in
      in (VAL_RESIZE (VECTORIZE_VALUE flags 6) (CEIL_LOG2 man_bits), s))"

definition count_leading_zero_lshift64_runtime_macro :: "nat \<Rightarrow> u64 \<Rightarrow> u64 \<times> u64" where
  "count_leading_zero_lshift64_runtime_macro man_bits man_in =
     (let (flags, s) = lshift64_chain (\<lambda>n. n \<le> man_bits) man_bits man_in
      in (clz_result_runtime man_bits flags, s))"

section \<open>Correctness of the selectors and tables\<close>

lemma POW2_table_eq: "POW2_table = map (\<lambda>i. 2 ^ i) [0..<64]"
  by (simp add: POW2_table_def upt_conv_Cons)

lemma POW2_eq [simp]: "n < 64 \<Longrightarrow> POW2 n = 2 ^ n"
  by (simp add: POW2_def POW2_table_eq)

lemma mask_exp_eq: "v AND (2 ^ n - 1) = take_bit n (v :: 'a::len word)"
  by (simp add: take_bit_eq_mask mask_eq_exp_minus_1)

lemma VAL_RESIZE_take_bit [simp]: "VAL_RESIZE v n = take_bit n v"
  by (cases "n < 64") (simp_all add: VAL_RESIZE_def mask_exp_eq take_bit_word_eq_self)

lemma SELECT_RANGE_eq [simp]: "SELECT_RANGE v h l = take_bit (h - l + 1) (drop_bit l v)"
  by (simp add: SELECT_RANGE_def)

lemma SELECT_BIT_eq: "SELECT_BIT v b = of_bool (bit v b)"
  by (simp add: SELECT_BIT_def bit_iff_odd_drop_bit and_one_eq mod_2_eq_odd)

lemma CEIL_LOG2_table_bounds:
  "list_all (\<lambda>n. 2 ^ (CEIL_LOG2 n - 1) < n \<and> n \<le> 2 ^ CEIL_LOG2 n) [2..<65]"
  by (simp add: CEIL_LOG2_def CEIL_LOG2_table_def upt_conv_Cons)

lemma CEIL_LOG2_bounds:
  "2 \<le> n \<Longrightarrow> n \<le> 64 \<Longrightarrow> 2 ^ (CEIL_LOG2 n - 1) < n \<and> n \<le> 2 ^ CEIL_LOG2 n"
  by (rule list_all_uptD [OF CEIL_LOG2_table_bounds]) simp_all

lemma RUNTIME_CEIL_LOG2_table: "list_all (\<lambda>n. RUNTIME_CEIL_LOG2 n = CEIL_LOG2 n) [1..<65]"
  by (simp add: CEIL_LOG2_def CEIL_LOG2_table_def RUNTIME_CEIL_LOG2_def upt_conv_Cons)

lemma RUNTIME_CEIL_LOG2_eq: "1 \<le> n \<Longrightarrow> n \<le> 64 \<Longrightarrow> RUNTIME_CEIL_LOG2 n = CEIL_LOG2 n"
  by (rule list_all_uptD [OF RUNTIME_CEIL_LOG2_table]) simp_all

lemma VECTORIZE_VALUE_numeral:
  "VECTORIZE_VALUE flags (numeral k) = VECTORIZE_VALUE flags (pred_numeral k)
     OR push_bit (pred_numeral k) (of_bool (flags ! pred_numeral k))"
  by (simp add: numeral_eq_Suc)

lemmas [macro_eval] = VECTORIZE_VALUE_numeral clz_tree_def clz_window_def clz_window_runtime_def
  clz_flags_def clz_flags_runtime_def clz_result_def clz_result_runtime_def shift_by_flags_def
  count_leading_zero_macro_def count_leading_zero_runtime_macro_def
  count_leading_zero_lshift_macro_def count_leading_zero_lshift_runtime_macro_def
  lshift64_step_def lshift64_chain_def count_leading_zero_lshift64_macro_def
  count_leading_zero_lshift64_runtime_macro_def CEIL_LOG2_def CEIL_LOG2_table_def
  RUNTIME_CEIL_LOG2_def SELECT_BIT_def Let_def

section \<open>Leading zeros of a value of a given width\<close>

definition is_clz :: "nat \<Rightarrow> nat \<Rightarrow> nat \<Rightarrow> bool" where
  "is_clz n x c \<longleftrightarrow> c < n \<and> 2 ^ (n - 1 - c) \<le> x \<and> x < 2 ^ (n - c)"

lemma is_clz_unique: "is_clz n x c \<Longrightarrow> is_clz n x d \<Longrightarrow> c = d"
proof -
  have *: "\<not> c < d" if "is_clz n x c" "is_clz n x d" for c d
  proof
    assume "c < d"
    then have "n - d \<le> n - 1 - c" using that by (auto simp: is_clz_def)
    then have "(2::nat) ^ (n - d) \<le> 2 ^ (n - 1 - c)" by (rule power_increasing) simp
    moreover have "2 ^ (n - 1 - c) \<le> x" "x < 2 ^ (n - d)" using that by (simp_all add: is_clz_def)
    ultimately show False by linarith
  qed
  show "is_clz n x c \<Longrightarrow> is_clz n x d \<Longrightarrow> c = d" using * by (meson linorder_neqE_nat)
qed

lemma is_clz_one: "is_clz 1 1 0"
  by (simp add: is_clz_def)

lemma is_clz_pos: "is_clz n x c \<Longrightarrow> 0 < x"
  unfolding is_clz_def using less_le_trans [of 0 "2 ^ (n - 1 - c)" x] by auto

text \<open>Doubling the window: the upper half is empty, or it holds the leading one.\<close>

lemma is_clz_low: "is_clz n x c \<Longrightarrow> is_clz (m + n) x (m + c)"
  by (auto simp: is_clz_def)

lemma is_clz_high: "is_clz n (x div 2 ^ m) c \<Longrightarrow> is_clz (m + n) x c"
proof -
  assume a: "is_clz n (x div 2 ^ m) c"
  then have c: "c < n" and lo: "2 ^ (n - 1 - c) \<le> x div 2 ^ m" and hi: "x div 2 ^ m < 2 ^ (n - c)"
    by (auto simp: is_clz_def)
  have "2 ^ (m + n - 1 - c) = 2 ^ (n - 1 - c) * (2 ^ m :: nat)"
    using c by (simp add: algebra_simps flip: power_add)
  also have "\<dots> \<le> x div 2 ^ m * 2 ^ m" using lo by simp
  also have "\<dots> \<le> x" by simp
  finally have l: "2 ^ (m + n - 1 - c) \<le> x" .
  have "x < 2 ^ (n - c) * 2 ^ m" using hi by (simp add: div_less_iff_less_mult)
  also have "\<dots> = 2 ^ (m + n - c)" using c by (simp add: algebra_simps flip: power_add)
  finally show ?thesis using l c by (auto simp: is_clz_def)
qed

lemma is_clz_shift: "is_clz n x c \<Longrightarrow> is_clz (n + k) (x * 2 ^ k) c"
  by (rule is_clz_high [of n _ k c, simplified add.commute [of k]]) simp

lemma is_clz_mult_less: "is_clz n x c \<Longrightarrow> x * 2 ^ c < 2 ^ n \<and> 2 ^ (n - 1) \<le> x * 2 ^ c"
proof -
  assume a: "is_clz n x c"
  then have "x * 2 ^ c < 2 ^ (n - c) * 2 ^ c" by (simp add: is_clz_def)
  moreover have "2 ^ (n - 1 - c) * 2 ^ c \<le> x * 2 ^ c" using a by (simp add: is_clz_def)
  ultimately show ?thesis using a by (simp add: is_clz_def flip: power_add)
qed

subsection \<open>The selection tree halves a window\<close>

definition half :: "nat \<Rightarrow> u64 \<Rightarrow> u64" where
  "half n w = (if drop_bit n w = 0 then take_bit n w else drop_bit n w)"

lemma drop_bit_eq_0_iff: "drop_bit n w = 0 \<longleftrightarrow> unat (w :: 'a::len word) < 2 ^ n"
  by (simp add: word_eq_0_iff_unat unat_simps div_eq_0_iff)

lemma take_drop_top: "64 \<le> l + n \<Longrightarrow> take_bit n (drop_bit l w) = drop_bit l (w :: u64)"
  by (rule bit_word_eqI) (auto simp: bit_simps dest: bit_imp_le_length)

lemma half_less: "unat w < 2 ^ (n + n) \<Longrightarrow> unat (half n w) < 2 ^ n"
  by (auto simp: half_def unat_simps power_add div_less_iff_less_mult)

lemma half_nonzero: "w \<noteq> 0 \<Longrightarrow> half n w \<noteq> 0"
  by (auto simp: half_def drop_bit_eq_0_iff take_bit_word_eq_self)
    (metis mod_less unat_0 unat_take_bit_mod word_eq_0_iff_unat)

lemma half_clz:
  assumes "w \<noteq> 0" and "is_clz n (unat (half n w)) c"
  shows "is_clz (n + n) (unat w) ((if drop_bit n w = 0 then n else 0) + c)"
proof (cases "drop_bit n w = 0")
  case True
  then have "unat (half n w) = unat w" by (simp add: half_def unat_simps drop_bit_eq_0_iff)
  then show ?thesis using assms True is_clz_low by auto
next
  case False
  then show ?thesis using assms by (auto simp: half_def unat_simps intro: is_clz_high)
qed

definition halving_flags :: "u64 \<Rightarrow> bool list" where
  "halving_flags m =
    (let w4 = half 32 m; w3 = half 16 w4; w2 = half 8 w3; w1 = half 4 w2; w0 = half 2 w1
     in [drop_bit 1 w0 = 0, drop_bit 2 w1 = 0, drop_bit 4 w2 = 0, drop_bit 8 w3 = 0,
         drop_bit 16 w4 = 0, drop_bit 32 m = 0])"

lemma take_bit_1_drop: "take_bit (Suc 0) (drop_bit k v) = of_bool (bit (v :: 'a::len word) k)"
  by (simp add: bit_iff_odd_drop_bit take_bit_Suc_0 mod_2_eq_odd)

lemma and_1_eq_bit: "(v :: 'a::len word) AND 1 = of_bool (bit v 0)"
  by (simp add: and_one_eq mod_2_eq_odd bit_0)

lemma low_bit_test: "k < 64 \<Longrightarrow> NOT (drop_bit k (v AND 2 ^ k)) AND 1 \<noteq> 0 \<longleftrightarrow> \<not> bit (v :: u64) k"
  unfolding and_1_eq_bit by (auto simp: bit_simps)

lemma low_bit_window:
  "drop_bit 1 (take_bit 2 v) = 0 \<longleftrightarrow> \<not> bit (v :: u64) 1"
  "drop_bit 1 (take_bit 2 (drop_bit 2 v)) = 0 \<longleftrightarrow> \<not> bit (v :: u64) 3"
  by (simp_all add: drop_bit_take_bit bit_iff_odd_drop_bit numeral_3_eq_3
      flip: even_iff_mod_2_eq_zero)

lemma select_half:
  "l + n \<le> k \<Longrightarrow>
    (if drop_bit k w = 0 then take_bit n (drop_bit l w) else take_bit n (drop_bit (k + l) w))
      = take_bit n (drop_bit l (half k w))"
  by (auto simp: half_def drop_bit_take_bit min_def ac_simps)

lemma half_small: "unat w < 2 ^ n \<Longrightarrow> half n w = w"
  by (simp add: half_def drop_bit_eq_0_iff take_bit_word_eq_self word_unat_eq_iff unat_simps)

lemma small_mono: "unat w < 2 ^ n \<Longrightarrow> n \<le> k \<Longrightarrow> unat w < (2::nat) ^ k"
  by (meson less_le_trans one_le_numeral power_increasing)

lemma less_2_64: "y < 2 ^ n \<Longrightarrow> n \<le> 64 \<Longrightarrow> y < (18446744073709551616 :: nat)"
  using power_increasing [of n 64 "2::nat"] by simp

lemma take_bit_self: "unat (w :: u64) < 2 ^ n \<Longrightarrow> take_bit n w = w"
  by (simp add: word_unat_eq_iff unat_simps)

lemma take_bit_drop_self:
  "unat (w :: u64) < 2 ^ (n + n) \<Longrightarrow> take_bit n (drop_bit n w) = drop_bit n w"
  by (rule take_bit_self) (simp add: unat_simps power_add div_less_iff_less_mult)

lemma let_step: "a = b \<Longrightarrow> f b = t \<Longrightarrow> Let a f = t"
  by simp

text \<open>A guard short-cuts a test only where the test holds anyway.\<close>

lemma clz_tree_halving:
  assumes "g5 \<Longrightarrow> unat m < 2 ^ 32" and "g4 \<Longrightarrow> unat m < 2 ^ 16"
    and "g3 \<Longrightarrow> unat m < 2 ^ 8" and "g2 \<Longrightarrow> unat m < 2 ^ 4"
    and "g1 \<Longrightarrow> unat m < 2 ^ 2" and "g0 \<Longrightarrow> unat m < 2 ^ 1"
  shows "clz_tree g5 g4 g3 g2 g1 g0 m = halving_flags m"
proof -
  define w4 w3 w2 w1 where w: "w4 = half 32 m" "w3 = half 16 w4" "w2 = half 8 w3" "w1 = half 4 w2"
  have b4: "unat w4 < 2 ^ 32" and b3: "unat w3 < 2 ^ 16" and b2: "unat w2 < 2 ^ 8"
    and b1: "unat w1 < 2 ^ 4"
    unfolding w using half_less [of m 32] half_less [of "half 32 m" 16]
      half_less [of "half 16 (half 32 m)" 8] half_less [of "half 8 (half 16 (half 32 m))" 4]
      unat_less_exp [of m] by simp_all
  have h: "unat m < 2 ^ 16 \<Longrightarrow> w4 = m" "unat m < 2 ^ 8 \<Longrightarrow> w3 = m"
    "unat m < 2 ^ 4 \<Longrightarrow> w2 = m" "unat m < 2 ^ 2 \<Longrightarrow> w1 = m"
    unfolding w by (simp_all add: half_small)
  have r5: "(g5 \<or> SELECT_RANGE m 63 32 = 0) = (drop_bit 32 m = 0)"
    using assms(1) by (auto simp: take_drop_top drop_bit_eq_0_iff)
  have s4: "(if drop_bit 32 m = 0 then SELECT_RANGE m 31 16 else SELECT_RANGE m 63 48)
      = drop_bit 16 w4"
    using select_half [of 16 16 32 m] b4 by (simp add: take_bit_drop_self w(1) [symmetric] split: if_splits)
  have r4: "(g4 \<or> (if drop_bit 32 m = 0 then SELECT_RANGE m 31 16 else SELECT_RANGE m 63 48) = 0)
      = (drop_bit 16 w4 = 0)"
    unfolding s4 using h(1) assms(2) by (auto simp: drop_bit_eq_0_iff)
  have s3: "(if drop_bit 16 w4 = 0
        then (if drop_bit 32 m = 0 then SELECT_RANGE m 15 8 else SELECT_RANGE m 47 40)
        else (if drop_bit 32 m = 0 then SELECT_RANGE m 31 24 else SELECT_RANGE m 63 56))
      = drop_bit 8 w3"
    using select_half [of 8 8 32 m] select_half [of 24 8 32 m] select_half [of 8 8 16 w4] b3
    by (simp add: take_bit_drop_self w(1,2) [symmetric] split: if_splits)
  have r3: "(g3 \<or> (if drop_bit 16 w4 = 0
        then (if drop_bit 32 m = 0 then SELECT_RANGE m 15 8 else SELECT_RANGE m 47 40)
        else (if drop_bit 32 m = 0 then SELECT_RANGE m 31 24 else SELECT_RANGE m 63 56)) = 0)
      = (drop_bit 8 w3 = 0)"
    unfolding s3 using h(2) assms(3) by (auto simp: drop_bit_eq_0_iff)
  have v8: "(if drop_bit 8 w3 = 0
        then (if drop_bit 16 w4 = 0
          then (if drop_bit 32 m = 0 then SELECT_RANGE m 7 0 else SELECT_RANGE m 39 32)
          else (if drop_bit 32 m = 0 then SELECT_RANGE m 23 16 else SELECT_RANGE m 55 48))
        else (if drop_bit 16 w4 = 0
          then (if drop_bit 32 m = 0 then SELECT_RANGE m 15 8 else SELECT_RANGE m 47 40)
          else (if drop_bit 32 m = 0 then SELECT_RANGE m 31 24 else SELECT_RANGE m 63 56)))
      = w2"
    using select_half [of 0 8 32 m] select_half [of 16 8 32 m] select_half [of 8 8 32 m]
      select_half [of 24 8 32 m] select_half [of 0 8 16 w4] select_half [of 8 8 16 w4]
      select_half [of 0 8 8 w3] b2
    by (auto simp: take_bit_self w(1,2,3) [symmetric])
  have s2: "(if drop_bit 8 w3 = 0
        then (if drop_bit 16 w4 = 0
          then (if drop_bit 32 m = 0 then SELECT_RANGE m 7 4 else SELECT_RANGE m 39 36)
          else (if drop_bit 32 m = 0 then SELECT_RANGE m 23 20 else SELECT_RANGE m 55 52))
        else (if drop_bit 16 w4 = 0
          then (if drop_bit 32 m = 0 then SELECT_RANGE m 15 12 else SELECT_RANGE m 47 44)
          else (if drop_bit 32 m = 0 then SELECT_RANGE m 31 28 else SELECT_RANGE m 63 60)))
      = drop_bit 4 w2"
    using select_half [of 4 4 32 m] select_half [of 20 4 32 m] select_half [of 12 4 32 m]
      select_half [of 28 4 32 m] select_half [of 4 4 16 w4] select_half [of 12 4 16 w4]
      select_half [of 4 4 8 w3] b2
    by (simp add: take_bit_drop_self w(1,2,3) [symmetric] split: if_splits)
  have r2: "(g2 \<or> (if drop_bit 8 w3 = 0
        then (if drop_bit 16 w4 = 0
          then (if drop_bit 32 m = 0 then SELECT_RANGE m 7 4 else SELECT_RANGE m 39 36)
          else (if drop_bit 32 m = 0 then SELECT_RANGE m 23 20 else SELECT_RANGE m 55 52))
        else (if drop_bit 16 w4 = 0
          then (if drop_bit 32 m = 0 then SELECT_RANGE m 15 12 else SELECT_RANGE m 47 44)
          else (if drop_bit 32 m = 0 then SELECT_RANGE m 31 28 else SELECT_RANGE m 63 60))) = 0)
      = (drop_bit 4 w2 = 0)"
    unfolding s2 using h(3) assms(4) by (auto simp: drop_bit_eq_0_iff)
  have v4: "(if drop_bit 4 w2 = 0 then w2 AND 15 else drop_bit 4 w2 AND 15) = w1"
    using mask_exp_eq [of w2 4] mask_exp_eq [of "drop_bit 4 w2" 4] b2
    by (simp add: w(4) half_def take_bit_drop_self)
  have r1: "(g1 \<or> drop_bit 2 w1 = 0) = (drop_bit 2 w1 = 0)"
    using h(4) assms(5) by (auto simp: drop_bit_eq_0_iff)
  have r0: "((if g0 \<or> drop_bit 2 w1 = 0 then NOT (drop_bit 1 (w1 AND 2)) AND 1
       else NOT (drop_bit 3 (w1 AND 8)) AND 1) \<noteq> 0) = (drop_bit 1 (half 2 w1) = 0)"
    using low_bit_test [of 1 w1] low_bit_test [of 3 w1] low_bit_window [of w1] h(4) assms(6) b1
      take_bit_drop_self [of w1 2]
    by (auto simp: half_def drop_bit_eq_0_iff)
  show ?thesis
    unfolding clz_tree_def halving_flags_def
    by (rule let_step [OF r5], rule let_step [OF r4], rule let_step [OF r3], rule let_step [OF r2],
        rule let_step [OF v8], rule let_step [OF v4], rule let_step [OF r1], rule let_step [OF r0])
      (simp only: Let_def w)
qed

subsection \<open>The flags are the binary digits of the count\<close>

lemma bit_VECTORIZE_VALUE:
  "n \<le> 64 \<Longrightarrow> bit (VECTORIZE_VALUE flags n) i \<longleftrightarrow> i < n \<and> flags ! i"
  by (induction n) (auto simp: bit_simps less_Suc_eq)

lemma VECTORIZE_VALUE_take: "k \<le> n \<Longrightarrow> n \<le> 64 \<Longrightarrow>
    VECTORIZE_VALUE flags k = take_bit k (VECTORIZE_VALUE flags n)"
  by (rule bit_word_eqI) (auto simp: bit_VECTORIZE_VALUE bit_simps)

lemma unat_VECTORIZE_VALUE:
  "unat (VECTORIZE_VALUE [b0, b1, b2, b3, b4, b5] 6) =
     (if b5 then 32 else 0) + ((if b4 then 16 else 0) + ((if b3 then 8 else 0) +
     ((if b2 then 4 else 0) + ((if b1 then 2 else 0) + (if b0 then 1 else 0)))))"
proof -
  have 6: "(6::nat) = Suc (Suc (Suc (Suc (Suc (Suc 0)))))" by simp
  show ?thesis
    unfolding 6 VECTORIZE_VALUE.simps
    by (cases b0; cases b1; cases b2; cases b3; cases b4; cases b5) simp_all
qed

lemma halving_flags_clz:
  assumes "m \<noteq> 0"
  shows "is_clz 64 (unat m) (unat (VECTORIZE_VALUE (halving_flags m) 6))"
proof -
  define w4 w3 w2 w1 w0 where
    w: "w4 = half 32 m" "w3 = half 16 w4" "w2 = half 8 w3" "w1 = half 4 w2" "w0 = half 2 w1"
  have nz: "w4 \<noteq> 0" "w3 \<noteq> 0" "w2 \<noteq> 0" "w1 \<noteq> 0" "w0 \<noteq> 0" "half 1 w0 \<noteq> 0"
    unfolding w using assms by (simp_all add: half_nonzero)
  have b4: "unat w4 < 2 ^ (16 + 16)" unfolding w(1) using half_less [of m 32] unat_less_exp [of m] by simp
  have b3: "unat w3 < 2 ^ (8 + 8)" unfolding w(2) using half_less [OF b4] by simp
  have b2: "unat w2 < 2 ^ (4 + 4)" unfolding w(3) using half_less [OF b3] by simp
  have b1: "unat w1 < 2 ^ (2 + 2)" unfolding w(4) using half_less [OF b2] by simp
  have b0: "unat w0 < 2 ^ (1 + 1)" unfolding w(5) using half_less [OF b1] by simp
  have "unat (half 1 w0) = 1"
    using half_less [OF b0] nz(6) by (simp add: word_eq_0_iff_unat)
  then have c0: "is_clz 1 (unat (half 1 w0)) 0" by (metis is_clz_one)
  have c1: "is_clz 2 (unat w0) (if drop_bit 1 w0 = 0 then 1 else 0)"
    using half_clz [OF nz(5) c0] by (simp add: numeral_2_eq_2)
  have c2: "is_clz 4 (unat w1) ((if drop_bit 2 w1 = 0 then 2 else 0)
      + (if drop_bit 1 w0 = 0 then 1 else 0))"
    using half_clz [OF nz(4) c1 [unfolded w(5)]] unfolding w(5) by simp
  have c3: "is_clz 8 (unat w2) ((if drop_bit 4 w2 = 0 then 4 else 0)
      + ((if drop_bit 2 w1 = 0 then 2 else 0) + (if drop_bit 1 w0 = 0 then 1 else 0)))"
    using half_clz [OF nz(3) c2 [unfolded w(4)]] unfolding w(4) by simp
  have c4: "is_clz 16 (unat w3) ((if drop_bit 8 w3 = 0 then 8 else 0)
      + ((if drop_bit 4 w2 = 0 then 4 else 0)
      + ((if drop_bit 2 w1 = 0 then 2 else 0) + (if drop_bit 1 w0 = 0 then 1 else 0))))"
    using half_clz [OF nz(2) c3 [unfolded w(3)]] unfolding w(3) by simp
  have c5: "is_clz 32 (unat w4) ((if drop_bit 16 w4 = 0 then 16 else 0)
      + ((if drop_bit 8 w3 = 0 then 8 else 0) + ((if drop_bit 4 w2 = 0 then 4 else 0)
      + ((if drop_bit 2 w1 = 0 then 2 else 0) + (if drop_bit 1 w0 = 0 then 1 else 0)))))"
    using half_clz [OF nz(1) c4 [unfolded w(2)]] unfolding w(2) by simp
  show ?thesis
    using half_clz [OF assms c5 [unfolded w(1)]]
    unfolding halving_flags_def Let_def unat_VECTORIZE_VALUE w by simp
qed

subsection \<open>The counters count leading zeros\<close>

lemma is_clz_exists: "0 < x \<Longrightarrow> x < 2 ^ n \<Longrightarrow> \<exists>c. is_clz n x c"
proof (induction n)
  case (Suc n)
  show ?case
  proof (cases "x < 2 ^ n")
    case True
    with Suc obtain c where "is_clz n x c" by blast
    then have "is_clz (Suc n) x (Suc c)" using is_clz_low [of n x c 1] by simp
    then show ?thesis by blast
  next
    case False
    with Suc.prems have "is_clz (Suc n) x 0" by (simp add: is_clz_def)
    then show ?thesis by blast
  qed
qed simp

lemma vectorize_window:
  assumes clz: "is_clz n (unat x) c" and k: "n \<le> 2 ^ k" "k \<le> 6"
    and m: "unat m = unat x * 2 ^ (2 ^ k - n)"
  shows "unat (VECTORIZE_VALUE (halving_flags m) 6) = 64 - 2 ^ k + c"
    and "unat (VECTORIZE_VALUE (halving_flags m) k) = c"
proof -
  have w: "(2::nat) ^ k \<le> 64" using power_increasing [of k 6 "2::nat"] k(2) by simp
  have "is_clz (2 ^ k) (unat m) c"
    using is_clz_shift [OF clz, of "2 ^ k - n"] k(1) m by simp
  from is_clz_low [OF this, of "64 - 2 ^ k"] w have "is_clz 64 (unat m) (64 - 2 ^ k + c)" by simp
  moreover have "m \<noteq> 0" using is_clz_pos [OF clz] m by (auto simp: word_eq_0_iff_unat)
  ultimately show full: "unat (VECTORIZE_VALUE (halving_flags m) 6) = 64 - 2 ^ k + c"
    using halving_flags_clz is_clz_unique by blast
  have "(2::nat) ^ k dvd 64" using le_imp_power_dvd [of k 6 "2::nat"] k(2) by simp
  then have "(64 - 2 ^ k + c) mod 2 ^ k = c mod 2 ^ k" using w
    by (metis add.commute dvd_diff_nat dvd_refl mod_add_self2 mod_mult_self2 dvdE)
  moreover have "c < 2 ^ k" using clz k(1) by (simp add: is_clz_def)
  ultimately show "unat (VECTORIZE_VALUE (halving_flags m) k) = c"
    using VECTORIZE_VALUE_take [of k 6 "halving_flags m"] k(2) full by (simp add: unat_simps)
qed

lemma shift_by_flags_eq:
  "shift_by_flags [b0, b1, b2, b3, b4, b5] m
     = push_bit (unat (VECTORIZE_VALUE [b0, b1, b2, b3, b4, b5] 6)) m"
  unfolding unat_VECTORIZE_VALUE shift_by_flags_def Let_def
  by (cases b0; cases b1; cases b2; cases b3; cases b4; cases b5) (simp_all add: push_bit_eq_mult)

lemma window_small: "y < 2 ^ n \<Longrightarrow> n \<le> w \<Longrightarrow> y * 2 ^ (w - n) < (2 :: nat) ^ w"
  by (metis le_add_diff_inverse mult_less_cancel2 power_add zero_less_numeral zero_less_power)

lemma shift_window:
  assumes clz: "is_clz n (unat x) c" and k: "n \<le> 2 ^ k" "k \<le> 6"
    and m: "unat m = unat x * 2 ^ (2 ^ k - n)"
  shows "drop_bit (64 - n) (shift_by_flags (halving_flags m) m) = push_bit c x"
proof -
  have w: "(2::nat) ^ k \<le> 64" using power_increasing [of k 6 "2::nat"] k(2) by simp
  have n: "n \<le> 64" "c < n" using clz k(1) w by (auto simp: is_clz_def)
  have "shift_by_flags (halving_flags m) m = push_bit (64 - 2 ^ k + c) m"
    unfolding halving_flags_def Let_def shift_by_flags_eq
    using vectorize_window(1) [OF assms] by (simp add: halving_flags_def Let_def)
  moreover have "unat m * 2 ^ (64 - 2 ^ k + c) = unat x * 2 ^ c * 2 ^ (64 - n)"
  proof -
    have "2 ^ k - n + (64 - 2 ^ k + c) = c + (64 - n)" using k(1) w n by linarith
    then show ?thesis by (simp only: m mult.assoc power_add [symmetric])
  qed
  moreover have "unat x * 2 ^ c * 2 ^ (64 - n) < 2 ^ 64"
    using is_clz_mult_less [OF clz] n(1) window_small by blast
  moreover have "unat x * 2 ^ c < 2 ^ 64"
    using is_clz_mult_less [OF clz] n(1) small_mono by (meson less_le_trans one_le_numeral power_increasing)
  ultimately show ?thesis
    by (simp add: word_unat_eq_iff unat_simps)
qed

lemma unat_push_window:
  "unat x < 2 ^ n \<Longrightarrow> n \<le> w \<Longrightarrow> w \<le> 64 \<Longrightarrow>
    unat (take_bit w (push_bit (w - n) (x :: u64))) = unat x * 2 ^ (w - n)"
proof -
  assume a: "unat x < 2 ^ n" "n \<le> w" "w \<le> 64"
  then have "unat x * 2 ^ (w - n) < 2 ^ n * 2 ^ (w - n)" by simp
  also have "\<dots> = 2 ^ w" using a by (simp flip: power_add)
  finally have "unat x * 2 ^ (w - n) < 2 ^ w" .
  moreover then have "unat x * 2 ^ (w - n) < 2 ^ 64" using a(3)
    by (meson less_le_trans one_le_numeral power_increasing)
  ultimately show ?thesis by (simp add: unat_simps)
qed

definition window_exp :: "nat \<Rightarrow> nat" where
  "window_exp n = (if n \<le> 32 then 5 else 6)"

lemma clz_window_eq:
  "unat x < 2 ^ n \<Longrightarrow> n \<le> 64 \<Longrightarrow>
    unat (clz_window n x) = unat x * 2 ^ (2 ^ window_exp n - n)"
  using unat_push_window [of x n 32] unat_push_window [of x n 64]
  by (auto simp: clz_window_def window_exp_def take_bit_word_eq_self)

lemma clz_window_runtime_eq:
  "unat x < 2 ^ n \<Longrightarrow> n \<le> 64 \<Longrightarrow>
    unat (clz_window_runtime n x) = unat x * 2 ^ (2 ^ RUNTIME_CEIL_LOG2 n - n)"
  using unat_push_window [of x n 1] unat_push_window [of x n 2] unat_push_window [of x n 4]
    unat_push_window [of x n 8] unat_push_window [of x n 16] unat_push_window [of x n 32]
    unat_push_window [of x n 64]
  by (auto simp: clz_window_runtime_def RUNTIME_CEIL_LOG2_def take_bit_word_eq_self not_le)

lemma clz_flags_window:
  assumes "unat x < 2 ^ n" "n \<le> 64"
  shows "clz_flags n (clz_window n x) = halving_flags (clz_window n x)"
  unfolding clz_flags_def
  using window_small [OF assms(1), of 32] clz_window_eq [OF assms]
  by (intro clz_tree_halving) (auto simp: window_exp_def)

lemma clz_flags_runtime_window:
  assumes "unat x < 2 ^ n" "n \<le> 64"
  shows "clz_flags_runtime n (clz_window_runtime n x) = halving_flags (clz_window_runtime n x)"
proof -
  have le: "n \<le> 2 ^ RUNTIME_CEIL_LOG2 n" using assms(2) by (simp add: RUNTIME_CEIL_LOG2_def)
  have m: "unat (clz_window_runtime n x) < 2 ^ 2 ^ RUNTIME_CEIL_LOG2 n"
    using window_small [OF assms(1) le] clz_window_runtime_eq [OF assms] by simp
  show ?thesis
    unfolding clz_flags_runtime_def
    by (intro clz_tree_halving; rule small_mono [OF m]) (auto simp: RUNTIME_CEIL_LOG2_def)
qed

lemma clz_less_exp: "is_clz n x c \<Longrightarrow> 1 \<le> n \<Longrightarrow> n \<le> 64 \<Longrightarrow> c < 2 ^ CEIL_LOG2 n"
  using CEIL_LOG2_bounds [of n] by (cases "n = 1") (auto simp: is_clz_def)

lemma clz_result_eq:
  assumes "is_clz n (unat x) c" "1 \<le> n" "n \<le> 64" "unat (VECTORIZE_VALUE flags (window_exp n)) = c"
  shows "unat (clz_result n flags) = c"
  using assms clz_less_exp [OF assms(1-3)]
  by (auto simp: clz_result_def window_exp_def unat_simps)

lemma clz_result_runtime_eq:
  assumes "is_clz n (unat x) c" "1 \<le> n" "n \<le> 64"
    "unat (VECTORIZE_VALUE flags (RUNTIME_CEIL_LOG2 n)) = c"
  shows "unat (clz_result_runtime n flags) = c"
  using assms clz_less_exp [OF assms(1-3), folded RUNTIME_CEIL_LOG2_eq [OF assms(2,3)]]
  by (auto simp: clz_result_runtime_def RUNTIME_CEIL_LOG2_def unat_simps split: if_splits)

lemma window_exp_le: "n \<le> 64 \<Longrightarrow> n \<le> 2 ^ window_exp n" "window_exp n \<le> 6"
  by (simp_all add: window_exp_def)

lemma RUNTIME_CEIL_LOG2_le: "n \<le> 64 \<Longrightarrow> n \<le> 2 ^ RUNTIME_CEIL_LOG2 n" "RUNTIME_CEIL_LOG2 n \<le> 6"
  by (simp_all add: RUNTIME_CEIL_LOG2_def)

lemma count_leading_zero_macros_clz:
  assumes clz: "is_clz n (unat x) c" and n: "1 \<le> n" "n \<le> 64"
  shows "unat (count_leading_zero_macro n x) = c"
    and "unat (count_leading_zero_runtime_macro n x) = c"
    and "count_leading_zero_lshift_macro n x = (count_leading_zero_macro n x, push_bit c x)"
    and "count_leading_zero_lshift_runtime_macro n x =
      (count_leading_zero_runtime_macro n x, push_bit c x)"
proof -
  have x: "unat x < 2 ^ n" using clz unfolding is_clz_def
    by (meson diff_le_self less_le_trans one_le_numeral power_increasing)
  note w = clz_window_eq [OF x n(2)] and wr = clz_window_runtime_eq [OF x n(2)]
  note fl = clz_flags_window [OF x n(2)] and flr = clz_flags_runtime_window [OF x n(2)]
  show "unat (count_leading_zero_macro n x) = c"
    unfolding count_leading_zero_macro_def fl
    by (rule clz_result_eq [OF clz n]) (rule vectorize_window(2) [OF clz window_exp_le(1) [OF n(2)] window_exp_le(2) w])
  show "unat (count_leading_zero_runtime_macro n x) = c"
    unfolding count_leading_zero_runtime_macro_def flr
    by (rule clz_result_runtime_eq [OF clz n])
      (rule vectorize_window(2) [OF clz RUNTIME_CEIL_LOG2_le(1) [OF n(2)] RUNTIME_CEIL_LOG2_le(2) wr])
  show "count_leading_zero_lshift_macro n x = (count_leading_zero_macro n x, push_bit c x)"
    unfolding count_leading_zero_lshift_macro_def count_leading_zero_macro_def Let_def fl
    by (simp add: shift_window [OF clz window_exp_le(1) [OF n(2)] window_exp_le(2) w])
  show "count_leading_zero_lshift_runtime_macro n x =
      (count_leading_zero_runtime_macro n x, push_bit c x)"
    unfolding count_leading_zero_lshift_runtime_macro_def count_leading_zero_runtime_macro_def
      Let_def flr
    by (simp add: shift_window [OF clz RUNTIME_CEIL_LOG2_le(1) [OF n(2)] RUNTIME_CEIL_LOG2_le(2) wr])
qed

subsection \<open>The shifting counter\<close>

definition norm_inv :: "nat \<Rightarrow> nat \<Rightarrow> nat \<Rightarrow> nat \<Rightarrow> u64 \<Rightarrow> bool" where
  "norm_inv n x t c s \<longleftrightarrow> unat s = x * 2 ^ c \<and> unat s < 2 ^ n \<and> 2 ^ (n - t) \<le> unat s"

lemma top_bits_zero:
  "unat (s :: u64) < 2 ^ n \<Longrightarrow> t \<le> n \<Longrightarrow>
    drop_bit (n - t) s AND (2 ^ t - 1) = 0 \<longleftrightarrow> unat s < 2 ^ (n - t)"
proof -
  assume a: "unat s < 2 ^ n" "t \<le> n"
  then have "unat s < 2 ^ t * 2 ^ (n - t)" by (simp flip: power_add)
  then have "unat (drop_bit (n - t) s) < 2 ^ t" by (simp add: unat_simps div_less_iff_less_mult)
  then show ?thesis by (simp add: mask_exp_eq take_bit_self drop_bit_eq_0_iff)
qed

lemma lshift64_step_inv:
  assumes inv: "norm_inv n x (t + t) c s" and n: "n \<le> 64"
    and step: "lshift64_step (t \<le> n) n t s = (r, s')"
  shows "norm_inv n x t (c + (if r then t else 0)) s'"
proof -
  have test: "t \<le> n \<and> drop_bit (n - t) s AND (2 ^ t - 1) = 0 \<longleftrightarrow> t \<le> n \<and> unat s < 2 ^ (n - t)"
    using inv top_bits_zero by (auto simp: norm_inv_def)
  show ?thesis
  proof (cases "t \<le> n \<and> unat s < 2 ^ (n - t)")
    case True
    then have r: "r" "s' = push_bit t s" using step unfolding lshift64_step_def Let_def test by auto
    have less: "unat s * 2 ^ t < 2 ^ n" using True window_small [of "unat s" "n - t" n] by simp
    then have "unat s' = unat s * 2 ^ t" using n r(2) by (simp add: unat_simps less_2_64)
    moreover have "(2::nat) ^ (n - t) \<le> 2 ^ (n - (t + t)) * 2 ^ t" by (simp flip: power_add)
    ultimately show ?thesis using inv less r(1) order_trans
      by (fastforce simp: norm_inv_def power_add)
  next
    case False
    then have "\<not> r" "s' = s" using step unfolding lshift64_step_def Let_def test by auto
    then show ?thesis using False inv by (auto simp: norm_inv_def)
  qed
qed

lemma norm_inv_clz:
  assumes inv: "norm_inv n x 1 c s" and n: "1 \<le> n"
  shows "is_clz n x c"
proof -
  have s: "x * 2 ^ c < 2 ^ n" "2 ^ (n - 1) \<le> x * 2 ^ c"
    using inv by (auto simp: norm_inv_def)
  then have "0 < x" by (cases x) auto
  then have "2 ^ c \<le> x * 2 ^ c" by simp
  then have "(2::nat) ^ c < 2 ^ n" using s(1) by linarith
  then have c: "c < n" by simp
  then have e: "2 ^ (n - c) * 2 ^ c = (2::nat) ^ n" "2 ^ (n - 1 - c) * 2 ^ c = (2::nat) ^ (n - 1)"
    by (simp_all flip: power_add)
  have "x * 2 ^ c < 2 ^ (n - c) * 2 ^ c" using s(1) e(1) by linarith
  moreover have "2 ^ (n - 1 - c) * 2 ^ c \<le> x * 2 ^ c" using s(2) e(2) by linarith
  ultimately show ?thesis using c by (simp add: is_clz_def)
qed

lemma lshift64_chain_clz:
  assumes x: "is_clz n (unat x) c" and n: "1 \<le> n" "n \<le> 64"
    and chain: "lshift64_chain (\<lambda>t. t \<le> n) n x = (flags, s)"
  shows "unat (VECTORIZE_VALUE flags 6) = c" and "s = push_bit c x"
proof -
  obtain r5 s5 where s5: "lshift64_step (32 \<le> n) n 32 x = (r5, s5)" by fastforce
  obtain r4 s4 where s4: "lshift64_step (16 \<le> n) n 16 s5 = (r4, s4)" by fastforce
  obtain r3 s3 where s3: "lshift64_step (8 \<le> n) n 8 s4 = (r3, s3)" by fastforce
  obtain r2 s2 where s2: "lshift64_step (4 \<le> n) n 4 s3 = (r2, s2)" by fastforce
  obtain r1 s1 where s1: "lshift64_step (2 \<le> n) n 2 s2 = (r1, s1)" by fastforce
  obtain r0 s0 where s0: "lshift64_step (1 \<le> n) n 1 s1 = (r0, s0)" by fastforce
  have f: "flags = [r0, r1, r2, r3, r4, r5]" "s = s0"
    using chain s5 s4 s3 s2 s1 s0 by (auto simp: lshift64_chain_def)
  have "norm_inv n (unat x) (32 + 32) 0 x"
    using x n is_clz_pos [OF x] is_clz_mult_less [OF x] unfolding norm_inv_def is_clz_def
    by (auto intro: less_le_trans)
  note lshift64_step_inv [OF this n(2) s5]
  then have "norm_inv n (unat x) (16 + 16) (if r5 then 32 else 0) s5" by simp
  note lshift64_step_inv [OF this n(2) s4]
  then have "norm_inv n (unat x) (8 + 8) ((if r5 then 32 else 0) + (if r4 then 16 else 0)) s4" by simp
  note lshift64_step_inv [OF this n(2) s3]
  then have "norm_inv n (unat x) (4 + 4)
    ((if r5 then 32 else 0) + (if r4 then 16 else 0) + (if r3 then 8 else 0)) s3" by simp
  note lshift64_step_inv [OF this n(2) s2]
  then have "norm_inv n (unat x) (2 + 2)
    ((if r5 then 32 else 0) + (if r4 then 16 else 0) + (if r3 then 8 else 0)
      + (if r2 then 4 else 0)) s2" by simp
  note lshift64_step_inv [OF this n(2) s1]
  then have "norm_inv n (unat x) (1 + 1)
    ((if r5 then 32 else 0) + (if r4 then 16 else 0) + (if r3 then 8 else 0)
      + (if r2 then 4 else 0) + (if r1 then 2 else 0)) s1" by (simp only: one_add_one)
  note lshift64_step_inv [OF this n(2) s0]
  then have fin: "norm_inv n (unat x) 1 (unat (VECTORIZE_VALUE flags 6)) s"
    unfolding f unat_VECTORIZE_VALUE by (simp add: add.assoc)
  show c: "unat (VECTORIZE_VALUE flags 6) = c"
    using is_clz_unique [OF norm_inv_clz [OF fin n(1)] x] .
  show "s = push_bit c x"
    using fin n(2) unfolding c norm_inv_def by (auto simp: word_unat_eq_iff unat_simps less_2_64)
qed

lemma lshift64_runtime_clz:
  assumes clz: "is_clz n (unat x) c" and n: "1 \<le> n" "n \<le> 64"
  shows "unat (fst (count_leading_zero_lshift64_runtime_macro n x)) = c"
    and "snd (count_leading_zero_lshift64_runtime_macro n x) = push_bit c x"
proof -
  obtain flags s where chain: "lshift64_chain (\<lambda>t. t \<le> n) n x = (flags, s)" by fastforce
  note c = lshift64_chain_clz [OF clz n chain]
  have "unat (VECTORIZE_VALUE flags (RUNTIME_CEIL_LOG2 n)) = c"
    using VECTORIZE_VALUE_take [of "RUNTIME_CEIL_LOG2 n" 6 flags] RUNTIME_CEIL_LOG2_le(2) c(1)
      clz_less_exp [OF clz n, folded RUNTIME_CEIL_LOG2_eq [OF n]] by (simp add: unat_simps)
  from clz_result_runtime_eq [OF clz n this] c(2)
  show "unat (fst (count_leading_zero_lshift64_runtime_macro n x)) = c"
    and "snd (count_leading_zero_lshift64_runtime_macro n x) = push_bit c x"
    by (simp_all add: count_leading_zero_lshift64_runtime_macro_def chain)
qed

lemma lshift64_clz:
  assumes clz: "is_clz n (unat x) c" and n: "32 \<le> n" "n \<le> 64"
  shows "unat (fst (count_leading_zero_lshift64_macro n x)) = c"
    and "snd (count_leading_zero_lshift64_macro n x) = push_bit c x"
proof -
  have "lshift64_chain (\<lambda>t. True) n x = lshift64_chain (\<lambda>t. t \<le> n) n x"
    using n(1) by (simp add: lshift64_chain_def)
  moreover obtain flags s where chain: "lshift64_chain (\<lambda>t. t \<le> n) n x = (flags, s)" by fastforce
  moreover note c = lshift64_chain_clz [OF clz _ n(2) chain]
  ultimately show "unat (fst (count_leading_zero_lshift64_macro n x)) = c"
    and "snd (count_leading_zero_lshift64_macro n x) = push_bit c x"
    using clz_less_exp [OF clz _ n(2)] n(1)
    by (simp_all add: count_leading_zero_lshift64_macro_def unat_simps)
qed

text \<open>An empty operand is reported by the largest count of the result's width.\<close>

lemma lshift64_chain_zero:
  "lshift64_chain (\<lambda>t. t \<le> n) n 0 = ([1 \<le> n, 2 \<le> n, 4 \<le> n, 8 \<le> n, 16 \<le> n, 32 \<le> n], 0)"
  by (simp add: lshift64_chain_def lshift64_step_def Let_def)

lemma lshift64_runtime_zero:
  assumes "2 \<le> n" "n \<le> 64"
  shows "count_leading_zero_lshift64_runtime_macro n 0 = (2 ^ RUNTIME_CEIL_LOG2 n - 1, 0)"
proof -
  have 6: "(6::nat) = Suc (Suc (Suc (Suc (Suc (Suc 0)))))"
    "(5::nat) = Suc (Suc (Suc (Suc (Suc 0))))" "(4::nat) = Suc (Suc (Suc (Suc 0)))"
    "(3::nat) = Suc (Suc (Suc 0))" "(2::nat) = Suc (Suc 0)" by simp_all
  have v: "VECTORIZE_VALUE [True, b1, b2, b3, b4, b5] 1 = 1"
    "VECTORIZE_VALUE [True, True, b2, b3, b4, b5] 2 = 3"
    "VECTORIZE_VALUE [True, True, True, b3, b4, b5] 3 = 7"
    "VECTORIZE_VALUE [True, True, True, True, b4, b5] 4 = 15"
    "VECTORIZE_VALUE [True, True, True, True, True, b5] 5 = 31"
    "VECTORIZE_VALUE [True, True, True, True, True, True] 6 = 63" for b1 b2 b3 b4 b5
    unfolding 6 One_nat_def VECTORIZE_VALUE.simps by simp_all
  have "n \<le> 2 \<or> 3 \<le> n \<and> n \<le> 4 \<or> 5 \<le> n \<and> n \<le> 8 \<or> 9 \<le> n \<and> n \<le> 16 \<or> 17 \<le> n \<and> n \<le> 32
      \<or> 33 \<le> n" by linarith
  then show ?thesis using assms
    by (elim disjE) (simp_all add: count_leading_zero_lshift64_runtime_macro_def
      lshift64_chain_zero clz_result_runtime_def RUNTIME_CEIL_LOG2_def v)
qed

section \<open>Properties of the macro layer\<close>

lemma word_clz_exists:
  "x \<noteq> 0 \<Longrightarrow> unat (x :: u64) < 2 ^ n \<Longrightarrow> \<exists>c. is_clz n (unat x) c \<and> 1 \<le> n"
  using is_clz_exists [of "unat x" n] by (auto simp: word_eq_0_iff_unat) (cases n; simp)

text \<open>
  C32. Every leading-zero counter of \<^verbatim>\<open>bambu_macros.h\<close>, whether its width is known at
  compile time or at run time, returns the number of leading zeros of a non-zero operand in
  a field of \<open>n\<close> bits. The compile-time variant of the 64-bit normalising counter tests all six
  distances whatever the width, and is for fields of at least 32 bits.
\<close>

theorem leading_zero_counters_correct:
  assumes "x \<noteq> 0" and "unat x < 2 ^ n" and "n \<le> 64"
  shows "is_clz n (unat x) (unat (count_leading_zero_macro n x))
    \<and> count_leading_zero_runtime_macro n x = count_leading_zero_macro n x
    \<and> fst (count_leading_zero_lshift_macro n x) = count_leading_zero_macro n x
    \<and> fst (count_leading_zero_lshift_runtime_macro n x) = count_leading_zero_macro n x
    \<and> fst (count_leading_zero_lshift64_runtime_macro n x) = count_leading_zero_macro n x
    \<and> (32 \<le> n \<longrightarrow> fst (count_leading_zero_lshift64_macro n x) = count_leading_zero_macro n x)"
proof -
  obtain c where c: "is_clz n (unat x) c" and n: "1 \<le> n" using word_clz_exists assms by blast
  note m = count_leading_zero_macros_clz [OF c n assms(3)] lshift64_runtime_clz [OF c n assms(3)]
  then have "count_leading_zero_runtime_macro n x = count_leading_zero_macro n x"
    "fst (count_leading_zero_lshift64_runtime_macro n x) = count_leading_zero_macro n x"
    by (simp_all add: word_unat_eq_iff)
  moreover have "fst (count_leading_zero_lshift64_macro n x) = count_leading_zero_macro n x" if "32 \<le> n"
    using lshift64_clz(1) [OF c that assms(3)] m by (simp add: word_unat_eq_iff)
  ultimately show ?thesis using c m by simp
qed

theorem leading_zero_counters_correct_witness:
  "is_clz 24 5 (unat (count_leading_zero_macro 24 5))
    \<and> count_leading_zero_runtime_macro 24 5 = count_leading_zero_macro 24 5
    \<and> fst (count_leading_zero_lshift64_runtime_macro 24 5) = count_leading_zero_macro 24 5
    \<and> fst (count_leading_zero_lshift64_macro 48 5) = count_leading_zero_macro 48 5"
  using leading_zero_counters_correct [of 5 24] leading_zero_counters_correct [of 5 48] by simp

text \<open>
  The normalising counters return the operand shifted left by exactly the number of
  leading zeros, so that the leading one is in the top bit of the field.
\<close>

theorem normalising_counters_correct:
  assumes "x \<noteq> 0" and "unat x < 2 ^ n" and "n \<le> 64"
  shows "snd (count_leading_zero_lshift_macro n x)
      = push_bit (unat (count_leading_zero_macro n x)) x
    \<and> snd (count_leading_zero_lshift_runtime_macro n x)
      = push_bit (unat (count_leading_zero_macro n x)) x
    \<and> snd (count_leading_zero_lshift64_runtime_macro n x)
      = push_bit (unat (count_leading_zero_macro n x)) x
    \<and> 2 ^ (n - 1) \<le> unat (snd (count_leading_zero_lshift_macro n x))
    \<and> unat (snd (count_leading_zero_lshift_macro n x)) < 2 ^ n"
proof -
  obtain c where c: "is_clz n (unat x) c" and n: "1 \<le> n" using word_clz_exists assms by blast
  note m = count_leading_zero_macros_clz [OF c n assms(3)] lshift64_runtime_clz [OF c n assms(3)]
  have "unat (push_bit c x) = unat x * 2 ^ c"
    using is_clz_mult_less [OF c] assms(3) by (auto simp: unat_simps less_2_64)
  then show ?thesis using is_clz_mult_less [OF c] m by simp
qed

theorem normalising_counters_correct_witness:
  "snd (count_leading_zero_lshift_macro 24 5) = push_bit (unat (count_leading_zero_macro 24 5)) 5
    \<and> 2 ^ 23 \<le> unat (snd (count_leading_zero_lshift_macro 24 5))"
  using normalising_counters_correct [of 5 24] by auto

end
