(* ===== verification/SoftintCore.thy ===== *)
theory SoftintCore
  imports BitMacros
begin

text \<open>
  The helpers of \<^verbatim>\<open>etc/libbambu/softint/softint.h\<close>: the double-width multiplications, the
  three alternative leading-zero counters, the double-word subtraction and the
  two-by-one-digit division \<^verbatim>\<open>__divlu2\<close>. The theorems state that the multiplications
  compute the exact double-width product, that the counters agree and that \<^verbatim>\<open>__divlu2\<close>
  terminates with the exact quotient and remainder.
\<close>

section \<open>Multiplication and subtraction\<close>

text \<open>\<^verbatim>\<open>umul_ppmm_1\<close> (and its alias \<^verbatim>\<open>umul_ppmm\<close>): 32 by 32 bits, high and low word.\<close>

definition umul_ppmm :: "u32 \<Rightarrow> u32 \<Rightarrow> u32 \<times> u32" where
  "umul_ppmm a b =
     (let t0 = (ucast a :: u64) * ucast b
      in (ucast (drop_bit 32 t0), ucast t0))"

text \<open>\<^verbatim>\<open>umul_ppmm_2\<close>: 64 by 64 bits from four 32-bit products.\<close>

definition umul_ppmm_2 :: "u64 \<Rightarrow> u64 \<Rightarrow> u64 \<times> u64" where
  "umul_ppmm_2 a b =
    (let u1 = ucast (drop_bit 32 a) :: u32;
         u0 = ucast a :: u32;
         v1 = ucast (drop_bit 32 b) :: u32;
         v0 = ucast b :: u32;
         t = (ucast u0 :: u64) * ucast v0;
         w0 = ucast t :: u32;
         k = ucast (drop_bit 32 t) :: u32;
         t0 = (ucast u1 :: u64) * ucast v0;
         t = t0 + ucast k;
         w1 = ucast t :: u32;
         w2 = ucast (drop_bit 32 t) :: u32;
         t0 = (ucast u0 :: u64) * ucast v1;
         t = t0 + ucast w1;
         xl = push_bit 32 t OR ucast w0;
         k = ucast (drop_bit 32 t) :: u32;
         t0 = (ucast u1 :: u64) * ucast v1;
         t1 = (ucast w2 :: u64) + ucast k;
         xh = t0 + t1
     in (xh, xl))"

definition sub_ddmmss :: "u32 \<Rightarrow> u32 \<Rightarrow> u32 \<Rightarrow> u32 \<Rightarrow> u32 \<times> u32" where
  "sub_ddmmss ah al bh bl =
     (let x = al - bl in (ah - bh - of_bool (x > al), x))"

section \<open>Counting leading zeros\<close>

text \<open>The default implementation, by the macro of \<^verbatim>\<open>bambu_macros.h\<close>.\<close>

definition clz :: "u32 \<Rightarrow> u8" where
  "clz v = ucast (count_leading_zero_macro 32 (ucast v))"

definition clzll :: "u64 \<Rightarrow> u8" where
  "clzll v = ucast (count_leading_zero_macro 64 v)"

text \<open>The \<^verbatim>\<open>LOG2_BASED_CLZ\<close> alternative.\<close>

definition clz_log2 :: "u32 \<Rightarrow> u32" where
  "clz_log2 v =
    (let r = push_bit 4 (of_bool (v > 0xFFFF));
         v = drop_bit (unat r) v;
         shift = push_bit 3 (of_bool (v > 0xFF));
         v = drop_bit (unat shift) v;
         r = r OR shift;
         shift = push_bit 2 (of_bool (v > 0xF));
         v = drop_bit (unat shift) v;
         r = r OR shift;
         shift = push_bit 1 (of_bool (v > 0x3));
         v = drop_bit (unat shift) v;
         r = r OR shift;
         r = r OR drop_bit 1 v
     in 31 - r)"

definition clzll_log2 :: "u64 \<Rightarrow> u32" where
  "clzll_log2 v =
     (let high = ucast (drop_bit 32 v) :: u32
      in if high = 0 then 32 + clz_log2 (ucast v) else clz_log2 high)"

text \<open>The \<^verbatim>\<open>SHIFT_BASED\<close> alternative.\<close>

definition clz_shift :: "u32 \<Rightarrow> u32" where
  "clz_shift v =
    (let result_4 = (drop_bit 16 v = 0);
         val16 = ucast (if result_4 then v else drop_bit 16 v) :: u16;
         result_3 = (drop_bit 8 val16 = 0);
         val8 = ucast (if result_3 then val16 else drop_bit 8 val16) :: u8;
         result_2 = (drop_bit 4 val8 = 0);
         val4 = (if result_2 then val8 AND 15 else drop_bit 4 val8);
         result_1 = (drop_bit 2 val4 = 0);
         result_0 = (if result_1 then NOT (drop_bit 1 (val4 AND 2)) AND 1
                     else NOT (drop_bit 3 (val4 AND 8)) AND 1) \<noteq> 0
     in push_bit 4 (of_bool result_4) OR push_bit 3 (of_bool result_3)
        OR push_bit 2 (of_bool result_2) OR push_bit 1 (of_bool result_1) OR of_bool result_0)"

definition clzll_shift :: "u64 \<Rightarrow> u32" where
  "clzll_shift v =
     (let result_5 = (drop_bit 32 v = 0);
          val32 = ucast (if result_5 then v else drop_bit 32 v) :: u32
      in push_bit 5 (of_bool result_5) OR clz_shift val32)"

section \<open>Two digits by one: the division of Algorithm D\<close>

text \<open>
  The \<^verbatim>\<open>again\<close> loops correct an estimated quotient digit. They are entered with
  \<open>vn1 \<ge> 2\<^sup>1\<^sup>5\<close>; for \<open>vn1 = 0\<close> the loop would not end, hence the option type.
\<close>

partial_function (option) divlu2_again ::
  "u32 \<Rightarrow> u32 \<Rightarrow> u32 \<Rightarrow> u32 \<Rightarrow> u32 \<Rightarrow> (u32 \<times> u32) option" where
  "divlu2_again vn1 vn0 un q rhat =
     (if q \<ge> 65536 \<or> q * vn0 > 65536 * rhat + un
      then (let q = q - 1; rhat = rhat + vn1
            in if rhat < 65536 then divlu2_again vn1 vn0 un q rhat else Some (q, rhat))
      else Some (q, rhat))"

definition divlu2 :: "u32 \<Rightarrow> u32 \<Rightarrow> u32 \<Rightarrow> (u32 \<times> u32) option" where
  "divlu2 u1 u0 v =
    (if u1 \<ge> v then Some (0xFFFFFFFF, 0xFFFFFFFF)
     else
      (let s = unat (clz v);
           v = push_bit s v;
           vn1 = drop_bit 16 v;
           vn0 = v AND 0xFFFF;
           un32 = push_bit s u1 OR (drop_bit (32 - s) u0 AND signed_drop_bit 31 (- of_nat s));
           un10 = push_bit s u0;
           un1 = drop_bit 16 un10;
           un0 = un10 AND 0xFFFF;
           q1 = un32 div vn1;
           rhat = un32 - q1 * vn1
       in case divlu2_again vn1 vn0 un1 q1 rhat of None \<Rightarrow> None
          | Some (q1, rhat) \<Rightarrow>
             (let un21 = un32 * 65536 + un1 - q1 * v;
                  q0 = un21 div vn1;
                  rhat = un21 - q0 * vn1
              in case divlu2_again vn1 vn0 un0 q0 rhat of None \<Rightarrow> None
                 | Some (q0, rhat) \<Rightarrow>
                     Some (q1 * 65536 + q0, drop_bit s (un21 * 65536 + un0 - q0 * v)))))"

text \<open>\<^verbatim>\<open>udiv_qrnnd(q, r, nh, nl, d)\<close>.\<close>

definition udiv_qrnnd :: "u32 \<Rightarrow> u32 \<Rightarrow> u32 \<Rightarrow> (u32 \<times> u32) option" where
  "udiv_qrnnd nh nl d = divlu2 nh nl d"

section \<open>Exactness of the multiplications\<close>

lemma unat_umul_ppmm:
  "unat (fst (umul_ppmm a b)) * 2 ^ 32 + unat (snd (umul_ppmm a b)) = unat a * unat b"
  "unat (fst (umul_ppmm a b)) = unat a * unat b div 2 ^ 32"
proof -
  have "unat a * unat b < 2 ^ 32 * 2 ^ 32"
    using unat_less_exp [of a] unat_less_exp [of b] by (intro mult_strict_mono) auto
  then have *: "unat a * unat b < 2 ^ 64" "unat a * unat b div 2 ^ 32 < 2 ^ 32"
    by (simp_all add: div_less_iff_less_mult)
  have u: "unat a mod 2 ^ 64 = unat a" "unat b mod 2 ^ 64 = unat b"
    using unat_less_exp [of a] unat_less_exp [of b] by simp_all
  show "unat (fst (umul_ppmm a b)) = unat a * unat b div 2 ^ 32"
    using * u by (simp add: umul_ppmm_def Let_def unat_simps unat_word_ariths)
  then show "unat (fst (umul_ppmm a b)) * 2 ^ 32 + unat (snd (umul_ppmm a b)) = unat a * unat b"
    using * u by (simp add: umul_ppmm_def Let_def unat_simps unat_word_ariths)
qed

text \<open>The schoolbook product of two two-digit numbers, in base \<open>B\<close>.\<close>

lemma schoolbook:
  fixes B :: nat
  assumes B: "0 < B" and d: "u1 < B" "u0 < B" "v1 < B" "v0 < B"
    and t: "t = u1 * v0 + u0 * v0 div B" and t': "t' = u0 * v1 + t mod B"
  shows "(u1 * B + u0) * (v1 * B + v0) =
      (u1 * v1 + (t div B + t' div B)) * (B * B) + (t' mod B * B + u0 * v0 mod B)"
    and "t < B * B" and "t' < B * B" and "u1 * v1 + (t div B + t' div B) < B * B"
    and "t' mod B * B + u0 * v0 mod B < B * B"
proof -
  have sq: "a * b + (B - 1) < B * B" if "a < B" "b < B" for a b
  proof -
    have "a * b \<le> (B - 1) * (B - 1)" using that by (intro mult_mono) auto
    moreover have "(B - 1) * (B - 1) + (B - 1) < B * B"
      using B by (cases B) (auto simp: algebra_simps)
    ultimately show ?thesis by linarith
  qed
  have "u0 * v0 div B \<le> B - 1"
    using sq [OF d(2,4)] B by (simp add: less_Suc_eq_le [symmetric] div_less_iff_less_mult)
  then show tb: "t < B * B" using sq [OF d(1,4)] t by linarith
  have "t mod B \<le> B - 1" using B by (simp add: less_Suc_eq_le [symmetric])
  then show tb': "t' < B * B" using sq [OF d(2,3)] t' by linarith
  define p q p' q' k r where
    d': "p = t div B" "q = t mod B" "p' = t' div B" "q' = t' mod B" "k = u0 * v0 div B" "r = u0 * v0 mod B"
  have e: "u0 * v0 = k * B + r" "u1 * v0 + k = p * B + q" "u0 * v1 + q = p' * B + q'"
    using t t' by (simp_all add: d')
  have "(u1 * B + u0) * (v1 * B + v0) = u1 * v1 * (B * B) + u0 * v1 * B + u1 * v0 * B + u0 * v0"
    by (simp add: algebra_simps)
  also have "\<dots> = u1 * v1 * (B * B) + u0 * v1 * B + (u1 * v0 + k) * B + r"
    using e(1) by (simp add: algebra_simps)
  also have "\<dots> = (u1 * v1 + p) * (B * B) + (u0 * v1 + q) * B + r"
    unfolding e(2) by (simp add: algebra_simps)
  also have "\<dots> = (u1 * v1 + (p + p')) * (B * B) + (q' * B + r)"
    unfolding e(3) by (simp add: algebra_simps)
  finally show prod: "(u1 * B + u0) * (v1 * B + v0) =
      (u1 * v1 + (t div B + t' div B)) * (B * B) + (t' mod B * B + u0 * v0 mod B)"
    by (simp only: d')
  have "u0 * v0 mod B < B" "t' mod B \<le> B - 1" using B by (simp_all add: less_Suc_eq_le [symmetric])
  then have "t' mod B * B + u0 * v0 mod B < (B - 1) * B + B" by (meson add_le_less_mono mult_le_mono1)
  then show "t' mod B * B + u0 * v0 mod B < B * B" using B by (simp add: diff_mult_distrib)
  have "u1 * B + u0 < B * B" if "u1 < B" "u0 < B" for u1 u0
    using mult_le_mono1 [of "Suc u1" B B] that by simp
  then have "(u1 * B + u0) * (v1 * B + v0) < B * B * (B * B)" using d by (intro mult_strict_mono) auto
  then have "(u1 * v1 + (t div B + t' div B)) * (B * B) < B * B * (B * B)" using prod by linarith
  then show "u1 * v1 + (t div B + t' div B) < B * B" using mult_less_cancel2 by blast
qed

lemma unat_split32:
  "unat (x :: u64) = unat (ucast (drop_bit 32 x) :: u32) * 2 ^ 32 + unat (ucast x :: u32)"
  using unat_less_exp [of x] by (simp add: unat_simps div_less_iff_less_mult)

lemma unat_ucast_32_64: "unat (ucast (x :: u32) :: u64) = unat x"
  using unat_less_exp [of x] by (simp add: unat_simps)

lemma unat_mul_ucast: "unat ((ucast (a :: u32) :: u64) * ucast (b :: u32)) = unat a * unat b"
proof -
  have "unat a * unat b < 2 ^ 32 * 2 ^ 32"
    using unat_less_exp [of a] unat_less_exp [of b] by (intro mult_strict_mono) auto
  then show ?thesis by (simp add: unat_word_ariths unat_ucast_32_64)
qed

lemma unat_high32: "unat (ucast (drop_bit 32 (x :: u64)) :: u32) = unat x div 2 ^ 32"
  using unat_less_exp [of x] by (simp add: unat_simps div_less_iff_less_mult)

lemma unat_digits: "(x :: u64) = push_bit 32 t OR ucast (w :: u32) \<Longrightarrow>
    unat x = unat t mod 2 ^ 32 * 2 ^ 32 + unat w"
proof -
  assume x: "x = push_bit 32 t OR ucast w"
  have "push_bit 32 t AND ucast w = 0"
    by (rule bit_word_eqI) (auto simp: bit_simps dest: bit_imp_le_length)
  then have "x = push_bit 32 t + ucast w" unfolding x by (simp add: disjunctive_add_eq_or)
  moreover have "unat (push_bit 32 t) = unat t mod 2 ^ 32 * 2 ^ 32"
    by (simp add: unat_simps mult_mod_left)
  moreover have "unat t mod 2 ^ 32 * 2 ^ 32 + unat w < 2 ^ 64"
    using unat_less_exp [of w] mod_less_divisor [of "2 ^ 32" "unat t"] by simp
  ultimately show ?thesis by (simp add: unat_word_ariths unat_ucast_32_64)
qed

lemma unat_umul_ppmm_2:
  "unat (fst (umul_ppmm_2 a b)) * 2 ^ 64 + unat (snd (umul_ppmm_2 a b)) = unat a * unat b"
proof -
  define u1 u0 v1 v0 where
    d: "u1 = (ucast (drop_bit 32 a) :: u32)" "u0 = (ucast a :: u32)"
      "v1 = (ucast (drop_bit 32 b) :: u32)" "v0 = (ucast b :: u32)"
  define t where "t = unat u1 * unat v0 + unat u0 * unat v0 div 2 ^ 32"
  define t' where "t' = unat u0 * unat v1 + t mod 2 ^ 32"
  have lt: "unat u1 < 2 ^ 32" "unat u0 < 2 ^ 32" "unat v1 < 2 ^ 32" "unat v0 < 2 ^ 32"
    using unat_less_exp [where 'a = 32] by simp_all
  note S = schoolbook [where B = "2 ^ 32", OF _ lt t_def t'_def]
  define T K T2 W1 W2 T3 K2 where
    D: "T = (ucast u0 :: u64) * ucast v0" "K = (ucast (drop_bit 32 T) :: u32)"
      "T2 = (ucast u1 :: u64) * ucast v0 + ucast K" "W1 = (ucast T2 :: u32)"
      "W2 = (ucast (drop_bit 32 T2) :: u32)" "T3 = (ucast u0 :: u64) * ucast v1 + ucast W1"
      "K2 = (ucast (drop_bit 32 T3) :: u32)"
  have T: "unat T = unat u0 * unat v0" and K: "unat K = unat u0 * unat v0 div 2 ^ 32"
    unfolding D by (simp_all add: unat_mul_ucast unat_high32)
  have T2: "unat T2 = t" using S(2) unfolding D(3) t_def K [symmetric]
    by (simp add: unat_add_small unat_mul_ucast unat_ucast_32_64)
  have W: "unat W1 = t mod 2 ^ 32" "unat W2 = t div 2 ^ 32"
    unfolding D(4,5) unat_high32 T2 by (simp_all add: unat_ucast_mod T2)
  have T3: "unat T3 = t'" using S(3) unfolding D(6) t'_def W(1) [symmetric]
    by (simp add: unat_add_small unat_mul_ucast unat_ucast_32_64)
  have K2: "unat K2 = t' div 2 ^ 32" unfolding D(7) by (simp add: unat_high32 T3)
  have "umul_ppmm_2 a b = ((ucast u1 :: u64) * ucast v1 + (ucast W2 + ucast K2),
      push_bit 32 T3 OR ucast (ucast T :: u32))"
    by (simp add: umul_ppmm_2_def Let_def D d)
  moreover have "unat ((ucast u1 :: u64) * ucast v1 + (ucast W2 + ucast K2))
      = unat u1 * unat v1 + (t div 2 ^ 32 + t' div 2 ^ 32)"
  proof -
    have "unat ((ucast W2 :: u64) + ucast K2) = t div 2 ^ 32 + t' div 2 ^ 32"
      using S(4) W(2) K2 by (subst unat_add_small) (simp_all add: unat_ucast_32_64)
    then show ?thesis
      using S(4) by (subst unat_add_small) (simp_all add: unat_mul_ucast)
  qed
  moreover have "unat (push_bit 32 T3 OR ucast (ucast T :: u32))
      = t' mod 2 ^ 32 * 2 ^ 32 + unat u0 * unat v0 mod 2 ^ 32"
    by (subst unat_digits [OF refl]) (simp add: T3 unat_simps T)
  moreover have "unat a = unat u1 * 2 ^ 32 + unat u0" "unat b = unat v1 * 2 ^ 32 + unat v0"
    unfolding d by (rule unat_split32)+
  ultimately show ?thesis using S(1) by simp
qed


section \<open>The alternative leading-zero counters\<close>

lemma nat_half_clz:
  assumes "0 < x" and "is_clz n (if x div 2 ^ n = 0 then x else x div 2 ^ n) c"
  shows "is_clz (n + n) x ((if x div 2 ^ n = 0 then n else 0) + c)"
  using assms is_clz_low [of n x c n] is_clz_high [of n x n c] by (auto split: if_splits)

lemma clz_two_bits:
  "0 < x \<Longrightarrow> x < 4 \<Longrightarrow> is_clz 2 x (1 - x div 2)"
  by (cases "x = 1"; cases "x = 2"; cases "x = 3") (auto simp: is_clz_def)

lemma conditional_shift:
  "drop_bit (unat (push_bit 4 (of_bool b) :: u32)) w = (if b then drop_bit 16 w else w)"
  "drop_bit (unat (push_bit 3 (of_bool b) :: u32)) w = (if b then drop_bit 8 w else w)"
  "drop_bit (unat (push_bit 2 (of_bool b) :: u32)) w = (if b then drop_bit 4 w else w)"
  "drop_bit (unat (push_bit 1 (of_bool b) :: u32)) w = (if b then drop_bit 2 w else w)"
  for w :: u32
  by (cases b; simp)+

lemma clz_log2_clz:
  assumes "v \<noteq> 0"
  shows "is_clz 32 (unat v) (unat (clz_log2 v))"
proof -
  define b4 where "b4 = (v > 0xFFFF)"
  define v4 where "v4 = (if b4 then drop_bit 16 v else v)"
  define b3 where "b3 = (v4 > 0xFF)"
  define v3 where "v3 = (if b3 then drop_bit 8 v4 else v4)"
  define b2 where "b2 = (v3 > 0xF)"
  define v2 where "v2 = (if b2 then drop_bit 4 v3 else v3)"
  define b1 where "b1 = (v2 > 0x3)"
  define v1 where "v1 = (if b1 then drop_bit 2 v2 else v2)"
  have d: "clz_log2 v = 31 - ((((push_bit 4 (of_bool b4) OR push_bit 3 (of_bool b3))
      OR push_bit 2 (of_bool b2)) OR push_bit 1 (of_bool b1)) OR drop_bit 1 v1)"
    unfolding clz_log2_def Let_def conditional_shift v1_def b1_def v2_def b2_def v3_def b3_def
      v4_def b4_def ..
  have b: "b4 \<longleftrightarrow> unat v div 2 ^ 16 \<noteq> 0" "b3 \<longleftrightarrow> unat v4 div 2 ^ 8 \<noteq> 0"
    "b2 \<longleftrightarrow> unat v3 div 2 ^ 4 \<noteq> 0" "b1 \<longleftrightarrow> unat v2 div 2 ^ 2 \<noteq> 0"
    unfolding b4_def b3_def b2_def b1_def by (auto simp: word_less_nat_alt div_eq_0_iff)
  have v4: "unat v4 = (if unat v div 2 ^ 16 = 0 then unat v else unat v div 2 ^ 16)"
    and v3: "unat v3 = (if unat v4 div 2 ^ 8 = 0 then unat v4 else unat v4 div 2 ^ 8)"
    and v2: "unat v2 = (if unat v3 div 2 ^ 4 = 0 then unat v3 else unat v3 div 2 ^ 4)"
    and v1: "unat v1 = (if unat v2 div 2 ^ 2 = 0 then unat v2 else unat v2 div 2 ^ 2)"
    unfolding v4_def v3_def v2_def v1_def b by (auto simp: unat_simps)
  have p: "0 < unat v" using assms by (simp add: unat_gt_0)
  then have p: "0 < unat v" "0 < unat v4" unfolding v4 by simp_all
  then have p: "0 < unat v" "0 < unat v4" "0 < unat v3" unfolding v3 by simp_all
  then have p: "0 < unat v" "0 < unat v4" "0 < unat v3" "0 < unat v2" unfolding v2 by simp_all
  then have p: "0 < unat v" "0 < unat v4" "0 < unat v3" "0 < unat v2" "0 < unat v1"
    unfolding v1 by simp_all
  have "unat v4 < 2 ^ 16" unfolding v4 using unat_less_exp [of v]
    by (auto simp: div_eq_0_iff div_less_iff_less_mult)
  then have "unat v3 < 2 ^ 8" unfolding v3 by (auto simp: div_eq_0_iff div_less_iff_less_mult)
  then have "unat v2 < 2 ^ 4" unfolding v2 by (auto simp: div_eq_0_iff div_less_iff_less_mult)
  then have "unat v1 < 4" unfolding v1 by (auto simp: div_eq_0_iff div_less_iff_less_mult)
  define c where "c = 1 - unat v1 div 2"
  have "is_clz 2 (unat v1) c" unfolding c_def using clz_two_bits [OF p(5) \<open>unat v1 < 4\<close>] .
  note c = this
  define c1 where "c1 = (if b1 then 0 else 2) + c"
  define c2 where "c2 = (if b2 then 0 else 4) + c1"
  define c3 where "c3 = (if b3 then 0 else 8) + c2"
  define c4 where "c4 = (if b4 then 0 else 16) + c3"
  have "is_clz 4 (unat v2) c1"
    using nat_half_clz [OF p(4), of 2 c, folded v1] c by (simp add: b(4) c1_def split: if_splits)
  then have "is_clz 8 (unat v3) c2"
    using nat_half_clz [OF p(3), of 4 c1, folded v2] by (simp add: b(3) c2_def split: if_splits)
  then have "is_clz 16 (unat v4) c3"
    using nat_half_clz [OF p(2), of 8 c2, folded v3] by (simp add: b(2) c3_def split: if_splits)
  then have "is_clz 32 (unat v) c4"
    using nat_half_clz [OF p(1), of 16 c3, folded v4] by (simp add: b(1) c4_def split: if_splits)
  moreover have "drop_bit 1 v1 = 0 \<or> drop_bit 1 v1 = 1" "unat v1 div 2 = unat (drop_bit 1 v1)"
    using \<open>unat v1 < 4\<close> by (auto simp: word_unat_eq_iff unat_simps)
  then have "unat (clz_log2 v) = c4"
    unfolding d c4_def c3_def c2_def c1_def c_def
    by (elim disjE; cases b4; cases b3; cases b2; cases b1) simp_all
  ultimately show ?thesis by simp
qed

lemma clz_shift_clz:
  assumes "v \<noteq> 0"
  shows "is_clz 32 (unat v) (unat (clz_shift v))"
proof -
  define r4 where "r4 = (drop_bit 16 v = 0)"
  define v16 where "v16 = (ucast (if r4 then v else drop_bit 16 v) :: u16)"
  define r3 where "r3 = (drop_bit 8 v16 = 0)"
  define v8 where "v8 = (ucast (if r3 then v16 else drop_bit 8 v16) :: u8)"
  define r2 where "r2 = (drop_bit 4 v8 = 0)"
  define v4 where "v4 = (if r2 then v8 AND 15 else drop_bit 4 v8)"
  define r1 where "r1 = (drop_bit 2 v4 = 0)"
  define r0 where "r0 = ((if r1 then NOT (drop_bit 1 (v4 AND 2)) AND 1
      else NOT (drop_bit 3 (v4 AND 8)) AND 1) \<noteq> 0)"
  have d: "clz_shift v = push_bit 4 (of_bool r4) OR push_bit 3 (of_bool r3)
        OR push_bit 2 (of_bool r2) OR push_bit 1 (of_bool r1) OR of_bool r0"
    unfolding clz_shift_def Let_def r0_def r1_def v4_def r2_def v8_def r3_def v16_def r4_def ..
  have v16: "unat v16 = (if unat v div 2 ^ 16 = 0 then unat v else unat v div 2 ^ 16)"
    using unat_less_exp [of v] unfolding v16_def r4_def
    by (auto simp: unat_simps drop_bit_eq_0_iff div_eq_0_iff div_less_iff_less_mult)
  have v8: "unat v8 = (if unat v16 div 2 ^ 8 = 0 then unat v16 else unat v16 div 2 ^ 8)"
    using unat_less_exp [of v16] unfolding v8_def r3_def
    by (auto simp: unat_simps drop_bit_eq_0_iff div_eq_0_iff div_less_iff_less_mult)
  have v4: "unat v4 = (if unat v8 div 2 ^ 4 = 0 then unat v8 else unat v8 div 2 ^ 4)"
    using unat_less_exp [of v8] mask_exp_eq [of v8 4] unfolding v4_def r2_def
    by (auto simp: unat_simps drop_bit_eq_0_iff div_eq_0_iff)
  have p: "0 < unat v" "0 < unat v16" "0 < unat v8" "0 < unat v4" "unat v4 < 16"
    using assms unat_less_exp [of v8] unfolding v4 v8 v16
    by (auto simp: unat_gt_0 div_eq_0_iff div_less_iff_less_mult)
  have "v4 \<in> {1, 2, 3, 4, 5, 6, 7, 8, 9, 10, 11, 12, 13, 14, 15}"
    using p(4,5) by (simp add: word_unat_eq_iff) arith
  then have c: "is_clz 4 (unat v4) ((if r1 then 2 else 0) + (if r0 then 1 else 0))"
    unfolding r0_def r1_def by (elim insertE emptyE) (simp_all add: is_clz_def)
  then have "is_clz 8 (unat v8) ((if r2 then 4 else 0) + ((if r1 then 2 else 0) + (if r0 then 1 else 0)))"
    using nat_half_clz [OF p(3), of 4, folded v4]
    by (simp add: r2_def drop_bit_eq_0_iff div_eq_0_iff)
  then have "is_clz 16 (unat v16) ((if r3 then 8 else 0) + ((if r2 then 4 else 0)
      + ((if r1 then 2 else 0) + (if r0 then 1 else 0))))"
    using nat_half_clz [OF p(2), of 8, folded v8]
    by (simp add: r3_def drop_bit_eq_0_iff div_eq_0_iff)
  then have "is_clz 32 (unat v) ((if r4 then 16 else 0) + ((if r3 then 8 else 0)
      + ((if r2 then 4 else 0) + ((if r1 then 2 else 0) + (if r0 then 1 else 0)))))"
    using nat_half_clz [OF p(1), of 16, folded v16]
    by (simp add: r4_def drop_bit_eq_0_iff div_eq_0_iff)
  moreover have "unat (clz_shift v) = (if r4 then 16 else 0) + ((if r3 then 8 else 0)
      + ((if r2 then 4 else 0) + ((if r1 then 2 else 0) + (if r0 then 1 else 0))))"
    unfolding d by (cases r4; cases r3; cases r2; cases r1; cases r0) simp_all
  ultimately show ?thesis by simp
qed

lemma clz_clz: "v \<noteq> 0 \<Longrightarrow> is_clz 32 (unat v) (unat (clz v))"
proof -
  assume v: "v \<noteq> 0"
  then obtain c where c: "is_clz 32 (unat v) c"
    using is_clz_exists [of "unat v" 32] unat_less_exp [of v] by (auto simp: unat_gt_0)
  then have "is_clz 32 (unat (ucast v :: u64)) c" by (simp add: unat_ucast_32_64)
  from count_leading_zero_macros_clz(1) [OF this] have "unat (count_leading_zero_macro 32 (ucast v)) = c"
    by simp
  then show ?thesis using c by (simp add: clz_def unat_simps is_clz_def)
qed

lemma clzll_clz: "v \<noteq> 0 \<Longrightarrow> is_clz 64 (unat v) (unat (clzll v))"
proof -
  assume v: "v \<noteq> 0"
  then obtain c where c: "is_clz 64 (unat v) c"
    using is_clz_exists [of "unat v" 64] unat_less_exp [of v] by (auto simp: unat_gt_0)
  from count_leading_zero_macros_clz(1) [OF this] have "unat (count_leading_zero_macro 64 v) = c"
    by simp
  then show ?thesis using c by (simp add: clzll_def unat_simps is_clz_def)
qed


lemma clzll_log2_clz: "v \<noteq> 0 \<Longrightarrow> is_clz 64 (unat v) (unat (clzll_log2 v))"
proof -
  assume v: "v \<noteq> 0"
  define h l where d: "h = (ucast (drop_bit 32 v) :: u32)" "l = (ucast v :: u32)"
  have s: "unat v = unat h * 2 ^ 32 + unat l" unfolding d by (rule unat_split32)
  have h: "unat h = unat v div 2 ^ 32" unfolding d by (rule unat_high32)
  show ?thesis
  proof (cases "h = 0")
    case True
    then have "unat v = unat l" "l \<noteq> 0" using s v by (auto simp: word_eq_0_iff_unat)
    then have c: "is_clz 32 (unat v) (unat (clz_log2 l))" using clz_log2_clz by simp
    then have "unat (32 + clz_log2 l) = 32 + unat (clz_log2 l)"
      by (simp add: unat_word_ariths is_clz_def)
    then show ?thesis using True is_clz_low [OF c, of 32] by (simp add: clzll_log2_def d)
  next
    case False
    then have "is_clz 32 (unat v div 2 ^ 32) (unat (clz_log2 h))" using clz_log2_clz h by metis
    from is_clz_high [OF this] False show ?thesis by (simp add: clzll_log2_def d)
  qed
qed

lemma clzll_shift_clz: "v \<noteq> 0 \<Longrightarrow> is_clz 64 (unat v) (unat (clzll_shift v))"
proof -
  assume v: "v \<noteq> 0"
  define w where d: "w = (ucast (if drop_bit 32 v = 0 then v else drop_bit 32 v) :: u32)"
  have w: "unat w = (if unat v div 2 ^ 32 = 0 then unat v else unat v div 2 ^ 32)"
    using unat_less_exp [of v] unfolding d
    by (auto simp: unat_simps drop_bit_eq_0_iff div_eq_0_iff div_less_iff_less_mult)
  then have "w \<noteq> 0" using v by (auto simp: word_eq_0_iff_unat)
  then have c: "is_clz 32 (unat w) (unat (clz_shift w))" by (rule clz_shift_clz)
  then have l: "unat (clz_shift w) < 32" by (simp add: is_clz_def)
  have "push_bit 5 (of_bool b) AND clz_shift w = 0" for b
  proof (rule bit_word_eqI)
    have t: "take_bit 5 (clz_shift w) = clz_shift w" using l by (simp add: word_unat_eq_iff unat_simps)
    show "bit (push_bit 5 (of_bool b) AND clz_shift w) n = bit 0 n" for n
      by (subst t [symmetric]) (auto simp: bit_simps)
  qed
  then have "unat (clzll_shift v) = (if unat v div 2 ^ 32 = 0 then 32 else 0) + unat (clz_shift w)"
    using l unfolding clzll_shift_def Let_def d [symmetric]
    by (simp add: unat_word_ariths drop_bit_eq_0_iff div_eq_0_iff flip: disjunctive_add_eq_or)
  moreover have "0 < unat v" using v by (simp add: unat_gt_0)
  ultimately show ?thesis using nat_half_clz [of "unat v" 32, folded w, OF _ c] by simp
qed

text \<open>On an empty operand all counters return the largest count of the width.\<close>

lemma clz_0 [simp]: "clz 0 = 31"
  by (simp add: clz_def macro_eval)

lemma clzll_0 [simp]: "clzll 0 = 63"
  by (simp add: clzll_def macro_eval)

lemma clz_variants_0: "clz_log2 0 = 31" "clzll_log2 0 = 63" "clz_shift 0 = 31" "clzll_shift 0 = 63"
  by (simp_all add: clz_log2_def clzll_log2_def clz_shift_def clzll_shift_def)

text \<open>
  C33. The three leading-zero counters selectable in \<^verbatim>\<open>softint.h\<close> (the macro, the binary
  logarithm and the shift-based one) return the same value for every operand, at 32 and
  at 64 bits.
\<close>

theorem clz_variants_agree:
  "unat (clz_log2 v) = unat (clz v) \<and> unat (clz_shift v) = unat (clz v)
    \<and> unat (clzll_log2 w) = unat (clzll w) \<and> unat (clzll_shift w) = unat (clzll w)"
proof -
  have "unat (clz_log2 v) = unat (clz v)" "unat (clz_shift v) = unat (clz v)"
    using clz_clz clz_log2_clz clz_shift_clz is_clz_unique by (cases "v = 0"; simp add: clz_variants_0; blast)+
  moreover have "unat (clzll_log2 w) = unat (clzll w)" "unat (clzll_shift w) = unat (clzll w)"
    using clzll_clz clzll_log2_clz clzll_shift_clz is_clz_unique
    by (cases "w = 0"; simp add: clz_variants_0; blast)+
  ultimately show ?thesis by simp
qed

text \<open>A double word with its high and low halves.\<close>

definition dword :: "u32 \<Rightarrow> u32 \<Rightarrow> u64" where
  "dword h l = push_bit 32 (ucast h) + ucast l"

lemma ucast_down_diff: "(ucast (x - y :: u64) :: u32) = ucast x - ucast y"
  by (simp add: word_uint_eq_iff uint_word_ariths unsigned_ucast_eq take_bit_eq_mod mod_simps
      mod_mod_cancel)

lemma ucast_up_down: "(ucast (ucast (x :: u32) :: u64) :: u32) = x"
  by (rule bit_word_eqI) (auto simp: bit_simps dest: bit_imp_le_length)

lemma push_ucast_down: "push_bit 32 (ucast (ucast (y :: u64) :: u32) :: u64) = push_bit 32 y"
  by (rule bit_word_eqI) (auto simp: bit_simps)

lemma sub_low:
  "(ucast (al - bl :: u32) :: u64) = ucast al - ucast bl + of_bool (al - bl > al) * 2 ^ 32"
proof (cases "unat bl \<le> unat al")
  case True
  then have "unat (al - bl) = unat al - unat bl" by (rule unat_diff_le)
  moreover have "unat (ucast al - ucast bl :: u64) = unat al - unat bl"
    using True by (simp add: unat_diff_le unat_ucast_32_64)
  moreover have "\<not> al - bl > al" using calculation(1) by (simp add: word_less_nat_alt)
  ultimately show ?thesis by (simp add: word_unat_eq_iff unat_ucast_32_64)
next
  case False
  have lt: "unat al < 2 ^ 32" "unat bl < 2 ^ 32" using unat_less_exp [where 'a = 32] by simp_all
  have d: "unat (al - bl) = unat al + 2 ^ 32 - unat bl"
    using False unat_sub_if_size [of al bl] by (simp add: word_size)
  then have "al - bl > al" using lt False by (simp add: word_less_nat_alt)
  moreover have s: "unat (ucast al + 2 ^ 32 :: u64) = unat al + 2 ^ 32"
    using lt by (simp add: unat_word_ariths unat_ucast_32_64)
  have "unat ((ucast al + 2 ^ 32) - ucast bl :: u64) = unat al + 2 ^ 32 - unat bl"
    unfolding s [symmetric] unat_ucast_32_64 [of bl, symmetric]
    by (rule unat_diff_le) (use lt s in \<open>simp add: unat_ucast_32_64\<close>)
  ultimately show ?thesis using d by (simp add: word_unat_eq_iff unat_ucast_32_64 algebra_simps)
qed

lemma sub_ddmmss_exact: "dword (fst (sub_ddmmss ah al bh bl)) (snd (sub_ddmmss ah al bh bl))
    = dword ah al - dword bh bl"
proof -
  define c where "c = (of_bool (al - bl > al) :: u32)"
  have "ah - bh - c = ucast (ucast ah - ucast bh - ucast c :: u64)"
    by (simp add: ucast_down_diff ucast_up_down)
  then have h: "push_bit 32 (ucast (ah - bh - c) :: u64) = push_bit 32 (ucast ah - ucast bh - ucast c)"
    by (simp add: push_ucast_down)
  have l: "(ucast (al - bl) :: u64) = ucast al - ucast bl + push_bit 32 (ucast c)"
    unfolding sub_low c_def by (cases "al - bl > al") simp_all
  have "sub_ddmmss ah al bh bl = (ah - bh - c, al - bl)"
    by (simp add: sub_ddmmss_def c_def Let_def)
  then have "dword (fst (sub_ddmmss ah al bh bl)) (snd (sub_ddmmss ah al bh bl))
      = push_bit 32 (ucast ah - ucast bh - ucast c) + (ucast al - ucast bl + push_bit 32 (ucast c))"
    by (simp only: dword_def fst_conv snd_conv h l)
  also have "\<dots> = dword ah al - dword bh bl"
    by (simp add: dword_def push_bit_eq_mult algebra_simps)
  finally show ?thesis .
qed

text \<open>
  The double-width multiplications return the exact product, and the double-word
  subtraction the difference modulo \<open>2\<^sup>6\<^sup>4\<close> with the borrow propagated.
\<close>

theorem double_word_arithmetic_exact:
  "unat (fst (umul_ppmm a b)) * 2 ^ 32 + unat (snd (umul_ppmm a b)) = unat a * unat b
    \<and> unat (fst (umul_ppmm_2 x y)) * 2 ^ 64 + unat (snd (umul_ppmm_2 x y)) = unat x * unat y
    \<and> dword (fst (sub_ddmmss ah al bh bl)) (snd (sub_ddmmss ah al bh bl))
        = dword ah al - dword bh bl"
  using unat_umul_ppmm(1) unat_umul_ppmm_2 sub_ddmmss_exact by blast


section \<open>The two-by-one-digit division\<close>

text \<open>
  One digit: with \<open>U < V\<close> and \<open>V\<close> normalised, the estimate from the leading digit of
  \<open>V\<close> is corrected downwards until it is the quotient of \<open>U\<cdot>2\<^sup>1\<^sup>6 + u\<close> by \<open>V\<close>.
\<close>

lemma divlu2_again_digit:
  fixes U V T :: nat and q rhat vn1 vn0 un :: u32
  assumes V: "V = unat vn1 * 65536 + unat vn0" and b: "unat vn1 < 65536" "unat vn0 < 65536"
      "unat un < 65536" and vn1: "0 < unat vn1"
    and T: "T = (U * 65536 + unat un) div V" "T < 65536"
    and U: "unat q * unat vn1 + unat rhat = U" and q: "T \<le> unat q" "unat q \<le> 65537"
    and r: "unat rhat < 65536"
  shows "\<exists>rh. divlu2_again vn1 vn0 un q rhat = Some (of_nat T, rh)"
  using U q r
proof (induction "65536 - unat rhat" arbitrary: q rhat rule: less_induct)
  case (less rhat q)
  let ?test = "q \<ge> 65536 \<or> q * vn0 > 65536 * rhat + un"
  have Vpos: "0 < V" using V vn1 by simp
  have test: "?test \<longleftrightarrow> 65536 \<le> unat q \<or> 65536 * unat rhat + unat un < unat q * unat vn0"
  proof (cases "65536 \<le> unat q")
    case False
    then have "unat q * unat vn0 < 65536 * 65536" using b(2) by (intro mult_strict_mono) auto
    moreover have "65536 * unat rhat + unat un < 65536 * 65536" using less.prems(4) b(3) by simp
    ultimately show ?thesis
      by (simp add: word_le_nat_alt word_less_nat_alt unat_word_ariths)
  qed (simp add: word_le_nat_alt)
  have prod: "unat q * V + 65536 * unat rhat = U * 65536 + unat q * unat vn0"
    using less.prems(1) V by (simp add: algebra_simps flip: less.prems(1))
  show ?case
  proof (cases ?test)
    case False
    then have "unat q * V \<le> U * 65536 + unat un" using test prod by linarith
    then have "unat q \<le> T" unfolding T using Vpos by (simp add: less_eq_div_iff_mult_less_eq)
    then have "q = of_nat T" using less.prems(2) T(2) by (simp add: word_unat_eq_iff unat_of_nat)
    then show ?thesis using False by (subst divlu2_again.simps) simp
  next
    case True
    then have gt: "T < unat q"
    proof (cases "65536 \<le> unat q")
      case False
      then have "U * 65536 + unat un < unat q * V" using test True prod by linarith
      then show ?thesis unfolding T using Vpos by (simp add: div_less_iff_less_mult)
    qed (use T(2) in linarith)
    define q' rhat' where d: "q' = q - 1" "rhat' = rhat + vn1"
    have q': "unat q' = unat q - 1" unfolding d using gt by (simp add: unat_diff_le)
    have r': "unat rhat' = unat rhat + unat vn1" unfolding d using less.prems(4) b(1)
      by (intro unat_add_small) simp
    have U': "unat q' * unat vn1 + unat rhat' = U"
      using less.prems(1) gt unfolding q' r' by (cases "unat q") auto
    show ?thesis
    proof (cases "unat rhat' < 65536")
      case True
      have m: "65536 - unat rhat' < 65536 - unat rhat" using r' vn1 True by linarith
      have "T \<le> unat q'" "unat q' \<le> 65537" using gt q' less.prems(3) by linarith+
      from less.hyps [OF m U' this True]
      obtain rh where "divlu2_again vn1 vn0 un q' rhat' = Some (of_nat T, rh)" by blast
      then show ?thesis using \<open>?test\<close> True
        by (subst divlu2_again.simps) (simp add: d word_less_nat_alt)
    next
      case False
      have "unat q' * V + 65536 * unat rhat' = U * 65536 + unat q' * unat vn0"
        using U' V by (simp add: algebra_simps flip: U')
      moreover have "unat q' * unat vn0 \<le> 65536 * 65535"
        using q' less.prems(3) b(2) by (intro mult_mono) auto
      ultimately have "unat q' * V \<le> U * 65536 + unat un" using False by linarith
      then have "unat q' \<le> T" unfolding T using Vpos by (simp add: less_eq_div_iff_mult_less_eq)
      then have "q' = of_nat T" using gt q' T(2) by (simp add: word_unat_eq_iff unat_of_nat)
      then show ?thesis using \<open>?test\<close> False
        by (subst divlu2_again.simps) (simp add: d word_less_nat_alt)
    qed
  qed
qed

lemma divlu2_digit:
  fixes u v vn1 vn0 un :: u32
  assumes V: "unat v = unat vn1 * 65536 + unat vn0" and b: "unat vn1 < 65536" "unat vn0 < 65536"
      "unat un < 65536" and vn1: "32768 \<le> unat vn1" and u: "unat u < unat v"
  defines "T \<equiv> (unat u * 65536 + unat un) div unat v"
  shows "\<exists>rh. divlu2_again vn1 vn0 un (u div vn1) (u - u div vn1 * vn1) = Some (of_nat T, rh)"
    and "unat (u * 65536 + un - of_nat T * v) = (unat u * 65536 + unat un) mod unat v"
    and "T < 65536"
proof -
  have Vpos: "0 < unat v" using u by simp
  have "unat u * 65536 + unat un < unat v * 65536" using u b(3) by linarith
  then show T: "T < 65536" unfolding T_def using Vpos by (simp add: div_less_iff_less_mult mult.commute)
  have Q: "unat (u div vn1) = unat u div unat vn1" by (simp add: unat_div_distrib)
  have qv: "unat u div unat vn1 * unat vn1 \<le> unat u" by simp
  then have "unat (u div vn1 * vn1) = unat u div unat vn1 * unat vn1"
    using unat_less_exp [of u] unfolding Q [symmetric] by (intro unat_mult_lem [THEN iffD1]) (rule le_less_trans)
  then have R: "unat (u - u div vn1 * vn1) = unat u mod unat vn1"
    using qv unat_diff_le [of "u div vn1 * vn1" u] by (simp only: minus_div_mult_eq_mod)
  have TV: "T * unat v \<le> unat u * 65536 + unat un" unfolding T_def by simp
  then have "T * unat vn1 * 65536 \<le> unat u * 65536 + unat un" unfolding V by (simp add: algebra_simps)
  then have "T * unat vn1 \<le> unat u" using b(3) by linarith
  then have Tq: "T \<le> unat u div unat vn1" using vn1 by (simp add: less_eq_div_iff_mult_less_eq)
  have "unat u < 65538 * unat vn1" using u V b(2) vn1 by linarith
  then have q: "unat u div unat vn1 \<le> 65537" using vn1
    by (simp add: less_Suc_eq_le [symmetric] div_less_iff_less_mult)
  show "\<exists>rh. divlu2_again vn1 vn0 un (u div vn1) (u - u div vn1 * vn1) = Some (of_nat T, rh)"
    by (rule divlu2_again_digit [OF V b _ T_def [THEN meta_eq_to_obj_eq] T])
      (use vn1 b(1) Tq q in \<open>auto simp: Q R intro: order_less_trans [OF mod_less_divisor]\<close>)
  have "u * 65536 + un - of_nat T * v = of_nat (unat u * 65536 + unat un - T * unat v)"
    using TV by (simp add: of_nat_diff)
  moreover have "unat u * 65536 + unat un - T * unat v = (unat u * 65536 + unat un) mod unat v"
    unfolding T_def by (simp add: minus_div_mult_eq_mod)
  moreover have "(unat u * 65536 + unat un) mod unat v < 2 ^ 32"
    using order_less_trans [OF mod_less_divisor [OF Vpos] unat_less_exp [of v]] by simp
  ultimately show "unat (u * 65536 + un - of_nat T * v) = (unat u * 65536 + unat un) mod unat v"
    by (simp add: unat_of_nat)
qed

lemma two_digit_division:
  fixes V u1 a b :: nat
  assumes "0 < V"
  shows "((u1 * B + a) * B + b) div V = (u1 * B + a) div V * B + ((u1 * B + a) mod V * B + b) div V"
    and "((u1 * B + a) * B + b) mod V = ((u1 * B + a) mod V * B + b) mod V"
proof -
  define X where "X = u1 * B + a"
  have X: "X * B + b = X div V * B * V + (X mod V * B + b)"
    by (metis (no_types, lifting) add.assoc div_mult_mod_eq mult.assoc mult.commute distrib_right)
  show "((u1 * B + a) * B + b) div V = (u1 * B + a) div V * B + ((u1 * B + a) mod V * B + b) div V"
    unfolding X_def [symmetric] X using assms by (intro div_mult_self3) simp
  show "((u1 * B + a) * B + b) mod V = ((u1 * B + a) mod V * B + b) mod V"
    unfolding X_def [symmetric] X by (rule mod_mult_self3)
qed

lemma normalisation_mask:
  "s < 32 \<Longrightarrow> (drop_bit (32 - s) (u :: u32) AND signed_drop_bit 31 (- of_nat s)) = drop_bit (32 - s) u"
proof (cases "s = 0")
  case False
  assume "s < 32"
  then have "signed_drop_bit 31 (- of_nat s :: u32) = - 1"
  proof -
    have "(- of_nat s :: u32) = of_int (- int s)" by simp
    moreover have "sint (of_int (- int s) :: u32) = - int s"
      using \<open>s < 32\<close> by (simp only: signed_of_int of_int_eq_id id_apply) (intro signed_take_bit_int_eq_self; simp)
    ultimately have "sint (- of_nat s :: u32) = - int s" by simp
    moreover have "- int s div 2 ^ 31 = - 1" using \<open>s < 32\<close> False by (intro int_div_pos_eq [where r = "2 ^ 31 - int s"]) auto
    ultimately have "sint (signed_drop_bit 31 (- of_nat s :: u32)) = sint (- 1 :: u32)"
      by (simp add: sint_signed_drop_bit_eq drop_bit_eq_div)
    then show ?thesis by (simp only: signed_word_eqI)
  qed
  then show ?thesis by simp
qed simp

lemma shifted_dividend:
  fixes u1 u0 :: u32
  assumes s: "s < 32" and u1: "unat u1 * 2 ^ s < 2 ^ 32"
  defines "U \<equiv> (unat u1 * 2 ^ 32 + unat u0) * 2 ^ s"
  shows "unat (push_bit s u1 OR drop_bit (32 - s) u0) = U div 2 ^ 32"
    and "unat (push_bit s u0) = U mod 2 ^ 32"
proof -
  have e: "(2::nat) ^ 32 = 2 ^ (32 - s) * 2 ^ s" using s by (simp flip: power_add)
  have hi: "unat u0 * 2 ^ s div 2 ^ 32 = unat u0 div 2 ^ (32 - s)" unfolding e by simp
  have U: "U = unat u1 * 2 ^ s * 2 ^ 32 + unat u0 * 2 ^ s" by (simp add: U_def algebra_simps)
  have "push_bit s u1 AND drop_bit (32 - s) u0 = 0"
    using s by (intro bit_word_eqI) (auto simp: bit_simps dest: bit_imp_le_length)
  then have "push_bit s u1 OR drop_bit (32 - s) u0 = push_bit s u1 + drop_bit (32 - s) u0"
    by (simp add: disjunctive_add_eq_or)
  moreover have "unat u1 * 2 ^ s + unat u0 div 2 ^ (32 - s) < 2 ^ 32"
  proof -
    have "Suc (unat u1) * 2 ^ s \<le> 2 ^ 32"
    proof -
      have "unat u1 < 2 ^ (32 - s)" using u1 unfolding e by simp
      then have "Suc (unat u1) * 2 ^ s \<le> 2 ^ (32 - s) * 2 ^ s" by (intro mult_le_mono1) simp
      then show ?thesis unfolding e .
    qed
    moreover have "unat u0 div 2 ^ (32 - s) < 2 ^ s"
      using unat_less_exp [of u0] e by (simp add: div_less_iff_less_mult mult.commute)
    ultimately show ?thesis by simp
  qed
  ultimately show "unat (push_bit s u1 OR drop_bit (32 - s) u0) = U div 2 ^ 32"
    using u1 hi unfolding U by (simp add: unat_add_small unat_simps)
  show "unat (push_bit s u0) = U mod 2 ^ 32" unfolding U by (simp add: unat_simps)
qed

text \<open>
  C29. \<^verbatim>\<open>__divlu2\<close> terminates for every input. Where the high word is below the divisor it
  returns the quotient and the remainder of the 64-bit dividend by the 32-bit divisor;
  otherwise it returns the largest value in both.
\<close>

theorem divlu2_correct:
  "divlu2 u1 u0 v =
    Some (if unat u1 < unat v
      then (of_nat ((unat u1 * 2 ^ 32 + unat u0) div unat v),
            of_nat ((unat u1 * 2 ^ 32 + unat u0) mod unat v))
      else (0xFFFFFFFF, 0xFFFFFFFF))"
proof (cases "unat u1 < unat v")
  case True
  then have "v \<noteq> 0" by auto
  define s where "s = unat (clz v)"
  have s: "is_clz 32 (unat v) s" unfolding s_def using clz_clz [OF \<open>v \<noteq> 0\<close>] .
  have s32: "s < 32" using s by (simp add: is_clz_def)
  define V where "V = push_bit s v"
  have V: "unat V = unat v * 2 ^ s" "2 ^ 31 \<le> unat V"
    using is_clz_mult_less [OF s] by (simp_all add: V_def unat_simps)
  define vn1 vn0 where vn: "vn1 = drop_bit 16 V" "vn0 = V AND 0xFFFF"
  have vn': "unat vn1 = unat V div 65536" "unat vn0 = unat V mod 65536"
    using mask_exp_eq [of V 16] by (simp_all add: vn unat_simps)
  have vb: "unat V = unat vn1 * 65536 + unat vn0" "unat vn1 < 65536" "unat vn0 < 65536" "32768 \<le> unat vn1"
    using V(2) unat_less_exp [of V] unfolding vn' by (simp_all add: div_less_iff_less_mult less_eq_div_iff_mult_less_eq)
  define U where "U = (unat u1 * 2 ^ 32 + unat u0) * 2 ^ s"
  define un32 un10 where un: "un32 = push_bit s u1 OR drop_bit (32 - s) u0" "un10 = push_bit s u0"
  have "unat u1 * 2 ^ s < unat V" using True V(1) by simp
  then have "unat u1 * 2 ^ s < 2 ^ 32" using unat_less_exp [of V] by simp
  note h = shifted_dividend [OF s32 this, of u0, folded un U_def]
  define un1 un0 where un1: "un1 = drop_bit 16 un10" "un0 = un10 AND 0xFFFF"
  have un1': "unat un1 = unat un10 div 65536" "unat un0 = unat un10 mod 65536"
    using mask_exp_eq [of un10 16] by (simp_all add: un1 unat_simps)
  have ub: "unat un1 < 65536" "unat un0 < 65536"
    using unat_less_exp [of un10] unfolding un1' by (simp_all add: div_less_iff_less_mult)
  have U: "U = (unat un32 * 65536 + unat un1) * 65536 + unat un0"
    unfolding h un1' by simp
  have "unat u1 * 2 ^ 32 + unat u0 < unat v * 2 ^ 32"
    using mult_le_mono1 [of "Suc (unat u1)" "unat v" "2 ^ 32"] True unat_less_exp [of u0] by simp
  then have "U < unat V * 2 ^ 32" unfolding U_def V by simp
  then have "unat un32 < unat V" unfolding h by (simp add: div_less_iff_less_mult)
  note d1 = divlu2_digit [OF vb(1-3) ub(1) vb(4) this]
  define un21 where "un21 = un32 * 65536 + un1 - of_nat ((unat un32 * 65536 + unat un1) div unat V) * V"
  note d1 = d1 [folded un21_def]
  have "unat un21 < unat V" unfolding d1(2) using V(2) by simp
  note d2 = divlu2_digit [OF vb(1-3) ub(2) vb(4) this]
  obtain rh rh' where rh:
    "divlu2_again vn1 vn0 un1 (un32 div vn1) (un32 - un32 div vn1 * vn1)
      = Some (of_nat ((unat un32 * 65536 + unat un1) div unat V), rh)"
    "divlu2_again vn1 vn0 un0 (un21 div vn1) (un21 - un21 div vn1 * vn1)
      = Some (of_nat ((unat un21 * 65536 + unat un0) div unat V), rh')"
    using d1(1) d2(1) by blast
  define q where "q = of_nat ((unat un32 * 65536 + unat un1) div unat V) * 65536
    + (of_nat ((unat un21 * 65536 + unat un0) div unat V) :: u32)"
  define r where "r = drop_bit s (un21 * 65536 + un0 - of_nat ((unat un21 * 65536 + unat un0) div unat V) * V)"
  have "divlu2 u1 u0 v = Some (q, r)"
    using True rh unfolding divlu2_def normalisation_mask [OF s32, unfolded s_def] Let_def
    by (simp add: word_le_nat_alt normalisation_mask [OF s32] q_def r_def un21_def
        flip: s_def V_def vn un un1)
  moreover have "q = of_nat (U div unat V)" unfolding q_def U
    by (subst two_digit_division(1)) (use V(2) d1(2) in simp_all)
  moreover have "unat r = U mod unat V div 2 ^ s" unfolding r_def unat_drop_bit_div d2(2) U
    by (subst two_digit_division(2)) (use V(2) d1(2) in simp_all)
  moreover have "r = of_nat (unat r)" by simp
  ultimately show ?thesis using True
    by (simp add: U_def V mult_mod_left [symmetric])
qed (simp add: divlu2_def word_le_nat_alt)

end
