(* ===== verification/DivContract.thy ===== *)
theory DivContract
  imports BambuPrelude
begin

text \<open>
  The contract of the unsigned dividers of \<^verbatim>\<open>etc/libbambu/softint\<close> and what the signed
  entry points make of it. Every divider of the library is a function
  \<^verbatim>\<open>__udivmod*4(x, y, &res)\<close> that returns a quotient and stores a remainder; the signed
  entry points \<^verbatim>\<open>__div*\<close> and \<^verbatim>\<open>__mod*\<close> call it on the magnitudes and restore the sign.
\<close>

definition magnitude :: "'a::len word \<Rightarrow> 'a word" where
  "magnitude u = (if u <s 0 then - u else u)"

definition sdiv_via :: "('a::len word \<Rightarrow> 'a word \<Rightarrow> 'a word \<times> 'a word) \<Rightarrow> 'a word \<Rightarrow> 'a word \<Rightarrow> 'a word" where
  "sdiv_via f u v =
     (let w = fst (f (magnitude u) (magnitude v)) in if (u <s 0) \<noteq> (v <s 0) then - w else w)"

definition smod_via :: "('a::len word \<Rightarrow> 'a word \<Rightarrow> 'a word \<times> 'a word) \<Rightarrow> 'a word \<Rightarrow> 'a word \<Rightarrow> 'a word" where
  "smod_via f u v = (let w = snd (f (magnitude u) (magnitude v)) in if u <s 0 then - w else w)"

lemma signed_less_0_iff: "u <s 0 \<longleftrightarrow> sint (u :: 'a::len word) < 0"
  by (simp add: word_sless_alt)

lemma uint_magnitude: "uint (magnitude u) = \<bar>sint (u :: 'a::len word)\<bar>"
proof (cases "sint u < 0")
  case True
  have "- (2 ^ (LENGTH('a) - 1)) \<le> sint u" by (rule sint_ge)
  moreover have "(2::int) ^ (LENGTH('a) - 1) < 2 ^ LENGTH('a)" by simp
  ultimately have b: "0 < - sint u" "- sint u < 2 ^ LENGTH('a)" using True by linarith+
  have "- u = word_of_int (- sint u)" by simp
  then have "uint (- u) = take_bit LENGTH('a) (- sint u)" by (metis uint_word_of_int_eq)
  also have "\<dots> = - sint u" using b by (intro take_bit_int_eq_self) auto
  finally show ?thesis using True by (simp add: magnitude_def signed_less_0_iff)
next
  case False
  have "sint u < 2 ^ LENGTH('a)"
    by (rule less_le_trans [OF sint_lt]) (rule power_increasing, simp_all)
  then have "uint u = sint u"
    using False unfolding uint_sint by (intro take_bit_int_eq_self) auto
  then show ?thesis using False by (simp add: magnitude_def signed_less_0_iff)
qed

lemma magnitude_eq_0_iff: "magnitude u = 0 \<longleftrightarrow> u = 0"
  by (auto simp: magnitude_def)

locale unsigned_divider =
  fixes udivmod :: "'a::len word \<Rightarrow> 'a word \<Rightarrow> 'a word \<times> 'a word"
    and admits :: "'a word \<Rightarrow> bool"
  assumes udivmod_correct: "y \<noteq> 0 \<Longrightarrow> admits y \<Longrightarrow> udivmod x y = (x div y, x mod y)"
begin

lemma unsigned_results:
  assumes "y \<noteq> 0" "admits y"
  shows "fst (udivmod x y) = x div y" and "snd (udivmod x y) = x mod y"
    and "unat (fst (udivmod x y)) * unat y + unat (snd (udivmod x y)) = unat x"
    and "unat (snd (udivmod x y)) < unat y"
  using udivmod_correct [OF assms] assms
  by (simp_all add: unat_div_distrib unat_mod_distrib unat_gt_0)

lemma signed_quotient:
  assumes "v \<noteq> 0" "admits (magnitude v)"
  shows "sdiv_via udivmod u v = word_of_int (sint u sdiv sint v)"
proof -
  have "fst (udivmod (magnitude u) (magnitude v)) = magnitude u div magnitude v"
    using assms by (simp add: unsigned_results magnitude_eq_0_iff)
  also have "\<dots> = word_of_int (\<bar>sint u\<bar> div \<bar>sint v\<bar>)"
    by (simp add: word_div_def uint_magnitude)
  finally have w: "fst (udivmod (magnitude u) (magnitude v)) = word_of_int (\<bar>sint u\<bar> div \<bar>sint v\<bar>)" .
  have v: "sint v \<noteq> 0" using assms(1) signed_word_eqI [of v 0] by auto
  show ?thesis
    using v by (auto simp: sdiv_via_def w signed_less_0_iff signed_divide_int_def sgn_if)
qed

lemma signed_remainder:
  assumes "v \<noteq> 0" "admits (magnitude v)"
  shows "smod_via udivmod u v = word_of_int (sint u smod sint v)"
proof -
  have "snd (udivmod (magnitude u) (magnitude v)) = magnitude u mod magnitude v"
    using assms by (simp add: unsigned_results magnitude_eq_0_iff)
  also have "\<dots> = word_of_int (\<bar>sint u\<bar> mod \<bar>sint v\<bar>)"
    by (simp add: word_mod_def uint_magnitude)
  finally have w: "snd (udivmod (magnitude u) (magnitude v)) = word_of_int (\<bar>sint u\<bar> mod \<bar>sint v\<bar>)" .
  have "sint u smod sint v = (if sint u < 0 then - (\<bar>sint u\<bar> mod \<bar>sint v\<bar>) else \<bar>sint u\<bar> mod \<bar>sint v\<bar>)"
    by (simp add: signed_modulo_int_def sgn_if)
  then show ?thesis by (simp add: smod_via_def w signed_less_0_iff)
qed

end

end
