(* ===== verification/DivNewton.thy ===== *)
theory DivNewton
  imports SoftintCore DivContract
begin

text \<open>
  The default integer dividers of \<^verbatim>\<open>etc/libbambu/softint\<close>: \<^verbatim>\<open>divsi3.c\<close> (32 bits), \<^verbatim>\<open>divdi3.c\<close>
  (64 bits) and \<^verbatim>\<open>divdi36432.c\<close> (64 by 32 bits). Each takes an 8-bit reciprocal of the
  divisor from a table, refines it by Newton's iteration in fixed point, estimates the
  quotient and corrects the estimate. A pair stands for the returned quotient and the
  remainder stored through \<^verbatim>\<open>res\<close>.
\<close>

section \<open>The program\<close>

text \<open>The table of reciprocals, the same in the three files.\<close>

definition unrt :: "u8 list" where
  "unrt =
     [-2, -4, -6, -8, -10, -12, -14, -16, -18, -20, -22, -23, -25, -27, -29, -31, -32, -34,
      -36, -38, -39, -41, -43, -44, -46, -48, -49, -51, -53, -54, -56, -57, -59, -61, -62, -64,
      -65, -67, -68, -70, -71, -73, -74, -76, -77, -78, -80, -81, -83, -84, -86, -87, -88, -90,
      -91, -92, -94, -95, -96, -98, -99, -100, -102, -103, -104, -105, -107, -108, -109, -110,
      -112, -113, -114, -115, -117, -118, -119, -120, -121, -122, -124, -125, -126, -127, -128,
      127, 126, 125, 123, 122, 121, 120, 119, 118, 117, 116, 115, 114, 113, 112, 111, 110, 109,
      108, 107, 106, 105, 104, 103, 102, 101, 100, 99, 98, 97, 96, 95, 94, 93, 92, 91, 90, 89,
      88, 88, 87, 86, 85, 84, 83, 82, 81, 80, 80, 79, 78, 77, 76, 75, 74, 74, 73, 72, 71, 70,
      70, 69, 68, 67, 66, 66, 65, 64, 63, 62, 62, 61, 60, 59, 59, 58, 57, 56, 56, 55, 54, 53,
      53, 52, 51, 50, 50, 49, 48, 48, 47, 46, 46, 45, 44, 43, 43, 42, 41, 41, 40, 39, 39, 38,
      37, 37, 36, 35, 35, 34, 33, 33, 32, 32, 31, 30, 30, 29, 28, 28, 27, 27, 26, 25, 25, 24,
      24, 23, 22, 22, 21, 21, 20, 19, 19, 18, 18, 17, 17, 16, 15, 15, 14, 14, 13, 13, 12, 12,
      11, 10, 10, 9, 9, 8, 8, 7, 7, 6, 6, 5, 5, 4, 4, 3, 3, 2, 2, 1, 1, 0, 0]"

subsection \<open>32 bits\<close>

definition lsl :: "u32 \<Rightarrow> u32 \<Rightarrow> u32" where
  "lsl a b = push_bit (unat b) a"

definition lsr :: "u32 \<Rightarrow> u32 \<Rightarrow> u32" where
  "lsr a b = drop_bit (unat b) a"

definition mul :: "u32 \<Rightarrow> u32 \<Rightarrow> u32" where
  "mul a b = a * b"

definition udivmodsi4 :: "u32 \<Rightarrow> u32 \<Rightarrow> u32 \<times> u32" where
  "udivmodsi4 x y =
    (let k = clz y;
         lshifted_y = lsl y (ucast k);
         lshifted_y = push_bit 1 lshifted_y;
         ty = lsr lshifted_y (32 - 8);
         t = ucast (unrt ! unat ty) OR 256;
         z = lsr (lsl t (32 - 9)) (32 - ucast k - 1);
         my = 0 - y;
         z0 = mul my z;
         (d0, q0) = umul_ppmm z z0;
         z = z + d0;
         z0 = mul my z;
         (d0, q0) = umul_ppmm z z0;
         z = z + d0;
         (q, q1) = umul_ppmm x z;
         r = x - mul y q
     in if r \<ge> y then
          (let r = r - y; q = q + 1
           in if r \<ge> y then (q + 1, r - y) else (q, r))
        else (q, r))"

definition divsi3 :: "u32 \<Rightarrow> u32 \<Rightarrow> u32" where
  "divsi3 u v =
    (let c = False;
         (c, u) = (if u <s 0 then (\<not> c, - u) else (c, u));
         (c, v) = (if v <s 0 then (\<not> c, - v) else (c, v));
         w = fst (udivmodsi4 u v)
     in if c then - w else w)"

definition modsi3 :: "u32 \<Rightarrow> u32 \<Rightarrow> u32" where
  "modsi3 u v =
    (let c = False;
         (c, u) = (if u <s 0 then (\<not> c, - u) else (c, u));
         v = (if v <s 0 then - v else v);
         w = snd (udivmodsi4 u v)
     in if c then - w else w)"

definition udivsi3 :: "u32 \<Rightarrow> u32 \<Rightarrow> u32" where
  "udivsi3 u v = fst (udivmodsi4 u v)"

definition umodsi3 :: "u32 \<Rightarrow> u32 \<Rightarrow> u32" where
  "umodsi3 u v = snd (udivmodsi4 u v)"

subsection \<open>64 bits\<close>

definition mul64 :: "u64 \<Rightarrow> u64 \<Rightarrow> u64" where
  "mul64 u v =
    (let u1 = ucast (drop_bit 32 u) :: u32;
         u0 = ucast u :: u32;
         v1 = ucast (drop_bit 32 v) :: u32;
         v0 = ucast v :: u32;
         t = (ucast u0 :: u64) * ucast v0;
         w0 = ucast t :: u32;
         k = ucast (drop_bit 32 t) :: u32;
         tlast = u1 * v0 + k;
         w1 = tlast;
         tlast = u0 * v1 + w1
     in push_bit 32 (ucast tlast) OR ucast w0)"

definition umulh64 :: "u64 \<Rightarrow> u64 \<Rightarrow> u64" where
  "umulh64 u v =
    (let u1 = ucast (drop_bit 32 u) :: u32;
         u0 = ucast u :: u32;
         v1 = ucast (drop_bit 32 v) :: u32;
         v0 = ucast v :: u32;
         t = (ucast u0 :: u64) * ucast v0;
         k = ucast (drop_bit 32 t) :: u32;
         t0 = (ucast u1 :: u64) * ucast v0;
         t = t0 + ucast k;
         w1 = ucast t :: u32;
         w2 = ucast (drop_bit 32 t) :: u32;
         t0 = (ucast u0 :: u64) * ucast v1;
         t = t0 + ucast w1;
         k = ucast (drop_bit 32 t) :: u32;
         t0 = (ucast u1 :: u64) * ucast v1;
         t1 = (ucast w2 :: u64) + ucast k
     in t0 + t1)"

definition lsl64 :: "u64 \<Rightarrow> u64 \<Rightarrow> u64" where
  "lsl64 a b = push_bit (unat b) a"

definition lsr64 :: "u64 \<Rightarrow> u64 \<Rightarrow> u64" where
  "lsr64 a b = drop_bit (unat b) a"

text \<open>The loop of the recurrence; \<open>n\<close> counts the iterations that remain.\<close>

fun z_recurrence :: "nat \<Rightarrow> u64 \<Rightarrow> u64 \<Rightarrow> u64" where
  "z_recurrence 0 my z = z"
| "z_recurrence (Suc n) my z =
     (let zd = umulh64 z (mul64 my z) in z_recurrence n my (z + zd))"

text \<open>The correction of the estimate, at most three times.\<close>

definition q_refinement :: "u64 \<Rightarrow> u64 \<Rightarrow> u64 \<Rightarrow> u64 \<times> u64" where
  "q_refinement y q r =
    (if r \<ge> y then
       (let r = r - y; q = q + 1
        in if r \<ge> y then
             (let r = r - y; q = q + 1
              in if r \<ge> y then (q + 1, r - y) else (q, r))
           else (q, r))
     else (q, r))"

definition udivmoddi4 :: "u64 \<Rightarrow> u64 \<Rightarrow> u64 \<times> u64" where
  "udivmoddi4 x y =
    (let k = clzll y;
         lshifted_y = lsl64 y (ucast k);
         lshifted_y = push_bit 1 lshifted_y;
         ty = lsr64 lshifted_y (64 - 8);
         t = ucast (unrt ! unat ty) OR 256;
         z = lsr64 (lsl64 t (64 - 9)) (64 - ucast k - 1);
         my = 0 - y;
         z = z_recurrence 3 my z;
         q = umulh64 x z;
         r = x - mul64 y q
     in q_refinement y q r)"

definition divdi3 :: "u64 \<Rightarrow> u64 \<Rightarrow> u64" where
  "divdi3 u v =
    (let c = False;
         (c, u) = (if u <s 0 then (\<not> c, - u) else (c, u));
         (c, v) = (if v <s 0 then (\<not> c, - v) else (c, v));
         w = fst (udivmoddi4 u v)
     in if c then - w else w)"

definition moddi3 :: "u64 \<Rightarrow> u64 \<Rightarrow> u64" where
  "moddi3 u v =
    (let c = False;
         (c, u) = (if u <s 0 then (\<not> c, - u) else (c, u));
         v = (if v <s 0 then - v else v);
         w = snd (udivmoddi4 u v)
     in if c then - w else w)"

definition udivdi3 :: "u64 \<Rightarrow> u64 \<Rightarrow> u64" where
  "udivdi3 u v = fst (udivmoddi4 u v)"

definition umoddi3 :: "u64 \<Rightarrow> u64 \<Rightarrow> u64" where
  "umoddi3 u v = snd (udivmoddi4 u v)"

subsection \<open>64 by 32 bits\<close>

text \<open>
  The divisor is cut to 32 bits (\<^verbatim>\<open>BIT_RESIZE(y, 32)\<close>) and normalised in 32 bits. The
  helper functions of \<^verbatim>\<open>divdi36432.c\<close> repeat those of \<^verbatim>\<open>divdi3.c\<close>.
\<close>

definition udivmoddi4_6432 :: "u64 \<Rightarrow> u64 \<Rightarrow> u64 \<times> u64" where
  "udivmoddi4_6432 x y =
    (let y = VAL_RESIZE y 32;
         k32 = clz (ucast y);
         lshifted_y = push_bit 32 (ucast (push_bit (unat k32) (ucast y :: u32)) :: u64);
         lshifted_y = push_bit 1 lshifted_y;
         ty = lsr64 lshifted_y (64 - 8);
         t = ucast (unrt ! unat ty) OR 256;
         z = lsr64 (lsl64 t (64 - 9)) (64 - 32 - 1 - ucast k32);
         my = 0 - y;
         z = z_recurrence 3 my z;
         q = umulh64 x z;
         r = x - mul64 y q
     in q_refinement y q r)"

definition divdi36432 :: "u64 \<Rightarrow> u32 \<Rightarrow> u64" where
  "divdi36432 u v =
    (let c = False;
         w_v = scast v;
         (c, u) = (if u <s 0 then (\<not> c, - u) else (c, u));
         (c, w_v) = (if v <s 0 then (\<not> c, - w_v) else (c, w_v));
         w = fst (udivmoddi4_6432 u w_v)
     in if c then - w else w)"

definition moddi36432 :: "u64 \<Rightarrow> u32 \<Rightarrow> u64" where
  "moddi36432 u v =
    (let c = False;
         w_v = scast v;
         (c, u) = (if u <s 0 then (\<not> c, - u) else (c, u));
         w_v = (if v <s 0 then - w_v else w_v);
         w = snd (udivmoddi4_6432 u w_v)
     in if c then - w else w)"

definition udivdi36432 :: "u64 \<Rightarrow> u32 \<Rightarrow> u64" where
  "udivdi36432 u v = fst (udivmoddi4_6432 u (ucast v))"

definition umoddi36432 :: "u64 \<Rightarrow> u32 \<Rightarrow> u64" where
  "umoddi36432 u v = snd (udivmoddi4_6432 u (ucast v))"

section \<open>Newton's iteration for the reciprocal, in natural numbers\<close>

text \<open>
  \<open>z\<close> approximates \<open>M / y\<close> from below; the error of the product \<open>y\<cdot>z\<close> against \<open>M\<close> is
  squared (and divided by \<open>M\<close>) by each iteration.
\<close>

definition newton_iter :: "nat \<Rightarrow> nat \<Rightarrow> nat \<Rightarrow> nat" where
  "newton_iter M y z = z + z * (M - y * z) div M"

definition newton_inv :: "nat \<Rightarrow> nat \<Rightarrow> nat \<Rightarrow> bool" where
  "newton_inv M y z \<longleftrightarrow> 0 < z \<and> z < M \<and> y * z \<le> M"

lemma newton_iter_error:
  assumes "newton_inv M y z" "0 < y"
  shows "y * newton_iter M y z \<le> M"
    and "(M - y * z)\<^sup>2 \<le> M * (M - y * newton_iter M y z)"
    and "M * (M - y * newton_iter M y z) < (M - y * z)\<^sup>2 + y * M"
    and "M - y * newton_iter M y z \<le> M - y * z"
proof -
  define e d where ed: "e = M - y * z" "d = z * e div M"
  have M: "y * z + e = M" "0 < M" using assms by (auto simp: newton_inv_def ed)
  have d: "M * d \<le> z * e" "z * e < M * d + M"
    using M(2) mod_less_divisor [of M "z * e"] mult_div_mod_eq [of M "z * e"] unfolding ed(2) by linarith+
  have n: "y * newton_iter M y z = y * z + y * d" by (simp add: newton_iter_def ed algebra_simps)
  have yd: "M * (y * d) \<le> y * z * e" "y * z * e < M * (y * d) + y * M"
    using mult_le_mono2 [OF d(1), of y] mult_strict_left_mono [OF d(2) assms(2)]
    by (simp_all add: algebra_simps)
  have e2: "y * z * e + e * e = M * e" using M(1) by (metis distrib_right)
  then have "M * (y * d) \<le> M * e" using yd by linarith
  then have le: "y * d \<le> e" using M(2) by simp
  have e': "M - y * newton_iter M y z = e - y * d" using M(1) n by linarith
  have Me': "M * (e - y * d) + M * (y * d) = M * e" using le by (simp flip: distrib_left)
  show "y * newton_iter M y z \<le> M" using n M(1) le by linarith
  show "(M - y * z)\<^sup>2 \<le> M * (M - y * newton_iter M y z)"
    unfolding e' ed(1) [symmetric] power2_eq_square using Me' yd e2 by linarith
  show "M * (M - y * newton_iter M y z) < (M - y * z)\<^sup>2 + y * M"
    unfolding e' ed(1) [symmetric] power2_eq_square using Me' yd e2 by linarith
  show "M - y * newton_iter M y z \<le> M - y * z" unfolding e' ed(1) [symmetric] by simp
qed

lemma newton_iter_inv:
  assumes "newton_inv M y z" "0 < y"
  shows "newton_inv M y (newton_iter M y z)"
proof -
  note E = newton_iter_error [OF assms]
  have "newton_iter M y z < M"
  proof (cases "y = 1")
    case True
    then have "0 < (M - y * z)\<^sup>2" using assms(1) by (simp add: newton_inv_def)
    then have "0 < M * (M - y * newton_iter M y z)" using E(2) by linarith
    then show ?thesis using True by simp
  next
    case False
    then have "2 * newton_iter M y z \<le> y * newton_iter M y z" using assms(2) by (intro mult_le_mono1) simp
    moreover have "0 < M" using assms(1) by (simp add: newton_inv_def)
    ultimately show ?thesis using E(1) by linarith
  qed
  then show ?thesis using E(1) assms(1) by (simp add: newton_inv_def newton_iter_def)
qed

text \<open>A bound \<open>c + y\<close> on the error becomes \<open>c\<^sup>2 / M + y\<close>, up to the cross terms.\<close>

lemma newton_iter_bound:
  assumes "newton_inv M y z" "0 < y" "M - y * z \<le> c" "c * c + y * M \<le> M * b"
  shows "M - y * newton_iter M y z < b"
proof -
  have "(M - y * z)\<^sup>2 \<le> c * c" using assms(3) by (simp add: power2_eq_square mult_mono)
  then have "M * (M - y * newton_iter M y z) < M * b"
    using newton_iter_error(3) [OF assms(1,2)] assms(4) by linarith
  then show ?thesis by simp
qed

lemma newton_quotient:
  assumes "newton_inv M y z" "0 < y" "x < M" "M - y * z \<le> n * y"
  shows "y * (x * z div M) \<le> x" and "x - y * (x * z div M) < Suc n * y" and "x * z div M \<le> x div y"
proof -
  define e q where eq: "e = M - y * z" "q = x * z div M"
  have M: "y * z + e = M" "0 < M" using assms by (auto simp: newton_inv_def eq)
  have q: "M * q \<le> x * z" "x * z < M * q + M"
    using M(2) mod_less_divisor [of M "x * z"] mult_div_mod_eq [of M "x * z"] unfolding eq(2) by linarith+
  have yq: "M * (y * q) \<le> x * (y * z)" "x * (y * z) < M * (y * q) + y * M"
    using mult_le_mono2 [OF q(1), of y] mult_strict_left_mono [OF q(2) assms(2)]
    by (simp_all add: algebra_simps)
  have s: "x * (y * z) + x * e = M * x" using M(1) by (metis distrib_left mult.commute)
  then have "M * (y * q) \<le> M * x" using yq by linarith
  then show le: "y * (x * z div M) \<le> x" using M(2) eq by simp
  then show "x * z div M \<le> x div y" using assms(2) by (simp add: less_eq_div_iff_mult_less_eq mult.commute)
  have "x * e \<le> M * (n * y)" using assms(3,4) eq by (intro mult_mono) auto
  then have "M * x < M * (y * q) + y * M + M * (n * y)" using s yq by linarith
  also have "\<dots> = M * (y * q + Suc n * y)" by (simp add: algebra_simps)
  finally have "x < y * q + Suc n * y" using M(2) by simp
  then show "x - y * (x * z div M) < Suc n * y" using le unfolding eq(2) [symmetric] by linarith
qed

section \<open>The table of reciprocals\<close>

lemma unrt_table:
  "list_all (\<lambda>(i, t). (257 + i) * (256 + unat t) \<le> 131072 \<and> 130339 \<le> (256 + i) * (256 + unat t))
    (enumerate 0 unrt)"
  by (simp add: unrt_def enumerate_eq_zip upt_conv_Cons)

lemma unrt_length: "length unrt = 256"
  by (simp add: unrt_def)

lemma unrt_reciprocal:
  assumes "i < 256"
  shows "(257 + i) * (256 + unat (unrt ! i)) \<le> 131072" and "130339 \<le> (256 + i) * (256 + unat (unrt ! i))"
proof -
  have "(i, unrt ! i) \<in> set (enumerate 0 unrt)"
    using assms unrt_length by (simp add: in_set_enumerate_eq)
  then show "(257 + i) * (256 + unat (unrt ! i)) \<le> 131072" and "130339 \<le> (256 + i) * (256 + unat (unrt ! i))"
    using unrt_table by (auto simp: list_all_iff)
qed


text \<open>
  The seed: the eight bits below the leading one of the divisor select \<open>T\<close>, and \<open>T\<close> scaled
  by the position of the leading one is a reciprocal good to about eight bits.
\<close>

lemma newton_seed:
  assumes W: "17 \<le> W" and k: "is_clz W y k"
  defines "ty \<equiv> y * 2 ^ k * 2 mod 2 ^ W div 2 ^ (W - 8)"
  defines "z \<equiv> (256 + unat (unrt ! ty)) * 2 ^ (W - 9) div 2 ^ (W - 1 - k)"
  shows "ty < 256" and "newton_inv (2 ^ W) y z"
    and "256 * (2 ^ W - y * z) < 733 * 2 ^ (W - 9) + 256 * y"
    and "8 \<le> k \<Longrightarrow> 256 * (2 ^ W - y * z) \<le> 733 * 2 ^ (W - 9)"
proof -
  define B D Y T where d: "B = (2::nat) ^ (W - 9)" "D = (2::nat) ^ (W - 1 - k)" "Y = y * 2 ^ k"
    "T = 256 + unat (unrt ! ty)"
  have B0: "0 < B" by (simp add: d)
  have M: "2 ^ W = 512 * B" "2 ^ (W - 8) = 2 * B" "2 ^ (W - 1) = 256 * B"
  proof -
    obtain w where "W = w + 9" using W that [of "W - 9"] by simp
    then show "2 ^ W = 512 * B" "2 ^ (W - 8) = 2 * B" "2 ^ (W - 1) = 256 * B"
      by (simp_all add: d power_add)
  qed
  have kW: "k < W" using k by (simp add: is_clz_def)
  have DK: "D * 2 ^ k = 256 * B" using kW M(3) by (simp add: d flip: power_add)
  have Y: "256 * B \<le> Y" "Y < 512 * B"
    using is_clz_mult_less [OF k] unfolding M d(3) [symmetric] by simp_all
  have tyY: "ty = (Y - 256 * B) div B"
  proof -
    have "Y * 2 mod (512 * B) = (Y - 256 * B) * 2" using Y by (simp add: mod_if diff_mult_distrib)
    then show ?thesis unfolding ty_def M d(3) [symmetric] by simp
  qed
  have "ty * B \<le> Y - 256 * B" "Y - 256 * B < ty * B + B"
    unfolding tyY using div_mult_mod_eq [of "Y - 256 * B" B] mod_less_divisor [OF B0, of "Y - 256 * B"] by linarith+
  then have "(256 + ty) * B \<le> Y" "Y < (257 + ty) * B" "ty * B < 256 * B"
    using Y unfolding add_mult_distrib by linarith+
  then have ty: "(256 + ty) * B \<le> Y" "Y < (257 + ty) * B" "ty < 256" by simp_all
  then show "ty < 256" by simp
  note t = unrt_reciprocal [OF ty(3), folded d(4)]
  have z: "D * z \<le> T * B" "T * B < D * z + D"
  proof -
    have "0 < D" by (simp add: d(2))
    then show "D * z \<le> T * B" "T * B < D * z + D"
      using mult_div_mod_eq [of D "T * B"] mod_less_divisor [of D "T * B"]
      unfolding z_def d(1,2,4) [symmetric] by linarith+
  qed
  have YD: "Y * D = 256 * B * y" using DK by (simp add: d(3) algebra_simps)
  have up: "Y * (T * B) \<le> 131072 * B * B"
  proof -
    have "Y * T \<le> (257 + ty) * B * T" using ty(2) by (intro mult_le_mono1) simp
    also have "\<dots> \<le> 131072 * B" using mult_le_mono1 [OF t(1), of B] by (simp add: algebra_simps)
    finally show ?thesis using mult_le_mono1 [of "Y * T" "131072 * B" B] by (simp add: algebra_simps)
  qed
  have lo: "130339 * B * B \<le> Y * (T * B)"
  proof -
    have "130339 * B \<le> (256 + ty) * B * T" using mult_le_mono1 [OF t(2), of B] by (simp add: algebra_simps)
    also have "\<dots> \<le> Y * T" using ty(1) by (intro mult_le_mono1)
    finally show ?thesis using mult_le_mono1 [of "130339 * B" "Y * T" B] by (simp add: algebra_simps)
  qed
  have YDz: "Y * (D * z) = 256 * B * (y * z)" using YD by (simp add: mult.assoc [symmetric])
  have "256 * B * (y * z) \<le> 131072 * B * B"
    using mult_le_mono2 [OF z(1), of Y] up YDz by linarith
  then have yz: "y * z \<le> 512 * B" using B0 by simp
  have "Y * (T * B) < Y * (D * z) + Y * D" using mult_strict_left_mono [OF z(2), of Y] Y B0
    by (simp add: algebra_simps)
  then have "130339 * B * B < 256 * B * (y * z) + 256 * B * y" using lo unfolding YDz YD by linarith
  then have "B * (130339 * B) < B * (256 * (y * z) + 256 * y)" by (simp add: algebra_simps)
  then have lower: "130339 * B < 256 * (y * z) + 256 * y" using B0 by simp
  show "256 * (2 ^ W - y * z) < 733 * 2 ^ (W - 9) + 256 * y"
    unfolding M d(1) [symmetric] using lower yz by linarith
  have "D \<le> T * B"
  proof -
    have "D * 1 \<le> D * 2 ^ k" by (intro mult_le_mono2) simp
    also have "\<dots> \<le> T * B" unfolding DK by (simp add: d(4))
    finally show ?thesis by simp
  qed
  then have "0 < z" unfolding z_def d(1,2,4) [symmetric] by (simp add: div_greater_zero_iff d(2))
  moreover have "z \<le> T * B" unfolding z_def d(1,2,4) [symmetric] by simp
  moreover have "T * B < 512 * B" using B0 unat_less_exp [of "unrt ! ty"] by (simp add: d(4))
  ultimately show "newton_inv (2 ^ W) y z" using yz unfolding newton_inv_def M by linarith
  assume "8 \<le> k"
  then have "B = D * 2 ^ (k - 8)" using kW W by (simp add: d flip: power_add)
  then have "D * z = T * B" unfolding z_def d(1,2,4) [symmetric] by simp
  then have "Y * (T * B) = 256 * B * (y * z)" using YDz by (simp only:)
  then have "130339 * B * B \<le> 256 * B * (y * z)" using lo by linarith
  then have "B * (130339 * B) \<le> B * (256 * (y * z))" by (simp add: algebra_simps)
  then have "130339 * B \<le> 256 * (y * z)" using B0 by simp
  then show "256 * (2 ^ W - y * z) \<le> 733 * 2 ^ (W - 9)"
    unfolding M d(1) [symmetric] using yz by linarith
qed

text \<open>Two iterations in 32 bits leave an error below \<open>2y\<close>, three in 64 bits below \<open>3y\<close>.\<close>

lemma newton_error_32:
  assumes k: "is_clz 32 y k" "0 < y"
  defines "z \<equiv> (256 + unat (unrt ! (y * 2 ^ k * 2 mod 2 ^ 32 div 2 ^ 24))) * 2 ^ 23 div 2 ^ (31 - k)"
  shows "2 ^ 32 - y * newton_iter (2 ^ 32) y (newton_iter (2 ^ 32) y z) \<le> 2 * y"
proof -
  let ?M = "2 ^ 32 :: nat"
  have inv: "newton_inv ?M y z" and e: "?M - y * z < 24018944 + y"
    and e8: "8 \<le> k \<Longrightarrow> ?M - y * z \<le> 24018944"
    using newton_seed [OF _ k(1)] unfolding z_def by simp_all
  note inv1 = newton_iter_inv [OF inv k(2)]
  note mono = newton_iter_error(4) [OF inv1 k(2)] newton_iter_error(4) [OF inv k(2)]
  consider "24018944 \<le> y" | "2 ^ 24 \<le> y" "y < 24018944" | "5 \<le> y" "y < 2 ^ 24" | "y < 5" by linarith
  then show ?thesis
  proof cases
    case 1
    then show ?thesis using e mono by linarith
  next
    case 2
    have "?M - y * newton_iter ?M y z < 2 * y"
      by (rule newton_iter_bound [OF inv k(2), of 48037888]) (use e 2 in simp_all)
    then show ?thesis using mono by linarith
  next
    case 3
    have "2 ^ (31 - k) < (2::nat) ^ 24" using k 3 by (auto simp: is_clz_def)
    from power_less_imp_less_exp [OF _ this] have "8 \<le> k" by simp
    then have e1: "?M - y * newton_iter ?M y z < 134323 + y"
      by (intro newton_iter_bound [OF inv k(2) e8]) simp_all
    have yy: "y * y \<le> y * 16777216" using 3 by (intro mult_le_mono2) simp
    have "(134323 + y) * (134323 + y) + y * ?M \<le> ?M * (2 * y)"
      by (simp add: algebra_simps) (use 3 yy in linarith)
    from newton_iter_bound [OF inv1 k(2) less_imp_le [OF e1] this] show ?thesis by simp
  next
    case 4
    have c: "is_clz 32 1 31"
      "is_clz 32 2 30"
      "is_clz 32 3 30"
      "is_clz 32 4 29"
      by (simp_all add: is_clz_def)
    have "y = 1 \<or> y = 2 \<or> y = 3 \<or> y = 4" using k(2) 4 by linarith
    then have "y = 1 \<and> k = 31 \<or> y = 2 \<and> k = 30 \<or> y = 3 \<and> k = 30 \<or> y = 4 \<and> k = 29"
      using k(1) c [THEN is_clz_unique] by (elim disjE) (simp_all; blast)+
    then show ?thesis
      by (elim disjE conjE) (simp_all add: z_def unrt_def newton_iter_def)
  qed
qed

lemma newton_error_64:
  assumes k: "is_clz 64 y k" "0 < y"
  defines "z \<equiv> (256 + unat (unrt ! (y * 2 ^ k * 2 mod 2 ^ 64 div 2 ^ 56))) * 2 ^ 55 div 2 ^ (63 - k)"
  shows "2 ^ 64 - y * newton_iter (2 ^ 64) y (newton_iter (2 ^ 64) y (newton_iter (2 ^ 64) y z)) \<le> 3 * y"
proof -
  let ?M = "2 ^ 64 :: nat"
  have inv: "newton_inv ?M y z" and e: "?M - y * z < 103160578964455424 + y"
    and e8: "8 \<le> k \<Longrightarrow> ?M - y * z \<le> 103160578964455424"
    using newton_seed [OF _ k(1)] unfolding z_def by simp_all
  note inv1 = newton_iter_inv [OF inv k(2)]
  note inv2 = newton_iter_inv [OF inv1 k(2)]
  note mono = newton_iter_error(4) [OF inv2 k(2)] newton_iter_error(4) [OF inv1 k(2)]
    newton_iter_error(4) [OF inv k(2)]
  consider "2 ^ 56 \<le> y" | "9 \<le> y" "y < 2 ^ 56" | "y < 9" by linarith
  then show ?thesis
  proof cases
    case 1
    then have "72057594037927936 \<le> y" by simp
    then show ?thesis using e mono by linarith
  next
    case 2
    have yy: "y * y \<le> y * 72057594037927936" using 2 by (intro mult_le_mono2) simp
    have "2 ^ (63 - k) < (2::nat) ^ 56" using k 2 by (auto simp: is_clz_def)
    from power_less_imp_less_exp [OF _ this] have "8 \<le> k" by simp
    then have e1: "?M - y * newton_iter ?M y z < 576909670875137 + y"
      by (intro newton_iter_bound [OF inv k(2) e8]) simp_all
    have "(576909670875137 + y) * (576909670875137 + y) + y * ?M \<le> ?M * (18042466846 + 2 * y)"
      by (simp add: algebra_simps) (use yy in linarith)
    note e2 = newton_iter_bound [OF inv1 k(2) less_imp_le [OF e1] this]
    have "(18042466846 + 2 * y) * (18042466846 + 2 * y) + y * ?M \<le> ?M * (3 * y)"
      by (simp add: algebra_simps) (use 2 yy in linarith)
    from newton_iter_bound [OF inv2 k(2) less_imp_le [OF e2] this] show ?thesis by simp
  next
    case 3
    have c: "is_clz 64 1 63"
      "is_clz 64 2 62"
      "is_clz 64 3 62"
      "is_clz 64 4 61"
      "is_clz 64 5 61"
      "is_clz 64 6 61"
      "is_clz 64 7 61"
      "is_clz 64 8 60"
      by (simp_all add: is_clz_def)
    have "y = 1 \<or> y = 2 \<or> y = 3 \<or> y = 4 \<or> y = 5 \<or> y = 6 \<or> y = 7 \<or> y = 8" using k(2) 3 by linarith
    then have "y = 1 \<and> k = 63 \<or> y = 2 \<and> k = 62 \<or> y = 3 \<and> k = 62 \<or> y = 4 \<and> k = 61 \<or> y = 5 \<and> k = 61 \<or> y = 6 \<and> k = 61 \<or> y = 7 \<and> k = 61 \<or> y = 8 \<and> k = 60"
      using k(1) c [THEN is_clz_unique] by (elim disjE) (simp_all; blast)+
    then show ?thesis
      by (elim disjE conjE) (simp_all add: z_def unrt_def newton_iter_def)
  qed
qed

section \<open>From words to natural numbers\<close>

lemma unat_newton_product:
  fixes y z :: "'a::len word"
  assumes "newton_inv (2 ^ LENGTH('a)) (unat y) (unat z)" "y \<noteq> 0"
  shows "unat ((0 - y) * z) = 2 ^ LENGTH('a) - unat y * unat z"
proof -
  have yz: "unat y * unat z \<le> 2 ^ LENGTH('a)" "0 < unat y * unat z"
    using assms by (simp_all add: newton_inv_def unat_gt_0)
  have "(of_nat (2 ^ LENGTH('a) - unat y * unat z) :: 'a word) = of_nat (2 ^ LENGTH('a)) - of_nat (unat y * unat z)"
    using yz(1) by (rule of_nat_diff)
  also have "\<dots> = (0 - y) * z" by simp
  finally have "(0 - y) * z = of_nat (2 ^ LENGTH('a) - unat y * unat z)" by simp
  moreover have "2 ^ LENGTH('a) - unat y * unat z < 2 ^ LENGTH('a)" using yz by simp
  ultimately show ?thesis by (simp only: unat_of_nat mod_less)
qed

lemma unat_newton_step:
  fixes y z :: "'a::len word"
  assumes "newton_inv (2 ^ LENGTH('a)) (unat y) (unat z)" "y \<noteq> 0"
    and "unat d = unat z * unat ((0 - y) * z) div 2 ^ LENGTH('a)"
  shows "unat (z + d) = newton_iter (2 ^ LENGTH('a)) (unat y) (unat z)"
proof -
  have e: "unat z + unat d = newton_iter (2 ^ LENGTH('a)) (unat y) (unat z)"
    using assms(3) unat_newton_product [OF assms(1,2)] by (simp add: newton_iter_def)
  moreover have "newton_iter (2 ^ LENGTH('a)) (unat y) (unat z) < 2 ^ LENGTH('a)"
    using newton_iter_inv [OF assms(1)] assms(2) by (simp add: newton_inv_def unat_gt_0)
  ultimately show ?thesis by (simp add: unat_add_small)
qed

lemma correction_step:
  fixes x y q r :: "'a::len word"
  assumes "unat q * unat y + unat r = unat x" "y \<le> r" "y \<noteq> 0"
  shows "unat (q + 1) * unat y + unat (r - y) = unat x" and "unat (r - y) = unat r - unat y"
proof -
  have yr: "unat y \<le> unat r" using assms(2) by (simp add: word_le_nat_alt)
  then show r: "unat (r - y) = unat r - unat y" by (rule unat_diff_le)
  have "unat q * 1 \<le> unat q * unat y" using assms(3) by (intro mult_le_mono2) (simp add: unat_gt_0 Suc_leI)
  then have "unat q + 1 \<le> unat x" using assms yr unat_gt_0 [of y] by linarith
  then have "unat (q + 1) = unat q + 1" by (subst unat_add_small) (use le_less_trans [OF _ unat_less_exp] in simp_all)
  then show "unat (q + 1) * unat y + unat (r - y) = unat x" using r yr assms(1) by simp
qed

lemma correction_done:
  fixes x y q r :: "'a::len word"
  assumes "unat q * unat y + unat r = unat x" "\<not> y \<le> r"
  shows "q = x div y" "r = x mod y"
proof -
  have "unat r < unat y" using assms(2) by (simp add: word_le_nat_alt)
  then have "unat x div unat y = unat q" "unat x mod unat y = unat r"
    unfolding assms(1) [symmetric] by simp_all
  then show "q = x div y" "r = x mod y"
    by (simp_all add: word_unat_eq_iff unat_div_distrib unat_mod_distrib)
qed

lemma correct_once:
  fixes x y q r :: "'a::len word"
  assumes "unat q * unat y + unat r = unat x" "unat r < 2 * unat y" "y \<noteq> 0"
  shows "(if r \<ge> y then (q + 1, r - y) else (q, r)) = (x div y, x mod y)"
proof (cases "y \<le> r")
  case True
  note st = correction_step [OF assms(1) True assms(3)]
  then have "\<not> y \<le> r - y" using assms(2) by (simp add: word_le_nat_alt)
  then show ?thesis using correction_done [OF st(1)] True by simp
qed (use correction_done [OF assms(1)] in simp)

lemma correct_twice:
  fixes x y q r :: "'a::len word"
  assumes "unat q * unat y + unat r = unat x" "unat r < 3 * unat y" "y \<noteq> 0"
  shows "(if r \<ge> y then (let r = r - y; q = q + 1
      in if r \<ge> y then (q + 1, r - y) else (q, r)) else (q, r)) = (x div y, x mod y)"
proof (cases "y \<le> r")
  case True
  note st = correction_step [OF assms(1) True assms(3)]
  then have "unat (r - y) < 2 * unat y" using assms(2) True by (simp add: word_le_nat_alt)
  from correct_once [OF st(1) this assms(3)] show ?thesis using True by (simp only: Let_def if_True)
qed (use correction_done [OF assms(1)] in simp)

lemma q_refinement_correct:
  assumes "unat q * unat y + unat r = unat x" "unat r < 4 * unat y" "y \<noteq> 0"
  shows "q_refinement y q r = (x div y, x mod y)"
proof (cases "y \<le> r")
  case True
  note st = correction_step [OF assms(1) True assms(3)]
  then have "unat (r - y) < 3 * unat y" using assms(2) True by (simp add: word_le_nat_alt)
  from correct_twice [OF st(1) this assms(3)] show ?thesis
    using True by (simp only: q_refinement_def Let_def if_True)
qed (use correction_done [OF assms(1)] in \<open>simp add: q_refinement_def\<close>)

text \<open>The estimate \<open>x\<cdot>z / 2\<^sup>W\<close> of the quotient, as words.\<close>

lemma quotient_estimate:
  fixes x y z q :: "'a::len word"
  assumes "newton_inv (2 ^ LENGTH('a)) (unat y) (unat z)" "y \<noteq> 0"
    and "2 ^ LENGTH('a) - unat y * unat z \<le> n * unat y"
    and q: "unat q = unat x * unat z div 2 ^ LENGTH('a)"
  shows "unat q * unat y + unat (x - y * q) = unat x" and "unat (x - y * q) < Suc n * unat y"
proof -
  have "0 < unat y" using assms(2) by (simp add: unat_gt_0)
  note Q = newton_quotient [OF assms(1) this unat_less_exp assms(3), of x, folded q]
  have "unat (y * q) = unat y * unat q"
    using le_less_trans [OF Q(1) unat_less_exp] by (simp add: unat_word_ariths)
  then show "unat q * unat y + unat (x - y * q) = unat x" "unat (x - y * q) < Suc n * unat y"
    using Q by (simp_all add: unat_diff_le mult.commute)
qed

lemma unat_or_256:
  "unat (ucast (t :: u8) OR 256 :: u32) = 256 + unat t" "unat (ucast (t :: u8) OR 256 :: u64) = 256 + unat t"
proof -
  have "(ucast t :: u32) AND 2 ^ 8 = 0" "(ucast t :: u64) AND 2 ^ 8 = 0"
    by (rule bit_word_eqI; auto simp only: bit_and_iff bit_exp_iff bit_unsigned_iff bit_0_eq bot_apply
        dest!: bit_imp_le_length; simp)+
  then have "(ucast t OR 256 :: u32) = ucast t + 256" "(ucast t OR 256 :: u64) = ucast t + 256"
    by (simp_all add: disjunctive_add_eq_or)
  then show "unat (ucast t OR 256 :: u32) = 256 + unat t" "unat (ucast t OR 256 :: u64) = 256 + unat t"
    using unat_less_exp [of t] by (simp_all add: unat_word_ariths unat_simps)
qed

subsection \<open>32 bits\<close>

lemma udivmodsi4_seed:
  fixes y :: u32
  assumes y: "y \<noteq> 0"
  defines "ty \<equiv> lsr (push_bit 1 (lsl y (ucast (clz y)))) (32 - 8)"
  shows "unat (lsr (lsl (ucast (unrt ! unat ty) OR 256) (32 - 9)) (32 - ucast (clz y) - 1)) =
    (256 + unat (unrt ! (unat y * 2 ^ unat (clz y) * 2 mod 2 ^ 32 div 2 ^ 24))) * 2 ^ 23 div 2 ^ (31 - unat (clz y))"
proof -
  note k = clz_clz [OF y]
  then have k32: "unat (clz y) < 32" by (simp add: is_clz_def)
  have k': "unat (ucast (clz y) :: u32) = unat (clz y)"
    using unat_less_exp [of "clz y"] by (simp add: unat_simps)
  have "unat (32 - ucast (clz y) :: u32) = 32 - unat (clz y)"
    using k32 k' by (subst unat_diff_le) simp_all
  then have s: "unat (32 - ucast (clz y) - 1 :: u32) = 31 - unat (clz y)"
    using k32 by (subst unat_diff_le) simp_all
  have ty: "unat ty = unat y * 2 ^ unat (clz y) * 2 mod 2 ^ 32 div 2 ^ 24"
    unfolding ty_def lsr_def lsl_def k' unat_drop_bit_div unat_push_bit_mult by (simp add: mod_mult_left_eq)
  have "(256 + unat (unrt ! unat ty)) * 2 ^ 23 < 2 ^ 32"
    using unat_less_exp [of "unrt ! unat ty"] by simp
  then show ?thesis
    unfolding lsr_def lsl_def s ty [symmetric] unat_drop_bit_div unat_push_bit_mult unat_or_256 by simp
qed

lemma udivmodsi4_correct:
  assumes y: "y \<noteq> 0"
  shows "udivmodsi4 x y = (x div y, x mod y)"
proof -
  let ?M = "2 ^ 32 :: nat"
  define step where "step z = z + fst (umul_ppmm z ((0 - y) * z))" for z
  have step: "unat (step z) = newton_iter ?M (unat y) (unat z)" if "newton_inv ?M (unat y) (unat z)" for z
    unfolding step_def using unat_newton_step [of y z] that y by (simp add: unat_umul_ppmm(2))
  define z where "z = lsr (lsl (ucast (unrt ! unat (lsr (push_bit 1 (lsl y (ucast (clz y)))) (32 - 8))) OR 256)
    (32 - 9)) (32 - ucast (clz y) - 1)"
  note seed = udivmodsi4_seed [OF y, folded z_def]
  note k = clz_clz [OF y] and ypos = y [folded unat_gt_0]
  have inv: "newton_inv ?M (unat y) (unat z)"
    using newton_seed(2) [OF _ k] unfolding seed by simp
  have e: "?M - unat y * newton_iter ?M (unat y) (newton_iter ?M (unat y) (unat z)) \<le> 2 * unat y"
    using newton_error_32 [OF k ypos] unfolding seed .
  note inv1 = newton_iter_inv [OF inv ypos, folded step [OF inv]]
  note inv2 = newton_iter_inv [OF inv1 ypos, folded step [OF inv1]]
  define q where "q = fst (umul_ppmm x (step (step z)))"
  have q: "unat q = unat x * unat (step (step z)) div 2 ^ LENGTH(32)" by (simp add: q_def unat_umul_ppmm(2))
  have e': "2 ^ LENGTH(32) - unat y * unat (step (step z)) \<le> 2 * unat y"
    using e unfolding step [OF inv1] step [OF inv] by simp
  have inv3: "newton_inv (2 ^ LENGTH(32)) (unat y) (unat (step (step z)))" using inv2 by simp
  note est = quotient_estimate [OF inv3 y e' q]
  have "udivmodsi4 x y = (let r = x - y * q in if r \<ge> y then (let r = r - y; q = q + 1
      in if r \<ge> y then (q + 1, r - y) else (q, r)) else (q, r))"
    unfolding udivmodsi4_def z_def q_def step_def mul_def Let_def case_prod_unfold by simp
  also have "\<dots> = (x div y, x mod y)"
    using correct_twice [OF est(1) _ y] est(2) by (simp add: Let_def)
  finally show ?thesis .
qed

subsection \<open>64 bits\<close>

lemma unat_umulh64: "unat (umulh64 u v) = unat u * unat v div 2 ^ 64"
proof -
  have "umulh64 u v = fst (umul_ppmm_2 u v)" by (simp add: umulh64_def umul_ppmm_2_def Let_def)
  then have "unat (umulh64 u v) * 2 ^ 64 + unat (snd (umul_ppmm_2 u v)) = unat u * unat v"
    using unat_umul_ppmm_2 [of u v] by simp
  moreover have "unat (snd (umul_ppmm_2 u v)) < 2 ^ 64" using unat_less_exp [of "snd (umul_ppmm_2 u v)"] by simp
  ultimately show ?thesis by (simp flip: \<open>_ = unat u * unat v\<close>)
qed

lemma mod_split32: "(b::nat) < 2 ^ 32 \<Longrightarrow> (X * 2 ^ 32 + b) mod 2 ^ 64 = X mod 2 ^ 32 * 2 ^ 32 + b"
  using mod_mult2_eq [of "X * 2 ^ 32 + b" "2 ^ 32" "2 ^ 32"] by (simp add: mult.commute)

lemma mul64_eq: "mul64 u v = u * v"
proof -
  define u1 u0 v1 v0 where
    d: "u1 = (ucast (drop_bit 32 u) :: u32)" "u0 = (ucast u :: u32)"
      "v1 = (ucast (drop_bit 32 v) :: u32)" "v0 = (ucast v :: u32)"
  have uv: "unat u = unat u1 * 2 ^ 32 + unat u0" "unat v = unat v1 * 2 ^ 32 + unat v0"
    unfolding d by (rule unat_split32)+
  define T K tl where D: "T = (ucast u0 :: u64) * ucast v0" "K = (ucast (drop_bit 32 T) :: u32)"
    "tl = u0 * v1 + (u1 * v0 + K)"
  have T: "unat T = unat u0 * unat v0" unfolding D by (rule unat_mul_ucast)
  have K: "unat K = unat T div 2 ^ 32" unfolding D(2) by (rule unat_high32)
  define X where "X = unat u0 * unat v1 + (unat u1 * unat v0 + unat K)"
  have "tl = of_nat X" by (simp add: X_def D(3))
  then have tl: "unat tl = X mod 2 ^ 32" by (simp only: unat_of_nat len_of_numeral_defs) simp
  have "unat u * unat v = unat u1 * unat v1 * 2 ^ 64 + (X * 2 ^ 32 + unat T mod 2 ^ 32)"
    using div_mult_mod_eq [of "unat T" "2 ^ 32"] T unfolding uv X_def K by (simp add: algebra_simps)
  then have "unat (u * v) = (X * 2 ^ 32 + unat T mod 2 ^ 32) mod 2 ^ 64"
    by (simp add: unat_word_ariths)
  also have "\<dots> = X mod 2 ^ 32 * 2 ^ 32 + unat T mod 2 ^ 32"
    by (rule mod_split32) simp
  finally have "unat (u * v) = unat tl * 2 ^ 32 + unat (ucast T :: u32)" by (simp add: tl unat_ucast_mod)
  moreover have "mul64 u v = push_bit 32 (ucast tl) OR ucast (ucast T :: u32)"
    by (simp add: mul64_def Let_def D d)
  moreover have "unat (push_bit 32 (ucast tl) OR ucast (ucast T :: u32) :: u64) = unat tl * 2 ^ 32 + unat (ucast T :: u32)"
    using unat_less_exp [of tl] by (subst unat_digits [OF refl]) (simp add: unat_ucast_32_64)
  ultimately show ?thesis by (simp add: word_unat_eq_iff)
qed


lemma z_recurrence_iter:
  assumes "newton_inv (2 ^ 64) (unat y) (unat z)" "y \<noteq> 0"
  shows "unat (z_recurrence n (0 - y) z) = (newton_iter (2 ^ 64) (unat y) ^^ n) (unat z)
    \<and> newton_inv (2 ^ 64) (unat y) (unat (z_recurrence n (0 - y) z))"
  using assms
proof (induction n arbitrary: z)
  case (Suc n)
  define z' where "z' = z + umulh64 z (mul64 (0 - y) z)"
  have z': "unat z' = newton_iter (2 ^ 64) (unat y) (unat z)"
    using unat_newton_step [of y z "umulh64 z (mul64 (0 - y) z)"] Suc.prems
    by (simp add: z'_def unat_umulh64 mul64_eq)
  have "newton_inv (2 ^ 64) (unat y) (unat z')"
    unfolding z' using newton_iter_inv Suc.prems by (simp add: unat_gt_0)
  from Suc.IH [OF this Suc.prems(2)] show ?case
    unfolding z' unfolding z_recurrence.simps Let_def z'_def [symmetric] funpow_Suc_right o_apply .
qed simp

lemma newton_division_64:
  assumes y: "y \<noteq> 0" and k: "is_clz 64 (unat y) k"
    and z: "unat z = (256 + unat (unrt ! (unat y * 2 ^ k * 2 mod 2 ^ 64 div 2 ^ 56))) * 2 ^ 55 div 2 ^ (63 - k)"
  shows "(let z = z_recurrence 3 (0 - y) z; q = umulh64 x z; r = x - mul64 y q
     in q_refinement y q r) = (x div y, x mod y)"
proof -
  let ?M = "2 ^ 64 :: nat"
  note ypos = y [folded unat_gt_0]
  have inv: "newton_inv ?M (unat y) (unat z)"
    using newton_seed(2) [OF _ k] unfolding z by simp
  define z' where "z' = z_recurrence 3 (0 - y) z"
  have it: "unat z' = (newton_iter ?M (unat y) ^^ 3) (unat z)" "newton_inv ?M (unat y) (unat z')"
    using z_recurrence_iter [OF inv y, of 3] unfolding z'_def by blast+
  define q where "q = umulh64 x z'"
  have "2 ^ LENGTH(64) - unat y * unat z' \<le> 3 * unat y"
    using newton_error_64 [OF k ypos] unfolding it(1) z by (simp add: numeral_3_eq_3)
  moreover have "unat q = unat x * unat z' div 2 ^ LENGTH(64)" by (simp add: q_def unat_umulh64)
  moreover have "newton_inv (2 ^ LENGTH(64)) (unat y) (unat z')" using it(2) by simp
  ultimately have "unat q * unat y + unat (x - y * q) = unat x" "unat (x - y * q) < 4 * unat y"
    using quotient_estimate [of y z' 3 q x] y by simp_all
  from q_refinement_correct [OF this y] show ?thesis
    by (simp only: Let_def mul64_eq z'_def q_def)
qed

lemma udivmoddi4_correct:
  assumes y: "y \<noteq> 0"
  shows "udivmoddi4 x y = (x div y, x mod y)"
proof -
  note k = clzll_clz [OF y]
  then have k64: "unat (clzll y) < 64" by (simp add: is_clz_def)
  have k': "unat (ucast (clzll y) :: u64) = unat (clzll y)"
    using unat_less_exp [of "clzll y"] by (simp add: unat_simps)
  have "unat (64 - ucast (clzll y) :: u64) = 64 - unat (clzll y)"
    using k64 k' by (subst unat_diff_le) simp_all
  then have s: "unat (64 - ucast (clzll y) - 1 :: u64) = 63 - unat (clzll y)"
    using k64 by (subst unat_diff_le) simp_all
  define ty where "ty = lsr64 (push_bit 1 (lsl64 y (ucast (clzll y)))) (64 - 8)"
  have ty: "unat ty = unat y * 2 ^ unat (clzll y) * 2 mod 2 ^ 64 div 2 ^ 56"
    unfolding ty_def lsr64_def lsl64_def k' unat_drop_bit_div unat_push_bit_mult by (simp add: mod_mult_left_eq)
  define z where "z = lsr64 (lsl64 (ucast (unrt ! unat ty) OR 256) (64 - 9)) (64 - ucast (clzll y) - 1)"
  have "unat z = (256 + unat (unrt ! unat ty)) * 2 ^ 55 div 2 ^ (63 - unat (clzll y))"
    using unat_less_exp [of "unrt ! unat ty"]
    unfolding z_def lsr64_def lsl64_def s unat_drop_bit_div unat_push_bit_mult unat_or_256 by simp
  from newton_division_64 [OF y k this [unfolded ty], of x] show ?thesis
    by (simp only: udivmoddi4_def Let_def z_def ty_def)
qed

subsection \<open>64 by 32 bits\<close>

lemma udivmoddi4_6432_correct:
  assumes y: "y \<noteq> 0" "unat y < 2 ^ 32"
  shows "udivmoddi4_6432 x y = (x div y, x mod y)"
proof -
  have y32: "VAL_RESIZE y 32 = y" using y(2) by (simp add: take_bit_self)
  define k where "k = unat (clz (ucast y))"
  have u: "unat (ucast y :: u32) = unat y" using y(2) by (simp add: unat_simps)
  then have "(ucast y :: u32) \<noteq> 0" using y(1) by (auto simp: word_eq_0_iff_unat)
  from clz_clz [OF this] have k: "is_clz 32 (unat y) k" by (simp add: u k_def)
  then have k64: "is_clz 64 (unat y) (32 + k)" and k32: "k < 32" by (simp_all add: is_clz_def)
  have k': "unat (ucast (clz (ucast y)) :: u64) = k"
    using unat_less_exp [of "clz (ucast y)"] by (simp add: unat_simps k_def)
  have s: "unat (64 - 32 - 1 - ucast (clz (ucast y)) :: u64) = 63 - (32 + k)"
    using k32 k' by (subst unat_diff_le) simp_all
  have yk: "unat y * 2 ^ k < 2 ^ 32" using is_clz_mult_less [OF k] by simp
  define ty where "ty = lsr64 (push_bit 1 (push_bit 32 (ucast (push_bit k (ucast y :: u32)) :: u64))) (64 - 8)"
  have "unat (push_bit k (ucast y :: u32)) = unat y * 2 ^ k" using yk by (simp add: unat_push_bit_mult u)
  then have ty: "unat ty = unat y * 2 ^ (32 + k) * 2 mod 2 ^ 64 div 2 ^ 56"
    unfolding ty_def lsr64_def unat_drop_bit_div unat_push_bit_mult unat_ucast_32_64
    by (simp add: mod_mult_left_eq power_add mult.assoc mult.left_commute)
  define z where "z = lsr64 (lsl64 (ucast (unrt ! unat ty) OR 256) (64 - 9)) (64 - 32 - 1 - ucast (clz (ucast y)))"
  have "unat z = (256 + unat (unrt ! unat ty)) * 2 ^ 55 div 2 ^ (63 - (32 + k))"
    using unat_less_exp [of "unrt ! unat ty"]
    unfolding z_def lsr64_def lsl64_def s unat_drop_bit_div unat_push_bit_mult unat_or_256 by simp
  from newton_division_64 [OF y(1) k64 this [unfolded ty], of x] show ?thesis
    by (simp only: udivmoddi4_6432_def Let_def y32 z_def ty_def k_def)
qed

section \<open>The entry points\<close>

interpretation newton32: unsigned_divider udivmodsi4 "\<lambda>y. True"
  by unfold_locales (rule udivmodsi4_correct)

interpretation newton64: unsigned_divider udivmoddi4 "\<lambda>y. True"
  by unfold_locales (rule udivmoddi4_correct)

interpretation newton6432: unsigned_divider udivmoddi4_6432 "\<lambda>y. unat y < 2 ^ 32"
  by unfold_locales (rule udivmoddi4_6432_correct)

lemma newton_entry_points:
  "divsi3 u v = sdiv_via udivmodsi4 u v" "modsi3 u v = smod_via udivmodsi4 u v"
  "divdi3 w x = sdiv_via udivmoddi4 w x" "moddi3 w x = smod_via udivmoddi4 w x"
  by (simp_all add: divsi3_def modsi3_def divdi3_def moddi3_def sdiv_via_def smod_via_def
      magnitude_def Let_def)

lemma sint_scast_64: "sint (scast (v :: u32) :: u64) = sint v"
  by (simp add: sint_up_scast is_up)

lemma scast_less_0_iff: "(scast (v :: u32) :: u64) <s 0 \<longleftrightarrow> v <s 0"
  by (simp add: signed_less_0_iff sint_scast_64)

lemma scast_eq_0_iff: "(scast (v :: u32) :: u64) = 0 \<longleftrightarrow> v = 0"
  by (metis sint_scast_64 signed_word_eqI sint_0 scast_0)

lemma magnitude_scast_small: "unat (magnitude (scast (v :: u32) :: u64)) < 2 ^ 32"
proof -
  have "uint (magnitude (scast v :: u64)) = \<bar>sint v\<bar>" by (simp add: uint_magnitude sint_scast_64)
  moreover have "\<bar>sint v\<bar> < 2 ^ 32" using sint_ge [of v] sint_lt [of v] by simp
  ultimately have "int (unat (magnitude (scast v :: u64))) < int (2 ^ 32)" by simp
  then show ?thesis by (simp only: of_nat_less_iff)
qed

lemma newton_entry_points_6432:
  "divdi36432 w v = sdiv_via udivmoddi4_6432 w (scast v)"
  "moddi36432 w v = smod_via udivmoddi4_6432 w (scast v)"
  by (simp_all add: divdi36432_def moddi36432_def sdiv_via_def smod_via_def magnitude_def Let_def
      scast_less_0_iff)

text \<open>
  C1. For every non-zero divisor the unsigned dividers by Newton's iteration return the
  quotient and the remainder, in 32 bits, in 64 bits and for a 64-bit dividend with a 32-bit
  divisor: the table seed, the two (three) iterations and the two (three) corrections
  suffice for all operands.
\<close>

theorem newton_unsigned_division:
  assumes "v \<noteq> 0" and "y \<noteq> 0"
  shows "udivsi3 u v = u div v \<and> umodsi3 u v = u mod v
    \<and> udivdi3 x y = x div y \<and> umoddi3 x y = x mod y
    \<and> udivdi36432 x v = x div ucast v \<and> umoddi36432 x v = x mod ucast v"
proof -
  have "(ucast v :: u64) \<noteq> 0" "unat (ucast v :: u64) < 2 ^ 32"
    using assms(1) unat_less_exp [of v] by (auto simp: word_eq_0_iff_unat unat_ucast_32_64)
  note newton6432.unsigned_results [OF this]
  then show ?thesis using assms newton32.unsigned_results newton64.unsigned_results
    by (simp add: udivsi3_def umodsi3_def udivdi3_def umoddi3_def udivdi36432_def umoddi36432_def)
qed

theorem newton_unsigned_division_witness:
  "udivsi3 100 7 = 14 \<and> umodsi3 100 7 = 2 \<and> udivdi3 100 9 = 11 \<and> umoddi36432 100 7 = 2"
  using newton_unsigned_division [of 7 9 100 100] by simp

text \<open>
  C10. The signed entry points over the dividers by Newton's iteration return the quotient
  truncated towards zero and the remainder with the sign of the dividend, for every
  non-zero divisor; the quotient of the least integer by minus one wraps around.
\<close>

theorem newton_signed_division:
  assumes "v \<noteq> 0" and "y \<noteq> 0"
  shows "divsi3 u v = word_of_int (sint u sdiv sint v) \<and> modsi3 u v = word_of_int (sint u smod sint v)
    \<and> divdi3 x y = word_of_int (sint x sdiv sint y) \<and> moddi3 x y = word_of_int (sint x smod sint y)
    \<and> divdi36432 x v = word_of_int (sint x sdiv sint v)
    \<and> moddi36432 x v = word_of_int (sint x smod sint v)"
proof -
  have "(scast v :: u64) \<noteq> 0" using assms(1) by (simp add: scast_eq_0_iff)
  note newton6432.signed_quotient [OF this magnitude_scast_small]
    newton6432.signed_remainder [OF this magnitude_scast_small]
  then show ?thesis
    using assms newton32.signed_quotient newton32.signed_remainder newton64.signed_quotient
      newton64.signed_remainder
    by (simp add: newton_entry_points newton_entry_points_6432 sint_scast_64)
qed

theorem newton_signed_division_witness:
  "divsi3 (- 7) 2 = - 3 \<and> modsi3 (- 7) 2 = - 1 \<and> divdi3 (- 7) (- 2) = 3 \<and> moddi36432 (- 7) 2 = - 1"
  using newton_signed_division [of 2 "- 2" "- 7" "- 7"] by (simp add: signed_divide_int_def signed_modulo_int_def)

end
