(* ===== verification/DivAlign.thy ===== *)
theory DivAlign
  imports DivNewton
begin

text \<open>
  The alternative dividers \<^verbatim>\<open>divsi3as.c\<close>, \<^verbatim>\<open>divdi3as.c\<close> and \<^verbatim>\<open>divdi3as6432.c\<close> of
  \<^verbatim>\<open>etc/libbambu/softint\<close>: align the divisor with the dividend, then test, subtract and
  shift; the quotient bits are collected in the low end of the remainder's register. The
  one-line helpers \<^verbatim>\<open>lsl\<close>, \<^verbatim>\<open>lsr\<close>, \<^verbatim>\<open>lsl64\<close> and \<^verbatim>\<open>lsr64\<close> have the same text as in the
  dividers by Newton's iteration.
\<close>

section \<open>The program\<close>

subsection \<open>32 bits\<close>

definition half32 :: "u32 \<Rightarrow> u32" where
  "half32 a = drop_bit 1 a"

definition tsubsh :: "u32 \<Rightarrow> u32 \<Rightarrow> u32" where
  "tsubsh a b = (if a \<ge> b then lsl (a - b) 1 + 1 else lsl a 1)"

text \<open>The \<^verbatim>\<open>do\<close> loop, entered with \<open>i = k \<noteq> 0\<close> and left when the counter reaches zero.\<close>

fun tsubsh_loop :: "nat \<Rightarrow> u32 \<Rightarrow> u32 \<Rightarrow> u32" where
  "tsubsh_loop 0 r y = r"
| "tsubsh_loop (Suc i) r y = tsubsh_loop i (tsubsh r y) y"

definition udivmodsi4_as :: "u32 \<Rightarrow> u32 \<Rightarrow> u32 \<times> u32" where
  "udivmodsi4_as x y =
    (let r = x; q = 0
     in if y \<le> r then
          (let k = (clz y - clz r) AND 63;
               y = lsl y (ucast k);
               (r, q) = (if r \<ge> y then (r - y, lsl 1 (ucast k)) else (r, q))
           in if k \<noteq> 0 then
                (let y = half32 y;
                     r = tsubsh_loop (unat k) r y;
                     q = q + r;
                     r = lsr r (ucast k);
                     q = q - lsl r (ucast k)
                 in (q, r))
              else (q, r))
        else (q, r))"

definition divsi3_as :: "u32 \<Rightarrow> u32 \<Rightarrow> u32" where
  "divsi3_as u v =
    (let c = False;
         (c, u) = (if u <s 0 then (\<not> c, - u) else (c, u));
         (c, v) = (if v <s 0 then (\<not> c, - v) else (c, v));
         w = fst (udivmodsi4_as u v)
     in if c then - w else w)"

definition modsi3_as :: "u32 \<Rightarrow> u32 \<Rightarrow> u32" where
  "modsi3_as u v =
    (let c = False;
         (c, u) = (if u <s 0 then (\<not> c, - u) else (c, u));
         v = (if v <s 0 then - v else v);
         w = snd (udivmodsi4_as u v)
     in if c then - w else w)"

definition udivsi3_as :: "u32 \<Rightarrow> u32 \<Rightarrow> u32" where
  "udivsi3_as u v = fst (udivmodsi4_as u v)"

definition umodsi3_as :: "u32 \<Rightarrow> u32 \<Rightarrow> u32" where
  "umodsi3_as u v = snd (udivmodsi4_as u v)"

subsection \<open>64 bits\<close>

definition half64 :: "u64 \<Rightarrow> u64" where
  "half64 a = drop_bit 1 a"

definition tsubsh64 :: "u64 \<Rightarrow> u64 \<Rightarrow> u64" where
  "tsubsh64 a b = (if a \<ge> b then lsl64 (a - b) 1 + 1 else lsl64 a 1)"

fun tsubsh64_loop :: "nat \<Rightarrow> u64 \<Rightarrow> u64 \<Rightarrow> u64" where
  "tsubsh64_loop 0 r y = r"
| "tsubsh64_loop (Suc i) r y = tsubsh64_loop i (tsubsh64 r y) y"

definition udivmoddi4_as :: "u64 \<Rightarrow> u64 \<Rightarrow> u64 \<times> u64" where
  "udivmoddi4_as x y =
    (let r = x; q = 0
     in if y \<le> r then
          (let k = (clzll y - clzll r) AND 63;
               y = lsl64 y (ucast k);
               (r, q) = (if r \<ge> y then (r - y, lsl64 1 (ucast k)) else (r, q))
           in if k \<noteq> 0 then
                (let y = half64 y;
                     r = tsubsh64_loop (unat k) r y;
                     q = q + r;
                     r = lsr64 r (ucast k);
                     q = q - lsl64 r (ucast k)
                 in (q, r))
              else (q, r))
        else (q, r))"

definition divdi3_as :: "u64 \<Rightarrow> u64 \<Rightarrow> u64" where
  "divdi3_as u v =
    (let c = False;
         (c, u) = (if u <s 0 then (\<not> c, - u) else (c, u));
         (c, v) = (if v <s 0 then (\<not> c, - v) else (c, v));
         w = fst (udivmoddi4_as u v)
     in if c then - w else w)"

definition moddi3_as :: "u64 \<Rightarrow> u64 \<Rightarrow> u64" where
  "moddi3_as u v =
    (let c = False;
         (c, u) = (if u <s 0 then (\<not> c, - u) else (c, u));
         v = (if v <s 0 then - v else v);
         w = snd (udivmoddi4_as u v)
     in if c then - w else w)"

definition udivdi3_as :: "u64 \<Rightarrow> u64 \<Rightarrow> u64" where
  "udivdi3_as u v = fst (udivmoddi4_as u v)"

definition umoddi3_as :: "u64 \<Rightarrow> u64 \<Rightarrow> u64" where
  "umoddi3_as u v = snd (udivmoddi4_as u v)"

subsection \<open>64 by 32 bits\<close>

definition udivmoddi4_as6432 :: "u64 \<Rightarrow> u64 \<Rightarrow> u64 \<times> u64" where
  "udivmoddi4_as6432 x y =
    (let r = x; q = 0; y = VAL_RESIZE y 32
     in if y \<le> r then
          (let k = ((push_bit 5 1 OR clz (ucast y)) - clzll r) AND 63;
               y = lsl64 y (ucast k);
               (r, q) = (if r \<ge> y then (r - y, lsl64 1 (ucast k)) else (r, q))
           in if k \<noteq> 0 then
                (let y = half64 y;
                     r = tsubsh64_loop (unat k) r y;
                     q = q + r;
                     r = lsr64 r (ucast k);
                     q = q - lsl64 r (ucast k)
                 in (q, r))
              else (q, r))
        else (q, r))"

definition divdi3_as6432 :: "u64 \<Rightarrow> u32 \<Rightarrow> u64" where
  "divdi3_as6432 u v =
    (let c = False;
         (c, u) = (if u <s 0 then (\<not> c, - u) else (c, u));
         (c, v) = (if v <s 0 then (\<not> c, - v) else (c, v));
         w = fst (udivmoddi4_as6432 u (scast v))
     in if c then - w else w)"

definition moddi3_as6432 :: "u64 \<Rightarrow> u32 \<Rightarrow> u64" where
  "moddi3_as6432 u v =
    (let c = False;
         (c, u) = (if u <s 0 then (\<not> c, - u) else (c, u));
         v = (if v <s 0 then - v else v);
         w = snd (udivmoddi4_as6432 u (scast v))
     in if c then - w else w)"

definition udivdi3_as6432 :: "u64 \<Rightarrow> u32 \<Rightarrow> u64" where
  "udivdi3_as6432 u v = fst (udivmoddi4_as6432 u (ucast v))"

definition umoddi3_as6432 :: "u64 \<Rightarrow> u32 \<Rightarrow> u64" where
  "umoddi3_as6432 u v = snd (udivmoddi4_as6432 u (ucast v))"

section \<open>Test, subtract and shift, in natural numbers\<close>

definition tsub :: "nat \<Rightarrow> nat \<Rightarrow> nat" where
  "tsub h r = (if h \<le> r then 2 * (r - h) + 1 else 2 * r)"

text \<open>
  After \<open>i\<close> steps the register holds the partial remainder in the high and the quotient bits
  in the low part.
\<close>

lemma tsub_register:
  assumes "x < y * 2 ^ k" "i \<le> k"
  shows "\<exists>\<rho> Q. (tsub (y * 2 ^ (k - 1)) ^^ i) x = \<rho> * 2 ^ i + Q \<and> Q < 2 ^ i
    \<and> \<rho> < y * 2 ^ (k - i) \<and> x = \<rho> + Q * (y * 2 ^ (k - i))"
  using assms(2)
proof (induction i)
  case 0
  then show ?case using assms(1) by (intro exI [of _ x] exI [of _ 0]) simp
next
  case (Suc i)
  then obtain \<rho> Q where r: "(tsub (y * 2 ^ (k - 1)) ^^ i) x = \<rho> * 2 ^ i + Q" and Q: "Q < 2 ^ i"
    and \<rho>: "\<rho> < y * 2 ^ (k - i)" and x: "x = \<rho> + Q * (y * 2 ^ (k - i))" by auto
  define d where "d = y * 2 ^ (k - Suc i)"
  have ki: "k - i = Suc (k - Suc i)" "k - 1 = (k - Suc i) + i" using Suc.prems by simp_all
  have d2: "y * 2 ^ (k - i) = 2 * d" and h: "y * 2 ^ (k - 1) = d * 2 ^ i"
    unfolding d_def ki power_Suc power_add by simp_all
  have test: "d * 2 ^ i \<le> \<rho> * 2 ^ i + Q \<longleftrightarrow> d \<le> \<rho>"
  proof
    assume "d * 2 ^ i \<le> \<rho> * 2 ^ i + Q"
    then have "d * 2 ^ i < Suc \<rho> * 2 ^ i" using Q by simp
    then have "d < Suc \<rho>" using mult_less_cancel2 by blast
    then show "d \<le> \<rho>" by simp
  next
    assume "d \<le> \<rho>"
    then have "d * 2 ^ i \<le> \<rho> * 2 ^ i" by (rule mult_le_mono1)
    then show "d * 2 ^ i \<le> \<rho> * 2 ^ i + Q" by linarith
  qed
  have st: "(tsub (y * 2 ^ (k - 1)) ^^ Suc i) x = tsub (d * 2 ^ i) (\<rho> * 2 ^ i + Q)"
    by (simp only: funpow.simps o_apply r) (simp only: h)
  show ?case
  proof (cases "d \<le> \<rho>")
    case True
    then obtain e where e: "\<rho> = d + e" using le_Suc_ex by blast
    then have "tsub (d * 2 ^ i) (\<rho> * 2 ^ i + Q) = (\<rho> - d) * 2 ^ Suc i + (2 * Q + 1)"
      by (simp add: tsub_def algebra_simps)
    moreover have "2 * Q + 1 < 2 ^ Suc i" "\<rho> - d < d" using Q \<rho> d2 by simp_all
    moreover have "x = (\<rho> - d) + (2 * Q + 1) * d" using x True unfolding d2 by (simp add: algebra_simps)
    ultimately show ?thesis unfolding st d_def [symmetric] by blast
  next
    case False
    then have "tsub (d * 2 ^ i) (\<rho> * 2 ^ i + Q) = \<rho> * 2 ^ Suc i + 2 * Q"
      using test by (simp add: tsub_def)
    moreover have "2 * Q < 2 ^ Suc i" "\<rho> < d" using Q False by simp_all
    moreover have "x = \<rho> + (2 * Q) * d" using x unfolding d2 by (simp add: algebra_simps)
    ultimately show ?thesis unfolding st d_def [symmetric] by blast
  qed
qed

lemma tsub_register_less:
  assumes "x < y * 2 ^ k" "i \<le> k"
  shows "(tsub (y * 2 ^ (k - 1)) ^^ i) x < y * 2 ^ k"
proof -
  obtain \<rho> Q where r: "(tsub (y * 2 ^ (k - 1)) ^^ i) x = \<rho> * 2 ^ i + Q" "Q < 2 ^ i" "\<rho> < y * 2 ^ (k - i)"
    using tsub_register [OF assms] by blast
  then have "\<rho> * 2 ^ i + Q < Suc \<rho> * 2 ^ i" by simp
  also have "\<dots> \<le> y * 2 ^ (k - i) * 2 ^ i" using r(3) by (intro mult_le_mono1) simp
  also have "\<dots> = y * 2 ^ k" using assms(2) by (simp flip: power_add)
  finally show ?thesis using r(1) by simp
qed

section \<open>The register loop on words\<close>

text \<open>The body shared by the three dividers, once the alignment \<open>k\<close> is known.\<close>

definition align_step :: "'a::len word \<Rightarrow> 'a word \<Rightarrow> 'a word" where
  "align_step h r = (if r \<ge> h then push_bit 1 (r - h) + 1 else push_bit 1 r)"

definition align_divide :: "nat \<Rightarrow> 'a::len word \<Rightarrow> 'a word \<Rightarrow> 'a word \<times> 'a word" where
  "align_divide k r y =
    (let Y = push_bit k y;
         (r, q) = (if r \<ge> Y then (r - Y, push_bit k 1) else (r, 0))
     in if k \<noteq> 0 then
          (let r = (align_step (drop_bit 1 Y) ^^ k) r;
               q = q + r;
               r = drop_bit k r
           in (q - push_bit k r, r))
        else (q, r))"

lemma unat_align_step:
  assumes "tsub (unat h) (unat r) < 2 ^ LENGTH('a)"
  shows "unat (align_step h (r :: 'a::len word)) = tsub (unat h) (unat r)"
proof (cases "h \<le> r")
  case True
  then have le: "unat h \<le> unat r" by (simp add: word_le_nat_alt)
  then have t: "2 * (unat r - unat h) + 1 < 2 ^ LENGTH('a)" using assms by (simp add: tsub_def)
  have "unat (push_bit 1 (r - h)) = 2 * (unat r - unat h)"
    using t unfolding unat_push_bit_mult unat_diff_le [OF le] by simp
  then show ?thesis using True le t by (simp add: align_step_def tsub_def unat_add_small)
next
  case False
  then have "\<not> unat h \<le> unat r" by (simp add: word_le_nat_alt)
  moreover from this have "unat (push_bit 1 r) = 2 * unat r"
    using assms unfolding unat_push_bit_mult by (simp add: tsub_def mult.commute)
  ultimately show ?thesis using False by (simp add: align_step_def tsub_def)
qed

lemma unat_align_loop:
  fixes h r :: "'a::len word"
  assumes "unat h = y * 2 ^ (k - 1)" "unat r < y * 2 ^ k" "y * 2 ^ k \<le> 2 ^ LENGTH('a)" "i \<le> k"
  shows "unat ((align_step h ^^ i) r) = (tsub (y * 2 ^ (k - 1)) ^^ i) (unat r)"
  using assms(4)
proof (induction i)
  case (Suc i)
  then have IH: "unat ((align_step h ^^ i) r) = (tsub (unat h) ^^ i) (unat r)" by (simp add: assms(1))
  have "tsub (unat h) (unat ((align_step h ^^ i) r)) < 2 ^ LENGTH('a)"
    using tsub_register_less [OF assms(2) Suc.prems] assms(3) unfolding IH by (simp add: assms(1))
  from unat_align_step [OF this] IH show ?case by (simp add: assms(1))
qed simp

lemma align_divide_correct:
  fixes x y :: "'a::len word"
  assumes y: "y \<noteq> 0" and Y: "unat y * 2 ^ k < 2 ^ LENGTH('a)" and x: "unat x < 2 * (unat y * 2 ^ k)"
  shows "align_divide k x y = (x div y, x mod y)"
proof -
  define Y where "Y = push_bit k y"
  have uY: "unat Y = unat y * 2 ^ k" using Y by (simp add: Y_def unat_push_bit_mult)
  have kW: "(2::nat) ^ k < 2 ^ LENGTH('a)" 
    by (rule le_less_trans [OF _ Y]) (use y in \<open>simp add: unat_gt_0 Suc_leI\<close>)
  then have "unat (push_bit k 1 :: 'a word) = 2 ^ k" unfolding unat_push_bit_mult by simp
  define r q where rq: "r = (if Y \<le> x then x - Y else x)" "q = (if Y \<le> x then push_bit k 1 else 0 :: 'a word)"
  have q: "unat q = (if Y \<le> x then 2 ^ k else 0)" using \<open>unat (push_bit k 1) = _\<close> by (simp add: rq)
  have r: "unat x = unat r + unat q * unat y" "unat r < unat y * 2 ^ k"
    using x uY q by (auto simp: rq word_le_nat_alt unat_diff_le)
  have ad: "align_divide k x y = (if k \<noteq> 0 then
      (let r = (align_step (drop_bit 1 Y) ^^ k) r in (q + r - push_bit k (drop_bit k r), drop_bit k r)) else (q, r))"
    by (simp add: align_divide_def rq Let_def Y_def)
  have fin: "a = x div y \<and> b = x mod y" if "unat x = unat b + unat a * unat y" "unat b < unat y" for a b
    using correction_done [of a y b x] that by (simp add: add.commute word_le_nat_alt)
  show ?thesis
  proof (cases "k = 0")
    case True
    then show ?thesis using ad fin [of r q] r by simp
  next
    case False
    define R where "R = (align_step (drop_bit 1 Y) ^^ k) r"
    have "unat (drop_bit 1 Y) = unat y * 2 ^ (k - 1)"
      using False uY by (cases k) (simp_all add: unat_drop_bit_div)
    from unat_align_loop [OF this r(2) less_imp_le [OF Y], of k]
    have R: "unat R = (tsub (unat y * 2 ^ (k - 1)) ^^ k) (unat r)" by (simp add: R_def)
    obtain \<rho> Q where \<rho>: "unat R = \<rho> * 2 ^ k + Q" "Q < 2 ^ k" "\<rho> < unat y" "unat r = \<rho> + Q * unat y"
      using tsub_register [OF r(2), of k] unfolding R by auto
    have d: "unat (drop_bit k R) = \<rho>" using \<rho> by (simp add: unat_drop_bit_div)
    have "\<rho> * 2 ^ k < 2 ^ LENGTH('a)" using \<rho>(1) unat_less_exp [of R] by linarith
    then have "unat (push_bit k (drop_bit k R)) = \<rho> * 2 ^ k" by (simp add: unat_push_bit_mult d)
    then have "unat (R - push_bit k (drop_bit k R)) = Q" using \<rho>(1) by (simp add: unat_diff_le)
    moreover have x': "unat x = \<rho> + (unat q + Q) * unat y" using r(1) \<rho>(4) by (simp add: algebra_simps)
    have "unat q + Q < 2 ^ LENGTH('a)"
    proof -
      have "(unat q + Q) * 1 \<le> (unat q + Q) * unat y" using y by (intro mult_le_mono2) (simp add: unat_gt_0 Suc_leI)
      then have "unat q + Q \<le> unat x" unfolding x' by (intro trans_le_add2) simp
      then show ?thesis using unat_less_exp [of x] by linarith
    qed
    ultimately have "unat (q + (R - push_bit k (drop_bit k R))) = unat q + Q"
      by (simp add: unat_add_small)
    then have "unat (q + R - push_bit k (drop_bit k R)) = unat q + Q" by (simp add: add_diff_eq)
    then have "unat x = unat (drop_bit k R) + unat (q + R - push_bit k (drop_bit k R)) * unat y"
      using x' d by simp
    with fin \<rho>(3) d have f: "q + R - push_bit k (drop_bit k R) = x div y" "drop_bit k R = x mod y" by blast+
    show ?thesis unfolding ad Let_def R_def [symmetric] f(1) unfolding f(2) using False by simp
  qed
qed

text \<open>The alignment: the difference of the leading zeros.\<close>

lemma alignment:
  assumes "is_clz n y c" "is_clz n x d" "y \<le> x"
  shows "d \<le> c" and "x < 2 * (y * 2 ^ (c - d))" and "y * 2 ^ (c - d) < 2 ^ n" and "c - d < n"
proof -
  have b: "2 ^ (n - 1 - c) \<le> y" "y < 2 ^ (n - c)" "2 ^ (n - 1 - d) \<le> x" "x < 2 ^ (n - d)" "c < n" "d < n"
    using assms by (simp_all add: is_clz_def)
  have "(2::nat) ^ (n - 1 - c) < 2 ^ (n - d)" using b assms(3) by linarith
  from power_less_imp_less_exp [OF _ this] show dc: "d \<le> c" using b by simp
  then show "c - d < n" using b by simp
  have "2 ^ (n - d) = (2::nat) * (2 ^ (n - 1 - c) * 2 ^ (c - d))"
    using dc b by (simp flip: power_add power_Suc)
  also have "\<dots> \<le> 2 * (y * 2 ^ (c - d))" using b(1) by simp
  finally show "x < 2 * (y * 2 ^ (c - d))" using b(4) by linarith
  have "y * 2 ^ (c - d) < 2 ^ (n - c) * 2 ^ (c - d)" using b(2) by simp
  also have "\<dots> = (2::nat) ^ (n - d)" using dc b by (simp flip: power_add)
  also have "\<dots> \<le> 2 ^ n" by simp
  finally show "y * 2 ^ (c - d) < 2 ^ n" .
qed

lemma align_divide_small: "x < y \<Longrightarrow> (0, x) = (x div y, x mod (y :: 'a::len word))"
  by (simp add: word_less_nat_alt word_unat_eq_iff unat_div_distrib unat_mod_distrib)

subsection \<open>32 bits\<close>

lemma tsubsh_loop_eq: "tsubsh_loop i r y = (align_step y ^^ i) r"
  by (induction i arbitrary: r) (simp_all add: align_step_def tsubsh_def lsl_def funpow_swap1)

lemma clz_difference:
  fixes c d :: u8
  assumes "unat d \<le> unat c" "unat c < 64"
  shows "unat ((c - d) AND 63) = unat c - unat d"
proof -
  have "unat (c - d) = unat c - unat d" using assms(1) by (rule unat_diff_le)
  moreover have "(c - d) AND 63 = take_bit 6 (c - d)" using mask_exp_eq [of "c - d" 6] by simp
  ultimately show ?thesis using assms(2) by (simp add: unat_take_bit_mod)
qed

lemma udivmodsi4_as_align:
  assumes "y \<le> x"
  shows "udivmodsi4_as x y = align_divide (unat ((clz y - clz x) AND 63)) x y"
proof -
  have u: "unat (ucast (k :: u8) :: u32) = unat k" for k
    using unat_less_exp [of k] by (simp add: unat_simps)
  show ?thesis using assms
    by (simp add: udivmodsi4_as_def align_divide_def Let_def case_prod_unfold tsubsh_loop_eq lsl_def lsr_def
        half32_def u word_eq_0_iff_unat)
qed

lemma udivmodsi4_as_correct:
  assumes y: "y \<noteq> 0"
  shows "udivmodsi4_as x y = (x div y, x mod y)"
proof (cases "y \<le> x")
  case True
  then have le: "unat y \<le> unat x" by (simp add: word_le_nat_alt)
  then have "x \<noteq> 0" using y unat_gt_0 [of y] by auto
  note a = alignment [OF clz_clz [OF y] clz_clz [OF this] le]
  have k: "unat ((clz y - clz x) AND 63) = unat (clz y) - unat (clz x)"
    using a(1) clz_clz [OF y] by (intro clz_difference) (simp_all add: is_clz_def)
  show ?thesis unfolding udivmodsi4_as_align [OF True] k
    by (rule align_divide_correct [OF y]) (use a in simp_all)
next
  case False
  then show ?thesis using align_divide_small [of x y] by (simp add: udivmodsi4_as_def)
qed

subsection \<open>64 bits\<close>

lemma tsubsh64_loop_eq: "tsubsh64_loop i r y = (align_step y ^^ i) r"
  by (induction i arbitrary: r) (simp_all add: align_step_def tsubsh64_def lsl64_def funpow_swap1)

lemma unat_ucast_8_64: "unat (ucast (k :: u8) :: u64) = unat k"
  using unat_less_exp [of k] by (simp add: unat_simps)

lemma udivmoddi4_as_align:
  assumes "y \<le> x"
  shows "udivmoddi4_as x y = align_divide (unat ((clzll y - clzll x) AND 63)) x y"
  using assms
  by (simp add: udivmoddi4_as_def align_divide_def Let_def case_prod_unfold tsubsh64_loop_eq lsl64_def
      lsr64_def half64_def unat_ucast_8_64 word_eq_0_iff_unat)

lemma udivmoddi4_as_correct:
  assumes y: "y \<noteq> 0"
  shows "udivmoddi4_as x y = (x div y, x mod y)"
proof (cases "y \<le> x")
  case True
  then have le: "unat y \<le> unat x" by (simp add: word_le_nat_alt)
  then have "x \<noteq> 0" using y unat_gt_0 [of y] by auto
  note a = alignment [OF clzll_clz [OF y] clzll_clz [OF this] le]
  have k: "unat ((clzll y - clzll x) AND 63) = unat (clzll y) - unat (clzll x)"
    using a(1) clzll_clz [OF y] by (intro clz_difference) (simp_all add: is_clz_def)
  show ?thesis unfolding udivmoddi4_as_align [OF True] k
    by (rule align_divide_correct [OF y]) (use a in simp_all)
next
  case False
  then show ?thesis using align_divide_small [of x y] by (simp add: udivmoddi4_as_def)
qed

subsection \<open>64 by 32 bits\<close>

lemma udivmoddi4_as6432_align:
  assumes "VAL_RESIZE y 32 \<le> x"
  shows "udivmoddi4_as6432 x y =
    align_divide (unat ((push_bit 5 1 OR clz (ucast y)) - clzll x AND 63)) x (VAL_RESIZE y 32)"
proof -
  have "(ucast (VAL_RESIZE y 32) :: u32) = ucast y"
    by (simp add: word_unat_eq_iff unat_simps)
  then show ?thesis using assms
    by (simp add: udivmoddi4_as6432_def align_divide_def Let_def case_prod_unfold tsubsh64_loop_eq
      lsl64_def lsr64_def half64_def unat_ucast_8_64 word_eq_0_iff_unat del: VAL_RESIZE_take_bit)
qed

lemma or_32: "unat (c :: u8) < 32 \<Longrightarrow> unat (push_bit 5 1 OR c) = 32 + unat c"
proof -
  assume c: "unat c < 32"
  then have "take_bit 5 c = c" by (simp add: word_unat_eq_iff unat_take_bit_mod)
  have "push_bit 5 1 AND c = 0"
    by (subst \<open>take_bit 5 c = c\<close> [symmetric]) (rule bit_word_eqI, auto simp only: bit_simps bit_0_eq bot_apply bot_bool_def)
  then have "push_bit 5 1 OR c = 32 + c" by (simp add: disjunctive_add_eq_or)
  then show ?thesis using c by (simp add: unat_add_small)
qed

lemma udivmoddi4_as6432_correct:
  assumes y: "y \<noteq> 0" "unat y < 2 ^ 32"
  shows "udivmoddi4_as6432 x y = (x div y, x mod y)"
proof (cases "y \<le> x")
  case True
  have r: "VAL_RESIZE y 32 = y" using y(2) by (simp add: take_bit_self)
  have u: "unat (ucast y :: u32) = unat y" using y(2) by (simp add: unat_simps)
  then have "(ucast y :: u32) \<noteq> 0" using y(1) by (auto simp: word_eq_0_iff_unat)
  from clz_clz [OF this] have c: "is_clz 32 (unat y) (unat (clz (ucast y)))" by (simp add: u)
  then have c64: "is_clz 64 (unat y) (32 + unat (clz (ucast y)))" by (simp add: is_clz_def)
  have le: "unat y \<le> unat x" using True by (simp add: word_le_nat_alt)
  then have "x \<noteq> 0" using y unat_gt_0 [of y] by auto
  note a = alignment [OF c64 clzll_clz [OF this] le]
  have "unat (clz (ucast y)) < 32" using c by (simp add: is_clz_def)
  note o = or_32 [OF this]
  have "unat (clzll x) \<le> unat (push_bit 5 1 OR clz (ucast y))" "unat (push_bit 5 1 OR clz (ucast y)) < 64"
    unfolding o using a(1) c by (simp_all add: is_clz_def)
  note k = clz_difference [OF this, unfolded o]
  show ?thesis using udivmoddi4_as6432_align [of y x] True unfolding k r
    using align_divide_correct [OF y(1), of "32 + unat (clz (ucast y)) - unat (clzll x)" x] a by simp
next
  case False
  have "VAL_RESIZE y 32 = y" using y(2) by (simp add: take_bit_self)
  then show ?thesis using False align_divide_small [of x y] by (simp add: udivmoddi4_as6432_def)
qed

section \<open>The entry points\<close>

interpretation align32: unsigned_divider udivmodsi4_as "\<lambda>y. True"
  by unfold_locales (rule udivmodsi4_as_correct)

interpretation align64: unsigned_divider udivmoddi4_as "\<lambda>y. True"
  by unfold_locales (rule udivmoddi4_as_correct)

interpretation align6432: unsigned_divider udivmoddi4_as6432 "\<lambda>y. unat y < 2 ^ 32"
  by unfold_locales (rule udivmoddi4_as6432_correct)

lemma align_entry_points:
  "divsi3_as u v = sdiv_via udivmodsi4_as u v" "modsi3_as u v = smod_via udivmodsi4_as u v"
  "divdi3_as w x = sdiv_via udivmoddi4_as w x" "moddi3_as w x = smod_via udivmoddi4_as w x"
  by (simp_all add: divsi3_as_def modsi3_as_def divdi3_as_def moddi3_as_def sdiv_via_def smod_via_def
      magnitude_def Let_def)

text \<open>
  In \<^verbatim>\<open>divdi3as6432.c\<close> the divisor is negated in 32 bits and then widened with its sign; the
  cut to 32 bits inside the divider repairs the least integer.
\<close>

lemma resize_scast: "VAL_RESIZE (scast (v :: u32)) 32 = ucast v"
proof (rule bit_word_eqI)
  fix n
  have "bit v n \<Longrightarrow> n < 32" using bit_imp_le_length [of v n] by simp
  then show "bit (VAL_RESIZE (scast v) 32) n \<longleftrightarrow> bit (ucast v :: u64) n" if "n < LENGTH(64)"
    using that by (cases "n = 31") (auto simp: bit_simps min_def)
qed

lemma resize_magnitude: "VAL_RESIZE (scast (magnitude v)) 32 = VAL_RESIZE (magnitude (scast (v :: u32) :: u64)) 32"
proof -
  have "uint (ucast (magnitude v) :: u64) = uint (magnitude (scast v :: u64))"
  proof -
    have "uint (ucast (magnitude v) :: u64) = uint (magnitude v)" by (simp only: uint_nat unat_ucast_32_64)
    then show ?thesis by (simp only: uint_magnitude sint_scast_64)
  qed
  moreover have "VAL_RESIZE (magnitude (scast v :: u64)) 32 = magnitude (scast v)"
    using magnitude_scast_small [of v] by (simp add: take_bit_self)
  ultimately show ?thesis by (simp add: resize_scast word_uint_eq_iff del: VAL_RESIZE_take_bit)
qed

lemma as6432_resize: "VAL_RESIZE y 32 = VAL_RESIZE z 32 \<Longrightarrow> udivmoddi4_as6432 x y = udivmoddi4_as6432 x z"
  by (simp add: udivmoddi4_as6432_def del: VAL_RESIZE_take_bit)

lemma align_entry_points_6432:
  "divdi3_as6432 w v = sdiv_via udivmoddi4_as6432 w (scast v)"
  "moddi3_as6432 w v = smod_via udivmoddi4_as6432 w (scast v)"
  using as6432_resize [OF resize_magnitude [of v], of "magnitude w"]
  by (simp_all add: divdi3_as6432_def moddi3_as6432_def sdiv_via_def smod_via_def Let_def
      scast_less_0_iff magnitude_def split: if_splits)

text \<open>
  C9. For every non-zero divisor the unsigned test-subtract-and-shift dividers return the
  quotient and the remainder, in 32 bits, in 64 bits and in 64 by 32 bits.
\<close>

theorem align_unsigned_division:
  assumes "v \<noteq> 0" and "y \<noteq> 0"
  shows "udivsi3_as u v = u div v \<and> umodsi3_as u v = u mod v
    \<and> udivdi3_as x y = x div y \<and> umoddi3_as x y = x mod y
    \<and> udivdi3_as6432 x v = x div ucast v \<and> umoddi3_as6432 x v = x mod ucast v"
proof -
  have "(ucast v :: u64) \<noteq> 0" "unat (ucast v :: u64) < 2 ^ 32"
    using assms(1) unat_less_exp [of v] by (auto simp: word_eq_0_iff_unat unat_ucast_32_64)
  note align6432.unsigned_results [OF this]
  then show ?thesis using assms align32.unsigned_results align64.unsigned_results
    by (simp add: udivsi3_as_def umodsi3_as_def udivdi3_as_def umoddi3_as_def udivdi3_as6432_def
        umoddi3_as6432_def)
qed

theorem align_unsigned_division_witness:
  "udivsi3_as 100 7 = 14 \<and> umodsi3_as 100 7 = 2 \<and> udivdi3_as 100 9 = 11 \<and> umoddi3_as6432 100 7 = 2"
  using align_unsigned_division [of 7 9 100 100] by simp

text \<open>
  C11. The signed entry points over the test-subtract-and-shift dividers truncate towards
  zero, the remainder having the sign of the dividend, for every non-zero divisor. This
  includes the least 32-bit integer as a divisor, which the 64-by-32-bit entry points negate
  without widening it first.
\<close>

theorem align_signed_division:
  assumes "v \<noteq> 0" and "y \<noteq> 0"
  shows "divsi3_as u v = word_of_int (sint u sdiv sint v) \<and> modsi3_as u v = word_of_int (sint u smod sint v)
    \<and> divdi3_as x y = word_of_int (sint x sdiv sint y) \<and> moddi3_as x y = word_of_int (sint x smod sint y)
    \<and> divdi3_as6432 x v = word_of_int (sint x sdiv sint v)
    \<and> moddi3_as6432 x v = word_of_int (sint x smod sint v)"
proof -
  have "(scast v :: u64) \<noteq> 0" using assms(1) by (simp add: scast_eq_0_iff)
  note align6432.signed_quotient [OF this magnitude_scast_small]
    align6432.signed_remainder [OF this magnitude_scast_small]
  then show ?thesis
    using assms align32.signed_quotient align32.signed_remainder align64.signed_quotient
      align64.signed_remainder
    by (simp add: align_entry_points align_entry_points_6432 sint_scast_64)
qed

theorem align_signed_division_witness:
  "divsi3_as (- 7) 2 = - 3 \<and> modsi3_as (- 7) 2 = - 1 \<and> divdi3_as (- 7) (- 2) = 3
    \<and> moddi3_as6432 (- 7) 2 = - 1"
  using align_signed_division [of 2 "- 2" "- 7" "- 7"]
  by (simp add: signed_divide_int_def signed_modulo_int_def)

end
