(* ===== verification/DivNonrestoring.thy ===== *)
theory DivNonrestoring
  imports DivAlign
begin

text \<open>
  The non-restoring divider of \<^verbatim>\<open>etc/libbambu/softint/common_core_nonrestoring_sdiv.h\<close> and its
  entry points in \<^verbatim>\<open>divsi3nr.c\<close>, \<^verbatim>\<open>divdi3nr.c\<close> and \<^verbatim>\<open>divdi3nr6432.c\<close>. The macro parameter
  \<^verbatim>\<open>DIV_NUM_BIT\<close> (32 or 64) is the argument \<open>n\<close>; \<^verbatim>\<open>UNROLL_FACTOR\<close> is 1. The partial
  remainder has one bit more than the operands: its sign is a variable of its own.
\<close>

section \<open>The program\<close>

record nr_state =
  partial_remainder_sign :: bool
  partial_remainderH :: u64
  partial_remainderL :: u64
  nr_res :: u64

text \<open>The constants of the loop: the divisor and its complement, with their signs.\<close>

record nr_divisor =
  plus_divisor :: u64
  plus_divisor_sign :: bool
  minus_divisor :: u64
  minus_divisor_sign :: bool

definition nr_loop_body :: "nat \<Rightarrow> nr_divisor \<Rightarrow> nr_state \<Rightarrow> nr_state" where
  "nr_loop_body n d st =
    (let divisor_select = (partial_remainder_sign st \<noteq> plus_divisor_sign d);
         carry_input = (\<not> divisor_select);
         w = (if divisor_select then plus_divisor d else minus_divisor d);
         w_sign = (if divisor_select then plus_divisor_sign d else minus_divisor_sign d);
         sgn = (SELECT_BIT (partial_remainderH st) (n - 1) \<noteq> 0);
         H = push_bit 1 (VAL_RESIZE (partial_remainderH st) (n - 1))
             OR SELECT_BIT (partial_remainderL st) (n - 1);
         L = VAL_RESIZE (push_bit 1 (partial_remainderL st)) n;
         sum_result = VAL_RESIZE w (n - 1) + VAL_RESIZE H (n - 1) + of_bool carry_input;
         sum_result_msb = (SELECT_BIT sum_result (n - 1) XOR SELECT_BIT w (n - 1)
             XOR SELECT_BIT H (n - 1)) \<noteq> 0;
         sum_result_carry = ((SELECT_BIT sum_result (n - 1) AND SELECT_BIT w (n - 1))
             OR (SELECT_BIT w (n - 1) AND SELECT_BIT H (n - 1))
             OR (SELECT_BIT sum_result (n - 1) AND SELECT_BIT H (n - 1))) \<noteq> 0;
         sum_result_sign = ((w_sign \<noteq> sgn) \<noteq> sum_result_carry);
         H = push_bit (n - 1) (of_bool sum_result_msb) OR VAL_RESIZE sum_result (n - 1);
         sgn = sum_result_sign;
         res = VAL_RESIZE (push_bit 1 (nr_res st) OR of_bool (sgn \<noteq> minus_divisor_sign d)) n
     in \<lparr>partial_remainder_sign = sgn, partial_remainderH = H, partial_remainderL = L, nr_res = res\<rparr>)"

definition nr_init :: "nat \<Rightarrow> u64 \<Rightarrow> bool \<Rightarrow> nr_state" where
  "nr_init n a signed_div =
    (let sgn = (if n < 64 then a <s 0 \<and> signed_div else SELECT_BIT a (n - 1) \<noteq> 0 \<and> signed_div)
     in \<lparr>partial_remainder_sign = sgn,
         partial_remainderH =
           (if n < 64 then VAL_RESIZE (signed_drop_bit n a) n
            else signed_drop_bit (n - 1) (push_bit (n - 1) (of_bool sgn))),
         partial_remainderL = VAL_RESIZE a n,
         nr_res = 0\<rparr>)"

definition nr_divisor_of :: "nat \<Rightarrow> u64 \<Rightarrow> bool \<Rightarrow> nr_divisor" where
  "nr_divisor_of n b signed_div =
    (let p = VAL_RESIZE b n; m = VAL_RESIZE (NOT b) n
     in \<lparr>plus_divisor = p, plus_divisor_sign = (SELECT_BIT p (n - 1) \<noteq> 0 \<and> signed_div),
         minus_divisor = m, minus_divisor_sign = (SELECT_BIT m (n - 1) \<noteq> 0 \<or> \<not> signed_div)\<rparr>)"

text \<open>The correction of quotient and remainder after the loop.\<close>

definition nr_correct :: "nat \<Rightarrow> nr_divisor \<Rightarrow> bool \<Rightarrow> nr_state \<Rightarrow> u64 \<times> u64" where
  "nr_correct n d sign_a st =
    (let prs = partial_remainder_sign st;
         H = partial_remainderH st;
         pds = plus_divisor_sign d;
         divisor_select = (if sign_a \<and> prs then minus_divisor_sign d
                           else minus_divisor_sign d \<noteq> sign_a);
         carry_input = (\<not> divisor_select);
         w = (if divisor_select then plus_divisor d else minus_divisor d);
         partial_remainder = VAL_RESIZE (H + w + of_bool carry_input) n;
         rem_nul = (H = 0);
         rem_nul_after = (partial_remainder = 0);
         plus_one = ((pds \<and> \<not> sign_a) \<or> (\<not> prs \<and> pds \<and> rem_nul)
           \<or> (\<not> prs \<and> \<not> pds \<and> sign_a \<and> \<not> rem_nul)
           \<or> (\<not> pds \<and> sign_a \<and> \<not> rem_nul \<and> \<not> rem_nul_after)
           \<or> (prs \<and> pds \<and> sign_a \<and> \<not> rem_nul \<and> rem_nul_after));
         rem_correction = ((\<not> rem_nul \<and> prs \<noteq> sign_a) \<or> (prs \<and> sign_a \<and> rem_nul_after));
         H = (if rem_correction then partial_remainder else H)
     in (nr_res st + of_bool plus_one, H))"

definition non_restoring_sdiv :: "nat \<Rightarrow> u64 \<Rightarrow> u64 \<Rightarrow> bool \<Rightarrow> u64 \<times> u64" where
  "non_restoring_sdiv n a b signed_div =
    (let st = nr_init n a signed_div;
         sign_a = partial_remainder_sign st;
         d = nr_divisor_of n b signed_div;
         st = (nr_loop_body n d ^^ n) st
     in nr_correct n d sign_a st)"

definition divsi3_nr :: "u32 \<Rightarrow> u32 \<Rightarrow> u32" where
  "divsi3_nr u v = ucast (fst (non_restoring_sdiv 32 (scast u) (scast v) True))"

definition modsi3_nr :: "u32 \<Rightarrow> u32 \<Rightarrow> u32" where
  "modsi3_nr u v = ucast (snd (non_restoring_sdiv 32 (scast u) (scast v) True))"

definition udivsi3_nr :: "u32 \<Rightarrow> u32 \<Rightarrow> u32" where
  "udivsi3_nr u v = ucast (fst (non_restoring_sdiv 32 (ucast u) (ucast v) False))"

definition umodsi3_nr :: "u32 \<Rightarrow> u32 \<Rightarrow> u32" where
  "umodsi3_nr u v = ucast (snd (non_restoring_sdiv 32 (ucast u) (ucast v) False))"

definition divdi3_nr :: "u64 \<Rightarrow> u64 \<Rightarrow> u64" where
  "divdi3_nr u v = fst (non_restoring_sdiv 64 u v True)"

definition moddi3_nr :: "u64 \<Rightarrow> u64 \<Rightarrow> u64" where
  "moddi3_nr u v = snd (non_restoring_sdiv 64 u v True)"

definition udivdi3_nr :: "u64 \<Rightarrow> u64 \<Rightarrow> u64" where
  "udivdi3_nr u v = fst (non_restoring_sdiv 64 u v False)"

definition umoddi3_nr :: "u64 \<Rightarrow> u64 \<Rightarrow> u64" where
  "umoddi3_nr u v = snd (non_restoring_sdiv 64 u v False)"

definition divdi36432_nr :: "u64 \<Rightarrow> u32 \<Rightarrow> u64" where
  "divdi36432_nr u v = fst (non_restoring_sdiv 64 u (scast v) True)"

definition moddi36432_nr :: "u64 \<Rightarrow> u32 \<Rightarrow> u64" where
  "moddi36432_nr u v = snd (non_restoring_sdiv 64 u (scast v) True)"

definition udivdi36432_nr :: "u64 \<Rightarrow> u32 \<Rightarrow> u64" where
  "udivdi36432_nr u v = fst (non_restoring_sdiv 64 u (ucast v) False)"

definition umoddi36432_nr :: "u64 \<Rightarrow> u32 \<Rightarrow> u64" where
  "umoddi36432_nr u v = snd (non_restoring_sdiv 64 u (ucast v) False)"

section \<open>One step of the loop, in natural numbers\<close>

lemma unat_top_bit:
  fixes v :: "'a::len word"
  assumes "unat v < 2 * 2 ^ m"
  shows "unat v = of_bool (bit v m) * 2 ^ m + unat v mod 2 ^ m"
proof -
  have "unat v div 2 ^ m < 2" using assms by (simp add: div_less_iff_less_mult)
  then have "unat v div 2 ^ m = of_bool (bit v m)" by (auto simp: bit_unat_div less_2_cases_iff)
  then show ?thesis using div_mult_mod_eq [of "unat v" "2 ^ m"] by simp
qed

text \<open>
  The body adds, in \<open>n + 1\<close> bits, the doubled partial remainder with the next bit of the
  dividend and the selected multiple of the divisor.
\<close>

lemma ripple_sum:
  fixes K low :: nat
  shows "(2 * K * of_bool ((ws \<noteq> hb) \<noteq> ((c \<and> wb) \<or> (wb \<and> gb) \<or> (c \<and> gb))) + K * of_bool ((c \<noteq> wb) \<noteq> gb) + low)
      mod (4 * K)
    = (2 * K * (of_bool hb + of_bool ws) + K * (of_bool gb + of_bool wb + of_bool c) + low) mod (4 * K)"
proof -
  define x y where xy: "x = 2 * K * of_bool ((ws \<noteq> hb) \<noteq> ((c \<and> wb) \<or> (wb \<and> gb) \<or> (c \<and> gb))) + K * of_bool ((c \<noteq> wb) \<noteq> gb)"
    "y = 2 * K * (of_bool hb + of_bool ws) + K * (of_bool gb + of_bool wb + of_bool c)"
  have "y = x \<or> y = x + 4 * K"
    unfolding xy by (cases ws; cases hb; cases c; cases wb; cases gb) simp_all
  then have "(x + low) mod (4 * K) = (y + low) mod (4 * K)"
  proof
    assume "y = x + 4 * K"
    then have "y + low = (x + low) + 4 * K" by simp
    then show ?thesis by (simp only: mod_add_self2)
  qed simp
  then show ?thesis unfolding xy .
qed

lemma nr_loop_body_sum:
  fixes d st and n :: nat
  defines "st' \<equiv> nr_loop_body n d st"
  defines "ds \<equiv> partial_remainder_sign st \<noteq> plus_divisor_sign d"
  defines "w \<equiv> if ds then plus_divisor d else minus_divisor d"
  defines "ws \<equiv> if ds then plus_divisor_sign d else minus_divisor_sign d"
  assumes n: "2 \<le> n" "n \<le> 64" and H: "unat (partial_remainderH st) < 2 ^ n"
    and L: "unat (partial_remainderL st) < 2 ^ n" and w: "unat w < 2 ^ n"
  shows "(unat (partial_remainderH st') + 2 ^ n * of_bool (partial_remainder_sign st')) mod 2 ^ Suc n
      = (2 * unat (partial_remainderH st) + unat (partial_remainderL st) div 2 ^ (n - 1)
          + (unat w + 2 ^ n * of_bool ws + of_bool (\<not> ds))) mod 2 ^ Suc n"
    and "unat (partial_remainderH st') < 2 ^ n"
proof -
  define m K where "m = n - 1" and K: "K = (2::nat) ^ m"
  have nm: "n = Suc m" using n by (simp add: m_def)
  have pw: "2 ^ n = 2 * K" "2 ^ Suc n = 4 * K" by (simp_all add: nm K)
  have K64: "2 * K \<le> 2 ^ LENGTH(64)" using n power_increasing [of n 64 "2::nat"] by (simp add: pw [symmetric])
  have K0: "0 < K" by (simp add: K)
  define h l where hl: "h = partial_remainderH st" "l = partial_remainderL st"
  have lb: "unat l div K = of_bool (bit l m)"
  proof -
    have "unat l div K < 2" using L by (simp add: div_less_iff_less_mult hl pw K0)
    then show ?thesis by (auto simp: bit_unat_div less_2_cases_iff K)
  qed
  define g where "g = push_bit 1 (take_bit m h) OR of_bool (bit l m)"
  have hm: "2 * (unat h mod K) + of_bool (bit l m) < 2 * K"
    using mod_less_divisor [OF K0, of "unat h"] by (cases "bit l m") simp_all
  have g: "unat g = 2 * (unat h mod K) + of_bool (bit l m)"
    unfolding g_def using hm K64
    by (subst unat_push_or) (auto simp: unat_take_bit_mod K [symmetric] mult.commute)
  define s where "s = take_bit m w + take_bit m g + of_bool (\<not> ds)"
  have wK: "unat w mod K < K" "unat g mod K < K" using K0 by simp_all
  have "K \<le> 9223372036854775808" using K64 by simp
  with wK have sum: "unat w mod K + unat g mod K < 18446744073709551615" by linarith
  then have "unat (take_bit m w + take_bit m g) = unat w mod K + unat g mod K"
    by (subst unat_add_small) (simp_all add: unat_take_bit_mod K [symmetric])
  then have s: "unat s = unat w mod K + unat g mod K + of_bool (\<not> ds)"
    unfolding s_def using sum by (subst unat_add_small) (cases ds; simp)+
  have "of_bool (\<not> ds) \<le> (1 :: nat)" by simp
  with wK have s2: "unat s < 2 * K" unfolding s by linarith
  define H' where "H' = push_bit m (of_bool ((bit s m \<noteq> bit w m) \<noteq> bit g m)) OR take_bit m s"
  have H': "unat H' = K * of_bool ((bit s m \<noteq> bit w m) \<noteq> bit g m) + unat s mod K"
    unfolding H'_def using mod_less_divisor [OF K0, of "unat s"] K64
    by (subst unat_push_or) (auto simp: unat_take_bit_mod K [symmetric] mult.commute)
  define s' where "s' = ((ws \<noteq> bit h m) \<noteq> ((bit s m \<and> bit w m) \<or> (bit w m \<and> bit g m) \<or> (bit s m \<and> bit g m)))"
  have st': "partial_remainderH st' = H'" "partial_remainder_sign st' = s'"
    unfolding st'_def nr_loop_body_def Let_def nr_state.simps SELECT_BIT_eq VAL_RESIZE_take_bit
      ds_def [symmetric] w_def [symmetric] ws_def [symmetric] hl [symmetric] m_def [symmetric]
      g_def [symmetric] s_def [symmetric]
    unfolding H'_def s'_def by simp_all
  have gK: "unat g < 2 * K" using hm g by simp
  have dec: "unat h = of_bool (bit h m) * K + unat h mod K" "unat w = of_bool (bit w m) * K + unat w mod K"
    "unat g = of_bool (bit g m) * K + unat g mod K" "unat s = of_bool (bit s m) * K + unat s mod K"
    using unat_top_bit [of h m] unat_top_bit [of w m] unat_top_bit [of g m] unat_top_bit [of s m] H w gK s2
    unfolding hl pw K by simp_all
  have "2 * unat h + unat l div K + (unat w + 2 * K * of_bool ws + of_bool (\<not> ds)) =
      2 * K * (of_bool (bit h m) + of_bool ws) + unat g + (unat w + of_bool (\<not> ds))"
    using dec(1) g lb by (simp add: algebra_simps)
  also have "\<dots> = 2 * K * (of_bool (bit h m) + of_bool ws)
      + K * (of_bool (bit g m) + of_bool (bit w m) + of_bool (bit s m)) + unat s mod K"
    using dec(2,3,4) s by (simp add: algebra_simps)
  finally have rhs: "2 * unat h + unat l div K + (unat w + 2 * K * of_bool ws + of_bool (\<not> ds)) =
     2 * K * (of_bool (bit h m) + of_bool ws)
      + K * (of_bool (bit g m) + of_bool (bit w m) + of_bool (bit s m)) + unat s mod K" .
  have lhs: "unat H' + 2 * K * of_bool s' = 2 * K * of_bool s' + K * of_bool ((bit s m \<noteq> bit w m) \<noteq> bit g m) + unat s mod K"
    unfolding H' by simp
  show "(unat (partial_remainderH st') + 2 ^ n * of_bool (partial_remainder_sign st')) mod 2 ^ Suc n
      = (2 * unat (partial_remainderH st) + unat (partial_remainderL st) div 2 ^ (n - 1)
          + (unat w + 2 ^ n * of_bool ws + of_bool (\<not> ds))) mod 2 ^ Suc n"
    unfolding st' pw hl [symmetric] m_def [symmetric] K [symmetric] rhs lhs unfolding s'_def by (rule ripple_sum)
  show "unat (partial_remainderH st') < 2 ^ n"
    unfolding st' pw H' using mod_less_divisor [OF K0, of "unat s"] by auto
qed

section \<open>The partial remainder as an integer\<close>

text \<open>A sign bit and \<open>n\<close> bits represent an integer between \<open>-2\<^sup>n\<close> and \<open>2\<^sup>n\<close>.\<close>

definition represents :: "nat \<Rightarrow> int \<Rightarrow> bool \<Rightarrow> u64 \<Rightarrow> bool" where
  "represents n p s h \<longleftrightarrow> s = (p < 0) \<and> int (unat h) = p mod 2 ^ n"

lemma mod_neg_add: "- M \<le> p \<Longrightarrow> p < 0 \<Longrightarrow> p mod M = p + (M :: int)"
  by (rule int_mod_pos_eq [where q = "- 1"]) simp_all

lemma representsI:
  assumes h: "unat h < 2 ^ n" and p: "- (2 ^ n) \<le> p" "p < 2 ^ n"
    and eq: "int (unat h + 2 ^ n * of_bool s) mod 2 ^ Suc n = p mod 2 ^ Suc n"
  shows "represents n p s h"
proof -
  have h': "int (unat h) < 2 ^ n" using h by (metis of_nat_less_iff of_nat_power of_nat_numeral)
  have l: "int (unat h + 2 ^ n * of_bool s) mod 2 ^ Suc n = int (unat h) + 2 ^ n * of_bool s"
  proof -
    have "int (unat h + 2 ^ n * of_bool s) = int (unat h) + 2 ^ n * of_bool s" by simp
    moreover have "(2 :: int) ^ n * of_bool s \<le> 2 ^ n" by simp
    then have "int (unat h) + 2 ^ n * of_bool s < 2 ^ Suc n" using h' unfolding power_Suc by linarith
    moreover have "0 \<le> int (unat h) + 2 ^ n * of_bool s" by simp
    ultimately show ?thesis by (simp only: mod_pos_pos_trivial)
  qed
  show ?thesis
  proof (cases "p < 0")
    case True
    then have "p mod 2 ^ Suc n = p + 2 ^ Suc n" "p mod 2 ^ n = p + 2 ^ n" using p by (auto intro!: mod_neg_add)
    then show ?thesis using True h' p l eq unfolding represents_def by (cases s) auto
  next
    case False
    then have "p mod 2 ^ Suc n = p" "p mod 2 ^ n = p" using p by auto
    then show ?thesis using False h' p l eq unfolding represents_def by (cases s) auto
  qed
qed

lemma represents_value:
  assumes "represents n p s h" "- (2 ^ n) \<le> p" "p < 2 ^ n"
  shows "int (unat h) + 2 ^ n * of_bool s = p + 2 ^ Suc n * of_bool (p < 0)"
  using assms by (auto simp: represents_def mod_neg_add)

text \<open>The divisor \<open>b\<close>, its magnitude at most \<open>2\<^sup>n - 1\<close>, and its negation.\<close>

definition divisor_inv :: "nat \<Rightarrow> int \<Rightarrow> nr_divisor \<Rightarrow> bool" where
  "divisor_inv n b d \<longleftrightarrow> b \<noteq> 0 \<and> \<bar>b\<bar> < 2 ^ n
    \<and> plus_divisor_sign d = (b < 0) \<and> minus_divisor_sign d = (\<not> b < 0)
    \<and> unat (plus_divisor d) < 2 ^ n \<and> unat (minus_divisor d) < 2 ^ n
    \<and> int (unat (plus_divisor d)) = b mod 2 ^ n
    \<and> int (unat (minus_divisor d)) = (- b - 1) mod 2 ^ n"

lemma selected_divisor:
  assumes "divisor_inv n b d"
  shows "(int (unat (plus_divisor d) + 2 ^ n * of_bool (plus_divisor_sign d))) mod 2 ^ Suc n = b mod 2 ^ Suc n"
    and "(int (unat (minus_divisor d) + 2 ^ n * of_bool (minus_divisor_sign d) + 1)) mod 2 ^ Suc n
      = (- b) mod 2 ^ Suc n"
proof -
  note D = assms [unfolded divisor_inv_def]
  have "represents n b (plus_divisor_sign d) (plus_divisor d)" using D by (simp add: represents_def)
  from represents_value [OF this] D
  have "int (unat (plus_divisor d) + 2 ^ n * of_bool (plus_divisor_sign d)) = b + 2 ^ Suc n * of_bool (b < 0)"
    by auto
  then show "(int (unat (plus_divisor d) + 2 ^ n * of_bool (plus_divisor_sign d))) mod 2 ^ Suc n = b mod 2 ^ Suc n"
    by (simp only: mod_mult_self2)
  have "represents n (- b - 1) (minus_divisor_sign d) (minus_divisor d)" using D by (auto simp: represents_def)
  from represents_value [OF this] D
  have "int (unat (minus_divisor d) + 2 ^ n * of_bool (minus_divisor_sign d) + 1)
      = - b + 2 ^ Suc n * of_bool (- b - 1 < 0)" by auto
  then show "(int (unat (minus_divisor d) + 2 ^ n * of_bool (minus_divisor_sign d) + 1)) mod 2 ^ Suc n
      = (- b) mod 2 ^ Suc n"
    by (simp only: mod_mult_self2)
qed

text \<open>The integer step: double, bring down a bit, move towards zero by the divisor's magnitude.\<close>

definition nr_step :: "int \<Rightarrow> int \<Rightarrow> int \<Rightarrow> int" where
  "nr_step b p l = 2 * p + l + (if (p < 0) \<noteq> (b < 0) then b else - b)"

lemma nr_step_range:
  assumes "- \<bar>b\<bar> \<le> p" "p < \<bar>b\<bar>" "l = 0 \<or> l = 1"
  shows "- \<bar>b\<bar> \<le> nr_step b p l" "nr_step b p l < \<bar>b\<bar>"
  using assms by (auto simp: nr_step_def)

lemma nr_loop_body_step:
  assumes n: "2 \<le> n" "n \<le> 64" and d: "divisor_inv n b d"
    and r: "represents n p (partial_remainder_sign st) (partial_remainderH st)"
    and p: "- \<bar>b\<bar> \<le> p" "p < \<bar>b\<bar>"
    and L: "unat (partial_remainderL st) < 2 ^ n"
  defines "l \<equiv> int (unat (partial_remainderL st) div 2 ^ (n - 1))"
  shows "represents n (nr_step b p l) (partial_remainder_sign (nr_loop_body n d st))
      (partial_remainderH (nr_loop_body n d st))"
    and "- \<bar>b\<bar> \<le> nr_step b p l" "nr_step b p l < \<bar>b\<bar>"
proof -
  note D = d [unfolded divisor_inv_def]
  have l: "l = 0 \<or> l = 1"
  proof -
    have "(2::nat) ^ n = 2 * 2 ^ (n - 1)" using n by (cases n) simp_all
    then have "unat (partial_remainderL st) div 2 ^ (n - 1) < 2" using L by (simp add: div_less_iff_less_mult)
    then show ?thesis by (auto simp: l_def less_2_cases_iff)
  qed
  show rng: "- \<bar>b\<bar> \<le> nr_step b p l" "nr_step b p l < \<bar>b\<bar>" using nr_step_range [OF p l] by auto
  have H: "unat (partial_remainderH st) < 2 ^ n"
  proof -
    have "int (unat (partial_remainderH st)) < 2 ^ n" using r by (simp add: represents_def)
    then show ?thesis by (metis of_nat_less_iff of_nat_power of_nat_numeral)
  qed
  define ds where "ds = (partial_remainder_sign st \<noteq> plus_divisor_sign d)"
  define w where "w = (if ds then plus_divisor d else minus_divisor d)"
  define ws where "ws = (if ds then plus_divisor_sign d else minus_divisor_sign d)"
  have w: "unat w < 2 ^ n" using D by (simp add: w_def)
  note S = nr_loop_body_sum [OF n H L, of d, folded ds_def, folded w_def ws_def, OF w]
  define W where "W = (if ds then b else - b)"
  have W: "int (unat w + 2 ^ n * of_bool ws + of_bool (\<not> ds)) mod 2 ^ Suc n = W mod 2 ^ Suc n"
    using selected_divisor [OF d] unfolding w_def ws_def W_def
    by (cases ds) (simp_all only: if_True if_False simp_thms of_bool_eq add_0_right)
  have step: "nr_step b p l = 2 * p + l + W"
    using r D by (auto simp: nr_step_def W_def ds_def represents_def)
  have h: "int (unat (partial_remainderH st)) + 2 ^ n * of_bool (p < 0) = p + 2 ^ Suc n * of_bool (p < 0)"
    using represents_value [OF r] p D r by (auto simp: represents_def)
  then have h2: "2 * int (unat (partial_remainderH st)) = 2 * p + 2 ^ Suc n * of_bool (p < 0)" by simp
  have "int (2 * unat (partial_remainderH st) + unat (partial_remainderL st) div 2 ^ (n - 1)
          + (unat w + 2 ^ n * of_bool ws + of_bool (\<not> ds))) mod 2 ^ Suc n
      = (2 * p + l + W) mod 2 ^ Suc n"
  proof -
    have "int (2 * unat (partial_remainderH st) + unat (partial_remainderL st) div 2 ^ (n - 1)
          + (unat w + 2 ^ n * of_bool ws + of_bool (\<not> ds)))
      = 2 * p + l + int (unat w + 2 ^ n * of_bool ws + of_bool (\<not> ds)) + 2 ^ Suc n * of_bool (p < 0)"
      unfolding of_nat_add of_nat_mult of_nat_numeral l_def using h2 by linarith
    then show ?thesis using W by (metis mod_mult_self2 mod_add_right_eq)
  qed
  then have "int (unat (partial_remainderH (nr_loop_body n d st))
      + 2 ^ n * of_bool (partial_remainder_sign (nr_loop_body n d st))) mod 2 ^ Suc n
      = nr_step b p l mod 2 ^ Suc n"
    unfolding step using S(1) by (metis of_nat_mod of_nat_numeral of_nat_power)
  then show "represents n (nr_step b p l) (partial_remainder_sign (nr_loop_body n d st))
      (partial_remainderH (nr_loop_body n d st))"
    using rng D S(2) by (intro representsI) auto
qed

section \<open>The loop invariant\<close>

definition nr_inv :: "nat \<Rightarrow> int \<Rightarrow> int \<Rightarrow> nat \<Rightarrow> int \<Rightarrow> nr_state \<Rightarrow> bool" where
  "nr_inv n A b i p st \<longleftrightarrow>
     represents n p (partial_remainder_sign st) (partial_remainderH st)
     \<and> - \<bar>b\<bar> \<le> p \<and> p < \<bar>b\<bar>
     \<and> int (unat (partial_remainderL st)) = A * 2 ^ i mod 2 ^ n
     \<and> unat (nr_res st) < 2 ^ i
     \<and> A div 2 ^ (n - i) = p + b * (int (unat (nr_res st)) + 1 - of_bool ((p < 0) = (b < 0))
           - of_bool ((A < 0) \<noteq> (b < 0)) * 2 ^ i)"

lemma next_bit:
  assumes "i < n"
  shows "A div 2 ^ (n - Suc i) = 2 * (A div 2 ^ (n - i)) + (A * 2 ^ i mod 2 ^ n) div (2 :: int) ^ (n - 1)"
proof -
  define k where "k = n - Suc i"
  have k: "n - i = Suc k" "n - 1 = k + i" "n = Suc k + i" using assms by (simp_all add: k_def)
  have "A * 2 ^ i mod 2 ^ n = (A mod 2 ^ Suc k) * 2 ^ i"
    by (simp add: k(3) power_add mult_mod_left)
  then have l: "(A * 2 ^ i mod 2 ^ n) div 2 ^ (n - 1) = (A mod 2 ^ Suc k) div 2 ^ k"
    unfolding k(2) power_add by (simp only:) simp
  have "A = A mod 2 ^ Suc k + (2 * (A div 2 ^ Suc k)) * 2 ^ k"
    using mod_mult_div_eq [of A "2 ^ Suc k"] by (simp add: algebra_simps)
  then have "A div 2 ^ k = 2 * (A div 2 ^ Suc k) + (A mod 2 ^ Suc k) div 2 ^ k"
    by (metis div_mult_self1 power_not_zero zero_neq_numeral)
  then show ?thesis by (simp only: l k(1) k_def [symmetric])
qed

lemma int_less_2_power: "int m < 2 ^ n \<longleftrightarrow> m < 2 ^ n"
  by (metis of_nat_less_iff of_nat_power of_nat_numeral)

lemma nr_inv_step:
  assumes n: "2 \<le> n" "n \<le> 64" and d: "divisor_inv n b d" and i: "i < n" and inv: "nr_inv n A b i p st"
  shows "\<exists>p'. nr_inv n A b (Suc i) p' (nr_loop_body n d st)"
proof -
  note I = inv [unfolded nr_inv_def] and D = d [unfolded divisor_inv_def]
  define l where "l = (A * 2 ^ i mod 2 ^ n) div (2 :: int) ^ (n - 1)"
  define t where "t = (of_bool ((p < 0) = (b < 0)) :: int)"
  define u where "u = (of_bool ((A < 0) \<noteq> (b < 0)) :: int)"
  define R where "R = int (unat (nr_res st))"
  have L: "unat (partial_remainderL st) < 2 ^ n"
    using I by (simp add: int_less_2_power [symmetric])
  have lL: "l = int (unat (partial_remainderL st) div 2 ^ (n - 1))"
    using I by (simp add: l_def zdiv_int)
  note S = nr_loop_body_step [OF n d _ _ _ L, of p, folded lL]
  define p' where "p' = nr_step b p l"
  have p': "represents n p' (partial_remainder_sign (nr_loop_body n d st)) (partial_remainderH (nr_loop_body n d st))"
    "- \<bar>b\<bar> \<le> p'" "p' < \<bar>b\<bar>" using S I by (simp_all add: p'_def)
  have L': "int (unat (partial_remainderL (nr_loop_body n d st))) = A * 2 ^ Suc i mod 2 ^ n"
  proof -
    have "partial_remainderL (nr_loop_body n d st) = take_bit n (push_bit 1 (partial_remainderL st))"
      by (simp add: nr_loop_body_def Let_def)
    moreover have "unat (take_bit n (push_bit 1 (partial_remainderL st))) = (unat (partial_remainderL st) * 2) mod 2 ^ n"
      unfolding unat_take_bit_mod unat_push_bit_mult using n
      by (simp add: mod_mod_cancel le_imp_power_dvd [of n 64 2, simplified])
    ultimately have "int (unat (partial_remainderL (nr_loop_body n d st))) = (A * 2 ^ i mod 2 ^ n * 2) mod 2 ^ n"
      using I by (simp add: zmod_int)
    then have "int (unat (partial_remainderL (nr_loop_body n d st))) = (A * 2 ^ i * 2) mod 2 ^ n"
      unfolding mod_mult_left_eq .
    then show ?thesis unfolding power_Suc2 mult.assoc .
  qed
  have sgn': "(partial_remainder_sign (nr_loop_body n d st) \<noteq> minus_divisor_sign d) = ((p' < 0) = (b < 0))"
    using p'(1) D by (auto simp: represents_def)
  have res': "unat (nr_res (nr_loop_body n d st)) = 2 * unat (nr_res st) + of_bool ((p' < 0) = (b < 0))"
  proof -
    have eq: "nr_res (nr_loop_body n d st)
        = take_bit n (push_bit 1 (nr_res st) OR of_bool ((p' < 0) = (b < 0)))"
      unfolding sgn' [symmetric] by (simp add: nr_loop_body_def Let_def)
    have lt: "2 * unat (nr_res st) + of_bool ((p' < 0) = (b < 0)) < 2 ^ Suc i" using I by auto
    moreover have "(2::nat) ^ Suc i \<le> 2 ^ n" "(2::nat) ^ n \<le> 2 ^ 64"
      using i n by (intro power_increasing; simp)+
    ultimately have b: "2 * unat (nr_res st) + of_bool ((p' < 0) = (b < 0)) < 2 ^ n"
      "2 * unat (nr_res st) + of_bool ((p' < 0) = (b < 0)) < 2 ^ 64" by linarith+
    have "unat (push_bit 1 (nr_res st) OR of_bool ((p' < 0) = (b < 0)))
        = unat (nr_res st) * 2 ^ 1 + unat (of_bool ((p' < 0) = (b < 0)) :: u64)"
      by (rule unat_push_or) (use b in \<open>auto simp: mult.commute\<close>)
    then show ?thesis unfolding eq unat_take_bit_mod using b
      by (cases "(p' < 0) = (b < 0)") (simp_all add: mult.commute)
  qed
  then have lt': "unat (nr_res (nr_loop_body n d st)) < 2 ^ Suc i" using I by auto
  have "A div 2 ^ (n - Suc i) = 2 * (p + b * (R + 1 - t - u * 2 ^ i)) + l"
    using I unfolding next_bit [OF i] R_def t_def u_def l_def by simp
  also have "2 * p + l = p' + b * (2 * t - 1)"
    by (auto simp: p'_def nr_step_def t_def)
  then have "2 * (p + b * (R + 1 - t - u * 2 ^ i)) + l = p' + b * (2 * R + 1 - u * 2 ^ Suc i)"
    by (simp add: algebra_simps)
  also have "2 * R = int (unat (nr_res (nr_loop_body n d st))) - of_bool ((p' < 0) = (b < 0))"
    unfolding res' R_def by simp
  finally have "A div 2 ^ (n - Suc i) = p' + b * (int (unat (nr_res (nr_loop_body n d st))) + 1
      - of_bool ((p' < 0) = (b < 0)) - u * 2 ^ Suc i)" by (simp add: algebra_simps)
  then show ?thesis using p' L' lt' unfolding nr_inv_def u_def by blast
qed

lemma nr_inv_loop:
  assumes n: "2 \<le> n" "n \<le> 64" and d: "divisor_inv n b d" and inv: "nr_inv n A b 0 p st" and "i \<le> n"
  shows "\<exists>p'. nr_inv n A b i p' ((nr_loop_body n d ^^ i) st)"
  using assms(5)
proof (induction i)
  case (Suc i)
  then obtain p' where "nr_inv n A b i p' ((nr_loop_body n d ^^ i) st)" by auto
  from nr_inv_step [OF n d _ this] Suc.prems show ?case by simp
qed (use inv in auto)

section \<open>The correction\<close>

lemma sdiv_smod_unique:
  fixes A b Q r :: int
  assumes "A = r + b * Q" "\<bar>r\<bar> < \<bar>b\<bar>" "A < 0 \<Longrightarrow> r \<le> 0" "0 \<le> A \<Longrightarrow> 0 \<le> r"
  shows "Q = A sdiv b" and "r = A smod b"
proof -
  have b: "b \<noteq> 0" using assms(2) by auto
  have m: "\<bar>A smod b\<bar> < \<bar>b\<bar>" "A < 0 \<Longrightarrow> A smod b \<le> 0" "0 \<le> A \<Longrightarrow> 0 \<le> A smod b"
    using b by (auto simp: signed_modulo_int_def abs_mult sgn_if)
  have "b * (Q - A sdiv b) = A smod b - r"
    using assms(1) sdiv_mult_smod_eq [of A b] by (simp add: algebra_simps)
  moreover have "\<bar>A smod b - r\<bar> < \<bar>b\<bar>" using m assms(2-4) by (cases "A < 0") auto
  ultimately have "\<bar>b\<bar> * \<bar>Q - A sdiv b\<bar> < \<bar>b\<bar> * 1" by (simp flip: abs_mult)
  then have "\<bar>Q - A sdiv b\<bar> < 1" using b mult_less_cancel_left_pos [of "\<bar>b\<bar>"] by (metis zero_less_abs_iff)
  then have "Q - A sdiv b = 0" by simp
  then show "Q = A sdiv b" by simp
  then show "r = A smod b" using \<open>b * (Q - A sdiv b) = A smod b - r\<close> by simp
qed

text \<open>The corrected remainder and the correction of the quotient, on integers.\<close>

definition final_remainder :: "bool \<Rightarrow> int \<Rightarrow> int \<Rightarrow> int" where
  "final_remainder sa b p =
     (if sa then (if 0 < p then p - \<bar>b\<bar> else if p = - \<bar>b\<bar> then 0 else p)
      else (if p < 0 then p + \<bar>b\<bar> else p))"

definition final_plus_one :: "bool \<Rightarrow> int \<Rightarrow> int \<Rightarrow> bool" where
  "final_plus_one sa b p =
     (if b < 0 then \<not> sa \<or> p = 0 \<or> p = b else sa \<and> p \<noteq> 0 \<and> p \<noteq> - b)"

lemma final_division:
  assumes "b \<noteq> 0" "- \<bar>b\<bar> \<le> p" "p < \<bar>b\<bar>"
    and A: "A = p + b * (R + 1 - of_bool ((p < 0) = (b < 0)) - u)"
  shows "R + of_bool (final_plus_one (A < 0) b p) - u = A sdiv b"
    and "final_remainder (A < 0) b p = A smod b"
proof -
  have "A = final_remainder (A < 0) b p + b * (R + of_bool (final_plus_one (A < 0) b p) - u)"
    using assms by (auto simp: final_remainder_def final_plus_one_def algebra_simps abs_if split: if_splits)
  moreover have "\<bar>final_remainder (A < 0) b p\<bar> < \<bar>b\<bar>" "A < 0 \<Longrightarrow> final_remainder (A < 0) b p \<le> 0"
    "0 \<le> A \<Longrightarrow> 0 \<le> final_remainder (A < 0) b p"
    using assms by (auto simp: final_remainder_def)
  ultimately show "R + of_bool (final_plus_one (A < 0) b p) - u = A sdiv b"
    and "final_remainder (A < 0) b p = A smod b"
    using sdiv_smod_unique by blast+
qed

lemma nr_correct_final:
  assumes n: "2 \<le> n" "n \<le> 64" and d: "divisor_inv n b d"
    and r: "represents n p (partial_remainder_sign st) (partial_remainderH st)"
    and p: "- \<bar>b\<bar> \<le> p" "p < \<bar>b\<bar>"
  shows "fst (nr_correct n d sa st) = nr_res st + of_bool (final_plus_one sa b p)"
    and "int (unat (snd (nr_correct n d sa st))) = final_remainder sa b p mod 2 ^ n"
proof -
  note D = d [unfolded divisor_inv_def]
  have prs: "partial_remainder_sign st = (p < 0)" and H: "int (unat (partial_remainderH st)) = p mod 2 ^ n"
    using r by (auto simp: represents_def)
  define ds where "ds = (if sa \<and> partial_remainder_sign st then minus_divisor_sign d
    else minus_divisor_sign d \<noteq> sa)"
  define w where "w = (if ds then plus_divisor d else minus_divisor d)"
  define pr where "pr = take_bit n (partial_remainderH st + w + of_bool (\<not> ds))"
  define W where "W = (if sa \<and> 0 \<le> p then - \<bar>b\<bar> else \<bar>b\<bar>)"
  have Wds: "W = (if ds then b else - b)" using D prs by (auto simp: W_def ds_def)
  have W: "(int (unat w) + of_bool (\<not> ds)) mod 2 ^ n = W mod 2 ^ n"
  proof (cases ds)
    case False
    then have "int (unat w) + of_bool (\<not> ds) = (- b - 1) mod 2 ^ n + 1" using D by (simp add: w_def)
    then show ?thesis using False unfolding Wds by (simp only: mod_add_left_eq) simp
  qed (use D in \<open>simp add: Wds w_def\<close>)
  have pr: "int (unat pr) = (p + W) mod 2 ^ n"
  proof -
    have "uint (partial_remainderH st + w + of_bool (\<not> ds)) mod 2 ^ n
        = (uint (partial_remainderH st) + (uint w + of_bool (\<not> ds))) mod 2 ^ n"
      using n by (simp add: uint_word_ariths mod_mod_cancel le_imp_power_dvd [of n 64 2, simplified] mod_simps add.assoc)
    moreover have "int (unat pr) = uint (partial_remainderH st + w + of_bool (\<not> ds)) mod 2 ^ n"
      unfolding pr_def unat_take_bit_mod by (simp add: zmod_int)
    ultimately have "int (unat pr) = (p mod 2 ^ n + (int (unat w) + of_bool (\<not> ds)) mod 2 ^ n) mod 2 ^ n"
      using H by (simp add: mod_simps)
    then show ?thesis unfolding W by (simp add: mod_simps)
  qed
  have small: "\<bar>b\<bar> < 2 ^ n" "b \<noteq> 0" using D by auto
  have nul: "partial_remainderH st = 0 \<longleftrightarrow> p = 0"
  proof -
    have "partial_remainderH st = 0 \<longleftrightarrow> int (unat (partial_remainderH st)) = 0" by (simp only: word_eq_0_iff_unat of_nat_eq_0_iff)
    moreover have "p mod 2 ^ n = 0 \<longleftrightarrow> p = 0"
      using p small by (cases "p < 0") (auto simp: mod_neg_add)
    ultimately show ?thesis unfolding H by simp
  qed
  have nul': "pr = 0 \<longleftrightarrow> p = - \<bar>b\<bar>" if sa
  proof -
    have "pr = 0 \<longleftrightarrow> int (unat pr) = 0" by (simp only: word_eq_0_iff_unat of_nat_eq_0_iff)
    moreover have "(p + W) mod 2 ^ n = 0 \<longleftrightarrow> p = - \<bar>b\<bar>"
    proof (cases "0 \<le> p")
      case True
      then have "(p + W) mod 2 ^ n = p - \<bar>b\<bar> + 2 ^ n"
        using p small that mod_neg_add [of "2 ^ n" "p - \<bar>b\<bar>"] by (simp add: W_def)
      then show ?thesis using True p small by auto
    next
      case False
      then have "(p + W) mod 2 ^ n = p + \<bar>b\<bar>" using p small by (simp add: W_def)
      then show ?thesis by auto
    qed
    ultimately show ?thesis unfolding pr by simp
  qed
  have po: "((b < 0 \<and> \<not> sa) \<or> (\<not> p < 0 \<and> b < 0 \<and> p = 0) \<or> (\<not> p < 0 \<and> \<not> b < 0 \<and> sa \<and> p \<noteq> 0)
      \<or> (\<not> b < 0 \<and> sa \<and> p \<noteq> 0 \<and> pr \<noteq> 0) \<or> (p < 0 \<and> b < 0 \<and> sa \<and> p \<noteq> 0 \<and> pr = 0)) = final_plus_one sa b p"
    using D nul' p by (cases sa) (auto simp: final_plus_one_def)
  show "fst (nr_correct n d sa st) = nr_res st + of_bool (final_plus_one sa b p)"
    unfolding po [symmetric] nr_correct_def Let_def fst_conv VAL_RESIZE_take_bit ds_def [symmetric]
      w_def [symmetric] pr_def [symmetric] nul unfolding prs using D by simp
  show "int (unat (snd (nr_correct n d sa st))) = final_remainder sa b p mod 2 ^ n"
    unfolding nr_correct_def Let_def snd_conv VAL_RESIZE_take_bit ds_def [symmetric]
      w_def [symmetric] pr_def [symmetric] nul unfolding prs
    using D H pr nul' p by (cases sa) (auto simp: final_remainder_def W_def)
qed

section \<open>The operands\<close>

definition nr_operand :: "nat \<Rightarrow> bool \<Rightarrow> int \<Rightarrow> bool" where
  "nr_operand n s A \<longleftrightarrow> (if s then - (2 ^ (n - 1)) \<le> A \<and> A < 2 ^ (n - 1) else 0 \<le> A \<and> A < 2 ^ n)"

lemma sign_bit:
  assumes "- (2 ^ m) \<le> A" "A < (2 :: int) ^ m"
  shows "bit A m \<longleftrightarrow> A < 0"
proof (cases "A < 0")
  case True
  then have "A div 2 ^ m = - 1" using assms by (intro int_div_pos_eq [where r = "A + 2 ^ m"]) auto
  then show ?thesis using True by (simp add: bit_iff_odd)
next
  case False
  then have "A div 2 ^ m = 0" using assms by simp
  then show ?thesis using False by (simp add: bit_iff_odd)
qed

lemma uint_take_bit_of_int:
  "n \<le> 64 \<Longrightarrow> int (unat (take_bit n (word_of_int A :: u64))) = A mod 2 ^ n"
proof -
  assume n: "n \<le> 64"
  have "int (unat (take_bit n (word_of_int A :: u64))) = uint (word_of_int A :: u64) mod 2 ^ n"
    unfolding unat_take_bit_mod by (simp add: zmod_int)
  then show ?thesis using n
    by (simp add: uint_word_of_int take_bit_eq_mod mod_mod_cancel le_imp_power_dvd [of n 64 2, simplified])
qed

lemma nr_divisor_inv:
  assumes n: "2 \<le> n" "n \<le> 64" and B: "nr_operand n s B" "B \<noteq> 0"
  shows "divisor_inv n B (nr_divisor_of n (word_of_int B) s)"
proof -
  have pn: "(2 :: int) ^ n = 2 * 2 ^ (n - 1)" using n by (cases n) simp_all
  have pos: "(0 :: int) < 2 ^ (n - 1)" by simp
  have small: "\<bar>B\<bar> < 2 ^ n" using B pos unfolding nr_operand_def pn by (auto split: if_splits)
  have n1: "n - 1 < 64" "n - 1 < n" using n by auto
  have bit: "bit (word_of_int B :: u64) (n - 1) = bit B (n - 1)" using n1 by (simp add: bit_word_of_int_iff)
  have plus: "(SELECT_BIT (take_bit n (word_of_int B :: u64)) (n - 1) \<noteq> 0 \<and> s) = (B < 0)"
    using B n1 sign_bit [of "n - 1" B] bit
    by (cases s) (auto simp: SELECT_BIT_eq bit_take_bit_iff nr_operand_def)
  have minus: "(SELECT_BIT (take_bit n (NOT (word_of_int B :: u64))) (n - 1) \<noteq> 0 \<or> \<not> s) = (\<not> B < 0)"
    using B n1 sign_bit [of "n - 1" B] bit
    by (cases s) (auto simp: SELECT_BIT_eq bit_take_bit_iff bit_not_iff nr_operand_def)
  have no: "NOT (word_of_int B :: u64) = word_of_int (- B - 1)" by (simp add: not_eq_complement)
  have u: "int (unat (take_bit n (word_of_int B :: u64))) = B mod 2 ^ n"
    "int (unat (take_bit n (NOT (word_of_int B :: u64)))) = (- B - 1) mod 2 ^ n"
    unfolding no using n by (simp_all only: uint_take_bit_of_int)
  have lt: "unat (take_bit n x) < 2 ^ n" for x :: u64 by (simp add: unat_take_bit_mod)
  show ?thesis
    unfolding divisor_inv_def nr_divisor_of_def Let_def VAL_RESIZE_take_bit nr_divisor.simps plus minus
    using B(2) small u lt by blast
qed

lemma div_2_power:
  fixes A :: int
  assumes "- (2 ^ n) \<le> A" "A < 2 ^ n"
  shows "A div 2 ^ n = (if A < 0 then - 1 else 0)"
  using assms by (auto intro: int_div_pos_eq [where r = "A + 2 ^ n"])

lemma nr_operand_range:
  assumes "nr_operand n s A" "2 \<le> n"
  shows "- (2 ^ n) \<le> A" "A < 2 ^ n" "A < 0 \<Longrightarrow> s"
proof -
  have pn: "(2 :: int) ^ n = 2 * 2 ^ (n - 1)" using assms by (cases n) simp_all
  have pos: "(0 :: int) < 2 ^ (n - 1)" by simp
  show "- (2 ^ n) \<le> A" "A < 2 ^ n" "A < 0 \<Longrightarrow> s"
    using assms pos unfolding nr_operand_def pn by (auto split: if_splits)
qed

lemma nr_init_sign_H:
  assumes n: "n = 32 \<or> n = 64" and A: "nr_operand n s A"
  shows "partial_remainder_sign (nr_init n (word_of_int A) s) = (A < 0)"
    and "int (unat (partial_remainderH (nr_init n (word_of_int A) s))) = (A div 2 ^ n) mod 2 ^ n"
proof -
  have rng: "- (2 ^ n) \<le> A" "A < 2 ^ n" "A < 0 \<Longrightarrow> s" using nr_operand_range [OF A] n by auto
  have "partial_remainder_sign (nr_init n (word_of_int A) s) = (A < 0)
    \<and> int (unat (partial_remainderH (nr_init n (word_of_int A) s))) = (A div 2 ^ n) mod 2 ^ n"
    using n
  proof
    assume n: "n = 32"
    have "sint (word_of_int A :: u64) = A"
      using rng n by (simp add: signed_of_int) (intro signed_take_bit_int_eq_self; simp)
    moreover from this have "signed_drop_bit 32 (word_of_int A :: u64) = word_of_int (A div 2 ^ 32)"
    proof -
      have "signed_drop_bit 32 (word_of_int A :: u64) = word_of_int (sint (signed_drop_bit 32 (word_of_int A :: u64)))"
        by simp
      then show ?thesis using \<open>sint _ = A\<close> by (simp only: sint_signed_drop_bit_eq drop_bit_eq_div)
    qed
    ultimately show ?thesis using rng n uint_take_bit_of_int [of 32 "A div 2 ^ 32"]
      by (auto simp: nr_init_def Let_def signed_less_0_iff)
  next
    assume n: "n = 64"
    have "bit (word_of_int A :: u64) 63 \<and> s \<longleftrightarrow> A < 0"
      using sign_bit [of 63 A] A rng(3) n by (cases s) (auto simp: bit_word_of_int_iff nr_operand_def)
    moreover have "int (unat (signed_drop_bit 63 (push_bit 63 (of_bool (A < 0))) :: u64)) = (A div 2 ^ 64) mod 2 ^ 64"
      unfolding div_2_power [OF rng(1,2), unfolded n]
      by (cases "A < 0") (simp_all add: unsigned_minus_1_eq_mask mask_eq_exp_minus_1)
    ultimately show ?thesis using n by (simp add: nr_init_def Let_def SELECT_BIT_eq)
  qed
  then show "partial_remainder_sign (nr_init n (word_of_int A) s) = (A < 0)"
    and "int (unat (partial_remainderH (nr_init n (word_of_int A) s))) = (A div 2 ^ n) mod 2 ^ n" by auto
qed

lemma nr_init_inv:
  assumes n: "n = 32 \<or> n = 64" and A: "nr_operand n s A" and b: "b \<noteq> 0"
  shows "nr_inv n A b 0 (A div 2 ^ n) (nr_init n (word_of_int A) s)"
proof -
  have rng: "- (2 ^ n) \<le> A" "A < 2 ^ n" using nr_operand_range [OF A] n by auto
  have p: "A div 2 ^ n = (if A < 0 then - 1 else 0)" by (rule div_2_power [OF rng])
  have "int (unat (partial_remainderL (nr_init n (word_of_int A) s))) = A mod 2 ^ n"
    using n uint_take_bit_of_int [of n A] by (auto simp: nr_init_def Let_def)
  then show ?thesis
    using nr_init_sign_H [OF n A] b unfolding nr_inv_def represents_def diff_zero p
    by (auto simp: nr_init_def Let_def)
qed

lemma non_restoring_sdiv_correct:
  assumes n: "n = 32 \<or> n = 64" and A: "nr_operand n s A" and B: "nr_operand n s B" "B \<noteq> 0"
  shows "uint (fst (non_restoring_sdiv n (word_of_int A) (word_of_int B) s)) mod 2 ^ n = (A sdiv B) mod 2 ^ n"
    and "uint (snd (non_restoring_sdiv n (word_of_int A) (word_of_int B) s)) = (A smod B) mod 2 ^ n"
proof -
  have n': "2 \<le> n" "n \<le> 64" using n by auto
  note d = nr_divisor_inv [OF n' B]
  define st where "st = (nr_loop_body n (nr_divisor_of n (word_of_int B) s) ^^ n) (nr_init n (word_of_int A) s)"
  obtain p where inv: "nr_inv n A B n p st"
    using nr_inv_loop [OF n' d nr_init_inv [OF n A B(2)], of n] unfolding st_def by auto
  note I = inv [unfolded nr_inv_def]
  have eq: "non_restoring_sdiv n (word_of_int A) (word_of_int B) s
      = nr_correct n (nr_divisor_of n (word_of_int B) s) (A < 0) st"
    by (simp add: non_restoring_sdiv_def Let_def nr_init_sign_H(1) [OF n A] st_def)
  define u where "u = of_bool ((A < 0) \<noteq> (B < 0)) * (2 :: int) ^ n"
  have "A = p + B * (int (unat (nr_res st)) + 1 - of_bool ((p < 0) = (B < 0)) - u)"
    using I by (simp add: u_def)
  note F = final_division [OF B(2) _ _ this]
  note C = nr_correct_final [OF n' d, of p st "A < 0"]
  have "uint (fst (nr_correct n (nr_divisor_of n (word_of_int B) s) (A < 0) st)) mod 2 ^ n
      = (uint (nr_res st) + of_bool (final_plus_one (A < 0) B p)) mod 2 ^ n"
    using C(1) I n' by (simp add: uint_word_ariths mod_mod_cancel le_imp_power_dvd [of n 64 2, simplified])
  also have "\<dots> = (A sdiv B) mod 2 ^ n"
  proof -
    have "uint (nr_res st) + of_bool (final_plus_one (A < 0) B p) = A sdiv B + 2 ^ n * of_bool ((A < 0) \<noteq> (B < 0))"
      using F(1) I by (simp add: u_def mult.commute)
    then show ?thesis by (simp only: mod_mult_self2)
  qed
  finally show "uint (fst (non_restoring_sdiv n (word_of_int A) (word_of_int B) s)) mod 2 ^ n = (A sdiv B) mod 2 ^ n"
    unfolding eq .
  show "uint (snd (non_restoring_sdiv n (word_of_int A) (word_of_int B) s)) = (A smod B) mod 2 ^ n"
    unfolding eq using C(2) F(2) I by simp
qed

section \<open>The entry points\<close>

lemma word_of_int_uint_sint:
  "(ucast (u :: u32) :: u64) = word_of_int (uint u)" "(scast (u :: u32) :: u64) = word_of_int (sint u)"
  "(x :: u64) = word_of_int (uint x)" "(x :: u64) = word_of_int (sint x)"
  by (simp_all add: unsigned_ucast_eq)

lemma nr_operand_words:
  "nr_operand 32 True (sint (u :: u32))" "nr_operand 32 False (uint u)"
  "nr_operand 64 True (sint (x :: u64))" "nr_operand 64 False (uint x)"
  "nr_operand 64 True (sint u)" "nr_operand 64 False (uint u)"
  using sint_ge [of u] sint_lt [of u] sint_ge [of x] sint_lt [of x] uint_lt2p [of u] uint_lt2p [of x]
  by (simp_all add: nr_operand_def)

lemma word_eq_mod: "uint (w :: 'a::len word) mod 2 ^ LENGTH('a) = Q mod 2 ^ LENGTH('a) \<Longrightarrow> w = word_of_int Q"
  by (metis word_of_int_uint word_of_int_eq_iff take_bit_eq_mod)

lemma ucast_eq_mod: "uint (w :: u64) mod 2 ^ 32 = Q mod 2 ^ 32 \<Longrightarrow> (ucast w :: u32) = word_of_int Q"
  by (rule word_eq_mod) (simp add: unsigned_ucast_eq take_bit_eq_mod)

text \<open>
  C8. The non-restoring divider returns, for every non-zero divisor, the truncated quotient
  and the remainder with the dividend's sign, at 32, at 64 and at 64 by 32 bits: the carry
  logic of the loop and the five-way correction after it are right for all operands.
\<close>

theorem nonrestoring_signed_division:
  assumes "v \<noteq> 0" and "y \<noteq> 0"
  shows "divsi3_nr u v = word_of_int (sint u sdiv sint v) \<and> modsi3_nr u v = word_of_int (sint u smod sint v)
    \<and> divdi3_nr x y = word_of_int (sint x sdiv sint y) \<and> moddi3_nr x y = word_of_int (sint x smod sint y)
    \<and> divdi36432_nr x v = word_of_int (sint x sdiv sint v)
    \<and> moddi36432_nr x v = word_of_int (sint x smod sint v)"
proof -
  have nz: "sint v \<noteq> 0" "sint y \<noteq> 0"
    using assms signed_word_eqI [of v 0] signed_word_eqI [of y 0] by auto
  note N = non_restoring_sdiv_correct
  have "divsi3_nr u v = word_of_int (sint u sdiv sint v)" "modsi3_nr u v = word_of_int (sint u smod sint v)"
    using N [OF _ nr_operand_words(1) nr_operand_words(1) nz(1), of u]
    unfolding divsi3_nr_def modsi3_nr_def word_of_int_uint_sint(2) by (auto intro!: ucast_eq_mod)
  moreover have "divdi3_nr x y = word_of_int (sint x sdiv sint y)" "moddi3_nr x y = word_of_int (sint x smod sint y)"
    using N [OF _ nr_operand_words(3) nr_operand_words(3) nz(2), of x]
    unfolding divdi3_nr_def moddi3_nr_def by (auto intro!: word_eq_mod)
  moreover have "divdi36432_nr x v = word_of_int (sint x sdiv sint v)" "moddi36432_nr x v = word_of_int (sint x smod sint v)"
    using N [OF _ nr_operand_words(3) nr_operand_words(5) nz(1), of x]
    unfolding divdi36432_nr_def moddi36432_nr_def word_of_int_uint_sint(2) by (auto intro!: word_eq_mod)
  ultimately show ?thesis by blast
qed

theorem nonrestoring_signed_division_witness:
  "divsi3_nr (- 7) 2 = - 3 \<and> modsi3_nr (- 7) 2 = - 1 \<and> divdi3_nr (- 7) (- 2) = 3
    \<and> moddi36432_nr (- 7) 2 = - 1"
  using nonrestoring_signed_division [of 2 "- 2" "- 7" "- 7"]
  by (simp add: signed_divide_int_def signed_modulo_int_def)

text \<open>
  Used on unsigned operands the non-restoring divider returns the quotient and the
  remainder for every non-zero divisor, at 32, at 64 and at 64 by 32 bits.
\<close>

theorem nonrestoring_unsigned_division:
  assumes "v \<noteq> 0" and "y \<noteq> 0"
  shows "udivsi3_nr u v = u div v \<and> umodsi3_nr u v = u mod v
    \<and> udivdi3_nr x y = x div y \<and> umoddi3_nr x y = x mod y
    \<and> udivdi36432_nr x v = x div ucast v \<and> umoddi36432_nr x v = x mod ucast v"
proof -
  have nz: "uint v \<noteq> 0" "uint y \<noteq> 0" using assms by (simp_all add: uint_0_iff)
  have s: "a sdiv b = a div b" "a smod b = a mod b" if "0 \<le> a" "0 < b" for a b :: int
    using that by (auto simp: signed_divide_int_def signed_modulo_int_def sgn_if)
  have pos: "0 < uint v" "0 < uint y" using nz by (simp_all add: order_less_le)
  note N = non_restoring_sdiv_correct
  have "udivsi3_nr u v = word_of_int (uint u div uint v)" "umodsi3_nr u v = word_of_int (uint u mod uint v)"
    using N [OF _ nr_operand_words(2) nr_operand_words(2) nz(1), of u] s pos
    unfolding udivsi3_nr_def umodsi3_nr_def word_of_int_uint_sint(1) by (auto intro!: ucast_eq_mod)
  moreover have "udivdi3_nr x y = word_of_int (uint x div uint y)" "umoddi3_nr x y = word_of_int (uint x mod uint y)"
    using N [OF _ nr_operand_words(4) nr_operand_words(4) nz(2), of x] s pos
    unfolding udivdi3_nr_def umoddi3_nr_def by (auto intro!: word_eq_mod)
  moreover have "udivdi36432_nr x v = word_of_int (uint x div uint v)" "umoddi36432_nr x v = word_of_int (uint x mod uint v)"
    using N [OF _ nr_operand_words(4) nr_operand_words(6) nz(1), of x] s pos
    unfolding udivdi36432_nr_def umoddi36432_nr_def word_of_int_uint_sint(1) by (auto intro!: word_eq_mod)
  moreover have "uint (ucast v :: u64) = uint v" by (simp only: uint_nat unat_ucast_32_64)
  ultimately show ?thesis by (simp add: word_div_def word_mod_def)
qed

theorem nonrestoring_unsigned_division_witness:
  "udivsi3_nr 100 7 = 14 \<and> umodsi3_nr 100 7 = 2 \<and> udivdi3_nr 100 9 = 11 \<and> umoddi36432_nr 100 7 = 2"
  using nonrestoring_unsigned_division [of 7 9 100 100] by simp

end
