(* ===== verification/CString.thy ===== *)
theory CString
  imports BambuPrelude "HOL-Library.List_Lexorder" "HOL-Library.Sublist"
begin

text \<open>
  The string and memory functions of \<^verbatim>\<open>etc/libbambu/string\<close>, one file per function. Memory maps
  addresses to bytes; addresses are integers, so that the pointers one before and one past
  an object that the code computes exist. The null pointer is the address 0. A loop whose
  bound is a \<^verbatim>\<open>size_t\<close> count recurses on the count; a loop that runs to a terminator or a
  match is a partial function into \<open>option\<close>, \<open>None\<close> being a loop that never ends. A plain
  \<^verbatim>\<open>char\<close> is signed, so it is read with \<open>sint\<close> where it is compared with an \<^verbatim>\<open>int\<close>; an \<^verbatim>\<open>int\<close>
  result is an integer. The text of \<^verbatim>\<open>index\<close> and \<^verbatim>\<open>rindex\<close> repeats \<^verbatim>\<open>strchr\<close> and \<^verbatim>\<open>strrchr\<close>.
\<close>

type_synonym addr = int
type_synonym mem = "addr \<Rightarrow> u8"

abbreviation NULL :: addr where
  "NULL \<equiv> 0"

section \<open>Blocks of memory\<close>

fun memchr :: "mem \<Rightarrow> addr \<Rightarrow> int \<Rightarrow> nat \<Rightarrow> addr" where
  "memchr m s c 0 = NULL"
| "memchr m s c (Suc n) = (if m s = word_of_int c then s else memchr m (s + 1) c n)"

fun memrchr_loop :: "mem \<Rightarrow> addr \<Rightarrow> int \<Rightarrow> nat \<Rightarrow> addr" where
  "memrchr_loop m r c 0 = NULL"
| "memrchr_loop m r c (Suc n) =
     (let r = r - 1 in if m r = word_of_int c then r else memrchr_loop m r c n)"

definition memrchr :: "mem \<Rightarrow> addr \<Rightarrow> int \<Rightarrow> nat \<Rightarrow> addr" where
  "memrchr m s c n = memrchr_loop m (s + int n) c n"

partial_function (option) rawmemchr :: "mem \<Rightarrow> addr \<Rightarrow> int \<Rightarrow> addr option" where
  "rawmemchr m s c = (if m s \<noteq> word_of_int c then rawmemchr m (s + 1) c else Some s)"

text \<open>In \<^verbatim>\<open>memcmp\<close> the difference is an \<^verbatim>\<open>unsigned char\<close>.\<close>

fun memcmp :: "mem \<Rightarrow> addr \<Rightarrow> addr \<Rightarrow> nat \<Rightarrow> int" where
  "memcmp m s1 s2 0 = 0"
| "memcmp m s1 s2 (Suc n) =
     (let diff = m s1 - m s2 in if diff \<noteq> 0 then uint diff else memcmp m (s1 + 1) (s2 + 1) n)"

fun memcmp_eq :: "mem \<Rightarrow> addr \<Rightarrow> addr \<Rightarrow> nat \<Rightarrow> int" where
  "memcmp_eq m s1 s2 0 = 0"
| "memcmp_eq m s1 s2 (Suc n) = (if m s1 \<noteq> m s2 then 1 else memcmp_eq m (s1 + 1) (s2 + 1) n)"

fun local_memcpy_loop :: "mem \<Rightarrow> addr \<Rightarrow> addr \<Rightarrow> nat \<Rightarrow> mem" where
  "local_memcpy_loop m d s 0 = m"
| "local_memcpy_loop m d s (Suc n) = local_memcpy_loop (m(d := m s)) (d + 1) (s + 1) n"

definition local_memcpy :: "mem \<Rightarrow> addr \<Rightarrow> addr \<Rightarrow> nat \<Rightarrow> mem \<times> addr" where
  "local_memcpy m dest src len = (local_memcpy_loop m dest src len, dest)"

definition memcpy :: "mem \<Rightarrow> addr \<Rightarrow> addr \<Rightarrow> nat \<Rightarrow> mem \<times> addr" where
  "memcpy m dest src len = local_memcpy m dest src len"

definition llvm_memcpy_p0i8_p0i8_i32 :: "mem \<Rightarrow> addr \<Rightarrow> addr \<Rightarrow> u32 \<Rightarrow> mem" where
  "llvm_memcpy_p0i8_p0i8_i32 m dest src len = fst (local_memcpy m dest src (unat len))"

definition llvm_memcpy_p0i8_p0i8_i64 :: "mem \<Rightarrow> addr \<Rightarrow> addr \<Rightarrow> u64 \<Rightarrow> mem" where
  "llvm_memcpy_p0i8_p0i8_i64 m dest src len = fst (local_memcpy m dest src (unat len))"

text \<open>\<^verbatim>\<open>memmove\<close> copies upwards or downwards, as the blocks lie.\<close>

fun memmove_up :: "mem \<Rightarrow> addr \<Rightarrow> addr \<Rightarrow> nat \<Rightarrow> mem" where
  "memmove_up m d s 0 = m"
| "memmove_up m d s (Suc n) = memmove_up (m(d := m s)) (d + 1) (s + 1) n"

fun memmove_down :: "mem \<Rightarrow> addr \<Rightarrow> addr \<Rightarrow> nat \<Rightarrow> mem" where
  "memmove_down m lastd lasts 0 = m"
| "memmove_down m lastd lasts (Suc n) = memmove_down (m(lastd := m lasts)) (lastd - 1) (lasts - 1) n"

definition memmove :: "mem \<Rightarrow> addr \<Rightarrow> addr \<Rightarrow> nat \<Rightarrow> mem \<times> addr" where
  "memmove m dest src len =
    ((if dest < src then memmove_up m dest src len
      else (let lasts = src + (int len - 1); lastd = dest + (int len - 1)
            in memmove_down m lastd lasts len)), dest)"

fun mempcpy :: "mem \<Rightarrow> addr \<Rightarrow> addr \<Rightarrow> nat \<Rightarrow> mem \<times> addr" where
  "mempcpy m p1 p2 0 = (m, p1)"
| "mempcpy m p1 p2 (Suc n) = mempcpy (m(p1 := m p2)) (p1 + 1) (p2 + 1) n"

fun memset_loop :: "mem \<Rightarrow> addr \<Rightarrow> int \<Rightarrow> nat \<Rightarrow> mem" where
  "memset_loop m ptr val 0 = m"
| "memset_loop m ptr val (Suc n) = memset_loop (m(ptr := word_of_int val)) (ptr + 1) val n"

definition memset :: "mem \<Rightarrow> addr \<Rightarrow> int \<Rightarrow> nat \<Rightarrow> mem \<times> addr" where
  "memset m dest val len = (memset_loop m dest val len, dest)"

definition bcopy :: "mem \<Rightarrow> addr \<Rightarrow> addr \<Rightarrow> nat \<Rightarrow> mem" where
  "bcopy m src dest n = fst (memmove m dest src n)"

definition bzero :: "mem \<Rightarrow> addr \<Rightarrow> nat \<Rightarrow> mem" where
  "bzero m s n = fst (memset m s 0 n)"

section \<open>Lengths and searches\<close>

partial_function (option) strlen_loop :: "mem \<Rightarrow> addr \<Rightarrow> addr option" where
  "strlen_loop m c = (if m c \<noteq> 0 then strlen_loop m (c + 1) else Some c)"

definition strlen :: "mem \<Rightarrow> addr \<Rightarrow> nat option" where
  "strlen m s = (case strlen_loop m s of None \<Rightarrow> None | Some c \<Rightarrow> Some (nat (c - s)))"

fun strnlen_loop :: "mem \<Rightarrow> addr \<Rightarrow> nat \<Rightarrow> addr" where
  "strnlen_loop m s 0 = s"
| "strnlen_loop m s (Suc n) = (if m s \<noteq> 0 then strnlen_loop m (s + 1) n else s)"

definition strnlen :: "mem \<Rightarrow> addr \<Rightarrow> nat \<Rightarrow> nat" where
  "strnlen m s maxlen = nat (strnlen_loop m s maxlen - s)"

partial_function (option) strchr :: "mem \<Rightarrow> addr \<Rightarrow> int \<Rightarrow> addr option" where
  "strchr m s c =
     (if sint (m s) = c then Some s else if m s \<noteq> 0 then strchr m (s + 1) c else Some NULL)"

definition index :: "mem \<Rightarrow> addr \<Rightarrow> int \<Rightarrow> addr option" where
  "index m s c = strchr m s c"

partial_function (option) strrchr_loop :: "mem \<Rightarrow> addr \<Rightarrow> addr \<Rightarrow> int \<Rightarrow> addr option" where
  "strrchr_loop m p s c =
     (let p = (if sint (m s) = c then s else p)
      in if m s \<noteq> 0 then strrchr_loop m p (s + 1) c else Some p)"

definition strrchr :: "mem \<Rightarrow> addr \<Rightarrow> int \<Rightarrow> addr option" where
  "strrchr m s c = strrchr_loop m NULL s c"

definition rindex :: "mem \<Rightarrow> addr \<Rightarrow> int \<Rightarrow> addr option" where
  "rindex m s c = strrchr_loop m NULL s c"

partial_function (option) strchrnul_loop :: "mem \<Rightarrow> addr \<Rightarrow> int \<Rightarrow> addr option" where
  "strchrnul_loop m s c =
     (let s = s + 1 in if m s \<noteq> 0 \<and> sint (m s) \<noteq> c then strchrnul_loop m s c else Some s)"

definition strchrnul :: "mem \<Rightarrow> addr \<Rightarrow> int \<Rightarrow> addr option" where
  "strchrnul m s c = strchrnul_loop m (s - 1) c"

partial_function (option) strstr_loop :: "mem \<Rightarrow> addr \<Rightarrow> addr \<Rightarrow> addr \<Rightarrow> addr \<Rightarrow> addr option" where
  "strstr_loop m needle haystack s p =
     (if m p = 0 then Some haystack
      else if m p = m s then strstr_loop m needle haystack (s + 1) (p + 1)
      else if m s = 0 then Some NULL
      else strstr_loop m needle (haystack + 1) (haystack + 1) needle)"

definition strstr :: "mem \<Rightarrow> addr \<Rightarrow> addr \<Rightarrow> addr option" where
  "strstr m haystack needle = strstr_loop m needle haystack haystack needle"

partial_function (option) strspn_loop :: "mem \<Rightarrow> addr \<Rightarrow> addr \<Rightarrow> addr \<Rightarrow> addr option" where
  "strspn_loop m accept s p =
     (if m p \<noteq> 0 then
        (if m p = m s then strspn_loop m accept (s + 1) accept
         else strspn_loop m accept s (p + 1))
      else Some s)"

definition strspn :: "mem \<Rightarrow> addr \<Rightarrow> addr \<Rightarrow> nat option" where
  "strspn m s accept =
     (case strspn_loop m accept s accept of None \<Rightarrow> None | Some e \<Rightarrow> Some (nat (e - s)))"

text \<open>
  The inner loop shared by \<^verbatim>\<open>strcspn\<close>, \<^verbatim>\<open>strpbrk\<close> and \<^verbatim>\<open>strsep\<close> advances the set's pointer
  itself: it returns the position of a match, or the exhausted pointer.
\<close>

partial_function (option) span_inner :: "mem \<Rightarrow> addr \<Rightarrow> addr \<Rightarrow> (bool \<times> addr) option" where
  "span_inner m s set_ptr =
     (if m set_ptr \<noteq> 0 then
        (if m set_ptr = m s then Some (True, set_ptr) else span_inner m s (set_ptr + 1))
      else Some (False, set_ptr))"

partial_function (option) strcspn_loop :: "mem \<Rightarrow> addr \<Rightarrow> addr \<Rightarrow> addr option" where
  "strcspn_loop m s reject =
     (if m s \<noteq> 0 then
        (case span_inner m s reject of None \<Rightarrow> None
         | Some r \<Rightarrow> (if fst r then Some s else strcspn_loop m (s + 1) (snd r)))
      else Some s)"

definition strcspn :: "mem \<Rightarrow> addr \<Rightarrow> addr \<Rightarrow> nat option" where
  "strcspn m s reject =
     (case strcspn_loop m s reject of None \<Rightarrow> None | Some e \<Rightarrow> Some (nat (e - s)))"

partial_function (option) strpbrk :: "mem \<Rightarrow> addr \<Rightarrow> addr \<Rightarrow> addr option" where
  "strpbrk m s accept =
     (if m s \<noteq> 0 then
        (case span_inner m s accept of None \<Rightarrow> None
         | Some r \<Rightarrow> (if fst r then Some s else strpbrk m (s + 1) (snd r)))
      else Some NULL)"

section \<open>Comparisons\<close>

partial_function (option) strcmp :: "mem \<Rightarrow> addr \<Rightarrow> addr \<Rightarrow> int option" where
  "strcmp m p1 p2 =
     (if m p1 \<noteq> 0 \<and> m p1 = m p2 then strcmp m (p1 + 1) (p2 + 1)
      else Some (uint (m p1) - uint (m p2)))"

fun strncmp :: "mem \<Rightarrow> addr \<Rightarrow> addr \<Rightarrow> nat \<Rightarrow> int" where
  "strncmp m str1 str2 0 = 0"
| "strncmp m str1 str2 (Suc n) =
     (if m str1 \<noteq> 0 \<and> m str1 = m str2 then strncmp m (str1 + 1) (str2 + 1) n
      else uint (m str1) - uint (m str2))"

text \<open>\<^verbatim>\<open>__local_tolower\<close>, the same text in the three case-insensitive functions.\<close>

definition local_tolower :: "int \<Rightarrow> int" where
  "local_tolower c = (if c - 65 < 26 then c OR 32 else c)"

definition same_letter :: "u8 \<Rightarrow> u8 \<Rightarrow> bool" where
  "same_letter a b \<longleftrightarrow> sint a = sint b \<or> local_tolower (sint a) = local_tolower (sint b)"

partial_function (option) strcasecmp :: "mem \<Rightarrow> addr \<Rightarrow> addr \<Rightarrow> int option" where
  "strcasecmp m s1 s2 =
     (if m s1 \<noteq> 0 \<and> m s2 \<noteq> 0 \<and> same_letter (m s1) (m s2) then strcasecmp m (s1 + 1) (s2 + 1)
      else Some (local_tolower (sint (m s1)) - local_tolower (sint (m s2))))"

fun strncasecmp_loop :: "mem \<Rightarrow> addr \<Rightarrow> addr \<Rightarrow> nat \<Rightarrow> int" where
  "strncasecmp_loop m s1 s2 0 = local_tolower (sint (m s1)) - local_tolower (sint (m s2))"
| "strncasecmp_loop m s1 s2 (Suc n) =
     (if m s1 \<noteq> 0 \<and> m s2 \<noteq> 0 \<and> same_letter (m s1) (m s2) then strncasecmp_loop m (s1 + 1) (s2 + 1) n
      else local_tolower (sint (m s1)) - local_tolower (sint (m s2)))"

definition strncasecmp :: "mem \<Rightarrow> addr \<Rightarrow> addr \<Rightarrow> nat \<Rightarrow> int" where
  "strncasecmp m s1 s2 n = (if n = 0 then 0 else strncasecmp_loop m s1 s2 (n - 1))"

partial_function (option) strcasestr_loop :: "mem \<Rightarrow> addr \<Rightarrow> addr \<Rightarrow> addr \<Rightarrow> addr \<Rightarrow> addr option" where
  "strcasestr_loop m needle haystack h n =
     (if m h \<noteq> 0 \<and> m n \<noteq> 0 then
        (if same_letter (m h) (m n) then strcasestr_loop m needle haystack (h + 1) (n + 1)
         else strcasestr_loop m needle (haystack + 1) (haystack + 1) needle)
      else Some (if m n \<noteq> 0 then NULL else haystack))"

definition strcasestr :: "mem \<Rightarrow> addr \<Rightarrow> addr \<Rightarrow> addr option" where
  "strcasestr m haystack needle = strcasestr_loop m needle haystack haystack needle"

section \<open>Copies\<close>

partial_function (option) stpcpy_loop :: "mem \<Rightarrow> addr \<Rightarrow> addr \<Rightarrow> (mem \<times> addr) option" where
  "stpcpy_loop m s1 s2 =
     (let m = m(s1 := m s2) in if m s1 \<noteq> 0 then stpcpy_loop m (s1 + 1) (s2 + 1) else Some (m, s1 + 1))"

definition stpcpy :: "mem \<Rightarrow> addr \<Rightarrow> addr \<Rightarrow> (mem \<times> addr) option" where
  "stpcpy m s1 s2 = (case stpcpy_loop m s1 s2 of None \<Rightarrow> None | Some r \<Rightarrow> Some (fst r, snd r - 1))"

partial_function (option) strcpy_loop :: "mem \<Rightarrow> addr \<Rightarrow> addr \<Rightarrow> mem option" where
  "strcpy_loop m d s =
     (let c = m s; m = m(d := c) in if c \<noteq> 0 then strcpy_loop m (d + 1) (s + 1) else Some m)"

definition strcpy :: "mem \<Rightarrow> addr \<Rightarrow> addr \<Rightarrow> (mem \<times> addr) option" where
  "strcpy m dest src = (case strcpy_loop m dest src of None \<Rightarrow> None | Some m \<Rightarrow> Some (m, dest))"

fun strncpy_loop :: "mem \<Rightarrow> addr \<Rightarrow> addr \<Rightarrow> nat \<Rightarrow> mem \<times> addr" where
  "strncpy_loop m d src 0 = (m, src)"
| "strncpy_loop m d src (Suc n) =
     (let c = m src; m = m(d := c)
      in strncpy_loop m (d + 1) (if c \<noteq> 0 then src + 1 else src) n)"

definition strncpy :: "mem \<Rightarrow> addr \<Rightarrow> addr \<Rightarrow> nat \<Rightarrow> mem \<times> addr" where
  "strncpy m dest src n = (fst (strncpy_loop m dest src n), dest)"

definition stpncpy :: "mem \<Rightarrow> addr \<Rightarrow> addr \<Rightarrow> nat \<Rightarrow> mem \<times> addr" where
  "stpncpy m s1 s2 n = (let (m, s) = strncpy_loop m s1 s2 n in (m, s1 + (s - s2)))"

text \<open>\<^verbatim>\<open>while(*s++); --s;\<close> leaves the pointer at the terminator.\<close>

partial_function (option) skip_string :: "mem \<Rightarrow> addr \<Rightarrow> addr option" where
  "skip_string m s = (if m s \<noteq> 0 then skip_string m (s + 1) else Some (s + 1))"

definition strcat :: "mem \<Rightarrow> addr \<Rightarrow> addr \<Rightarrow> (mem \<times> addr) option" where
  "strcat m dest src =
     (case skip_string m dest of None \<Rightarrow> None
      | Some s \<Rightarrow> (let s = s - 1
          in case strcpy_loop m s src of None \<Rightarrow> None | Some m \<Rightarrow> Some (m, dest)))"

fun strncat_loop :: "mem \<Rightarrow> addr \<Rightarrow> addr \<Rightarrow> nat \<Rightarrow> mem \<times> addr" where
  "strncat_loop m s src 0 = (m, s)"
| "strncat_loop m s src (Suc n) =
     (let m = m(s := m src) in if m s \<noteq> 0 then strncat_loop m (s + 1) (src + 1) n else (m, s))"

definition strncat :: "mem \<Rightarrow> addr \<Rightarrow> addr \<Rightarrow> nat \<Rightarrow> (mem \<times> addr) option" where
  "strncat m dest src n =
     (case skip_string m dest of None \<Rightarrow> None
      | Some s \<Rightarrow> (let s = s - 1; (m, s) = strncat_loop m s src n; m = m(s := 0) in Some (m, dest)))"

section \<open>Tokens\<close>

text \<open>The result of \<^verbatim>\<open>strsep\<close>: memory, the new value of \<^verbatim>\<open>*stringp\<close>, the token.\<close>

partial_function (option) strsep_loop :: "mem \<Rightarrow> addr \<Rightarrow> addr \<Rightarrow> (mem \<times> addr) option" where
  "strsep_loop m s delim =
     (if m s \<noteq> 0 then
        (case span_inner m s delim of None \<Rightarrow> None
         | Some r \<Rightarrow> (if fst r then Some (m(s := 0), s + 1) else strsep_loop m (s + 1) (snd r)))
      else Some (m, NULL))"

definition strsep :: "mem \<Rightarrow> addr \<Rightarrow> addr \<Rightarrow> (mem \<times> addr \<times> addr) option" where
  "strsep m stringp delim =
     (let saved = stringp
      in if stringp \<noteq> NULL then
           (case strsep_loop m stringp delim of None \<Rightarrow> None | Some (m, p) \<Rightarrow> Some (m, p, saved))
         else Some (m, NULL, saved))"

text \<open>The result of \<^verbatim>\<open>strtok_r\<close>: memory, the new value of \<^verbatim>\<open>*next_start\<close>, the token.\<close>

definition strtok_r :: "mem \<Rightarrow> addr \<Rightarrow> addr \<Rightarrow> addr \<Rightarrow> (mem \<times> addr \<times> addr) option" where
  "strtok_r m s1 s2 next_start =
     (let s = (if s1 \<noteq> NULL then s1 else next_start)
      in if s \<noteq> NULL then
           (case strspn m s s2 of None \<Rightarrow> None
            | Some k \<Rightarrow>
               (let s = s + int k
                in if m s \<noteq> 0 then
                     (case strpbrk m s s2 of None \<Rightarrow> None
                      | Some p \<Rightarrow>
                         (if p \<noteq> NULL then Some (m(p := 0), p + 1, s) else Some (m, p, s)))
                   else Some (m, NULL, NULL)))
         else Some (m, next_start, s))"

text \<open>\<^verbatim>\<open>strtok\<close> keeps \<^verbatim>\<open>next_start\<close> in a static variable, the last argument and second result.\<close>

definition strtok :: "mem \<Rightarrow> addr \<Rightarrow> addr \<Rightarrow> addr \<Rightarrow> (mem \<times> addr \<times> addr) option" where
  "strtok m str delim next_start = strtok_r m str delim next_start"

section \<open>Duplication\<close>

text \<open>
  \<^verbatim>\<open>malloc\<close> is an external function of these two files; it is a parameter: heap and size to
  address and heap.
\<close>

definition strdup :: "('h \<Rightarrow> nat \<Rightarrow> addr \<times> 'h) \<Rightarrow> 'h \<Rightarrow> mem \<Rightarrow> addr \<Rightarrow> ('h \<times> mem \<times> addr) option" where
  "strdup malloc h m s =
     (case strlen_loop m s of None \<Rightarrow> None
      | Some c \<Rightarrow>
         (let l = nat (c - s + 1); (d, h) = malloc h l
          in if d = NULL then Some (h, m, NULL)
             else (let (m, r) = memcpy m d s l in Some (h, m, r))))"

definition strndup :: "('h \<Rightarrow> nat \<Rightarrow> addr \<times> 'h) \<Rightarrow> 'h \<Rightarrow> mem \<Rightarrow> addr \<Rightarrow> nat \<Rightarrow> 'h \<times> mem \<times> addr" where
  "strndup malloc h m s n =
     (let saved = s; s = strnlen_loop m s n; l = nat (s - saved); (d, h) = malloc h (l + 1)
      in if d = NULL then (h, m, NULL)
         else (let m = m(d + int l := 0); (m, r) = memcpy m d saved l in (h, m, d)))"

section \<open>Blocks and strings as values\<close>

text \<open>What a copy of \<open>n\<close> bytes, and the filling of \<open>n\<close> bytes, should leave in memory.\<close>

definition copy_block :: "mem \<Rightarrow> addr \<Rightarrow> addr \<Rightarrow> nat \<Rightarrow> mem" where
  "copy_block m d s n = (\<lambda>a. if d \<le> a \<and> a < d + int n then m (s + (a - d)) else m a)"

definition fill_block :: "mem \<Rightarrow> addr \<Rightarrow> u8 \<Rightarrow> nat \<Rightarrow> mem" where
  "fill_block m d c n = (\<lambda>a. if d \<le> a \<and> a < d + int n then c else m a)"

text \<open>A terminated string at an address.\<close>

fun cstring :: "mem \<Rightarrow> addr \<Rightarrow> u8 list \<Rightarrow> bool" where
  "cstring m s [] \<longleftrightarrow> m s = 0"
| "cstring m s (x # xs) \<longleftrightarrow> x \<noteq> 0 \<and> m s = x \<and> cstring m (s + 1) xs"

definition apart :: "addr \<Rightarrow> nat \<Rightarrow> addr \<Rightarrow> nat \<Rightarrow> bool" where
  "apart d n s k \<longleftrightarrow> d + int n \<le> s \<or> s + int k \<le> d"

lemma cstring_cong: "(\<And>a. s \<le> a \<Longrightarrow> a \<le> s + int (length xs) \<Longrightarrow> m' a = m a) \<Longrightarrow> cstring m' s xs = cstring m s xs"
  by (induction xs arbitrary: s) auto

lemma cstring_upd [simp]: "a < s \<or> s + int (length xs) < a \<Longrightarrow> cstring (m(a := c)) s xs = cstring m s xs"
  by (rule cstring_cong) auto

lemma cstring_append: "cstring m s (xs @ ys) \<Longrightarrow> cstring m (s + int (length xs)) ys"
  by (induction xs arbitrary: s) (auto simp flip: add.assoc)

lemma cstring_0_notin: "cstring m s xs \<Longrightarrow> 0 \<notin> set xs"
  by (induction xs arbitrary: s) auto

lemma cstring_shift:
  "cstring m s xs \<Longrightarrow> (\<And>i. i \<le> length xs \<Longrightarrow> m' (d + int i) = m (s + int i)) \<Longrightarrow> cstring m' d xs"
proof (induction xs arbitrary: s d)
  case Nil
  then show ?case using Nil.prems(2) [of 0] by simp
next
  case (Cons x xs)
  have "m' d = m s" using Cons.prems(2) [of 0] by simp
  moreover have "cstring m' (d + 1) xs"
    by (rule Cons.IH [of "s + 1"]) (use Cons.prems(1) Cons.prems(2) [of "Suc _"] in \<open>simp_all add: algebra_simps\<close>)
  ultimately show ?case using Cons.prems(1) by simp
qed

lemma cstring_copy_block: "cstring m s xs \<Longrightarrow> cstring (copy_block m d s (Suc (length xs))) d xs"
  by (erule cstring_shift) (simp add: copy_block_def)

section \<open>Block operations\<close>

lemma local_memcpy_loop_eq:
  "\<not> (s < d \<and> d < s + int n) \<Longrightarrow> local_memcpy_loop m d s n = copy_block m d s n"
proof (induction n arbitrary: m d s)
  case 0
  then show ?case by (intro ext) (auto simp: copy_block_def)
next
  case (Suc n)
  have "\<not> (s + 1 < d + 1 \<and> d + 1 < s + 1 + int n)" using Suc.prems by auto
  from Suc.IH [OF this]
  have "local_memcpy_loop m d s (Suc n) = copy_block (m(d := m s)) (d + 1) (s + 1) n"
    by (simp only: local_memcpy_loop.simps)
  also have "\<dots> = copy_block m d s (Suc n)"
    using Suc.prems by (intro ext) (auto simp: copy_block_def algebra_simps)
  finally show ?case .
qed

lemma memmove_up_eq: "memmove_up m d s n = local_memcpy_loop m d s n"
  by (induction n arbitrary: m d s) simp_all

lemma memmove_down_eq:
  "s \<le> d \<Longrightarrow> memmove_down m (d + (int n - 1)) (s + (int n - 1)) n = copy_block m d s n"
proof (induction n arbitrary: m)
  case 0
  then show ?case by (intro ext) (auto simp: copy_block_def)
next
  case (Suc n)
  have "memmove_down m (d + (int (Suc n) - 1)) (s + (int (Suc n) - 1)) (Suc n)
      = copy_block (m(d + int n := m (s + int n))) d s n"
    using Suc.IH [OF Suc.prems, of "m(d + int n := m (s + int n))"]
    by (simp only: memmove_down.simps of_nat_Suc add_diff_cancel_left' add_diff_eq)
  also have "\<dots> = copy_block m d s (Suc n)"
    using Suc.prems by (intro ext) (auto simp: copy_block_def)
  finally show ?case .
qed

lemma mempcpy_eq: "mempcpy m d s n = (local_memcpy_loop m d s n, d + int n)"
  by (induction n arbitrary: m d s) simp_all

lemma memset_loop_eq: "memset_loop m d c n = fill_block m d (word_of_int c) n"
proof (induction n arbitrary: m d)
  case 0
  then show ?case by (intro ext) (auto simp: fill_block_def)
next
  case (Suc n)
  then show ?case by (intro ext) (auto simp: fill_block_def)
qed

text \<open>
  C30. \<^verbatim>\<open>memmove\<close> (and \<^verbatim>\<open>bcopy\<close>, with its operands the other way round) moves the bytes of the
  source as they were before the call, however the two blocks overlap, and changes nothing
  else; it returns the destination.
\<close>

theorem memmove_correct:
  "memmove m dest src len = (copy_block m dest src len, dest)
    \<and> bcopy m src dest len = copy_block m dest src len"
  using memmove_down_eq [of src dest m len] local_memcpy_loop_eq [of src dest len m]
  by (auto simp: memmove_def bcopy_def Let_def memmove_up_eq)

text \<open>
  C35. \<^verbatim>\<open>memcpy\<close>, its two LLVM intrinsics and \<^verbatim>\<open>mempcpy\<close> copy the block unless the destination
  starts inside the source; \<^verbatim>\<open>memset\<close> and \<^verbatim>\<open>bzero\<close> fill it. Nothing else changes, and the
  returned pointers are the start, or one past the end for \<^verbatim>\<open>mempcpy\<close>.
\<close>

theorem block_functions_correct:
  assumes "\<not> (src < dest \<and> dest < src + int len)"
  shows "memcpy m dest src len = (copy_block m dest src len, dest)
    \<and> mempcpy m dest src len = (copy_block m dest src len, dest + int len)
    \<and> (len = unat l64 \<longrightarrow> llvm_memcpy_p0i8_p0i8_i64 m dest src l64 = copy_block m dest src len)
    \<and> (len = unat l32 \<longrightarrow> llvm_memcpy_p0i8_p0i8_i32 m dest src l32 = copy_block m dest src len)
    \<and> memset m dest val len = (fill_block m dest (word_of_int val) len, dest)
    \<and> bzero m dest len = fill_block m dest 0 len"
  using local_memcpy_loop_eq [OF assms]
  by (auto simp: memcpy_def local_memcpy_def mempcpy_eq llvm_memcpy_p0i8_p0i8_i64_def
      llvm_memcpy_p0i8_p0i8_i32_def memset_def bzero_def memset_loop_eq)

theorem block_functions_correct_witness:
  "fst (memcpy (\<lambda>a. word_of_int a) 200 100 3) 201 = 101
    \<and> mempcpy (\<lambda>a. word_of_int a) 200 100 3 = (copy_block (\<lambda>a. word_of_int a) 200 100 3, 203)
    \<and> fst (memset (\<lambda>a. 1) 200 7 3) 202 = 7"
  using block_functions_correct [of 100 200 3 "\<lambda>a. word_of_int a" 3 3 0]
    block_functions_correct [of 100 200 3 "\<lambda>a. 1" 3 3 7]
  by (simp add: copy_block_def fill_block_def)

section \<open>Lengths and searches\<close>

lemma strlen_loop_eq: "cstring m s xs \<Longrightarrow> strlen_loop m s = Some (s + int (length xs))"
  by (induction xs arbitrary: s; subst strlen_loop.simps) (auto simp: algebra_simps)

lemma strnlen_loop_eq: "cstring m s xs \<Longrightarrow> strnlen_loop m s n = s + int (min n (length xs))"
proof (induction n arbitrary: s xs)
  case (Suc n)
  then show ?case by (cases xs) (auto simp: algebra_simps)
qed simp

text \<open>
  On a terminated string \<^verbatim>\<open>strlen\<close> returns its length, and \<^verbatim>\<open>strnlen\<close> the smaller of the
  length and the bound.
\<close>

theorem string_length_correct:
  assumes "cstring m s xs"
  shows "strlen m s = Some (length xs) \<and> strnlen m s n = min n (length xs)"
  using assms by (simp add: strlen_def strnlen_def strlen_loop_eq strnlen_loop_eq)

lemma strchr_eq:
  "cstring m s xs \<Longrightarrow> strchr m s c =
     Some (if c \<in> sint ` set (xs @ [0]) then s + int (length (takeWhile (\<lambda>x. sint x \<noteq> c) (xs @ [0]))) else NULL)"
proof (induction xs arbitrary: s)
  case (Cons x xs)
  then have "strchr m (s + 1) c = Some (if c \<in> sint ` set (xs @ [0])
      then s + 1 + int (length (takeWhile (\<lambda>x. sint x \<noteq> c) (xs @ [0]))) else NULL)" by simp
  then show ?case using Cons.prems by (subst strchr.simps) (simp add: algebra_simps)
qed (subst strchr.simps, simp)

lemma strchrnul_eq:
  "cstring m s xs \<Longrightarrow> strchrnul_loop m (s - 1) c = Some (s + int (length (takeWhile (\<lambda>x. sint x \<noteq> c) xs)))"
proof (induction xs arbitrary: s)
  case (Cons x xs)
  then show ?case using Cons.IH [of "s + 1"]
    by (subst strchrnul_loop.simps) (auto simp: Let_def algebra_simps)
qed (subst strchrnul_loop.simps, simp)

text \<open>The last position of a character, counted from the end.\<close>

lemma strrchr_loop_eq:
  "cstring m s xs \<Longrightarrow> strrchr_loop m p s c =
     Some (if c \<in> sint ` set (xs @ [0])
       then s + int (length xs) - int (length (takeWhile (\<lambda>x. sint x \<noteq> c) (rev (xs @ [0])))) else p)"
proof (induction xs arbitrary: s p)
  case Nil
  then show ?case by (subst strrchr_loop.simps) (auto simp: Let_def)
next
  case (Cons x xs)
  show ?case
  proof (cases "c \<in> sint ` set (xs @ [0])")
    case True
    then obtain y where "y \<in> set (rev (xs @ [0]))" "\<not> sint y \<noteq> c"
      unfolding image_iff set_rev by blast
    then have "takeWhile (\<lambda>x. sint x \<noteq> c) (rev (xs @ [0]) @ [x]) = takeWhile (\<lambda>x. sint x \<noteq> c) (rev (xs @ [0]))"
      by (rule takeWhile_append1)
    then show ?thesis using Cons.IH [of "s + 1"] Cons.prems True
      by (subst strrchr_loop.simps) (auto simp: Let_def algebra_simps)
  next
    case False
    then have "takeWhile (\<lambda>x. sint x \<noteq> c) (rev (xs @ [0]) @ [x])
        = rev (xs @ [0]) @ takeWhile (\<lambda>x. sint x \<noteq> c) [x]"
      by (intro takeWhile_append2) auto
    then show ?thesis using Cons.IH [of "s + 1"] Cons.prems False
      by (subst strrchr_loop.simps) (auto simp: Let_def algebra_simps)
  qed
qed

text \<open>
  C36. On a terminated string the character searches end and return the first (\<^verbatim>\<open>strchr\<close>,
  \<^verbatim>\<open>index\<close>), respectively the last (\<^verbatim>\<open>strrchr\<close>, \<^verbatim>\<open>rindex\<close>) position of the value \<open>c\<close>, the
  terminator included, or null; \<^verbatim>\<open>strchrnul\<close> returns the terminator instead of null. The
  characters are compared as signed values with the unconverted argument.
\<close>

theorem character_search_correct:
  assumes "cstring m s xs"
  shows "strchr m s c = Some (if c \<in> sint ` set (xs @ [0])
        then s + int (length (takeWhile (\<lambda>x. sint x \<noteq> c) (xs @ [0]))) else NULL)
    \<and> index m s c = strchr m s c
    \<and> strrchr m s c = Some (if c \<in> sint ` set (xs @ [0])
        then s + int (length xs) - int (length (takeWhile (\<lambda>x. sint x \<noteq> c) (rev (xs @ [0])))) else NULL)
    \<and> rindex m s c = strrchr m s c
    \<and> strchrnul m s c = Some (s + int (length (takeWhile (\<lambda>x. sint x \<noteq> c) xs)))"
  unfolding index_def rindex_def strrchr_def strchrnul_def
  using strchr_eq [OF assms(1)] strrchr_loop_eq [OF assms(1)] strchrnul_eq [OF assms(1)] by simp

definition abab :: mem where
  "abab a = (if a = 100 \<or> a = 102 then 97 else if a = 101 \<or> a = 103 then 98 else 0)"

lemma abab_cstring: "cstring abab 100 [97, 98, 97, 98]" "cstring abab 102 [97, 98]" "cstring abab 103 [98]"
  by (simp_all add: abab_def)

theorem string_length_correct_witness: "strlen abab 100 = Some 4 \<and> strnlen abab 100 3 = 3"
  using string_length_correct [OF abab_cstring(1), of 3] by simp

theorem character_search_correct_witness:
  "strchr abab 100 98 = Some 101 \<and> strrchr abab 100 98 = Some 103 \<and> strchrnul abab 100 99 = Some 104"
  using character_search_correct [OF abab_cstring(1), of 98] character_search_correct [OF abab_cstring(1), of 99]
  by simp

lemma memchr_found:
  "i < n \<Longrightarrow> m (s + int i) = word_of_int c \<Longrightarrow> (\<And>j. j < i \<Longrightarrow> m (s + int j) \<noteq> word_of_int c) \<Longrightarrow>
     memchr m s c n = s + int i"
proof (induction n arbitrary: s i)
  case (Suc n)
  show ?case
  proof (cases i)
    case (Suc k)
    have "m s \<noteq> word_of_int c" using Suc.prems(3) [of 0] Suc by simp
    moreover have "memchr m (s + 1) c n = s + 1 + int k"
      by (rule Suc.IH) (use Suc.prems Suc.prems(3) [of "Suc _"] Suc in \<open>simp_all add: algebra_simps\<close>)
    ultimately show ?thesis using Suc by simp
  qed (use Suc.prems in simp)
qed simp

lemma memchr_none: "(\<And>j. j < n \<Longrightarrow> m (s + int j) \<noteq> word_of_int c) \<Longrightarrow> memchr m s c n = NULL"
proof (induction n arbitrary: s)
  case (Suc n)
  have "memchr m (s + 1) c n = NULL"
    by (rule Suc.IH) (use Suc.prems [of "Suc _"] in \<open>simp add: algebra_simps\<close>)
  then show ?case using Suc.prems [of 0] by simp
qed simp

lemma memrchr_found:
  "i < n \<Longrightarrow> m (s + int i) = word_of_int c \<Longrightarrow> (\<And>j. i < j \<Longrightarrow> j < n \<Longrightarrow> m (s + int j) \<noteq> word_of_int c) \<Longrightarrow>
     memrchr_loop m (s + int n) c n = s + int i"
proof (induction n)
  case (Suc n)
  then show ?case
    using Suc.prems(3) [of n] by (cases "i = n") (auto simp: Let_def less_Suc_eq)
qed simp

lemma memrchr_none: "(\<And>j. j < n \<Longrightarrow> m (s + int j) \<noteq> word_of_int c) \<Longrightarrow> memrchr_loop m (s + int n) c n = NULL"
  by (induction n) (simp_all add: Let_def)

lemma rawmemchr_found:
  "m (s + int i) = word_of_int c \<Longrightarrow> (\<And>j. j < i \<Longrightarrow> m (s + int j) \<noteq> word_of_int c) \<Longrightarrow>
     rawmemchr m s c = Some (s + int i)"
proof (induction i arbitrary: s)
  case 0
  then show ?case by (subst rawmemchr.simps) simp
next
  case (Suc i)
  have "rawmemchr m (s + 1) c = Some (s + 1 + int i)"
    by (rule Suc.IH) (use Suc.prems(1) Suc.prems(2) [of "Suc _"] in \<open>simp_all add: algebra_simps\<close>)
  then show ?case using Suc.prems(2) [of 0] by (subst rawmemchr.simps) (simp add: algebra_simps)
qed

text \<open>
  \<^verbatim>\<open>memchr\<close> returns the first and \<^verbatim>\<open>memrchr\<close> the last position of the byte \<open>c\<close> (converted
  to \<^verbatim>\<open>unsigned char\<close>) in a block of \<open>n\<close> bytes, \<^verbatim>\<open>rawmemchr\<close> the first position of a byte
  that occurs; where it does not occur in the block, the result is null.
\<close>

theorem block_search_correct:
  assumes "i < n" and "i' < n"
    and "m (s + int i) = word_of_int c" and "\<And>j. j < i \<Longrightarrow> m (s + int j) \<noteq> word_of_int c"
    and "m (s + int i') = word_of_int c" and "\<And>j. i' < j \<Longrightarrow> j < n \<Longrightarrow> m (s + int j) \<noteq> word_of_int c"
    and "\<And>j. j < n \<Longrightarrow> m (s + int j) \<noteq> word_of_int b"
  shows "memchr m s c n = s + int i \<and> memrchr m s c n = s + int i' \<and> rawmemchr m s c = Some (s + int i)
    \<and> memchr m s b n = NULL \<and> memrchr m s b n = NULL"
  using assms memchr_found memrchr_found rawmemchr_found memchr_none memrchr_none
  by (simp add: memrchr_def)

theorem block_search_correct_witness:
  "memchr abab 100 98 4 = 101 \<and> memrchr abab 100 98 4 = 103 \<and> rawmemchr abab 100 98 = Some 101
    \<and> memchr abab 100 99 4 = NULL \<and> memrchr abab 100 99 4 = NULL"
  using block_search_correct [of 1 4 3 abab 100 98 99] by (simp add: abab_def)

subsection \<open>Spans\<close>

lemma strspn_inner:
  "cstring m p bs \<Longrightarrow> strspn_loop m accept s p =
     (if m s \<in> set bs then strspn_loop m accept (s + 1) accept else Some s)"
  by (induction bs arbitrary: p; subst strspn_loop.simps) auto

lemma strspn_loop_eq:
  "cstring m s xs \<Longrightarrow> cstring m accept as \<Longrightarrow>
     strspn_loop m accept s accept = Some (s + int (length (takeWhile (\<lambda>x. x \<in> set as) xs)))"
proof (induction xs arbitrary: s)
  case Nil
  then show ?case using cstring_0_notin by (subst strspn_inner) auto
next
  case (Cons x xs)
  then show ?case by (subst strspn_inner) (auto simp: algebra_simps)
qed

lemma span_inner_eq:
  "cstring m p bs \<Longrightarrow> \<exists>q. span_inner m s p = Some (m s \<in> set bs, q) \<and> (m s \<notin> set bs \<longrightarrow> q = p + int (length bs))"
proof (induction bs arbitrary: p)
  case (Cons b bs)
  then show ?case using Cons.IH [of "p + 1"] by (subst span_inner.simps) (auto simp: algebra_simps)
qed (subst span_inner.simps, simp)

lemma cstring_end: "cstring m p bs \<Longrightarrow> cstring m (p + int (length bs)) []"
  using cstring_append [of m p bs "[]"] by simp

lemma strcspn_exhausted: "cstring m s xs \<Longrightarrow> m r = 0 \<Longrightarrow> strcspn_loop m s r = Some (s + int (length xs))"
proof (induction xs arbitrary: s)
  case (Cons x xs)
  have "span_inner m s r = Some (False, r)" using Cons.prems(2) by (subst span_inner.simps) simp
  then show ?case using Cons.IH [of "s + 1"] Cons.prems
    by (subst strcspn_loop.simps) (auto simp: algebra_simps)
qed (subst strcspn_loop.simps, simp)

lemma strpbrk_exhausted: "cstring m s xs \<Longrightarrow> m r = 0 \<Longrightarrow> strpbrk m s r = Some NULL"
proof (induction xs arbitrary: s)
  case (Cons x xs)
  have "span_inner m s r = Some (False, r)" using Cons.prems(2) by (subst span_inner.simps) simp
  then show ?case using Cons.IH [of "s + 1"] Cons.prems by (subst strpbrk.simps) auto
qed (subst strpbrk.simps, simp)

lemma strcspn_eq:
  assumes "cstring m s xs" "cstring m r rs"
  shows "strcspn m s r = Some (if xs \<noteq> [] \<and> hd xs \<in> set rs then 0 else length xs)"
proof (cases xs)
  case Nil
  then show ?thesis using assms(1) by (simp add: strcspn_def) (subst strcspn_loop.simps, simp)
next
  case (Cons x ys)
  obtain q where q: "span_inner m s r = Some (m s \<in> set rs, q)" "m s \<notin> set rs \<longrightarrow> q = r + int (length rs)"
    using span_inner_eq [OF assms(2)] by blast
  have "m (r + int (length rs)) = 0" using cstring_end [OF assms(2)] by simp
  then have "m s \<notin> set rs \<Longrightarrow> strcspn_loop m (s + 1) q = Some (s + 1 + int (length ys))"
    using Cons assms(1) q strcspn_exhausted [of m "s + 1" ys q] by simp
  then have "strcspn_loop m s r = Some (if m s \<in> set rs then s else s + 1 + int (length ys))"
    using Cons assms(1) q by (subst strcspn_loop.simps) simp
  then show ?thesis using Cons assms(1) by (auto simp: strcspn_def)
qed

lemma strpbrk_eq:
  assumes "cstring m s xs" "cstring m r rs"
  shows "strpbrk m s r = Some (if xs \<noteq> [] \<and> hd xs \<in> set rs then s else NULL)"
proof (cases xs)
  case Nil
  then show ?thesis using assms(1) by (subst strpbrk.simps) simp
next
  case (Cons x ys)
  obtain q where q: "span_inner m s r = Some (m s \<in> set rs, q)" "m s \<notin> set rs \<longrightarrow> q = r + int (length rs)"
    using span_inner_eq [OF assms(2)] by blast
  have "m (r + int (length rs)) = 0" using cstring_end [OF assms(2)] by simp
  then show ?thesis using Cons assms(1) q strpbrk_exhausted [of m "s + 1" ys q]
    by (subst strpbrk.simps) auto
qed

text \<open>
  On terminated strings \<^verbatim>\<open>strspn\<close> ends and returns the length of the longest prefix made
  of accepted characters.
\<close>

theorem strspn_correct:
  assumes "cstring m s xs" and "cstring m accept as"
  shows "strspn m s accept = Some (length (takeWhile (\<lambda>x. x \<in> set as) xs))"
  using strspn_loop_eq [OF assms] by (simp add: strspn_def)

theorem strspn_correct_witness: "strspn abab 100 102 = Some 4"
  using strspn_correct [OF abab_cstring(1,2)] by simp

text \<open>
  \<^verbatim>\<open>strcspn\<close> and \<^verbatim>\<open>strpbrk\<close> never restart their scan of the set: they find a character of
  the set only in the first position of the string. Where it occurs later, \<^verbatim>\<open>strcspn\<close>
  returns the whole length and \<^verbatim>\<open>strpbrk\<close> returns null.
\<close>

theorem span_functions_test_first_character_only:
  assumes "cstring m s xs" and "cstring m r rs"
  shows "strcspn m s r = Some (if xs \<noteq> [] \<and> hd xs \<in> set rs then 0 else length xs)
    \<and> strpbrk m s r = Some (if xs \<noteq> [] \<and> hd xs \<in> set rs then s else NULL)"
  using strcspn_eq [OF assms] strpbrk_eq [OF assms] by simp

theorem span_functions_test_first_character_only_witness:
  "strcspn abab 100 103 = Some 4 \<and> strpbrk abab 100 103 = Some NULL"
  using span_functions_test_first_character_only [OF abab_cstring(1,3)] by simp

section \<open>Comparisons\<close>

text \<open>The difference of two byte strings at the first position where they differ.\<close>

fun first_difference :: "u8 list \<Rightarrow> u8 list \<Rightarrow> int" where
  "first_difference [] [] = 0"
| "first_difference [] (y # ys) = - uint y"
| "first_difference (x # xs) [] = uint x"
| "first_difference (x # xs) (y # ys) = (if x = y then first_difference xs ys else uint x - uint y)"

lemma first_difference_order:
  "0 \<notin> set xs \<Longrightarrow> 0 \<notin> set ys \<Longrightarrow>
    (first_difference xs ys = 0 \<longleftrightarrow> xs = ys) \<and> (first_difference xs ys < 0 \<longleftrightarrow> xs < ys)"
proof (induction xs ys rule: first_difference.induct)
  case (2 y ys)
  then have "0 < uint y" by (simp add: word_neq_0_conv word_less_def)
  then show ?case by simp
next
  case (3 x xs)
  then have "0 < uint x" by (simp add: word_neq_0_conv word_less_def)
  then show ?case by simp
next
  case (4 x xs y ys)
  then show ?case by (auto simp: word_less_def word_uint_eq_iff)
qed simp

lemma strcmp_eq:
  "cstring m p1 xs \<Longrightarrow> cstring m p2 ys \<Longrightarrow> strcmp m p1 p2 = Some (first_difference xs ys)"
proof (induction xs ys arbitrary: p1 p2 rule: first_difference.induct)
  case (4 x xs y ys)
  then show ?case by (subst strcmp.simps) auto
qed (subst strcmp.simps, simp)+

lemma strncmp_eq:
  "cstring m p1 xs \<Longrightarrow> cstring m p2 ys \<Longrightarrow> strncmp m p1 p2 n = first_difference (take n xs) (take n ys)"
proof (induction n arbitrary: p1 p2 xs ys)
  case (Suc n)
  then show ?case by (cases xs; cases ys) auto
qed simp

text \<open>
  C39. \<^verbatim>\<open>strcmp\<close> ends and orders two terminated strings lexicographically by their unsigned
  characters: its result is zero for equal strings only and negative exactly when the first
  is smaller. \<^verbatim>\<open>strncmp\<close> does the same for the first \<open>n\<close> characters.
\<close>

theorem strcmp_correct:
  assumes "cstring m p1 xs" and "cstring m p2 ys"
  shows "\<exists>r. strcmp m p1 p2 = Some r \<and> (r = 0 \<longleftrightarrow> xs = ys) \<and> (r < 0 \<longleftrightarrow> xs < ys)
    \<and> (strncmp m p1 p2 n = 0 \<longleftrightarrow> take n xs = take n ys)
    \<and> (strncmp m p1 p2 n < 0 \<longleftrightarrow> take n xs < take n ys)"
proof -
  have "0 \<notin> set xs" "0 \<notin> set ys" using assms cstring_0_notin by blast+
  moreover from this have "0 \<notin> set (take n xs)" "0 \<notin> set (take n ys)" by (meson in_set_takeD)+
  ultimately show ?thesis
    using strcmp_eq [OF assms] strncmp_eq [OF assms, of n] first_difference_order [of xs ys]
      first_difference_order [of "take n xs" "take n ys"] by simp
qed

theorem strcmp_correct_witness:
  "(\<exists>r. strcmp abab 100 102 = Some r \<and> \<not> r < 0 \<and> r \<noteq> 0) \<and> strncmp abab 100 102 2 = 0"
  using strcmp_correct [OF abab_cstring(1,2), of 2] by auto

lemma memcmp_eq_0_iff: "memcmp m s1 s2 n = 0 \<longleftrightarrow> (\<forall>i<n. m (s1 + int i) = m (s2 + int i))"
proof (induction n arbitrary: s1 s2)
  case (Suc n)
  have "(\<forall>i<Suc n. m (s1 + int i) = m (s2 + int i))
      \<longleftrightarrow> m s1 = m s2 \<and> (\<forall>i<n. m (s1 + 1 + int i) = m (s2 + 1 + int i))"
    by (subst All_less_Suc2) (simp add: algebra_simps)
  then show ?case using Suc.IH [of "s1 + 1" "s2 + 1"] by (simp add: Let_def uint_0_iff)
qed simp

lemma memcmp_eq_eq: "memcmp_eq m s1 s2 n = of_bool (memcmp m s1 s2 n \<noteq> 0)"
  by (induction n arbitrary: s1 s2) (auto simp: Let_def uint_0_iff)

lemma memcmp_nonneg: "0 \<le> memcmp m s1 s2 n"
  by (induction n arbitrary: s1 s2) (auto simp: Let_def)

text \<open>
  \<^verbatim>\<open>memcmp\<close> and \<^verbatim>\<open>memcmp_eq\<close> return zero exactly for equal blocks. Because the difference
  is kept in an \<^verbatim>\<open>unsigned char\<close>, the result of \<^verbatim>\<open>memcmp\<close> is never negative: it does not say
  which block is smaller.
\<close>

theorem memcmp_correct:
  "(memcmp m s1 s2 n = 0 \<longleftrightarrow> (\<forall>i<n. m (s1 + int i) = m (s2 + int i)))
    \<and> memcmp_eq m s1 s2 n = of_bool (memcmp m s1 s2 n \<noteq> 0) \<and> 0 \<le> memcmp m s1 s2 n"
  using memcmp_eq_0_iff memcmp_eq_eq memcmp_nonneg by blast

theorem memcmp_correct_witness:
  "memcmp abab 100 102 2 = 0 \<and> memcmp_eq abab 100 102 2 = 0 \<and> memcmp abab 100 101 2 \<noteq> 0"
  using memcmp_correct [of abab 100 102 2] memcmp_correct [of abab 100 101 2]
  by (auto simp: abab_def numeral_2_eq_2 less_Suc_eq)

section \<open>Substrings\<close>

text \<open>The first position at which \<open>ns\<close> occurs in \<open>hs\<close>.\<close>

fun find_sub :: "u8 list \<Rightarrow> u8 list \<Rightarrow> nat option" where
  "find_sub hs ns = (if prefix ns hs then Some 0 else
     (case hs of [] \<Rightarrow> None | h # hs' \<Rightarrow> map_option Suc (find_sub hs' ns)))"

declare find_sub.simps [simp del]

lemma find_sub_iff:
  "(case find_sub hs ns of
      None \<Rightarrow> \<not> sublist ns hs
    | Some i \<Rightarrow> i \<le> length hs \<and> prefix ns (drop i hs) \<and> (\<forall>j<i. \<not> prefix ns (drop j hs)))"
proof (induction hs)
  case Nil
  then show ?case by (simp add: find_sub.simps)
next
  case (Cons h hs)
  show ?case
  proof (cases "prefix ns (h # hs)")
    case True
    then show ?thesis by (simp add: find_sub.simps)
  next
    case False
    then have "find_sub (h # hs) ns = map_option Suc (find_sub hs ns)" by (subst find_sub.simps) simp
    then show ?thesis using Cons.IH False
      by (cases "find_sub hs ns") (auto simp: sublist_Cons_right All_less_Suc2)
  qed
qed

lemma cstring_nth: "cstring m s xs \<Longrightarrow> i \<le> length xs \<Longrightarrow> m (s + int i) = (if i < length xs then xs ! i else 0)"
proof (induction xs arbitrary: s i)
  case (Cons x xs)
  then show ?case using Cons.IH [of "s + 1" "i - 1"] by (cases i) (auto simp: algebra_simps)
qed simp

lemma prefix_nth: "prefix ns hs \<longleftrightarrow> length ns \<le> length hs \<and> (\<forall>i<length ns. ns ! i = hs ! i)"
  by (metis prefix_def append_eq_conv_conj take_is_prefix nth_take_lemma nth_take prefix_length_le
      length_take min.absorb2 nth_equalityI)

lemma find_sub_None: "length hs < length ns \<Longrightarrow> find_sub hs ns = None"
proof -
  assume l: "length hs < length ns"
  have "\<not> prefix ns (drop i hs)" for i using l prefix_length_le [of ns "drop i hs"] by auto
  then show ?thesis using find_sub_iff [where hs = hs and ns = ns] by (auto split: option.splits)
qed

lemma find_sub_Cons: "\<not> prefix ns (h # hs) \<Longrightarrow> find_sub (h # hs) ns = map_option Suc (find_sub hs ns)"
  by (subst find_sub.simps) simp

lemma strstr_inner:
  assumes h: "cstring m h hs" and n: "cstring m n ns" and k: "k \<le> length ns" "k \<le> length hs" "\<forall>i<k. ns ! i = hs ! i"
    and restart: "\<And>x hs'. hs = x # hs' \<Longrightarrow> strstr_loop m n (h + 1) (h + 1) n
      = Some (case find_sub hs' ns of None \<Rightarrow> NULL | Some i \<Rightarrow> h + 1 + int i)"
  shows "strstr_loop m n h (h + int k) (n + int k) = Some (case find_sub hs ns of None \<Rightarrow> NULL | Some i \<Rightarrow> h + int i)"
  using k
proof (induction "length ns - k" arbitrary: k)
  case 0
  then have "prefix ns hs" by (simp add: prefix_nth)
  then have "find_sub hs ns = Some 0" by (simp add: find_sub.simps)
  moreover have "m (n + int k) = 0" using cstring_nth [OF n, of k] 0 by simp
  ultimately show ?case by (subst strstr_loop.simps) simp
next
  case (Suc j)
  then have kn: "k < length ns" by simp
  have p: "m (n + int k) = ns ! k" "ns ! k \<noteq> 0"
    using cstring_nth [OF n, of k] kn cstring_0_notin [OF n] nth_mem [OF kn] by (simp, metis)
  consider "k = length hs" | "k < length hs" "ns ! k = hs ! k" | "k < length hs" "ns ! k \<noteq> hs ! k"
    using Suc.prems by linarith
  then show ?case
  proof cases
    case 1
    then have "m (h + int k) = 0" using cstring_nth [OF h, of k] by simp
    moreover have "find_sub hs ns = None" using 1 kn by (intro find_sub_None) simp
    ultimately show ?thesis using p by (subst strstr_loop.simps) simp
  next
    case 2
    have s: "m (h + int k) = hs ! k" using cstring_nth [OF h, of k] 2 by simp
    have "strstr_loop m n h (h + int (Suc k)) (n + int (Suc k))
        = Some (case find_sub hs ns of None \<Rightarrow> NULL | Some i \<Rightarrow> h + int i)"
      by (rule Suc.hyps(1)) (use Suc.hyps(2) Suc.prems 2 kn in \<open>auto simp: less_Suc_eq\<close>)
    then show ?thesis using p s 2 by (subst strstr_loop.simps) (simp add: algebra_simps)
  next
    case 3
    then obtain x hs' where hs: "hs = x # hs'" by (cases hs) auto
    have s: "m (h + int k) = hs ! k" "hs ! k \<noteq> 0"
      using cstring_nth [OF h, of k] 3 cstring_0_notin [OF h] nth_mem [OF 3(1)] by (simp, metis)
    have "\<not> prefix ns hs" using 3 kn by (auto simp: prefix_nth)
    then have "find_sub hs ns = map_option Suc (find_sub hs' ns)" unfolding hs by (rule find_sub_Cons)
    then show ?thesis using p s 3 restart [OF hs]
      by (subst strstr_loop.simps) (simp add: option.case_eq_if option.map_sel)
  qed
qed

lemma strstr_loop_eq:
  "cstring m h hs \<Longrightarrow> cstring m n ns \<Longrightarrow>
     strstr_loop m n h h n = Some (case find_sub hs ns of None \<Rightarrow> NULL | Some i \<Rightarrow> h + int i)"
proof (induction hs arbitrary: h)
  case Nil
  then show ?case using strstr_inner [of m h "[]" n ns 0] by simp
next
  case (Cons x hs)
  then show ?case using strstr_inner [of m h "x # hs" n ns 0] by simp
qed

text \<open>
  C34. \<^verbatim>\<open>strstr\<close> ends and returns the first position at which the needle occurs in the
  haystack, or null where it does not occur.
\<close>

theorem strstr_correct:
  assumes "cstring m h hs" and "cstring m n ns"
  shows "\<exists>r. strstr m h n = Some r
    \<and> (if sublist ns hs then (\<exists>i \<le> length hs. r = h + int i \<and> prefix ns (drop i hs)
          \<and> (\<forall>j<i. \<not> prefix ns (drop j hs)))
        else r = NULL)"
proof (cases "find_sub hs ns")
  case None
  then show ?thesis using strstr_loop_eq [OF assms] find_sub_iff [where hs = hs and ns = ns] by (simp add: strstr_def)
next
  case (Some i)
  then have i: "i \<le> length hs" "prefix ns (drop i hs)" "\<forall>j<i. \<not> prefix ns (drop j hs)"
    using find_sub_iff [where hs = hs and ns = ns] by auto
  have "sublist ns hs"
    using i(2) by (metis append_take_drop_id prefix_def sublist_appendI)
  then show ?thesis using Some i strstr_loop_eq [OF assms] by (auto simp: strstr_def)
qed

theorem strstr_correct_witness: "\<exists>r. strstr abab 100 103 = Some r \<and> (\<exists>i \<le> 4. r = 100 + int i)"
proof -
  have "[97, 98, 97, 98] = [97] @ [98] @ [97, 98 :: u8]" by simp
  then have "sublist [98] [97, 98, 97, 98 :: u8]" unfolding sublist_def by blast
  then show ?thesis using strstr_correct [OF abab_cstring(1,3)] by auto
qed

section \<open>Copies\<close>

lemma strcpy_loop_eq:
  "cstring m s xs \<Longrightarrow> apart d (Suc (length xs)) s (Suc (length xs)) \<Longrightarrow>
     strcpy_loop m d s = Some (copy_block m d s (Suc (length xs)))"
proof (induction xs arbitrary: m d s)
  case Nil
  then have "m(d := 0) = copy_block m d s 1" by (intro ext) (auto simp: copy_block_def)
  then show ?case using Nil by (subst strcpy_loop.simps) (simp add: Let_def)
next
  case (Cons x xs)
  have c: "cstring (m(d := m s)) (s + 1) xs" using Cons.prems by (auto simp: apart_def)
  have "apart (d + 1) (Suc (length xs)) (s + 1) (Suc (length xs))" using Cons.prems by (auto simp: apart_def)
  from Cons.IH [OF c this]
  have "strcpy_loop m d s = Some (copy_block (m(d := m s)) (d + 1) (s + 1) (Suc (length xs)))"
    using Cons.prems(1) by (subst strcpy_loop.simps) (simp add: Let_def del: fun_upd_apply)
  also have "copy_block (m(d := m s)) (d + 1) (s + 1) (Suc (length xs)) = copy_block m d s (Suc (length (x # xs)))"
    using Cons.prems(2) by (intro ext) (auto simp: copy_block_def apart_def algebra_simps)
  finally show ?case .
qed

lemma stpcpy_loop_eq:
  "cstring m s xs \<Longrightarrow> strcpy_loop m d s = Some m' \<Longrightarrow> apart d (Suc (length xs)) s (Suc (length xs)) \<Longrightarrow>
     stpcpy_loop m d s = Some (m', d + int (length xs) + 1)"
proof (induction xs arbitrary: m d s)
  case Nil
  then have "m' = m(d := 0)" by (subst (asm) strcpy_loop.simps) (simp add: Let_def)
  then show ?case using Nil by (subst stpcpy_loop.simps) (simp add: Let_def)
next
  case (Cons x xs)
  have c: "cstring (m(d := m s)) (s + 1) xs" using Cons.prems by (auto simp: apart_def)
  have a: "apart (d + 1) (Suc (length xs)) (s + 1) (Suc (length xs))" using Cons.prems by (auto simp: apart_def)
  have "strcpy_loop (m(d := m s)) (d + 1) (s + 1) = Some m'"
    using Cons.prems(1,2) strcpy_loop.simps [of m d s] by (simp add: Let_def del: fun_upd_apply)
  from Cons.IH [OF c this a] show ?case
    using Cons.prems(1) by (subst stpcpy_loop.simps) (auto simp: Let_def algebra_simps fun_upd_def)
qed

lemma skip_string_eq: "cstring m s xs \<Longrightarrow> skip_string m s = Some (s + int (length xs) + 1)"
  by (induction xs arbitrary: s; subst skip_string.simps) (auto simp: algebra_simps)

lemma cstring_concat:
  "0 \<notin> set ys \<Longrightarrow> (\<And>i. i < length ys \<Longrightarrow> m (d + int i) = ys ! i) \<Longrightarrow> cstring m (d + int (length ys)) xs \<Longrightarrow>
    cstring m d (ys @ xs)"
proof (induction ys arbitrary: d)
  case (Cons y ys)
  have "cstring m (d + 1) (ys @ xs)"
    by (rule Cons.IH) (use Cons.prems(1,3) Cons.prems(2) [of "Suc _"] in \<open>simp_all add: algebra_simps\<close>)
  then show ?case using Cons.prems(1) Cons.prems(2) [of 0] by simp
qed simp

text \<open>
  Where source and destination do not overlap, \<^verbatim>\<open>strcpy\<close> and \<^verbatim>\<open>stpcpy\<close> end with a copy of
  the string and its terminator, and \<^verbatim>\<open>strcat\<close> with the concatenation; no other byte
  changes. \<^verbatim>\<open>stpcpy\<close> returns the address of the new terminator.
\<close>

theorem string_copy_correct:
  assumes s: "cstring m s xs" and d: "cstring m d ys"
    and apart: "apart d (length ys + Suc (length xs)) s (Suc (length xs))"
  shows "\<exists>m' m''. strcpy m d s = Some (m', d) \<and> stpcpy m d s = Some (m', d + int (length xs))
    \<and> cstring m' d xs \<and> (\<forall>a. \<not> (d \<le> a \<and> a \<le> d + int (length xs)) \<longrightarrow> m' a = m a)
    \<and> strcat m d s = Some (m'', d) \<and> cstring m'' d (ys @ xs)
    \<and> (\<forall>a. \<not> (d + int (length ys) \<le> a \<and> a \<le> d + int (length (ys @ xs))) \<longrightarrow> m'' a = m a)"
proof -
  let ?m' = "copy_block m d s (Suc (length xs))"
  let ?e = "d + int (length ys)"
  let ?m'' = "copy_block m ?e s (Suc (length xs))"
  have a1: "apart d (Suc (length xs)) s (Suc (length xs))" and a2: "apart ?e (Suc (length xs)) s (Suc (length xs))"
    using apart by (auto simp: apart_def)
  note c1 = strcpy_loop_eq [OF s a1] and c2 = strcpy_loop_eq [OF s a2]
  have "cstring ?m'' d (ys @ xs)"
  proof (rule cstring_concat)
    show "0 \<notin> set ys" using cstring_0_notin [OF d] .
    show "?m'' (d + int i) = ys ! i" if "i < length ys" for i
      using cstring_nth [OF d, of i] that by (simp add: copy_block_def)
    show "cstring ?m'' ?e xs" using cstring_copy_block [OF s] .
  qed
  moreover have "strcat m d s = Some (?m'', d)" using skip_string_eq [OF d] c2 by (simp add: strcat_def)
  moreover have "strcpy m d s = Some (?m', d)" using c1 by (simp add: strcpy_def)
  moreover have "stpcpy m d s = Some (?m', d + int (length xs))"
    using stpcpy_loop_eq [OF s c1 a1] by (simp add: stpcpy_def)
  moreover have "cstring ?m' d xs" using cstring_copy_block [OF s] .
  moreover have "\<forall>a. \<not> (d \<le> a \<and> a \<le> d + int (length xs)) \<longrightarrow> ?m' a = m a"
    "\<forall>a. \<not> (?e \<le> a \<and> a \<le> d + int (length (ys @ xs))) \<longrightarrow> ?m'' a = m a"
    by (auto simp: copy_block_def)
  ultimately show ?thesis by blast
qed

theorem string_copy_correct_witness:
  "\<exists>m'. strcpy abab 200 100 = Some (m', 200) \<and> cstring m' 200 [97, 98, 97, 98]"
  using string_copy_correct [OF abab_cstring(1), of 200 "[]"] by (auto simp: apart_def abab_def)

lemma strncpy_loop_eq:
  assumes "cstring m s xs" "apart d n s (Suc (length xs))"
  shows "strncpy_loop m d s n =
    (\<lambda>a. if d \<le> a \<and> a < d + int n then (if a - d < int (length xs) then m (s + (a - d)) else 0) else m a,
     s + int (min n (length xs)))"
  using assms
proof (induction n arbitrary: m d s xs)
  case 0
  then show ?case by (auto intro!: ext)
next
  case (Suc n)
  define s' where "s' = (if m s \<noteq> 0 then s + 1 else s)"
  have "m d = m d" ..
  have c: "cstring (m(d := m s)) s' (tl xs)" and a: "apart (d + 1) n s' (Suc (length (tl xs)))"
    using Suc.prems by (cases xs; auto simp: apart_def s'_def)+
  have step: "strncpy_loop m d s (Suc n) = strncpy_loop (m(d := m s)) (d + 1) s' n"
    by (simp add: Let_def s'_def)
  show ?case unfolding step Suc.IH [OF c a]
    using Suc.prems by (cases xs) (auto intro!: ext simp: s'_def apart_def algebra_simps)
qed

lemma strncat_loop_eq:
  assumes "cstring m s xs" "apart d (Suc n) s (Suc (length xs))"
  shows "\<exists>m'. strncat_loop m d s n = (m', d + int (min n (length xs)))
    \<and> (\<forall>i<min n (length xs). m' (d + int i) = xs ! i)
    \<and> (\<forall>a. \<not> (d \<le> a \<and> a \<le> d + int (min n (length xs))) \<longrightarrow> m' a = m a)"
  using assms
proof (induction n arbitrary: m d s xs)
  case (Suc n)
  show ?case
  proof (cases xs)
    case Nil
    then have "strncat_loop m d s (Suc n) = (m(d := 0), d)" using Suc.prems by (simp add: Let_def)
    then show ?thesis using Nil
      by (intro exI [of _ "m(d := 0)"]) (simp add: fun_upd_def del: strncat_loop.simps)
  next
    case (Cons x ys)
    have "cstring (m(d := m s)) (s + 1) ys" "apart (d + 1) (Suc n) (s + 1) (Suc (length ys))"
      using Suc.prems Cons by (auto simp: apart_def)
    from Suc.IH [OF this] obtain m' where m':
      "strncat_loop (m(d := m s)) (d + 1) (s + 1) n = (m', d + 1 + int (min n (length ys)))"
      "\<forall>i<min n (length ys). m' (d + 1 + int i) = ys ! i"
      "\<forall>a. \<not> (d + 1 \<le> a \<and> a \<le> d + 1 + int (min n (length ys))) \<longrightarrow> m' a = (m(d := m s)) a" by blast
    have "strncat_loop m d s (Suc n) = (m', d + int (min (Suc n) (length xs)))"
      using m'(1) Cons Suc.prems(1) by (simp add: Let_def)
    moreover have "m' (d + int i) = xs ! i" if "i < min (Suc n) (length xs)" for i
    proof (cases i)
      case 0
      then show ?thesis using m'(3) Cons Suc.prems(1) by simp
    next
      case (Suc j)
      then show ?thesis using m'(2) [rule_format, of j] that Cons by (simp add: algebra_simps)
    qed
    moreover have "m' a = m a" if "\<not> (d \<le> a \<and> a \<le> d + int (min (Suc n) (length xs)))" for a
      using m'(3) [rule_format, of a] that Cons by auto
    ultimately show ?thesis by blast
  qed
qed simp

text \<open>
  C37. The bounded copies, from a terminated string. \<^verbatim>\<open>strncpy\<close> and \<^verbatim>\<open>stpncpy\<close>, into any buffer of
  \<open>n\<close> bytes that does not meet the source, write exactly \<open>n\<close> bytes, the string's characters padded
  with zeros (so no terminator where the string has at least \<open>n\<close> characters), and nothing else.
  \<^verbatim>\<open>strncat\<close>, to a terminated string whose end and the \<open>n + 1\<close> bytes from it do not meet the source,
  appends the first \<open>n\<close> characters at most, terminates the result, and writes nothing but these
  characters and the terminator.
\<close>

theorem bounded_copy_correct:
  assumes s: "cstring m s xs"
  shows "(apart d n s (Suc (length xs)) \<longrightarrow>
      (\<exists>m'. strncpy m d s n = (m', d) \<and> stpncpy m d s n = (m', d + int (min n (length xs)))
        \<and> (\<forall>i<n. m' (d + int i) = (if i < length xs then xs ! i else 0))
        \<and> (\<forall>a. \<not> (d \<le> a \<and> a < d + int n) \<longrightarrow> m' a = m a)))
    \<and> (cstring m d ys \<and> apart (d + int (length ys)) (Suc n) s (Suc (length xs)) \<longrightarrow>
      (\<exists>m'. strncat m d s n = Some (m', d) \<and> cstring m' d (ys @ take n xs)
        \<and> (\<forall>a. \<not> (d + int (length ys) \<le> a \<and> a \<le> d + int (length ys + min n (length xs))) \<longrightarrow> m' a = m a)))"
proof (intro conjI impI)
  assume a1: "apart d n s (Suc (length xs))"
  define m' where "m' = (\<lambda>a. if d \<le> a \<and> a < d + int n
    then (if a - d < int (length xs) then m (s + (a - d)) else 0) else m a)"
  note l = strncpy_loop_eq [OF s a1, folded m'_def]
  have "m' (d + int i) = (if i < length xs then xs ! i else 0)" if "i < n" for i
    using that cstring_nth [OF s, of i] by (simp add: m'_def)
  moreover have "m' a = m a" if "\<not> (d \<le> a \<and> a < d + int n)" for a using that by (simp only: m'_def if_False)
  ultimately show "\<exists>m'. strncpy m d s n = (m', d) \<and> stpncpy m d s n = (m', d + int (min n (length xs)))
      \<and> (\<forall>i<n. m' (d + int i) = (if i < length xs then xs ! i else 0))
      \<and> (\<forall>a. \<not> (d \<le> a \<and> a < d + int n) \<longrightarrow> m' a = m a)"
    using l by (auto simp: strncpy_def stpncpy_def)
next
  assume "cstring m d ys \<and> apart (d + int (length ys)) (Suc n) s (Suc (length xs))"
  then have d: "cstring m d ys" and a2: "apart (d + int (length ys)) (Suc n) s (Suc (length xs))" by simp_all
  obtain m'' where c: "strncat_loop m (d + int (length ys)) s n
      = (m'', d + int (length ys) + int (min n (length xs)))"
    "\<forall>i<min n (length xs). m'' (d + int (length ys) + int i) = xs ! i"
    "\<forall>a. \<not> (d + int (length ys) \<le> a \<and> a \<le> d + int (length ys) + int (min n (length xs))) \<longrightarrow> m'' a = m a"
    using strncat_loop_eq [OF s a2] by blast
  define e where "e = d + int (length ys) + int (min n (length xs))"
  have "cstring (m''(e := 0)) d (ys @ take n xs)"
  proof (rule cstring_concat)
    show "0 \<notin> set ys" using cstring_0_notin [OF d] .
    show "(m''(e := 0)) (d + int i) = ys ! i" if "i < length ys" for i
      using that c(3) cstring_nth [OF d, of i] by (simp add: e_def)
    have "cstring (m''(e := 0)) (d + int (length ys)) (take n xs @ [])"
    proof (rule cstring_concat)
      show "0 \<notin> set (take n xs)" using cstring_0_notin [OF s] by (meson in_set_takeD)
      show "(m''(e := 0)) (d + int (length ys) + int i) = take n xs ! i" if "i < length (take n xs)" for i
        using that c(2) by (auto simp: e_def)
    qed (simp add: e_def min.commute)
    then show "cstring (m''(e := 0)) (d + int (length ys)) (take n xs)" by simp
  qed
  moreover have "strncat m d s n = Some (m''(e := 0), d)"
    using c(1) skip_string_eq [OF d] by (simp add: strncat_def e_def)
  moreover have "\<forall>a. \<not> (d + int (length ys) \<le> a \<and> a \<le> d + int (length ys + min n (length xs)))
      \<longrightarrow> (m''(e := 0)) a = m a"
    using c(3) by (auto simp: e_def)
  ultimately show "\<exists>m'. strncat m d s n = Some (m', d) \<and> cstring m' d (ys @ take n xs)
      \<and> (\<forall>a. \<not> (d + int (length ys) \<le> a \<and> a \<le> d + int (length ys + min n (length xs))) \<longrightarrow> m' a = m a)"
    by blast
qed

theorem bounded_copy_correct_witness:
  "\<exists>m' m''. strncpy abab 200 100 2 = (m', 200) \<and> m' 201 = 98 \<and> strncat abab 200 100 2 = Some (m'', 200)
    \<and> cstring m'' 200 [97, 98] \<and> m'' 203 = abab 203"
proof -
  have a: "apart 200 2 100 (Suc (length [97, 98, 97, 98 :: u8]))"
    "apart (200 + int (length ([] :: u8 list))) (Suc 2) 100 (Suc (length [97, 98, 97, 98 :: u8]))"
    "cstring abab 200 []" by (simp_all add: apart_def abab_def)
  note b = bounded_copy_correct [OF abab_cstring(1), of 200 2 "[]"]
  from b a(1) obtain m' where "strncpy abab 200 100 2 = (m', 200)"
    "\<forall>i<2. m' (200 + int i) = (if i < 4 then [97, 98, 97, 98] ! i else 0)" by auto
  moreover from this(2) have "m' 201 = 98" by (drule_tac spec [of _ 1]) simp
  moreover from b a(2,3) obtain m'' where "strncat abab 200 100 2 = Some (m'', 200)" "cstring m'' 200 [97, 98]"
    "m'' 203 = abab 203" by auto
  ultimately show ?thesis by blast
qed

section \<open>Case-insensitive comparison\<close>

definition ascii_upper :: "int \<Rightarrow> bool" where
  "ascii_upper c \<longleftrightarrow> 65 \<le> c \<and> c \<le> 90"

text \<open>
  \<^verbatim>\<open>__local_tolower\<close> maps the upper-case letters to lower case and leaves everything from
  \<open>[\<close> on alone, but it also changes characters below \<open>A\<close>: the comparison with 26 is
  signed. In particular \<^verbatim>\<open>@\<close> becomes a backquote and the terminator becomes a space, so that
  \<^verbatim>\<open>strcasecmp\<close> finds the empty string equal to one space.
\<close>

theorem local_tolower_behaviour:
  "(\<forall>c. ascii_upper c \<longrightarrow> local_tolower c = c + 32) \<and> (\<forall>c>90. local_tolower c = c)
    \<and> local_tolower 64 = 96 \<and> local_tolower 0 = 32 \<and> local_tolower 10 = local_tolower 42
    \<and> strcasecmp (\<lambda>a. if a = 100 then 32 else 0) 100 101 = Some 0"
proof -
  have "c OR 32 = c + 32" if "ascii_upper c" for c
  proof -
    have "c = 65 \<or> c = 66 \<or> c = 67 \<or> c = 68 \<or> c = 69 \<or> c = 70 \<or> c = 71 \<or> c = 72 \<or> c = 73 \<or> c = 74
      \<or> c = 75 \<or> c = 76 \<or> c = 77 \<or> c = 78 \<or> c = 79 \<or> c = 80 \<or> c = 81 \<or> c = 82 \<or> c = 83 \<or> c = 84
      \<or> c = 85 \<or> c = 86 \<or> c = 87 \<or> c = 88 \<or> c = 89 \<or> c = 90" using that unfolding ascii_upper_def by arith
    then show ?thesis by (elim disjE) simp_all
  qed
  moreover have "strcasecmp (\<lambda>a. if a = 100 then 32 else 0) 100 101 = Some 0"
    by (subst strcasecmp.simps) (simp add: local_tolower_def)
  ultimately show ?thesis by (auto simp: local_tolower_def ascii_upper_def)
qed

section \<open>Tokens\<close>

lemma strsep_exhausted: "cstring m s xs \<Longrightarrow> m r = 0 \<Longrightarrow> strsep_loop m s r = Some (m, NULL)"
proof (induction xs arbitrary: s)
  case (Cons x xs)
  have "span_inner m s r = Some (False, r)" using Cons.prems(2) by (subst span_inner.simps) simp
  then show ?case using Cons.IH [of "s + 1"] Cons.prems by (subst strsep_loop.simps) auto
qed (subst strsep_loop.simps, simp)

lemma strsep_loop_eq:
  assumes "cstring m s xs" "cstring m r rs"
  shows "strsep_loop m s r = Some (if xs \<noteq> [] \<and> hd xs \<in> set rs then (m(s := 0), s + 1) else (m, NULL))"
proof (cases xs)
  case Nil
  then show ?thesis using assms(1) by (subst strsep_loop.simps) simp
next
  case (Cons x ys)
  obtain q where q: "span_inner m s r = Some (m s \<in> set rs, q)" "m s \<notin> set rs \<longrightarrow> q = r + int (length rs)"
    using span_inner_eq [OF assms(2)] by blast
  have "m (r + int (length rs)) = 0" using cstring_end [OF assms(2)] by simp
  then show ?thesis using Cons assms(1) q strsep_exhausted [of m "s + 1" ys q]
    by (subst strsep_loop.simps) auto
qed

text \<open>
  C38. Because of the same fault the tokenisers do not split: \<^verbatim>\<open>strsep\<close> cuts only at a
  delimiter in first position and otherwise returns the whole rest; \<^verbatim>\<open>strtok_r\<close> (and
  \<^verbatim>\<open>strtok\<close>), having skipped the leading delimiters, always returns all of what remains,
  without cutting it, and leaves no next start.
\<close>

theorem tokenisers_do_not_split:
  assumes s: "cstring m s xs" and r: "cstring m r rs" and "s \<noteq> NULL"
  defines "k \<equiv> length (takeWhile (\<lambda>x. x \<in> set rs) xs)"
  shows "strsep m s r = Some (if xs \<noteq> [] \<and> hd xs \<in> set rs then (m(s := 0), s + 1, s) else (m, NULL, s))
    \<and> strtok_r m s r p = Some (m, NULL, if k < length xs then s + int k else NULL)
    \<and> strtok m s r p = strtok_r m s r p"
proof -
  have k: "strspn m s r = Some k" using strspn_loop_eq [OF s r] by (simp add: strspn_def k_def)
  define ys where "ys = dropWhile (\<lambda>x. x \<in> set rs) xs"
  have xs: "xs = takeWhile (\<lambda>x. x \<in> set rs) xs @ ys" by (simp add: ys_def)
  then have len: "length xs = k + length ys" by (metis k_def length_append)
  have c: "cstring m (s + int k) ys" using cstring_append [of m s "takeWhile (\<lambda>x. x \<in> set rs) xs" ys] s xs
    by (simp add: k_def)
  have hd: "ys \<noteq> [] \<Longrightarrow> hd ys \<notin> set rs" unfolding ys_def by (rule hd_dropWhile)
  have "m (s + int k) = 0 \<longleftrightarrow> ys = []" using c by (cases ys) auto
  then have "strtok_r m s r p = Some (m, NULL, if k < length xs then s + int k else NULL)"
    using k strpbrk_eq [OF c r] hd len assms(3) by (simp add: strtok_r_def)
  then show ?thesis using strsep_loop_eq [OF s r] assms(3) by (simp add: strsep_def strtok_def)
qed

theorem tokenisers_do_not_split_witness:
  "strtok_r abab 100 103 0 = Some (abab, NULL, 100)"
  using tokenisers_do_not_split [OF abab_cstring(1,3), of 0] by simp

section \<open>Duplication\<close>

text \<open>
  What the duplicating functions rely on: in a consistent heap a non-null block lies outside
  the memory in use.
\<close>

locale allocator =
  fixes malloc :: "'h \<Rightarrow> nat \<Rightarrow> addr \<times> 'h"
    and consistent :: "'h \<Rightarrow> bool"
    and in_use :: "'h \<Rightarrow> addr set"
  assumes malloc_fresh: "consistent h \<Longrightarrow> n < 2 ^ 63 \<Longrightarrow> malloc h n = (d, h') \<Longrightarrow> d \<noteq> NULL \<Longrightarrow> i < n \<Longrightarrow>
      d + int i \<notin> in_use h"
begin

lemma strdup_copies:
  assumes h: "consistent h" and s: "cstring m s xs" and l: "{s..s + int (length xs)} \<subseteq> in_use h"
    and n: "Suc (length xs) < 2 ^ 63" and d: "malloc h (Suc (length xs)) = (d, h')" "d \<noteq> NULL"
  shows "strdup malloc h m s = Some (h', copy_block m d s (Suc (length xs)), d)"
    and "cstring (copy_block m d s (Suc (length xs))) d xs"
    and "\<forall>a \<in> in_use h. copy_block m d s (Suc (length xs)) a = m a"
proof -
  note fresh = malloc_fresh [OF h n d]
  have "\<not> (s < d \<and> d < s + int (Suc (length xs)))" using fresh [of 0] subsetD [OF l, of d] by auto
  note c = local_memcpy_loop_eq [OF this, of m]
  have "nat (s + int (length xs) - s + 1) = Suc (length xs)" by simp
  then show "strdup malloc h m s = Some (h', copy_block m d s (Suc (length xs)), d)"
    using d c strlen_loop_eq [OF s]
    by (simp only: strdup_def option.case Let_def prod.case if_False memcpy_def local_memcpy_def)
  show "cstring (copy_block m d s (Suc (length xs))) d xs" by (rule cstring_copy_block [OF s])
  show "\<forall>a \<in> in_use h. copy_block m d s (Suc (length xs)) a = m a"
  proof
    fix a assume a: "a \<in> in_use h"
    have "a \<noteq> d + int i" if "i < Suc (length xs)" for i using fresh [OF that] a by auto
    then have "\<not> (nat (a - d) < Suc (length xs) \<and> a = d + int (nat (a - d)))" by blast
    then have "\<not> (d \<le> a \<and> a < d + int (Suc (length xs)))" by arith
    then show "copy_block m d s (Suc (length xs)) a = m a" by (simp only: copy_block_def if_False)
  qed
qed

lemma strdup_null: "cstring m s xs \<Longrightarrow> malloc h (Suc (length xs)) = (NULL, h') \<Longrightarrow> strdup malloc h m s = Some (h', m, NULL)"
proof -
  assume a: "cstring m s xs" "malloc h (Suc (length xs)) = (NULL, h')"
  have "nat (s + int (length xs) - s + 1) = Suc (length xs)" by simp
  then show ?thesis using a strlen_loop_eq [OF a(1)] by (simp add: strdup_def)
qed

end

end
