(* ===== verification/MemMgr.thy ===== *)
theory MemMgr
  imports CString BitMacros
begin

text \<open>
  The allocator \<^verbatim>\<open>etc/libbambu/memmgr.c\<close>: a circular free list, sorted by address, over a
  static pool. Addresses are in bytes; a header takes \<^verbatim>\<open>sizeof(SAMM_header_t)\<close> = 16 bytes and
  block sizes are counted in headers (quanta), for a 64-bit \<^verbatim>\<open>size_t\<close>. The addresses of
  \<^verbatim>\<open>base\<close> and \<^verbatim>\<open>SAMM_pool\<close>, which the linker chooses, are fields of the state that no
  operation changes. The \<^verbatim>\<open>next\<close> and \<^verbatim>\<open>size\<close> fields of all headers are the maps \<open>nextp\<close> and
  \<open>sizep\<close>. \<^verbatim>\<open>size_t\<close> values are natural numbers, and where an operation on them can wrap
  around, the reduction modulo \<open>2\<^sup>6\<^sup>4\<close> is written out.
\<close>

section \<open>The program\<close>

definition POOL_SIZE :: nat where
  "POOL_SIZE = 384 * 1024"

definition MIN_POOL_ALLOC_QUANTAS :: nat where
  "MIN_POOL_ALLOC_QUANTAS = 16"

record samm =
  base :: addr
  SAMM_pool :: addr
  freep :: addr
  SAMM_pool_free_pos :: nat
  nextp :: "addr \<Rightarrow> addr"
  sizep :: "addr \<Rightarrow> nat"

abbreviation hplus :: "addr \<Rightarrow> nat \<Rightarrow> addr" where
  "hplus p k \<equiv> p + 16 * int k"

definition size_add :: "nat \<Rightarrow> nat \<Rightarrow> nat" where
  "size_add a b = (a + b) mod 2 ^ 64"

definition size_mul :: "nat \<Rightarrow> nat \<Rightarrow> nat" where
  "size_mul a b = a * b mod 2 ^ 64"

text \<open>The search of \<^verbatim>\<open>free\<close> for the place of \<open>block\<close> in the list.\<close>

definition free_stop :: "samm \<Rightarrow> addr \<Rightarrow> addr \<Rightarrow> bool" where
  "free_stop h block p \<longleftrightarrow>
     (block > p \<and> block < nextp h p)
     \<or> (p \<ge> nextp h p \<and> (block > p \<or> block < nextp h p))"

partial_function (option) free_search :: "samm \<Rightarrow> addr \<Rightarrow> addr \<Rightarrow> addr option" where
  "free_search h block p =
     (if free_stop h block p then Some p else free_search h block (nextp h p))"

text \<open>The two attempts to combine the block with its neighbours, after the search.\<close>

definition free_insert :: "samm \<Rightarrow> addr \<Rightarrow> addr \<Rightarrow> samm" where
  "free_insert h block p =
    (let h = (if hplus block (sizep h block) = nextp h p
              then (let nx = nextp h p
                    in h\<lparr>sizep := (sizep h)(block := size_add (sizep h block) (sizep h nx)),
                         nextp := (nextp h)(block := nextp h nx)\<rparr>)
              else h\<lparr>nextp := (nextp h)(block := nextp h p)\<rparr>);
         h = (if hplus p (sizep h p) = block
              then h\<lparr>sizep := (sizep h)(p := size_add (sizep h p) (sizep h block)),
                     nextp := (nextp h)(p := nextp h block)\<rparr>
              else h\<lparr>nextp := (nextp h)(p := block)\<rparr>)
     in h\<lparr>freep := p\<rparr>)"

definition free :: "samm \<Rightarrow> addr \<Rightarrow> samm option" where
  "free h ap =
    (if ap = NULL then Some h
     else (let block = ap - 16
           in case free_search h block (freep h) of None \<Rightarrow> None
              | Some p \<Rightarrow> Some (free_insert h block p)))"

definition hide_get_mem_from_pool :: "samm \<Rightarrow> nat \<Rightarrow> (samm \<times> addr) option" where
  "hide_get_mem_from_pool h nquantas =
    (let nquantas = (if nquantas < MIN_POOL_ALLOC_QUANTAS then MIN_POOL_ALLOC_QUANTAS else nquantas);
         total_req_size = size_mul nquantas 16
     in if size_add (SAMM_pool_free_pos h) total_req_size \<le> POOL_SIZE then
          (let hd = SAMM_pool h + int (SAMM_pool_free_pos h);
               h = h\<lparr>sizep := (sizep h)(hd := nquantas)\<rparr>
           in case free h (hplus hd 1) of None \<Rightarrow> None
              | Some h \<Rightarrow>
                 (let h = h\<lparr>SAMM_pool_free_pos := size_add (SAMM_pool_free_pos h) total_req_size\<rparr>
                  in Some (h, freep h)))
        else Some (h, NULL))"

text \<open>The block \<open>p\<close> is big enough: unlink it or cut off its tail.\<close>

definition malloc_take :: "samm \<Rightarrow> nat \<Rightarrow> addr \<Rightarrow> addr \<Rightarrow> samm \<times> addr" where
  "malloc_take h nquantas prevp p =
    (let (h, p) =
       (if sizep h p = nquantas then (h\<lparr>nextp := (nextp h)(prevp := nextp h p)\<rparr>, p)
        else (let h = h\<lparr>sizep := (sizep h)(p := sizep h p - nquantas)\<rparr>;
                  p = hplus p (sizep h p);
                  h = h\<lparr>sizep := (sizep h)(p := nquantas)\<rparr>
              in (h, p)))
     in (h\<lparr>freep := prevp\<rparr>, hplus p 1))"

partial_function (option) malloc_loop :: "samm \<Rightarrow> nat \<Rightarrow> addr \<Rightarrow> addr \<Rightarrow> (samm \<times> addr) option" where
  "malloc_loop h nquantas prevp p =
    (if sizep h p \<ge> nquantas then Some (malloc_take h nquantas prevp p)
     else if p = freep h then
       (case hide_get_mem_from_pool h nquantas of None \<Rightarrow> None
        | Some r \<Rightarrow> (if snd r = NULL then Some (fst r, NULL)
                     else malloc_loop (fst r) nquantas (snd r) (nextp (fst r) (snd r))))
     else malloc_loop h nquantas p (nextp h p))"

definition quantas :: "nat \<Rightarrow> nat" where
  "quantas nbytes = (nbytes + 16 - 1) mod 2 ^ 64 div 16 + 1"

definition malloc :: "samm \<Rightarrow> nat \<Rightarrow> (samm \<times> addr) option" where
  "malloc h nbytes =
    (let nquantas = quantas nbytes;
         prevp = freep h;
         (h, prevp) =
           (if prevp = NULL
            then (h\<lparr>nextp := (nextp h)(base h := base h), freep := base h,
                    sizep := (sizep h)(base h := 0)\<rparr>, base h)
            else (h, prevp))
     in malloc_loop h nquantas prevp (nextp h prevp))"

text \<open>\<^verbatim>\<open>memalign\<close>: the address is cut to 32 bits before it is rounded up.\<close>

definition align_up :: "addr \<Rightarrow> nat \<Rightarrow> addr" where
  "align_up mem align =
     uint ((ucast (word_of_int mem :: u32) + of_nat align - 1 :: u64) AND - of_nat align)"

definition memalign :: "samm \<Rightarrow> nat \<Rightarrow> nat \<Rightarrow> (samm \<times> addr) option" where
  "memalign h align len =
    (if (of_nat align AND - of_nat align :: u64) \<noteq> of_nat align then Some (h, NULL)
     else if align \<le> 16 then
       (case malloc h len of None \<Rightarrow> None
        | Some (h, mem) \<Rightarrow> (if mem = NULL then Some (h, NULL) else Some (h, mem)))
     else
       (case malloc h ((len + align - 1) mod 2 ^ 64) of None \<Rightarrow> None
        | Some (h, mem) \<Rightarrow>
           (if mem = NULL then Some (h, NULL)
            else (let new = align_up mem align
                  in if new = mem then Some (h, mem)
                     else (let mem_block = mem - 16; new_block = new - 16;
                               h = h\<lparr>sizep := (sizep h)(new_block := len)\<rparr>;
                               h = h\<lparr>sizep := (sizep h)(mem_block := nat ((new - mem) mod 2 ^ 64))\<rparr>
                           in case free h mem of None \<Rightarrow> None | Some h \<Rightarrow> Some (h, new))))))"

definition alloca_with_align :: "samm \<Rightarrow> nat \<Rightarrow> nat \<Rightarrow> (samm \<times> addr) option" where
  "alloca_with_align h len align = memalign h align len"

text \<open>\<^verbatim>\<open>calloc\<close>: the operands are cut to the bits of the pool size before they are multiplied.\<close>

definition calloc_size :: "nat \<Rightarrow> nat \<Rightarrow> nat option" where
  "calloc_size nmemb sz =
    (let bitsize = 32 - unat (count_leading_zero_macro 32 (of_nat POOL_SIZE));
         dsize = (nmemb mod 2 ^ bitsize) * (sz mod 2 ^ bitsize) mod 2 ^ 64;
         totsize = dsize mod 2 ^ 32;
         upsize = dsize div 2 ^ bitsize mod 2 ^ bitsize
     in if nmemb \<noteq> 0 \<and> upsize \<noteq> 0 then None else Some totsize)"

definition calloc :: "samm \<Rightarrow> mem \<Rightarrow> nat \<Rightarrow> nat \<Rightarrow> (samm \<times> mem \<times> addr) option" where
  "calloc h m nmemb sz =
    (case calloc_size nmemb sz of None \<Rightarrow> Some (h, m, NULL)
     | Some totsize \<Rightarrow>
        (case malloc h totsize of None \<Rightarrow> None
         | Some (h, mem) \<Rightarrow>
            (if mem = NULL then Some (h, m, NULL)
             else Some (h, fst (memset m mem 0 totsize), mem))))"


section \<open>Rings\<close>

text \<open>
  The circular free list, as the set of its nodes: \<open>btw p x q\<close> says that \<open>x\<close> is met strictly
  after \<open>p\<close> and before \<open>q\<close> when addresses are walked upwards and around; in a ring no node
  lies between a node and its successor. The test of \<^verbatim>\<open>free\<close> is exactly \<open>btw\<close>.
\<close>

definition btw :: "addr \<Rightarrow> addr \<Rightarrow> addr \<Rightarrow> bool" where
  "btw p x q \<longleftrightarrow> p < x \<and> x < q \<or> q \<le> p \<and> (p < x \<or> x < q)"

definition ring :: "(addr \<Rightarrow> addr) \<Rightarrow> addr set \<Rightarrow> bool" where
  "ring nx F \<longleftrightarrow> finite F \<and> F \<noteq> {} \<and> (\<forall>p\<in>F. nx p \<in> F \<and> (\<forall>x\<in>F. \<not> btw p x (nx p)))"

lemma free_stop_btw: "free_stop h block p \<longleftrightarrow> btw p block (nextp h p)"
  by (auto simp: free_stop_def btw_def)

lemma ring_closed: "ring nx F \<Longrightarrow> p \<in> F \<Longrightarrow> nx p \<in> F"
  and ring_free: "ring nx F \<Longrightarrow> p \<in> F \<Longrightarrow> x \<in> F \<Longrightarrow> \<not> btw p x (nx p)"
  and ring_finite: "ring nx F \<Longrightarrow> finite F"
  by (simp_all add: ring_def)

lemma ring_singleton: "ring nx {p} \<longleftrightarrow> nx p = p"
  by (auto simp: ring_def btw_def)

lemma ring_self: "ring nx F \<Longrightarrow> p \<in> F \<Longrightarrow> nx p = p \<Longrightarrow> F = {p}"
  using ring_free by (fastforce simp: btw_def)

lemma ring_inj:
  assumes "ring nx F" "p \<in> F" "q \<in> F" "nx p = nx q"
  shows "p = q"
  using ring_free [OF assms(1,2,3)] ring_free [OF assms(1,3,2)] assms(4) by (auto simp: btw_def)

lemma ring_gap:
  assumes r: "ring nx F" and b: "b \<notin> F"
  shows "\<exists>p\<in>F. btw p b (nx p)"
proof (cases "\<exists>x\<in>F. x < b")
  case True
  define p where "p = Max {x \<in> F. x < b}"
  have f: "finite {x \<in> F. x < b}" "{x \<in> F. x < b} \<noteq> {}" using ring_finite [OF r] True by auto
  have p: "p \<in> F" "p < b" using Max_in [OF f] by (auto simp: p_def)
  have "nx p < b \<Longrightarrow> nx p \<le> p" using Max_ge [OF f(1)] ring_closed [OF r p(1)] by (auto simp: p_def)
  moreover have "nx p \<noteq> b" using ring_closed [OF r p(1)] b by auto
  ultimately have "btw p b (nx p)" using p(2) unfolding btw_def by linarith
  then show ?thesis using p by blast
next
  case False
  define p where "p = Max F"
  have p: "p \<in> F" using r by (auto simp: p_def ring_def)
  have "nx p \<le> p" using r ring_closed [OF r p] by (auto simp: p_def ring_def)
  moreover have "b < nx p" using False b ring_closed [OF r p] by (metis linorder_neqE)
  ultimately show ?thesis using p by (auto simp: btw_def)
qed

lemma ring_reach_up:
  assumes r: "ring nx F"
  shows "p \<in> F \<Longrightarrow> t \<in> F \<Longrightarrow> p \<le> t \<Longrightarrow> \<exists>k. (nx ^^ k) p = t"
proof (induction "card {x \<in> F. p < x}" arbitrary: p rule: less_induct)
  case less
  show ?case
  proof (cases "p = t")
    case True
    then show ?thesis by (intro exI [of _ 0]) simp
  next
    case False
    have n: "p < nx p" "nx p \<le> t" using ring_free [OF r less.prems(1,2)] False less.prems by (auto simp: btw_def)
    have "{x \<in> F. nx p < x} \<subset> {x \<in> F. p < x}" using n ring_closed [OF r less.prems(1)] by auto
    then have "card {x \<in> F. nx p < x} < card {x \<in> F. p < x}" using ring_finite [OF r] by (simp add: psubset_card_mono)
    from less.hyps [OF this ring_closed [OF r less.prems(1)] less.prems(2) n(2)]
    obtain k where "(nx ^^ k) (nx p) = t" by blast
    then show ?thesis by (intro exI [of _ "Suc k"]) (simp add: funpow_swap1)
  qed
qed

lemma ring_reach:
  assumes r: "ring nx F" and p: "p \<in> F" and t: "t \<in> F"
  shows "\<exists>k. (nx ^^ k) p = t"
proof -
  define z where "z = Max F"
  have z: "z \<in> F" "p \<le> z" "nx z \<le> z" using r p ring_closed [OF r] by (auto simp: z_def ring_def)
  have "nx z \<le> t" using ring_free [OF r z(1) t] z(3) by (auto simp: btw_def)
  then obtain i j where "(nx ^^ i) p = z" "(nx ^^ j) (nx z) = t"
    using ring_reach_up [OF r p z(1,2)] ring_reach_up [OF r ring_closed [OF r z(1)] t] by blast
  then have "(nx ^^ (j + Suc i)) p = t" by (simp only: funpow_add funpow.simps o_apply)
  then show ?thesis by blast
qed

text \<open>A set that the successor function does not leave holds every node.\<close>

lemma ring_closed_set:
  assumes r: "ring nx F" and a: "a \<in> F" "a \<in> S" and s: "\<And>x. x \<in> S \<Longrightarrow> nx x \<in> S"
  shows "F \<subseteq> S"
proof
  fix t assume "t \<in> F"
  then obtain k where "(nx ^^ k) a = t" using ring_reach [OF r a(1)] by blast
  moreover have "(nx ^^ k) a \<in> S" for k by (induction k) (auto simp: a s)
  ultimately show "t \<in> S" by blast
qed

lemma btw_before: "btw p b w \<Longrightarrow> x = b \<or> \<not> btw p x w \<Longrightarrow> \<not> btw p x b"
  by (auto simp: btw_def)

lemma btw_after: "btw p b w \<Longrightarrow> x = b \<or> \<not> btw p x w \<Longrightarrow> \<not> btw b x w"
  by (auto simp: btw_def)

lemma btw_unique: "btw p b w \<Longrightarrow> \<not> btw p q w \<Longrightarrow> \<not> btw q p v \<Longrightarrow> \<not> btw p v w \<Longrightarrow> \<not> btw q w v \<Longrightarrow> q \<noteq> p
    \<Longrightarrow> \<not> btw q b v"
  unfolding btw_def by linarith

lemma ring_insert:
  assumes r: "ring nx F" and p: "p \<in> F" and b: "btw p b (nx p)"
  shows "ring (nx(b := nx p, p := b)) (insert b F)"
proof -
  have nb: "b \<notin> F" using ring_free [OF r p] b by blast
  have 1: "\<not> btw p x b" if "x \<in> insert b F" for x
    using that ring_free [OF r p, of x] b btw_before by blast
  have 2: "\<not> btw b x (nx p)" if "x \<in> insert b F" for x
    using that ring_free [OF r p, of x] b btw_after by blast
  have 3: "\<not> btw q b (nx q)" if "q \<in> F" "q \<noteq> p" for q
    using that ring_free [OF r p that(1)] ring_free [OF r that(1) p] b
      ring_free [OF r p ring_closed [OF r that(1)]] ring_free [OF r that(1) ring_closed [OF r p]]
    btw_unique by blast
  show ?thesis using r p nb 1 2 3 by (auto simp: ring_def)
qed

lemma btw_step: "\<not> btw p x w \<Longrightarrow> \<not> btw w x v \<Longrightarrow> \<not> btw p v w \<Longrightarrow> x \<noteq> w \<Longrightarrow> \<not> btw p x v"
  by (auto simp: btw_def)

lemma btw_extend: "btw p b w \<Longrightarrow> \<not> btw p v w \<Longrightarrow> \<not> btw w p v \<Longrightarrow> w \<noteq> p \<Longrightarrow> btw p b v"
  by (auto simp: btw_def)

lemma ring_unlink:
  assumes r: "ring nx F" and p: "p \<in> F" "nx p \<noteq> p"
  shows "ring (nx(p := nx (nx p))) (F - {nx p})"
proof -
  have w: "nx p \<in> F" using ring_closed [OF r p(1)] .
  have 1: "nx (nx p) \<noteq> nx p" using ring_self [OF r w] p by auto
  have 2: "\<not> btw p x (nx (nx p))" if "x \<in> F" "x \<noteq> nx p" for x
    using btw_step ring_free [OF r p(1) that(1)] ring_free [OF r w that(1)] ring_free [OF r p(1) ring_closed [OF r w]] that
    by blast
  have 3: "nx q \<noteq> nx p" if "q \<in> F" "q \<noteq> p" for q using ring_inj [OF r that(1) p(1)] that by auto
  show ?thesis unfolding ring_def
  proof (intro conjI ballI)
    show "finite (F - {nx p})" "F - {nx p} \<noteq> {}" using ring_finite [OF r] p by auto
    fix q assume q: "q \<in> F - {nx p}"
    then have "nx q \<in> F" "nx (nx p) \<in> F" using ring_closed [OF r] w by auto
    then show "(nx(p := nx (nx p))) q \<in> F - {nx p}" using 1 3 [of q] q by simp
    fix x assume "x \<in> F - {nx p}"
    then show "\<not> btw q x ((nx(p := nx (nx p))) q)" using 2 [of x] ring_free [OF r, of q x] q by simp
  qed
qed

lemma btw_unlink:
  assumes r: "ring nx F" and p: "p \<in> F" "nx p \<noteq> p" and b: "btw p b (nx p)"
  shows "btw p b (nx (nx p))"
  using btw_extend [OF b] ring_free [OF r p(1) ring_closed [OF r ring_closed [OF r p(1)]]]
    ring_free [OF r ring_closed [OF r p(1)] p(1)] p by blast

section \<open>The heap invariant\<close>

text \<open>
  \<open>F\<close> is the set of the headers in the free list, \<open>L\<close> that of the allocated (live) blocks.
  Blocks lie in the first \<open>lim\<close> bytes of the pool and do not overlap; free blocks do not even
  touch, as neighbours are merged. Together they fill these bytes, on a grid of 16 bytes, so that none is
  lost. The degenerate block \<^verbatim>\<open>base\<close> lies outside the pool.
\<close>

abbreviation ends :: "(addr \<Rightarrow> nat) \<Rightarrow> addr \<Rightarrow> addr" where
  "ends s x \<equiv> hplus x (s x)"

definition layout :: "addr \<Rightarrow> addr \<Rightarrow> bool" where
  "layout B P \<longleftrightarrow> 0 < B \<and> 0 < P \<and> (B < P \<or> P + int POOL_SIZE < B)"

definition tiled :: "addr \<Rightarrow> addr \<Rightarrow> (addr \<Rightarrow> nat) \<Rightarrow> addr set \<Rightarrow> nat \<Rightarrow> bool" where
  "tiled B P s X lim \<longleftrightarrow> 16 dvd lim \<and> (\<forall>x\<in>X. x \<noteq> B \<longrightarrow> 16 dvd x - P)
     \<and> (\<forall>a. P \<le> a \<and> a < P + int lim \<longrightarrow> (\<exists>x\<in>X. x \<le> a \<and> a < ends s x))"

definition blocks :: "addr \<Rightarrow> addr \<Rightarrow> (addr \<Rightarrow> nat) \<Rightarrow> addr set \<Rightarrow> addr set \<Rightarrow> nat \<Rightarrow> bool" where
  "blocks B P s F L lim \<longleftrightarrow> layout B P \<and> B \<in> F \<and> s B = 0 \<and> F \<inter> L = {} \<and> lim \<le> POOL_SIZE
     \<and> (\<forall>x\<in>F \<union> L. x \<noteq> B \<longrightarrow> 1 \<le> s x \<and> P \<le> x \<and> ends s x \<le> P + int lim)
     \<and> (\<forall>x\<in>F \<union> L. \<forall>y\<in>F \<union> L. x < y \<longrightarrow> ends s x \<le> y)
     \<and> (\<forall>x\<in>F. \<forall>y\<in>F. x < y \<longrightarrow> ends s x \<noteq> y)
     \<and> tiled B P s (F \<union> L) lim"

definition heap_inv :: "samm \<Rightarrow> addr set \<Rightarrow> addr set \<Rightarrow> nat \<Rightarrow> bool" where
  "heap_inv h F L lim \<longleftrightarrow>
     ring (nextp h) F \<and> freep h \<in> F \<and> blocks (base h) (SAMM_pool h) (sizep h) F L lim"

lemma blocks_base: "blocks B P s F L lim \<Longrightarrow> B \<in> F" "blocks B P s F L lim \<Longrightarrow> s B = 0"
  "blocks B P s F L lim \<Longrightarrow> B \<notin> L"
  by (auto simp: blocks_def)

lemma blocks_lim: "blocks B P s F L lim \<Longrightarrow> lim \<le> POOL_SIZE"
  and blocks_layout: "blocks B P s F L lim \<Longrightarrow> layout B P"
  and blocks_disjoint: "blocks B P s F L lim \<Longrightarrow> x \<in> L \<Longrightarrow> x \<notin> F"
  by (auto simp: blocks_def)

lemma blocks_in:
  assumes "blocks B P s F L lim" "x \<in> F \<union> L" "x \<noteq> B"
  shows "1 \<le> s x" "P \<le> x" "ends s x \<le> P + int lim" "x < ends s x"
  using assms by (auto simp: blocks_def)

lemma blocks_pos: "blocks B P s F L lim \<Longrightarrow> x \<in> F \<union> L \<Longrightarrow> 0 < x"
  using blocks_in(2) [of B P s F L lim x] blocks_layout [of B P s F L lim] unfolding layout_def by fastforce

lemma blocks_apart: "blocks B P s F L lim \<Longrightarrow> x \<in> F \<union> L \<Longrightarrow> y \<in> F \<union> L \<Longrightarrow> x < y \<Longrightarrow> ends s x \<le> y"
  by (simp add: blocks_def)

lemma blocks_tiled: "blocks B P s F L lim \<Longrightarrow> tiled B P s (F \<union> L) lim"
  by (simp add: blocks_def)

text \<open>Blocks may be joined and split as long as every byte stays in some block.\<close>

lemma tiled_change:
  assumes t: "tiled B P s X lim" and g: "\<And>x. x \<in> Y \<Longrightarrow> x \<noteq> B \<Longrightarrow> x \<notin> X \<Longrightarrow> 16 dvd x - P"
    and c: "\<And>x a. x \<in> X \<Longrightarrow> x \<le> a \<Longrightarrow> a < ends s x \<Longrightarrow> \<exists>y\<in>Y. y \<le> a \<and> a < ends s' y"
  shows "tiled B P s' Y lim"
proof -
  have "\<exists>y\<in>Y. y \<le> a \<and> a < ends s' y" if "P \<le> a" "a < P + int lim" for a
    using t c that unfolding tiled_def by meson
  moreover have "16 dvd x - P" if "x \<in> Y" "x \<noteq> B" for x using t g that unfolding tiled_def by (cases "x \<in> X") auto
  ultimately show ?thesis using t unfolding tiled_def by blast
qed

lemma blocks_gap: "blocks B P s F L lim \<Longrightarrow> x \<in> F \<Longrightarrow> y \<in> F \<Longrightarrow> x < y \<Longrightarrow> ends s x \<noteq> y"
  by (simp add: blocks_def)

lemma base_outside:
  assumes "blocks B P s F L lim" "x \<in> F \<union> L" "x \<noteq> B"
  shows "B < x \<or> ends s x < B"
  using blocks_layout [OF assms(1)] blocks_in [OF assms] blocks_lim [OF assms(1)] by (auto simp: layout_def)

lemma size_bound:
  assumes "blocks B P s F L lim" "x \<in> F \<union> L"
  shows "s x \<le> POOL_SIZE"
  using blocks_in [OF assms] blocks_base(2) [OF assms(1)] blocks_lim [OF assms(1)] by (cases "x = B") auto

lemma size_add_exact: "a \<le> POOL_SIZE \<Longrightarrow> b \<le> POOL_SIZE \<Longrightarrow> size_add a b = a + b"
  by (simp add: size_add_def POOL_SIZE_def)

lemma ends_upd: "ends (s(x := k)) y = (if y = x then hplus x k else ends s y)"
  by simp

lemma blocksI:
  assumes "layout B P" "B \<in> F" "s B = 0" "F \<inter> L = {}" "lim \<le> POOL_SIZE"
    and "\<And>x. x \<in> F \<union> L \<Longrightarrow> x \<noteq> B \<Longrightarrow> 1 \<le> s x \<and> P \<le> x \<and> ends s x \<le> P + int lim"
    and "\<And>x y. x \<in> F \<union> L \<Longrightarrow> y \<in> F \<union> L \<Longrightarrow> x < y \<Longrightarrow> ends s x \<le> y"
    and "\<And>x y. x \<in> F \<Longrightarrow> y \<in> F \<Longrightarrow> x < y \<Longrightarrow> ends s x \<noteq> y"
    and "tiled B P s (F \<union> L) lim"
  shows "blocks B P s F L lim"
  using assms unfolding blocks_def by blast

text \<open>A live block takes over the free block above it.\<close>

lemma blocks_absorb_upper:
  assumes b: "blocks B P s F L lim" and x: "x \<in> L" and w: "w \<in> F" "ends s x = w"
  shows "w \<noteq> B" "blocks B P (s(x := s x + s w)) (F - {w}) L lim"
    "\<And>y. y \<in> F - {w} \<Longrightarrow> hplus x (s x + s w) \<noteq> y"
proof -
  have xb: "x \<noteq> B" using x blocks_base(3) [OF b] by auto
  show wb: "w \<noteq> B" using base_outside [OF b, of x] x xb w by auto
  have xw: "x < w" "x \<notin> F" using blocks_in(4) [OF b, of x] blocks_disjoint [OF b] x xb w by auto
  have e: "hplus x (s x + s w) = ends s w" using w(2) by (simp add: algebra_simps)
  show gap: "hplus x (s x + s w) \<noteq> y" if "y \<in> F - {w}" for y
    unfolding e using blocks_gap [OF b w(1), of y] blocks_in(4) [OF b, of w] w wb that by force
  have ap: "ends s w \<le> y" if "y \<in> (F - {w}) \<union> L" "x < y" for y
  proof -
    have "w \<le> y" "y \<noteq> w" using blocks_apart [OF b, of x y] blocks_disjoint [OF b] that x w by auto
    then show ?thesis using blocks_apart [OF b, of w y] that w by simp
  qed
  show "blocks B P (s(x := s x + s w)) (F - {w}) L lim"
  proof (rule blocksI)
    fix y assume y: "y \<in> F - {w} \<union> L" "y \<noteq> B"
    then show "1 \<le> (s(x := s x + s w)) y \<and> P \<le> y \<and> ends (s(x := s x + s w)) y \<le> P + int lim"
      using blocks_in [OF b, of y] blocks_in [OF b, of w] w wb unfolding ends_upd e by (cases "y = x") auto
  next
    fix y z assume yz: "y \<in> F - {w} \<union> L" "z \<in> F - {w} \<union> L" "y < z"
    then show "ends (s(x := s x + s w)) y \<le> z"
      using blocks_apart [OF b, of y z] ap [of z] unfolding ends_upd e by (cases "y = x") auto
  next
    fix y z assume "y \<in> F - {w}" "z \<in> F - {w}" "y < z"
    then show "ends (s(x := s x + s w)) y \<noteq> z"
      using blocks_gap [OF b, of y z] xw by auto
  next
    show "tiled B P (s(x := s x + s w)) (F - {w} \<union> L) lim"
    proof (rule tiled_change [OF blocks_tiled [OF b]])
      fix y a assume y: "y \<in> F \<union> L" "y \<le> a" "a < ends s y"
      have "x \<in> F - {w} \<union> L" "x \<le> a \<and> a < hplus x (s x + s w)" if "y = w \<or> y = x" using that y x xw(1) w(2) e by auto
      then show "\<exists>z\<in>F - {w} \<union> L. z \<le> a \<and> a < ends (s(x := s x + s w)) z"
        using y unfolding ends_upd by (cases "y = w \<or> y = x") (auto intro: bexI [of _ x] bexI [of _ y])
    qed auto
  qed (use blocks_layout [OF b] blocks_base [OF b] blocks_lim [OF b] blocks_disjoint [OF b] wb xb in auto)
qed

text \<open>A live block that touches no free block becomes free, or is taken over by the free block below it.\<close>

lemma blocks_release:
  assumes b: "blocks B P s F L lim" and x: "x \<in> L"
    and up: "\<And>y. y \<in> F \<Longrightarrow> ends s x \<noteq> y" and down: "\<And>y. y \<in> F \<Longrightarrow> y < x \<Longrightarrow> ends s y \<noteq> x"
  shows "blocks B P s (insert x F) (L - {x}) lim"
proof (rule blocksI)
  fix y z assume "y \<in> insert x F" "z \<in> insert x F" "y < z"
  then show "ends s y \<noteq> z" using blocks_gap [OF b, of y z] up down by auto
next
  fix y assume "y \<in> insert x F \<union> (L - {x})" "y \<noteq> B"
  then show "1 \<le> s y \<and> P \<le> y \<and> ends s y \<le> P + int lim" using blocks_in [OF b, of y] x by auto
next
  fix y z assume "y \<in> insert x F \<union> (L - {x})" "z \<in> insert x F \<union> (L - {x})" "y < z"
  then show "ends s y \<le> z" using blocks_apart [OF b, of y z] x by auto
next
  have "insert x F \<union> (L - {x}) = F \<union> L" using x by auto
  then show "tiled B P s (insert x F \<union> (L - {x})) lim" using blocks_tiled [OF b] by simp
qed (use blocks_layout [OF b] blocks_base [OF b] blocks_lim [OF b] blocks_disjoint [OF b] in auto)

lemma blocks_absorb_lower:
  assumes b: "blocks B P s F L lim" and x: "x \<in> L" and p: "p \<in> F" "ends s p = x"
    and up: "\<And>y. y \<in> F \<Longrightarrow> ends s x \<noteq> y"
  shows "blocks B P (s(p := s p + s x)) F (L - {x}) lim"
proof -
  have xb: "x \<noteq> B" using x blocks_base(3) [OF b] by auto
  have pb: "p \<noteq> B" using p xb blocks_base(2) [OF b] by auto
  have px: "p < x" using blocks_in(4) [OF b, of p] p pb by auto
  have e: "hplus p (s p + s x) = ends s x" using p(2) by (simp add: algebra_simps)
  have ap: "ends s x \<le> y" if "y \<in> F \<union> (L - {x})" "p < y" for y
  proof -
    have "x \<le> y" "y \<noteq> x" using blocks_apart [OF b, of p y] blocks_disjoint [OF b x] that p by auto
    then show ?thesis using blocks_apart [OF b, of x y] that x by simp
  qed
  show ?thesis
  proof (rule blocksI)
    fix y assume y: "y \<in> F \<union> (L - {x})" "y \<noteq> B"
    then show "1 \<le> (s(p := s p + s x)) y \<and> P \<le> y \<and> ends (s(p := s p + s x)) y \<le> P + int lim"
      using blocks_in [OF b, of y] blocks_in [OF b, of x] x xb unfolding ends_upd e by (cases "y = p") auto
  next
    fix y z assume "y \<in> F \<union> (L - {x})" "z \<in> F \<union> (L - {x})" "y < z"
    then show "ends (s(p := s p + s x)) y \<le> z"
      using blocks_apart [OF b, of y z] ap [of z] unfolding ends_upd e by (cases "y = p") auto
  next
    fix y z assume "y \<in> F" "z \<in> F" "y < z"
    then show "ends (s(p := s p + s x)) y \<noteq> z"
      using blocks_gap [OF b, of y z] up [of z] unfolding ends_upd e by (cases "y = p") auto
  next
    show "tiled B P (s(p := s p + s x)) (F \<union> (L - {x})) lim"
    proof (rule tiled_change [OF blocks_tiled [OF b]])
      fix y a assume y: "y \<in> F \<union> L" "y \<le> a" "a < ends s y"
      have "p \<le> a \<and> a < hplus p (s p + s x)" if "y = x \<or> y = p" using that y px p(2) e by auto
      then show "\<exists>z\<in>F \<union> (L - {x}). z \<le> a \<and> a < ends (s(p := s p + s x)) z"
        using y p(1) unfolding ends_upd by (cases "y = x \<or> y = p") (auto intro: bexI [of _ p] bexI [of _ y])
    qed auto
  qed (use blocks_layout [OF b] blocks_base [OF b] blocks_lim [OF b] blocks_disjoint [OF b] pb in auto)
qed

section \<open>Freeing\<close>

lemma free_search_ends:
  assumes r: "ring (nextp h) F" and t: "free_stop h b t"
  shows "q \<in> F \<Longrightarrow> (nextp h ^^ k) q = t \<Longrightarrow> \<exists>p\<in>F. free_search h b q = Some p \<and> free_stop h b p"
proof (induction k arbitrary: q)
  case 0
  then show ?case using t by (subst free_search.simps) auto
next
  case (Suc k)
  then have "\<exists>p\<in>F. free_search h b (nextp h q) = Some p \<and> free_stop h b p"
    using ring_closed [OF r] by (simp add: funpow_swap1)
  then show ?case using Suc.prems(1) by (subst free_search.simps) auto
qed

lemma free_search_total:
  assumes "ring (nextp h) F" "q \<in> F" "b \<notin> F"
  shows "\<exists>p\<in>F. free_search h b q = Some p \<and> btw p b (nextp h p)"
proof -
  obtain t where t: "t \<in> F" "free_stop h b t" using ring_gap [OF assms(1,3)] by (auto simp: free_stop_btw)
  obtain k where "(nextp h ^^ k) q = t" using ring_reach [OF assms(1,2) t(1)] by blast
  from free_search_ends [OF assms(1) t(2) assms(2) this] show ?thesis by (simp add: free_stop_btw)
qed

text \<open>The two halves of \<open>free_insert\<close>.\<close>

definition join_upper :: "samm \<Rightarrow> addr \<Rightarrow> addr \<Rightarrow> samm" where
  "join_upper h block p =
    (if hplus block (sizep h block) = nextp h p
     then h\<lparr>sizep := (sizep h)(block := size_add (sizep h block) (sizep h (nextp h p))),
            nextp := (nextp h)(block := nextp h (nextp h p))\<rparr>
     else h\<lparr>nextp := (nextp h)(block := nextp h p)\<rparr>)"

definition join_lower :: "samm \<Rightarrow> addr \<Rightarrow> addr \<Rightarrow> samm" where
  "join_lower h block p =
    (if hplus p (sizep h p) = block
     then h\<lparr>sizep := (sizep h)(p := size_add (sizep h p) (sizep h block)),
            nextp := (nextp h)(p := nextp h block), freep := p\<rparr>
     else h\<lparr>nextp := (nextp h)(p := block), freep := p\<rparr>)"

lemma free_insert_halves: "free_insert h block p = join_lower (join_upper h block p) block p"
  by (simp add: free_insert_def join_upper_def join_lower_def Let_def)

lemma join_upper_ok:
  assumes r: "ring (nextp h) F" and b: "blocks (base h) (SAMM_pool h) (sizep h) F L lim"
    and x: "x \<in> L" and p: "p \<in> F" "btw p x (nextp h p)"
  defines "g \<equiv> join_upper h x p"
  shows "\<exists>G. ring ((nextp g)(p := nextp g x)) G \<and> p \<in> G \<and> btw p x (nextp g x)
     \<and> blocks (base h) (SAMM_pool h) (sizep g) G L lim \<and> (\<forall>y\<in>G. ends (sizep g) x \<noteq> y)
     \<and> base g = base h \<and> SAMM_pool g = SAMM_pool h \<and> SAMM_pool_free_pos g = SAMM_pool_free_pos h
     \<and> sizep h x \<le> sizep g x \<and> (\<forall>y. y \<noteq> x \<longrightarrow> sizep g y = sizep h y)"
proof -
  have xF: "x \<notin> F" using blocks_disjoint [OF b x] .
  let ?w = "nextp h p"
  have w: "?w \<in> F" using ring_closed [OF r p(1)] .
  show ?thesis
  proof (cases "ends (sizep h) x = ?w")
    case True
    note a = blocks_absorb_upper [OF b x w True]
    have s: "size_add (sizep h x) (sizep h ?w) = sizep h x + sizep h ?w"
      using size_bound [OF b] x w by (intro size_add_exact) auto
    have wp: "?w \<noteq> p" using ring_self [OF r p(1)] blocks_base(1) [OF b] a(1) by auto
    have g: "g = h\<lparr>sizep := (sizep h)(x := sizep h x + sizep h ?w), nextp := (nextp h)(x := nextp h ?w)\<rparr>"
      using True by (simp add: g_def join_upper_def s)
    have n: "(nextp g)(p := nextp g x) = (nextp h)(p := nextp h ?w, x := nextp h ?w)"
      using p xF by (auto simp: g)
    have "ring ((nextp g)(p := nextp g x)) (F - {?w})"
      using ring_unlink [OF r p(1) wp] xF unfolding n by (auto simp: ring_def)
    moreover have "btw p x (nextp g x)" using btw_unlink [OF r p(1) wp p(2)] by (simp add: g)
    ultimately show ?thesis using a(2,3) p wp by (intro exI [of _ "F - {?w}"]) (auto simp: g)
  next
    case False
    have xw: "ends (sizep h) x \<noteq> y" if "y \<in> F" for y
    proof
      assume e: "ends (sizep h) x = y"
      have "x < y" using blocks_in(4) [OF b, of x] x e blocks_base(3) [OF b] by auto
      then have "\<not> ?w < y \<or> \<not> x < ?w" using blocks_apart [OF b, of x ?w] x w e by auto
      then show False using ring_free [OF r p(1) that] p(2) False e \<open>x < y\<close> by (auto simp: btw_def)
    qed
    have g: "g = h\<lparr>nextp := (nextp h)(x := ?w)\<rparr>" using False by (simp add: g_def join_upper_def)
    have "ring ((nextp g)(p := nextp g x)) F" using r xF p by (auto simp: g ring_def)
    then show ?thesis using p b xw by (intro exI [of _ F]) (auto simp: g)
  qed
qed

lemma join_lower_ok:
  assumes r: "ring ((nextp h)(p := nextp h x)) F" and b: "blocks (base h) (SAMM_pool h) (sizep h) F L lim"
    and x: "x \<in> L" and p: "p \<in> F" "btw p x (nextp h x)" and up: "\<forall>y\<in>F. ends (sizep h) x \<noteq> y"
  defines "g \<equiv> join_lower h x p"
  shows "\<exists>G. heap_inv g G (L - {x}) lim \<and> base g = base h \<and> SAMM_pool g = SAMM_pool h
     \<and> SAMM_pool_free_pos g = SAMM_pool_free_pos h
     \<and> (\<exists>y\<in>G. sizep h x \<le> sizep g y) \<and> (\<forall>y. y \<notin> F \<longrightarrow> sizep g y = sizep h y)"
proof (cases "ends (sizep h) p = x")
  case True
  have s: "size_add (sizep h p) (sizep h x) = sizep h p + sizep h x"
    using size_bound [OF b] x p by (intro size_add_exact) auto
  have g: "g = h\<lparr>sizep := (sizep h)(p := sizep h p + sizep h x), nextp := (nextp h)(p := nextp h x), freep := p\<rparr>"
    using True by (simp add: g_def join_lower_def s)
  show ?thesis using blocks_absorb_lower [OF b x p(1) True] up r p(1)
    by (intro exI [of _ F]) (auto simp: g heap_inv_def)
next
  case False
  have g: "g = h\<lparr>nextp := (nextp h)(p := x), freep := p\<rparr>" using False by (simp add: g_def join_lower_def)
  have xF: "x \<notin> F" using blocks_disjoint [OF b x] .
  have down: "ends (sizep h) y \<noteq> x" if "y \<in> F" "y < x" for y
  proof
    assume e: "ends (sizep h) y = x"
    have "\<not> (y < p \<and> p < x)" using blocks_apart [OF b, of y p] blocks_apart [OF b, of p x] p x e that
        blocks_in(4) [OF b, of y] blocks_base [OF b] by fastforce
    then show False using ring_free [OF r p(1) that(1)] p(2) False e that by (auto simp: btw_def)
  qed
  have "((nextp h)(p := nextp h x))(x := nextp h x, p := x) = nextp g" using p xF by (auto simp: g)
  then have "ring (nextp g) (insert x F)" using ring_insert [OF r p(1), of x] p(2) by simp
  then show ?thesis using blocks_release [OF b x] up down p
    by (intro exI [of _ "insert x F"]) (auto simp: g heap_inv_def)
qed

text \<open>\<^verbatim>\<open>free\<close> of a live block ends, keeps the invariant and the other live blocks.\<close>

lemma free_ok:
  assumes i: "heap_inv h F L lim" and x: "x \<in> L"
  shows "\<exists>g G. free h (hplus x 1) = Some g \<and> heap_inv g G (L - {x}) lim \<and> base g = base h
     \<and> SAMM_pool g = SAMM_pool h \<and> SAMM_pool_free_pos g = SAMM_pool_free_pos h
     \<and> (\<exists>y\<in>G. sizep h x \<le> sizep g y) \<and> (\<forall>y\<in>L - {x}. sizep g y = sizep h y)"
proof -
  have r: "ring (nextp h) F" and b: "blocks (base h) (SAMM_pool h) (sizep h) F L lim" and f: "freep h \<in> F"
    using i by (auto simp: heap_inv_def)
  have xF: "x \<notin> F" using blocks_disjoint [OF b x] .
  obtain p where p: "p \<in> F" "free_search h x (freep h) = Some p" "btw p x (nextp h p)"
    using free_search_total [OF r f xF] by blast
  have "0 < x" using blocks_pos [OF b] x by auto
  then have fr: "free h (hplus x 1) = Some (join_lower (join_upper h x p) x p)"
    using p(2) by (simp add: free_def free_insert_halves)
  let ?u = "join_upper h x p"
  obtain F1 where u: "ring ((nextp ?u)(p := nextp ?u x)) F1" "p \<in> F1" "btw p x (nextp ?u x)"
      "blocks (base h) (SAMM_pool h) (sizep ?u) F1 L lim" "\<forall>y\<in>F1. ends (sizep ?u) x \<noteq> y"
      "base ?u = base h" "SAMM_pool ?u = SAMM_pool h" "SAMM_pool_free_pos ?u = SAMM_pool_free_pos h"
      "sizep h x \<le> sizep ?u x" "\<forall>y. y \<noteq> x \<longrightarrow> sizep ?u y = sizep h y"
    using join_upper_ok [OF r b x p(1,3)] by blast
  have "blocks (base ?u) (SAMM_pool ?u) (sizep ?u) F1 L lim" using u by simp
  from join_lower_ok [OF u(1) this x u(2,3,5)]
  obtain G where g: "heap_inv (join_lower ?u x p) G (L - {x}) lim" "base (join_lower ?u x p) = base ?u"
      "SAMM_pool (join_lower ?u x p) = SAMM_pool ?u"
      "SAMM_pool_free_pos (join_lower ?u x p) = SAMM_pool_free_pos ?u"
      "\<exists>y\<in>G. sizep ?u x \<le> sizep (join_lower ?u x p) y"
      "\<forall>y. y \<notin> F1 \<longrightarrow> sizep (join_lower ?u x p) y = sizep ?u y"
    by blast
  have "sizep (join_lower ?u x p) y = sizep h y" if "y \<in> L - {x}" for y
    using g(6) u(10) blocks_disjoint [OF u(4)] that by auto
  moreover have "\<exists>y\<in>G. sizep h x \<le> sizep (join_lower ?u x p) y" using g(5) u(9) le_trans by blast
  ultimately show ?thesis using fr g(1-4) u(6-8) by auto
qed

section \<open>Allocating\<close>

lemma blocks_grow:
  assumes b: "blocks B P s F L lim" and k: "1 \<le> k" "lim + 16 * k \<le> POOL_SIZE"
  shows "blocks B P (s(P + int lim := k)) F (insert (P + int lim) L) (lim + 16 * k)"
    "P + int lim \<notin> F \<union> L"
proof -
  let ?x = "P + int lim"
  have xb: "?x \<noteq> B" using blocks_layout [OF b] blocks_lim [OF b] by (auto simp: layout_def)
  have below: "y < ?x \<and> ends s y \<le> ?x" if "y \<in> F \<union> L" "y \<noteq> B" for y using blocks_in [OF b that] by auto
  show x: "?x \<notin> F \<union> L" using below xb by blast
  have bb: "B < P \<or> P + int (lim + 16 * k) < B" using blocks_layout [OF b] k by (auto simp: layout_def)
  show "blocks B P (s(?x := k)) F (insert ?x L) (lim + 16 * k)"
  proof (rule blocksI)
    fix y assume "y \<in> F \<union> insert ?x L" "y \<noteq> B"
    then show "1 \<le> (s(?x := k)) y \<and> P \<le> y \<and> ends (s(?x := k)) y \<le> P + int (lim + 16 * k)"
      using blocks_in [OF b, of y] k by (cases "y = ?x") auto
  next
    fix y z assume "y \<in> F \<union> insert ?x L" "z \<in> F \<union> insert ?x L" "y < z"
    then show "ends (s(?x := k)) y \<le> z"
      using blocks_apart [OF b, of y z] below [of y] below [of z] bb k blocks_base(2) [OF b] xb
      by (cases "y = ?x"; cases "z = ?x"; cases "z = B"; cases "y = B") auto
  next
    fix y z assume "y \<in> F" "z \<in> F" "y < z"
    then show "ends (s(?x := k)) y \<noteq> z" using blocks_gap [OF b, of y z] x by auto
  next
    note t = blocks_tiled [OF b, unfolded tiled_def]
    have "\<exists>y\<in>F \<union> insert ?x L. y \<le> a \<and> a < ends (s(?x := k)) y" if "P \<le> a" "a < P + int (lim + 16 * k)" for a
    proof (cases "a < ?x")
      case True
      then obtain y where "y \<in> F \<union> L" "y \<le> a" "a < ends s y" using t \<open>P \<le> a\<close> by blast
      then show ?thesis using x by (intro bexI [of _ y]) auto
    next
      case False
      then show ?thesis using that by (intro bexI [of _ ?x]) auto
    qed
    then show "tiled B P (s(?x := k)) (F \<union> insert ?x L) (lim + 16 * k)" using t unfolding tiled_def by auto
  qed (use blocks_layout [OF b] blocks_base [OF b] k blocks_disjoint [OF b] x xb in auto)
qed

text \<open>A free block becomes live, whole or its tail.\<close>

lemma blocks_take:
  assumes b: "blocks B P s F L lim" and x: "x \<in> F" "x \<noteq> B"
  shows "blocks B P s (F - {x}) (insert x L) lim"
proof (rule blocksI)
  fix y assume "y \<in> F - {x} \<union> insert x L" "y \<noteq> B"
  then show "1 \<le> s y \<and> P \<le> y \<and> ends s y \<le> P + int lim" using blocks_in [OF b, of y] x by auto
next
  fix y z assume "y \<in> F - {x} \<union> insert x L" "z \<in> F - {x} \<union> insert x L" "y < z"
  then show "ends s y \<le> z" using blocks_apart [OF b, of y z] x by auto
next
  fix y z assume "y \<in> F - {x}" "z \<in> F - {x}" "y < z"
  then show "ends s y \<noteq> z" using blocks_gap [OF b, of y z] by auto
next
  have "F - {x} \<union> insert x L = F \<union> L" using x by auto
  then show "tiled B P s (F - {x} \<union> insert x L) lim" using blocks_tiled [OF b] by simp
qed (use blocks_layout [OF b] blocks_base [OF b] blocks_lim [OF b] blocks_disjoint [OF b] x in auto)

lemma blocks_split:
  assumes b: "blocks B P s F L lim" and x: "x \<in> F" and n: "1 \<le> n" "n < s x"
  defines "q \<equiv> hplus x (s x - n)"
  shows "blocks B P (s(x := s x - n, q := n)) F (insert q L) lim" "q \<notin> F \<union> L"
proof -
  have xb: "x \<noteq> B" using blocks_base(2) [OF b] n by auto
  have q: "x < q" "hplus q n = ends s x" "q < ends s x" using n by (auto simp: q_def of_nat_diff)
  have out: "y \<le> x \<or> ends s x \<le> y" if "y \<in> F \<union> L" for y using blocks_apart [OF b, of x y] that x by force
  show qn: "q \<notin> F \<union> L" using out q by force
  have qb: "q \<noteq> B" using qn blocks_base(1) [OF b] by auto
  have le: "ends (s(x := s x - n, q := n)) y \<le> ends s y" if "y \<noteq> q" for y using that n by (auto simp: of_nat_diff)
  show "blocks B P (s(x := s x - n, q := n)) F (insert q L) lim"
  proof (rule blocksI)
    fix y assume y: "y \<in> F \<union> insert q L" "y \<noteq> B"
    show "1 \<le> (s(x := s x - n, q := n)) y \<and> P \<le> y \<and> ends (s(x := s x - n, q := n)) y \<le> P + int lim"
      using blocks_in [OF b, of y] blocks_in [OF b, of x] x xb q n le [of y] y
      by (cases "y = q"; cases "y = x") auto
  next
    fix y z assume yz: "y \<in> F \<union> insert q L" "z \<in> F \<union> insert q L" "y < z"
    show "ends (s(x := s x - n, q := n)) y \<le> z"
    proof (cases "y = q")
      case True
      then show ?thesis using yz q out [of z] by auto
    next
      case False
      note l = le [OF False]
      show ?thesis
      proof (cases "z = q")
        case True
        then have "y \<le> x" using out [of y] yz q by auto
        then show ?thesis using True yz l False blocks_apart [OF b, of y x] x q
          by (cases "y = x") (auto simp: q_def)
      qed (use yz l False blocks_apart [OF b, of y z] in auto)
    qed
  next
    fix y z assume yz: "y \<in> F" "z \<in> F" "y < z"
    then have "y \<noteq> q" "ends s y < z" using qn blocks_gap [OF b, of y z] blocks_apart [OF b, of y z] by auto
    then show "ends (s(x := s x - n, q := n)) y \<noteq> z" using le [of y] by linarith
  next
    have "16 dvd x - P" using blocks_tiled [OF b] x xb unfolding tiled_def by blast
    moreover have "q - P = (x - P) + 16 * int (s x - n)" by (simp add: q_def)
    ultimately have d: "16 dvd q - P" by (metis dvd_add dvd_triv_left)
    have xq: "hplus x (s x - n) = q" by (simp add: q_def)
    show "tiled B P (s(x := s x - n, q := n)) (F \<union> insert q L) lim"
    proof (rule tiled_change [OF blocks_tiled [OF b]])
      fix y a assume y: "y \<in> F \<union> L" "y \<le> a" "a < ends s y"
      show "\<exists>z\<in>F \<union> insert q L. z \<le> a \<and> a < ends (s(x := s x - n, q := n)) z"
      proof (cases "y = x")
        case True
        then show ?thesis using y x q xq by (cases "a < q") (auto intro: bexI [of _ x] bexI [of _ q])
      next
        case False
        then show ?thesis using y qn by (intro bexI [of _ y]) auto
      qed
    qed (use d in auto)
  qed (use blocks_layout [OF b] blocks_base [OF b] blocks_lim [OF b] blocks_disjoint [OF b] qn qb xb in auto)
qed

definition same_pool :: "samm \<Rightarrow> samm \<Rightarrow> bool" where
  "same_pool g h \<longleftrightarrow> base g = base h \<and> SAMM_pool g = SAMM_pool h"

lemma malloc_take_ok:
  assumes i: "heap_inv h F L lim" and u: "u \<in> F" and n: "1 \<le> n" "n \<le> sizep h (nextp h u)"
  shows "\<exists>g q G. malloc_take h n u (nextp h u) = (g, hplus q 1) \<and> heap_inv g G (insert q L) lim \<and> q \<notin> L
     \<and> sizep g q = n \<and> (\<forall>y\<in>L. sizep g y = sizep h y) \<and> same_pool g h
     \<and> SAMM_pool_free_pos g = SAMM_pool_free_pos h"
proof -
  have r: "ring (nextp h) F" and b: "blocks (base h) (SAMM_pool h) (sizep h) F L lim"
    using i by (auto simp: heap_inv_def)
  let ?p = "nextp h u"
  have p: "?p \<in> F" using ring_closed [OF r u] .
  have pb: "?p \<noteq> base h" using blocks_base(2) [OF b] n by auto
  show ?thesis
  proof (cases "sizep h ?p = n")
    case True
    have pu: "?p \<noteq> u" using ring_self [OF r u] blocks_base(1) [OF b] pb by auto
    define g where "g = h\<lparr>nextp := (nextp h)(u := nextp h ?p), freep := u\<rparr>"
    have "malloc_take h n u ?p = (g, hplus ?p 1)" using True by (simp add: malloc_take_def g_def)
    moreover have "heap_inv g (F - {?p}) (insert ?p L) lim"
      using ring_unlink [OF r u pu] blocks_take [OF b p pb] u pu by (auto simp: heap_inv_def g_def)
    ultimately show ?thesis using True p blocks_disjoint [OF b] by (auto simp: g_def same_pool_def)
  next
    case False
    then have n': "n < sizep h ?p" using n by simp
    let ?q = "hplus ?p (sizep h ?p - n)"
    define g where "g = h\<lparr>sizep := (sizep h)(?p := sizep h ?p - n, ?q := n), freep := u\<rparr>"
    note s = blocks_split [OF b p n(1) n']
    have "malloc_take h n u ?p = (g, hplus ?q 1)" using False by (simp add: malloc_take_def g_def Let_def)
    moreover have "heap_inv g F (insert ?q L) lim" using s r u by (auto simp: heap_inv_def g_def)
    moreover have "\<forall>y\<in>L. sizep g y = sizep h y" using s(2) p blocks_disjoint [OF b] by (auto simp: g_def)
    ultimately show ?thesis using s(2) by (auto simp: g_def same_pool_def)
  qed
qed

text \<open>
  The walk of \<^verbatim>\<open>malloc\<close> takes the first block that is big enough; it asks the pool only when
  it has been around, so when no free block is.
\<close>

definition ask_pool :: "samm \<Rightarrow> nat \<Rightarrow> (samm \<times> addr) option" where
  "ask_pool h n =
    (case hide_get_mem_from_pool h n of None \<Rightarrow> None
     | Some r \<Rightarrow> (if snd r = NULL then Some (fst r, NULL)
                  else malloc_loop (fst r) n (snd r) (nextp (fst r) (snd r))))"

lemma malloc_walk:
  assumes r: "ring (nextp h) F" and f: "freep h \<in> F" "nextp h (freep h) \<in> S"
  shows "u \<in> F \<Longrightarrow> (nextp h ^^ k) (nextp h u) = freep h \<Longrightarrow>
    nextp h u \<in> S \<Longrightarrow> \<forall>x\<in>S. x = nextp h u \<or> nextp h x \<in> S \<and> sizep h x < n \<Longrightarrow>
    (\<exists>v\<in>F. n \<le> sizep h (nextp h v) \<and> malloc_loop h n u (nextp h u) = Some (malloc_take h n v (nextp h v)))
    \<or> (\<forall>x\<in>F. sizep h x < n) \<and> malloc_loop h n u (nextp h u) = ask_pool h n"
  using f(2)
proof (induction k arbitrary: u S)
  case 0
  let ?p = "nextp h u"
  have p: "?p = freep h" using "0.prems"(2) by simp
  show ?case
  proof (cases "n \<le> sizep h ?p")
    case True
    then have "malloc_loop h n u ?p = Some (malloc_take h n u ?p)" by (subst malloc_loop.simps) simp
    then show ?thesis using True "0.prems"(1) by blast
  next
    case False
    then have s: "\<forall>x\<in>S. nextp h x \<in> S \<and> sizep h x < n" using "0.prems" p by auto
    then have "F \<subseteq> S" using ring_closed_set [OF r f(1)] "0.prems"(3) p by auto
    moreover have "malloc_loop h n u ?p = ask_pool h n" using False p by (subst malloc_loop.simps) (simp add: ask_pool_def)
    ultimately show ?thesis using s by auto
  qed
next
  case (Suc k)
  let ?p = "nextp h u"
  consider "n \<le> sizep h ?p" | "sizep h ?p < n" "?p = freep h" | "sizep h ?p < n" "?p \<noteq> freep h" by linarith
  then show ?case
  proof cases
    case 1
    then have "malloc_loop h n u ?p = Some (malloc_take h n u ?p)" by (subst malloc_loop.simps) simp
    then show ?thesis using 1 Suc.prems(1) by blast
  next
    case 2
    then have s: "\<forall>x\<in>S. nextp h x \<in> S \<and> sizep h x < n" using Suc.prems by auto
    then have "F \<subseteq> S" using ring_closed_set [OF r f(1)] Suc.prems(3) 2 by auto
    moreover have "malloc_loop h n u ?p = ask_pool h n" using 2 by (subst malloc_loop.simps) (simp add: ask_pool_def)
    ultimately show ?thesis using s by auto
  next
    case 3
    have l: "malloc_loop h n u ?p = malloc_loop h n ?p (nextp h ?p)" using 3 by (subst malloc_loop.simps) simp
    show ?thesis unfolding l
    proof (rule Suc.IH [of ?p "insert (nextp h ?p) S"])
      show "(nextp h ^^ k) (nextp h ?p) = freep h" using Suc.prems(2) by (simp add: funpow_swap1)
    qed (use Suc.prems 3 ring_closed [OF r] in auto)
  qed
qed

lemma malloc_loop_first:
  assumes "heap_inv h F L lim"
  shows "(\<exists>v\<in>F. n \<le> sizep h (nextp h v)
      \<and> malloc_loop h n (freep h) (nextp h (freep h)) = Some (malloc_take h n v (nextp h v)))
    \<or> (\<forall>x\<in>F. sizep h x < n) \<and> malloc_loop h n (freep h) (nextp h (freep h)) = ask_pool h n"
proof -
  have r: "ring (nextp h) F" and f: "freep h \<in> F" using assms by (auto simp: heap_inv_def)
  obtain k where "(nextp h ^^ k) (nextp h (freep h)) = freep h" using ring_reach [OF r ring_closed [OF r f] f] by blast
  then show ?thesis using malloc_walk [OF r f, of "{nextp h (freep h)}"] f by simp
qed

lemma heap_inv_freep: "heap_inv h F L lim \<Longrightarrow> freep h \<noteq> NULL"
  using blocks_pos [of "base h" "SAMM_pool h" "sizep h" F L lim "freep h"] by (auto simp: heap_inv_def)

text \<open>What the pool is asked for, and when it has room.\<close>

definition pool_request :: "nat \<Rightarrow> nat" where
  "pool_request n = 16 * max 16 n"

lemma get_mem_full:
  assumes "16 * n + POOL_SIZE < 2 ^ 64" "SAMM_pool_free_pos h \<le> POOL_SIZE" "POOL_SIZE < SAMM_pool_free_pos h + pool_request n"
  shows "hide_get_mem_from_pool h n = Some (h, NULL)"
  using assms
  by (auto simp: hide_get_mem_from_pool_def Let_def size_mul_def size_add_def pool_request_def
      MIN_POOL_ALLOC_QUANTAS_def POOL_SIZE_def max_def)

lemma get_mem_ok:
  assumes i: "heap_inv h F L (SAMM_pool_free_pos h)"
    and room: "SAMM_pool_free_pos h + pool_request n \<le> POOL_SIZE"
  shows "\<exists>g G. hide_get_mem_from_pool h n = Some (g, freep g) \<and> heap_inv g G L (SAMM_pool_free_pos g)
     \<and> SAMM_pool_free_pos g = SAMM_pool_free_pos h + pool_request n
     \<and> (\<exists>y\<in>G. n \<le> sizep g y) \<and> (\<forall>y\<in>L. sizep g y = sizep h y) \<and> same_pool g h"
proof -
  let ?pos = "SAMM_pool_free_pos h" and ?k = "max 16 n"
  let ?x = "SAMM_pool h + int ?pos"
  have r: "ring (nextp h) F" and f: "freep h \<in> F"
    and b: "blocks (base h) (SAMM_pool h) (sizep h) F L ?pos" using i by (auto simp: heap_inv_def)
  have room': "?pos + 16 * ?k \<le> POOL_SIZE" using room by (simp add: pool_request_def)
  have k: "1 \<le> ?k" by simp
  note grow = blocks_grow [OF b k room']
  define h1 where "h1 = h\<lparr>sizep := (sizep h)(?x := ?k)\<rparr>"
  have i1: "heap_inv h1 F (insert ?x L) (?pos + 16 * ?k)" using grow(1) r f by (simp add: heap_inv_def h1_def)
  obtain g1 G where g: "free h1 (hplus ?x 1) = Some g1" "heap_inv g1 G (insert ?x L - {?x}) (?pos + 16 * ?k)"
      "base g1 = base h1" "SAMM_pool g1 = SAMM_pool h1" "SAMM_pool_free_pos g1 = SAMM_pool_free_pos h1"
      "\<exists>y\<in>G. sizep h1 ?x \<le> sizep g1 y" "\<forall>y\<in>insert ?x L - {?x}. sizep g1 y = sizep h1 y"
    using free_ok [OF i1, of ?x] by blast
  have L: "insert ?x L - {?x} = L" using grow(2) by auto
  define g2 where "g2 = g1\<lparr>SAMM_pool_free_pos := ?pos + pool_request n\<rparr>"
  have k2: "(if n < MIN_POOL_ALLOC_QUANTAS then MIN_POOL_ALLOC_QUANTAS else n) = ?k"
    by (simp add: MIN_POOL_ALLOC_QUANTAS_def max_def)
  have tot: "size_mul ?k 16 = pool_request n" "size_add ?pos (pool_request n) = ?pos + pool_request n"
    using room by (auto simp: size_mul_def size_add_def pool_request_def POOL_SIZE_def)
  have "hide_get_mem_from_pool h n = Some (g2, freep g2)"
    using g(1,5) room unfolding hide_get_mem_from_pool_def Let_def k2 tot h1_def [symmetric]
    by (simp add: tot g2_def h1_def)
  moreover have "heap_inv g2 G L (SAMM_pool_free_pos g2)" using g(2) L by (simp add: heap_inv_def g2_def pool_request_def)
  moreover have "\<exists>y\<in>G. n \<le> sizep g2 y" using g(6) by (auto simp: g2_def h1_def)
  moreover have "\<forall>y\<in>L. sizep g2 y = sizep h y" using g(7) grow(2) unfolding L by (auto simp: g2_def h1_def)
  ultimately show ?thesis using g(3,4) by (auto simp: g2_def h1_def same_pool_def)
qed

text \<open>The specification of an allocation of \<open>n\<close> quanta, on a heap with live set \<open>L\<close>.\<close>

definition allocates :: "samm \<Rightarrow> addr set \<Rightarrow> nat \<Rightarrow> samm \<times> addr \<Rightarrow> bool" where
  "allocates h L n r \<longleftrightarrow> (\<exists>g q G. r = (g, hplus q 1) \<and> heap_inv g G (insert q L) (SAMM_pool_free_pos g) \<and> q \<notin> L
     \<and> sizep g q = n \<and> (\<forall>y\<in>L. sizep g y = sizep h y) \<and> same_pool g h)"

text \<open>The pool position after it, given whether there was a free block.\<close>

definition pool_after :: "bool \<Rightarrow> nat \<Rightarrow> nat \<Rightarrow> nat" where
  "pool_after found pos n = (if found \<or> POOL_SIZE < pos + pool_request n then pos else pos + pool_request n)"

lemma malloc_loop_ok:
  assumes i: "heap_inv h F L (SAMM_pool_free_pos h)" and n: "1 \<le> n" "16 * n + POOL_SIZE < 2 ^ 64"
  shows "\<exists>r. malloc_loop h n (freep h) (nextp h (freep h)) = Some r \<and>
    (if (\<exists>x\<in>F. n \<le> sizep h x) \<or> SAMM_pool_free_pos h + pool_request n \<le> POOL_SIZE
     then allocates h L n r else r = (h, NULL)) \<and>
    SAMM_pool_free_pos (fst r) = pool_after (\<exists>x\<in>F. n \<le> sizep h x) (SAMM_pool_free_pos h) n"
proof -
  have b: "blocks (base h) (SAMM_pool h) (sizep h) F L (SAMM_pool_free_pos h)" using i by (simp add: heap_inv_def)
  have r: "ring (nextp h) F" using i by (simp add: heap_inv_def)
  from malloc_loop_first [OF i] show ?thesis
  proof
    assume "\<exists>v\<in>F. n \<le> sizep h (nextp h v)
      \<and> malloc_loop h n (freep h) (nextp h (freep h)) = Some (malloc_take h n v (nextp h v))"
    then obtain v where v: "v \<in> F" "n \<le> sizep h (nextp h v)"
      "malloc_loop h n (freep h) (nextp h (freep h)) = Some (malloc_take h n v (nextp h v))" by blast
    have "allocates h L n (malloc_take h n v (nextp h v)) \<and> SAMM_pool_free_pos (fst (malloc_take h n v (nextp h v))) = SAMM_pool_free_pos h"
      using malloc_take_ok [OF i v(1) n(1) v(2)] unfolding allocates_def by fastforce
    then show ?thesis using v ring_closed [OF r v(1)] by (auto simp: pool_after_def)
  next
    assume a: "(\<forall>x\<in>F. sizep h x < n) \<and> malloc_loop h n (freep h) (nextp h (freep h)) = ask_pool h n"
    then have nf: "\<not> (\<exists>x\<in>F. n \<le> sizep h x)" by force
    show ?thesis
    proof (cases "SAMM_pool_free_pos h + pool_request n \<le> POOL_SIZE")
      case False
      then have "ask_pool h n = Some (h, NULL)"
        using get_mem_full [OF n(2) blocks_lim [OF b]] by (simp add: ask_pool_def)
      then show ?thesis using a nf False by (simp add: pool_after_def)
    next
      case True
      obtain g G where g: "hide_get_mem_from_pool h n = Some (g, freep g)" "heap_inv g G L (SAMM_pool_free_pos g)"
          "\<exists>y\<in>G. n \<le> sizep g y" "\<forall>y\<in>L. sizep g y = sizep h y" "same_pool g h"
          and pos: "SAMM_pool_free_pos g = SAMM_pool_free_pos h + pool_request n"
        using get_mem_ok [OF i True] by blast
      have "freep g \<noteq> NULL" using heap_inv_freep [OF g(2)] .
      then have "ask_pool h n = malloc_loop g n (freep g) (nextp g (freep g))" using g(1) by (simp add: ask_pool_def)
      moreover have "\<not> (\<forall>x\<in>G. sizep g x < n)" using g(3) by force
      ultimately obtain v where v: "v \<in> G" "n \<le> sizep g (nextp g v)" "ask_pool h n = Some (malloc_take g n v (nextp g v))"
        using malloc_loop_first [OF g(2), of n] by auto
      have "allocates h L n (malloc_take g n v (nextp g v))"
        "SAMM_pool_free_pos (fst (malloc_take g n v (nextp g v))) = SAMM_pool_free_pos g"
        using malloc_take_ok [OF g(2) v(1) n(1) v(2)] g(4,5) unfolding allocates_def same_pool_def by fastforce+
      then show ?thesis using a v(3) True pos nf by (auto simp: pool_after_def)
    qed
  qed
qed

section \<open>The allocator as a whole\<close>

text \<open>
  The state of a heap with the set \<open>A\<close> of pointers handed out: not yet used, or in order with
  some free list. \<open>block_of\<close> is the header of a pointer.
\<close>

definition block_of :: "addr \<Rightarrow> addr" where
  "block_of a = a - 16"

definition pristine :: "samm \<Rightarrow> bool" where
  "pristine h \<longleftrightarrow> freep h = NULL \<and> SAMM_pool_free_pos h = 0 \<and> layout (base h) (SAMM_pool h)"

definition heap_ok :: "samm \<Rightarrow> addr set \<Rightarrow> bool" where
  "heap_ok h A \<longleftrightarrow> pristine h \<and> A = {} \<or> (\<exists>F. heap_inv h F (block_of ` A) (SAMM_pool_free_pos h))"

definition has_block :: "samm \<Rightarrow> nat \<Rightarrow> bool" where
  "has_block h n \<longleftrightarrow> freep h \<noteq> NULL \<and> (\<exists>k. n \<le> sizep h ((nextp h ^^ k) (freep h)))"

definition fits :: "samm \<Rightarrow> nat \<Rightarrow> bool" where
  "fits h n \<longleftrightarrow> SAMM_pool_free_pos h + pool_request n \<le> POOL_SIZE
     \<or> has_block h n"

lemma block_of_image: "block_of ` (insert (hplus q 1) A) = insert q (block_of ` A)"
  and block_of_in: "q \<in> block_of ` A \<longleftrightarrow> hplus q 1 \<in> A"
  by (auto simp: block_of_def image_iff intro: bexI [of _ "q + 16"])

lemma block_of_remove: "block_of ` (A - {a}) = block_of ` A - {block_of a}"
  by (auto simp: block_of_def)

lemma fits_iff:
  assumes "heap_inv h F L (SAMM_pool_free_pos h)"
  shows "has_block h n \<longleftrightarrow> (\<exists>x\<in>F. n \<le> sizep h x)"
    and "fits h n \<longleftrightarrow> (\<exists>x\<in>F. n \<le> sizep h x) \<or> SAMM_pool_free_pos h + pool_request n \<le> POOL_SIZE"
proof -
  have r: "ring (nextp h) F" "freep h \<in> F" using assms by (auto simp: heap_inv_def)
  have f: "freep h \<noteq> NULL" using heap_inv_freep [OF assms] .
  have "(nextp h ^^ k) (freep h) \<in> F" for k using r by (induction k) (auto intro: ring_closed)
  then have "(\<exists>k. n \<le> sizep h ((nextp h ^^ k) (freep h))) \<longleftrightarrow> (\<exists>x\<in>F. n \<le> sizep h x)"
    using ring_reach [OF r] by metis
  then show "has_block h n \<longleftrightarrow> (\<exists>x\<in>F. n \<le> sizep h x)"
    and "fits h n \<longleftrightarrow> (\<exists>x\<in>F. n \<le> sizep h x) \<or> SAMM_pool_free_pos h + pool_request n \<le> POOL_SIZE"
    using f by (auto simp: fits_def has_block_def)
qed

text \<open>
  The requests that cannot wrap around: all but the last 384 KiB of the 64-bit range. (Above them the size
  in bytes, or its sum with the pool position, is reduced modulo \<open>2\<^sup>6\<^sup>4\<close>: see \<open>malloc_wraps\<close>.)
\<close>

definition request_ok :: "nat \<Rightarrow> bool" where
  "request_ok nbytes \<longleftrightarrow> nbytes + POOL_SIZE + 32 \<le> 2 ^ 64"

lemma request_ok_less: "nbytes < 2 ^ 63 \<Longrightarrow> request_ok nbytes"
  by (simp add: request_ok_def POOL_SIZE_def)

lemma quantas_eq: "request_ok nbytes \<Longrightarrow> quantas nbytes = (nbytes + 15) div 16 + 1"
  by (simp add: quantas_def request_ok_def)

lemma quantas_bounds:
  assumes "request_ok nbytes"
  shows "1 \<le> quantas nbytes \<and> 16 * quantas nbytes + POOL_SIZE < 2 ^ 64"
    "nbytes \<le> 16 * (quantas nbytes - 1)" "16 * (quantas nbytes - 1) < nbytes + 16"
  using assms unfolding quantas_eq [OF assms] by (auto simp: request_ok_def)

text \<open>\<^verbatim>\<open>malloc\<close> on any heap that is in order.\<close>

definition allocated :: "samm \<Rightarrow> addr set \<Rightarrow> nat \<Rightarrow> samm \<times> addr \<Rightarrow> bool" where
  "allocated h A n r \<longleftrightarrow> (\<exists>g a. r = (g, a) \<and> a \<noteq> NULL \<and> a \<notin> A \<and> heap_ok g (insert a A)
     \<and> sizep g (block_of a) = n \<and> (\<forall>y\<in>A. sizep g (block_of y) = sizep h (block_of y)) \<and> same_pool g h)"

lemma allocates_allocated:
  assumes a: "allocates h (block_of ` A) n r"
  shows "allocated h A n r"
proof -
  obtain g q G where g: "r = (g, hplus q 1)" "heap_inv g G (insert q (block_of ` A)) (SAMM_pool_free_pos g)"
    "q \<notin> block_of ` A" "sizep g q = n" "\<forall>y\<in>block_of ` A. sizep g y = sizep h y" "same_pool g h"
    using a by (auto simp: allocates_def)
  have "0 < q" using g(2) blocks_pos [of "base g" _ _ _ _ _ q] by (auto simp: heap_inv_def)
  moreover have "heap_ok g (insert (hplus q 1) A)" using g(2) unfolding heap_ok_def block_of_image by blast
  ultimately show ?thesis using g unfolding allocated_def block_of_in by (auto simp: block_of_def)
qed

lemma first_heap:
  assumes "pristine h"
  defines "h0 \<equiv> h\<lparr>nextp := (nextp h)(base h := base h), freep := base h, sizep := (sizep h)(base h := 0)\<rparr>"
  shows "heap_inv h0 {base h} {} 0" "SAMM_pool_free_pos h0 = 0" "same_pool h0 h"
  using assms(1) by (auto simp: h0_def heap_inv_def blocks_def pristine_def ring_singleton same_pool_def tiled_def)

lemma malloc_ok:
  assumes ok: "heap_ok h A" and n: "request_ok nbytes"
  shows "\<exists>g a. malloc h nbytes = Some (g, a) \<and>
    (if fits h (quantas nbytes) then allocated h A (quantas nbytes) (g, a)
     else a = NULL \<and> heap_ok g A \<and> (\<forall>y\<in>A. sizep g (block_of y) = sizep h (block_of y)) \<and> same_pool g h)
    \<and> SAMM_pool_free_pos g = pool_after (has_block h (quantas nbytes)) (SAMM_pool_free_pos h) (quantas nbytes)"
proof (cases "pristine h \<and> A = {}")
  case True
  define h0 where "h0 = h\<lparr>nextp := (nextp h)(base h := base h), freep := base h, sizep := (sizep h)(base h := 0)\<rparr>"
  have p: "pristine h" "A = {}" using True by auto
  note f = first_heap [OF p(1), folded h0_def]
  have m: "malloc h nbytes = malloc_loop h0 (quantas nbytes) (freep h0) (nextp h0 (freep h0))"
    using p by (simp add: malloc_def pristine_def Let_def h0_def)
  have i: "heap_inv h0 {base h} {} (SAMM_pool_free_pos h0)" using f by simp
  have q: "1 \<le> quantas nbytes" "16 * quantas nbytes + POOL_SIZE < 2 ^ 64" using quantas_bounds(1) [OF n] by auto
  have al: "allocated h A k r" if "allocates h0 {} k r" for k r
    using allocates_allocated [of h0 "{}"] that p f(3) by (simp add: allocated_def same_pool_def)
  have "\<not> (\<exists>x\<in>{base h}. quantas nbytes \<le> sizep h0 x)" using q(1) by (simp add: h0_def)
  then have ft: "fits h (quantas nbytes) \<longleftrightarrow>
      (\<exists>x\<in>{base h}. quantas nbytes \<le> sizep h0 x) \<or> SAMM_pool_free_pos h0 + pool_request (quantas nbytes) \<le> POOL_SIZE"
    using p f(2) by (simp add: fits_def has_block_def pristine_def)
  have hb: "has_block h (quantas nbytes) \<longleftrightarrow> (\<exists>x\<in>{base h}. quantas nbytes \<le> sizep h0 x)"
    using p q(1) by (simp add: has_block_def pristine_def h0_def)
  have pos: "SAMM_pool_free_pos h0 = SAMM_pool_free_pos h" by (simp add: h0_def)
  obtain r where r: "malloc h nbytes = Some r"
    "if fits h (quantas nbytes) then allocates h0 {} (quantas nbytes) r else r = (h0, NULL)"
    "SAMM_pool_free_pos (fst r) = pool_after (has_block h (quantas nbytes)) (SAMM_pool_free_pos h) (quantas nbytes)"
    using malloc_loop_ok [OF i q] unfolding m ft hb pos by blast
  obtain g a where "r = (g, a)" by (cases r)
  note r = r [unfolded this fst_conv]
  have "heap_ok h0 {}" using i by (auto simp: heap_ok_def)
  then show ?thesis using r al [of "quantas nbytes" "(g, a)"] p(2) f(3)
    by (intro exI [of _ g] exI [of _ a]) (simp split: if_splits)
next
  case False
  then obtain F where i: "heap_inv h F (block_of ` A) (SAMM_pool_free_pos h)" using ok by (auto simp: heap_ok_def)
  have q: "1 \<le> quantas nbytes" "16 * quantas nbytes + POOL_SIZE < 2 ^ 64" using quantas_bounds(1) [OF n] by auto
  have "freep h \<noteq> NULL" using heap_inv_freep [OF i] .
  then have m: "malloc h nbytes = malloc_loop h (quantas nbytes) (freep h) (nextp h (freep h))"
    by (simp add: malloc_def Let_def)
  obtain r where r: "malloc h nbytes = Some r"
    "if fits h (quantas nbytes) then allocates h (block_of ` A) (quantas nbytes) r else r = (h, NULL)"
    "SAMM_pool_free_pos (fst r) = pool_after (has_block h (quantas nbytes)) (SAMM_pool_free_pos h) (quantas nbytes)"
    using malloc_loop_ok [OF i q] unfolding m fits_iff [OF i] by blast
  obtain g a where "r = (g, a)" by (cases r)
  note r = r [unfolded this fst_conv]
  then show ?thesis using allocates_allocated [of h A "quantas nbytes" "(g, a)"] ok
    by (intro exI [of _ g] exI [of _ a]) (simp add: same_pool_def split: if_splits)
qed

text \<open>The bytes a pointer gives to the program; every pointer handed out stays in the pool.\<close>

definition payload :: "samm \<Rightarrow> addr \<Rightarrow> addr set" where
  "payload h a = {a ..< ends (sizep h) (block_of a)}"

lemma payload_size: "1 \<le> sizep h (block_of a) \<Longrightarrow> payload h a = {a ..< a + int (16 * (sizep h (block_of a) - 1))}"
  by (simp add: payload_def block_of_def of_nat_diff algebra_simps)

lemma heap_ok_payload:
  assumes ok: "heap_ok h A" and a: "a \<in> A"
  shows "payload h a \<subseteq> {SAMM_pool h ..< SAMM_pool h + int POOL_SIZE}"
    "b \<in> A \<Longrightarrow> a \<noteq> b \<Longrightarrow> payload h a \<inter> payload h b = {}" "NULL < a" "1 \<le> sizep h (block_of a)"
proof -
  obtain F where "heap_inv h F (block_of ` A) (SAMM_pool_free_pos h)" using ok a by (auto simp: heap_ok_def)
  then have b: "blocks (base h) (SAMM_pool h) (sizep h) F (block_of ` A) (SAMM_pool_free_pos h)"
    by (simp add: heap_inv_def)
  have nb: "block_of c \<noteq> base h" if "c \<in> A" for c using blocks_base(3) [OF b] imageI [OF that] by metis
  note i = blocks_in [OF b _ nb [OF a]]
  show "payload h a \<subseteq> {SAMM_pool h ..< SAMM_pool h + int POOL_SIZE}" "NULL < a" "1 \<le> sizep h (block_of a)"
    using i a blocks_lim [OF b] blocks_pos [OF b, of "block_of a"] by (auto simp: payload_def block_of_def)
  show "payload h a \<inter> payload h b = {}" if c: "b \<in> A" "a \<noteq> b"
    using blocks_apart [OF b, of "block_of a" "block_of b"] blocks_apart [OF b, of "block_of b" "block_of a"] a c
    by (cases "a < b") (auto simp: payload_def block_of_def)
qed

lemma free_heap_ok:
  assumes ok: "heap_ok h A" and a: "a \<in> A"
  shows "\<exists>g. free h a = Some g \<and> heap_ok g (A - {a}) \<and> (\<forall>y\<in>A - {a}. sizep g (block_of y) = sizep h (block_of y))
    \<and> same_pool g h \<and> SAMM_pool_free_pos g = SAMM_pool_free_pos h"
proof -
  obtain F where i: "heap_inv h F (block_of ` A) (SAMM_pool_free_pos h)" using ok a by (auto simp: heap_ok_def)
  have "hplus (block_of a) 1 = a" "block_of a \<in> block_of ` A" using a by (auto simp: block_of_def)
  with free_ok [OF i, of "block_of a"] obtain g G where g: "free h a = Some g"
      "heap_inv g G (block_of ` (A - {a})) (SAMM_pool_free_pos h)" "base g = base h" "SAMM_pool g = SAMM_pool h"
      "SAMM_pool_free_pos g = SAMM_pool_free_pos h" "\<forall>y\<in>block_of ` (A - {a}). sizep g y = sizep h y"
    unfolding block_of_remove by auto
  then have "heap_ok g (A - {a})" unfolding heap_ok_def by auto
  then show ?thesis using g by (auto simp: same_pool_def)
qed

section \<open>Zeroed and aligned blocks\<close>

lemma pool_bits: "32 - unat (count_leading_zero_macro 32 (of_nat POOL_SIZE)) = 19"
proof -
  have "is_clz 32 (unat (of_nat POOL_SIZE :: u64)) 13" by (simp add: is_clz_def POOL_SIZE_def)
  from count_leading_zero_macros_clz(1) [OF this] show ?thesis by simp
qed

lemma calloc_size_eq:
  "calloc_size nmemb sz =
    (let d = nmemb mod 2 ^ 19 * (sz mod 2 ^ 19) in if d < 2 ^ 19 then Some d else if nmemb = 0 then Some 0 else None)"
proof -
  let ?d = "nmemb mod 2 ^ 19 * (sz mod 2 ^ 19)"
  have "nmemb mod 2 ^ 19 \<le> 2 ^ 19 - 1" "sz mod 2 ^ 19 \<le> 2 ^ 19 - 1" by (simp_all add: less_Suc_eq_le [symmetric])
  then have d: "?d \<le> (2 ^ 19 - 1) * (2 ^ 19 - 1)" by (rule mult_le_mono)
  have m: "?d mod 2 ^ 64 = ?d" "?d div 2 ^ 19 mod 2 ^ 19 = ?d div 2 ^ 19" using d by auto
  have z: "?d div 2 ^ 19 \<noteq> 0 \<longleftrightarrow> \<not> ?d < 2 ^ 19" by (simp add: div_eq_0_iff)
  have l: "?d < 2 ^ 19 \<Longrightarrow> ?d mod 2 ^ 32 = ?d" by simp
  show ?thesis unfolding calloc_size_def pool_bits Let_def m z using l by auto
qed


lemma calloc_some:
  assumes "calloc_size nmemb sz = Some t" "malloc h t = Some (g, a)"
  shows "calloc h m nmemb sz = Some (g, if a = NULL then m else fill_block m a 0 t, a)"
  using assms by (simp add: calloc_def memset_def memset_loop_eq)

section \<open>Every reachable state\<close>






definition heap0 :: samm where
  "heap0 = \<lparr>base = 16, SAMM_pool = 1024, freep = NULL, SAMM_pool_free_pos = 0,
            nextp = (\<lambda>_. 0), sizep = (\<lambda>_. 0)\<rparr>"

lemma heap0_pristine: "pristine heap0"
  by (simp add: heap0_def pristine_def layout_def)

lemma heap0_ok: "heap_ok heap0 {}"
  by (simp add: heap_ok_def heap0_pristine)


text \<open>
  C6. \<^verbatim>\<open>malloc\<close> of a request that does not wrap around (at most \<open>2\<^sup>6\<^sup>4 - 32\<close> bytes less the size of the pool), on a heap
  that is in order, returns. It succeeds exactly when some block of the free list is big
  enough or the pool has room for the request (at least 16 quanta); then the pointer is new and
  its region holds the bytes asked for and less than one quantum more, and no other live region
  changes. Otherwise it returns NULL and all live regions stay as they were.
\<close>

theorem malloc_correct:
  assumes "heap_ok h A" and "request_ok nbytes"
  shows "\<exists>g a. malloc h nbytes = Some (g, a) \<and>
    (if fits h (quantas nbytes)
     then a \<noteq> NULL \<and> a \<notin> A \<and> heap_ok g (insert a A)
        \<and> (\<exists>k. payload g a = {a ..< a + int k} \<and> nbytes \<le> k \<and> k < nbytes + 16)
     else a = NULL \<and> heap_ok g A)
    \<and> (\<forall>y\<in>A. payload g y = payload h y)"
proof -
  let ?n = "quantas nbytes"
  obtain g a where m: "malloc h nbytes = Some (g, a)"
    and r: "if fits h ?n then allocated h A ?n (g, a)
      else a = NULL \<and> heap_ok g A \<and> (\<forall>y\<in>A. sizep g (block_of y) = sizep h (block_of y)) \<and> same_pool g h"
    using malloc_ok [OF assms] by blast
  have "payload g a = {a ..< a + int (16 * (?n - 1))}" if "fits h ?n"
    using r that quantas_bounds(1) [OF assms(2)] by (simp add: allocated_def payload_size)
  then have "\<exists>k. payload g a = {a ..< a + int k} \<and> nbytes \<le> k \<and> k < nbytes + 16" if "fits h ?n"
    using that quantas_bounds(2,3) [OF assms(2)] by blast
  moreover have "\<forall>y\<in>A. payload g y = payload h y"
    using r by (auto simp: allocated_def payload_def split: if_splits)
  ultimately show ?thesis using m r by (cases "fits h ?n") (auto simp: allocated_def)
qed

theorem malloc_correct_witness:
  "\<exists>g a. malloc heap0 100 = Some (g, a) \<and> a \<noteq> NULL \<and> (\<exists>k. payload g a = {a ..< a + int k} \<and> 100 \<le> k \<and> k < 116)"
proof -
  have "fits heap0 (quantas 100)" by (simp add: fits_def heap0_def quantas_def pool_request_def POOL_SIZE_def)
  then show ?thesis using malloc_correct [OF heap0_ok request_ok_less, of 100] by auto
qed

text \<open>
  C7. \<^verbatim>\<open>free\<close> of a pointer handed out always returns (the search around the list ends), keeps
  the heap in order, gives up that region and leaves every other live region as it was; freeing
  NULL does nothing.
\<close>

theorem free_correct:
  assumes "heap_ok h A" and "a \<in> A"
  shows "free h NULL = Some h \<and>
    (\<exists>g. free h a = Some g \<and> heap_ok g (A - {a}) \<and> (\<forall>y\<in>A - {a}. payload g y = payload h y))"
  using free_heap_ok [OF assms] by (auto simp: free_def payload_def)

text \<open>A heap with one live block, for the witnesses.\<close>

lemma heap1: "\<exists>g a. malloc heap0 100 = Some (g, a) \<and> a \<noteq> NULL \<and> heap_ok g {a}"
proof -
  have "fits heap0 (quantas 100)" by (simp add: fits_def heap0_def quantas_def pool_request_def POOL_SIZE_def)
  then show ?thesis using malloc_ok [OF heap0_ok request_ok_less, of 100] by (auto simp: allocated_def)
qed

theorem free_correct_witness:
  "\<exists>g a f. malloc heap0 100 = Some (g, a) \<and> free g a = Some f \<and> heap_ok f {}"
proof -
  obtain g a where g: "malloc heap0 100 = Some (g, a)" "heap_ok g {a}" using heap1 by blast
  from free_correct [OF g(2), of a] show ?thesis using g(1) by auto
qed

section \<open>The abstract allocator\<close>

text \<open>
  What a program may rely on, without headers, lists and quanta: the live regions, as a finite map from
  pointers to the number of bytes behind them, and the number of bytes that the pool, which starts at \<open>P\<close>, has given
  out. A region is preceded by 16 bytes that nobody else uses. \<open>block_bytes n\<close> is what a request of \<open>n\<close> bytes takes: its
  bytes rounded up to 16, and those 16.
\<close>

record alloc_spec =
  regions :: "addr \<rightharpoonup> nat"
  pool_used :: nat







text \<open>The abstraction of a heap with the pointers handed out.\<close>

definition live :: "samm \<Rightarrow> addr set \<Rightarrow> alloc_spec" where
  "live h A = \<lparr>regions = (\<lambda>a. if a \<in> A then Some (16 * (sizep h (block_of a) - 1)) else None),
     pool_used = SAMM_pool_free_pos h\<rparr>"

lemma live_simps [simp]: "dom (regions (live h A)) = A" "pool_used (live h A) = SAMM_pool_free_pos h"
  "regions (live h A) a = Some k \<longleftrightarrow> a \<in> A \<and> k = 16 * (sizep h (block_of a) - 1)"
  by (auto simp: live_def dom_def)









text \<open>
  \<^verbatim>\<open>calloc\<close>, for operands below \<open>2\<^sup>1\<^sup>9\<close>: it refuses a product of \<open>2\<^sup>1\<^sup>9\<close> bytes or more (the
  pool is smaller), allocates the product otherwise, and clears exactly the bytes asked for.
\<close>

theorem calloc_correct:
  assumes "heap_ok h A" and "nmemb < 2 ^ 19" and "sz < 2 ^ 19"
  shows "\<exists>g m' a. calloc h m nmemb sz = Some (g, m', a) \<and>
    (if nmemb * sz < 2 ^ 19 \<and> fits h (quantas (nmemb * sz))
     then a \<noteq> NULL \<and> a \<notin> A \<and> heap_ok g (insert a A) \<and> {a ..< a + int (nmemb * sz)} \<subseteq> payload g a
       \<and> (\<forall>i. m' i = (if a \<le> i \<and> i < a + int (nmemb * sz) then 0 else m i))
     else a = NULL \<and> m' = m \<and> heap_ok g A)"
proof (cases "nmemb * sz < 2 ^ 19")
  case True
  let ?t = "nmemb * sz"
  have c: "calloc_size nmemb sz = Some ?t" using assms(2,3) True by (simp add: calloc_size_eq)
  have t: "request_ok ?t" using True by (intro request_ok_less) simp
  obtain g a where m: "malloc h ?t = Some (g, a)"
    and r: "if fits h (quantas ?t) then allocated h A (quantas ?t) (g, a)
      else a = NULL \<and> heap_ok g A \<and> (\<forall>y\<in>A. sizep g (block_of y) = sizep h (block_of y)) \<and> same_pool g h"
    using malloc_ok [OF assms(1) t] by blast
  have "{a ..< a + int ?t} \<subseteq> payload g a" if "fits h (quantas ?t)"
  proof -
    have "1 \<le> sizep g (block_of a)" "?t \<le> 16 * (sizep g (block_of a) - 1)"
      using r that quantas_bounds [OF t] by (auto simp: allocated_def)
    then show ?thesis unfolding payload_size [OF \<open>1 \<le> sizep g (block_of a)\<close>]
      by (intro ivl_subset [THEN iffD2] disjI2 conjI) linarith+
  qed
  then show ?thesis using r True unfolding calloc_some [OF c m]
    by (cases "fits h (quantas ?t)") (auto simp: allocated_def fill_block_def)
next
  case False
  then have "nmemb \<noteq> 0" by (intro notI) simp
  then have "calloc_size nmemb sz = None" using assms False by (simp add: calloc_size_eq Let_def)
  then show ?thesis using False assms(1) by (auto simp: calloc_def)
qed

theorem calloc_correct_witness:
  "\<exists>g m' a. calloc heap0 (\<lambda>_. 7) 3 2 = Some (g, m', a) \<and> m' (a + 5) = 0 \<and> m' (a + 6) = 7"
proof -
  have "fits heap0 (quantas 6)" by (simp add: fits_def heap0_def quantas_def pool_request_def POOL_SIZE_def)
  then show ?thesis using calloc_correct [OF heap0_ok, of 3 2 "\<lambda>_. 7"] by auto
qed

section \<open>Duplicating strings in the heap\<close>

text \<open>The heap as a provider of the interface \<open>allocator\<close>: a heap with its live pointers.\<close>

definition heap_malloc :: "samm \<times> addr set \<Rightarrow> nat \<Rightarrow> addr \<times> samm \<times> addr set" where
  "heap_malloc s n = (case malloc (fst s) n of None \<Rightarrow> (NULL, s)
     | Some (g, a) \<Rightarrow> (a, g, if a = NULL then snd s else insert a (snd s)))"

definition heap_in_use :: "samm \<times> addr set \<Rightarrow> addr set" where
  "heap_in_use s = - {SAMM_pool (fst s) ..< SAMM_pool (fst s) + int POOL_SIZE} \<union> (\<Union>a\<in>snd s. payload (fst s) a)"

lemma heap_malloc_eq: "malloc h n = Some (g, a) \<Longrightarrow> heap_malloc (h, A) n = (a, g, if a = NULL then A else insert a A)"
  by (simp add: heap_malloc_def)

lemma heap_malloc_fresh:
  assumes ok: "heap_ok h A" and n: "n < 2 ^ 63" and m: "heap_malloc (h, A) n = (d, h')" "d \<noteq> NULL" and i: "i < n"
  shows "d + int i \<notin> heap_in_use (h, A)"
proof -
  obtain g where g: "malloc h n = Some (g, d)" using malloc_ok [OF ok request_ok_less [OF n]] m by (auto simp: heap_malloc_def)
  have al: "allocated h A (quantas n) (g, d)"
    using malloc_ok [OF ok request_ok_less [OF n]] g m(2) by (auto split: if_splits)
  then have ok': "heap_ok g (insert d A)" and p: "SAMM_pool g = SAMM_pool h" and d: "d \<notin> A"
    and old: "y \<in> A \<Longrightarrow> payload g y = payload h y" for y
    by (auto simp: allocated_def same_pool_def payload_def)
  have s: "1 \<le> sizep g (block_of d)" "n \<le> 16 * (sizep g (block_of d) - 1)"
    using al quantas_bounds [OF request_ok_less [OF n]] by (auto simp: allocated_def)
  have di: "d + int i \<in> payload g d" unfolding payload_size [OF s(1)] using i s(2) by auto
  have "d + int i \<in> {SAMM_pool h ..< SAMM_pool h + int POOL_SIZE}"
    using heap_ok_payload(1) [OF ok', of d] di p by auto
  moreover have "d + int i \<notin> payload h y" if "y \<in> A" for y
    using heap_ok_payload(2) [OF ok', of d y] that d di old by auto
  ultimately show ?thesis by (auto simp: heap_in_use_def)
qed

interpretation memmgr: allocator heap_malloc "\<lambda>s. heap_ok (fst s) (snd s)" heap_in_use
proof
  fix s :: "samm \<times> addr set" and n d h' i
  assume "heap_ok (fst s) (snd s)" "n < 2 ^ 63" "heap_malloc s n = (d, h')" "d \<noteq> NULL" "i < n"
  then show "d + int i \<notin> heap_in_use s" using heap_malloc_fresh by (cases s) auto
qed

text \<open>
  C31. \<^verbatim>\<open>strdup\<close> on this heap: for a string in memory that is in use (outside the pool or in
  live regions), when there is a block big enough the result points to a copy of the string in
  a new live region, the heap stays in order, and no byte in use has changed; when there is
  none the result is NULL and the memory is as it was.
\<close>

theorem strdup_on_heap:
  assumes "heap_ok h A" and "cstring m s xs" and "{s..s + int (length xs)} \<subseteq> heap_in_use (h, A)"
    and "Suc (length xs) < 2 ^ 63"
  shows "\<exists>g B m' d. strdup heap_malloc (h, A) m s = Some ((g, B), m', d) \<and> heap_ok g B \<and>
    (if fits h (quantas (Suc (length xs)))
     then d \<noteq> NULL \<and> B = insert d A \<and> cstring m' d xs \<and> (\<forall>a\<in>heap_in_use (h, A). m' a = m a)
     else d = NULL \<and> B = A \<and> m' = m)"
proof -
  obtain g a where m: "malloc h (Suc (length xs)) = Some (g, a)"
    and r: "if fits h (quantas (Suc (length xs))) then allocated h A (quantas (Suc (length xs))) (g, a)
      else a = NULL \<and> heap_ok g A \<and> (\<forall>y\<in>A. sizep g (block_of y) = sizep h (block_of y)) \<and> same_pool g h"
    using malloc_ok [OF assms(1) request_ok_less [OF assms(4)]] by blast
  show ?thesis
  proof (cases "a = NULL")
    case True
    have "heap_malloc (h, A) (Suc (length xs)) = (NULL, g, A)" using heap_malloc_eq [OF m] True by simp
    then have "strdup heap_malloc (h, A) m s = Some ((g, A), m, NULL)"
      using memmgr.strdup_null [OF assms(2), of "(h, A)"] by auto
    then show ?thesis using r True by (auto simp: allocated_def split: if_splits)
  next
    case False
    have e: "heap_malloc (h, A) (Suc (length xs)) = (a, g, insert a A)" using heap_malloc_eq [OF m] False by simp
    have f: "fits h (quantas (Suc (length xs)))" using r False by (auto split: if_splits)
    have ok: "heap_ok (fst (h, A)) (snd (h, A))" using assms(1) by simp
    have c: "strdup heap_malloc (h, A) m s = Some ((g, insert a A), copy_block m a s (Suc (length xs)), a)"
      "cstring (copy_block m a s (Suc (length xs))) a xs"
      "\<forall>y\<in>heap_in_use (h, A). copy_block m a s (Suc (length xs)) y = m y"
      using memmgr.strdup_copies [OF ok assms(2-4) e False] by blast+
    show ?thesis using c r f False by (auto simp: allocated_def)
  qed
qed

theorem strdup_on_heap_witness:
  "\<exists>g B m' d. strdup heap_malloc (heap0, {}) abab 100 = Some ((g, B), m', d) \<and> d \<noteq> NULL \<and> cstring m' d [97, 98, 97, 98]"
proof -
  have "fits heap0 (quantas (Suc (length [97, 98, 97, 98 :: u8])))" by (simp add: fits_def heap0_def quantas_def pool_request_def POOL_SIZE_def)
  moreover have "{100..100 + int (length [97, 98, 97, 98 :: u8])} \<subseteq> heap_in_use (heap0, {})"
    by (auto simp: heap_in_use_def heap0_def)
  ultimately show ?thesis using strdup_on_heap [OF heap0_ok abab_cstring(1)] by (auto simp del: cstring.simps)
qed

section \<open>Where the code departs from its intent\<close>

text \<open>The first request of \<open>heap0\<close>, computed.\<close>

definition heap0' :: samm where
  "heap0' = heap0\<lparr>nextp := (nextp heap0)(16 := 16), freep := 16, sizep := (sizep heap0)(16 := 0)\<rparr>"

definition heap0_first :: "nat \<Rightarrow> samm" where
  "heap0_first k = heap0'\<lparr>sizep := (sizep heap0')(1024 := k), nextp := (nextp heap0')(1024 := 16, 16 := 1024),
     SAMM_pool_free_pos := size_mul k 16\<rparr>"

lemma get_mem_first:
  assumes "16 \<le> k" "size_mul k 16 \<le> POOL_SIZE" "n = k \<or> n < 16 \<and> k = 16"
  shows "hide_get_mem_from_pool heap0' n = Some (heap0_first k, 16)"
proof -
  define h1 where "h1 = heap0'\<lparr>sizep := (sizep heap0')(1024 := k)\<rparr>"
  have "free_search h1 1024 16 = Some 16"
    by (subst free_search.simps) (simp add: free_stop_def h1_def heap0'_def)
  then have f: "free h1 1040 = Some (h1\<lparr>nextp := (nextp heap0')(1024 := 16, 16 := 1024)\<rparr>)"
    by (simp add: free_def free_insert_def h1_def heap0'_def heap0_def Let_def fun_upd_twist)
  have k: "(if n < MIN_POOL_ALLOC_QUANTAS then MIN_POOL_ALLOC_QUANTAS else n) = k"
    using assms(1,3) by (auto simp: MIN_POOL_ALLOC_QUANTAS_def)
  have s: "SAMM_pool heap0' = 1024" "SAMM_pool_free_pos heap0' = 0" by (simp_all add: heap0'_def heap0_def)
  have z: "size_add 0 (size_mul k 16) = size_mul k 16" by (simp add: size_add_def size_mul_def)
  show ?thesis using f assms(2) unfolding hide_get_mem_from_pool_def Let_def k s
    by (simp add: h1_def z heap0_first_def s) (simp add: heap0'_def)
qed

lemma malloc_first:
  assumes "16 \<le> k" "size_mul k 16 \<le> POOL_SIZE" "quantas n = k \<or> quantas n < 16 \<and> k = 16"
  shows "malloc heap0 n = Some (malloc_take (heap0_first k) (quantas n) 16 1024)"
proof -
  have "malloc heap0 n = malloc_loop heap0' (quantas n) 16 16"
    by (simp add: malloc_def Let_def heap0'_def heap0_def)
  also have "\<dots> = malloc_loop (heap0_first k) (quantas n) 16 1024"
    using get_mem_first [OF assms] assms by (subst malloc_loop.simps) (auto simp: heap0'_def heap0_first_def quantas_def)
  also have "\<dots> = Some (malloc_take (heap0_first k) (quantas n) 16 1024)"
    using assms by (subst malloc_loop.simps) (auto simp: heap0_first_def)
  finally show ?thesis .
qed

text \<open>
  The sizes are not checked for wrap-around: asked for \<open>2\<^sup>6\<^sup>4 - 16\<close> bytes as its first
  request, \<^verbatim>\<open>malloc\<close> computes a total of 0 bytes, succeeds, and returns the start of the pool as a
  block of \<open>2\<^sup>6\<^sup>0\<close> quanta, while the pool position stays at 0, so that the next block it takes
  from the pool lies at the same place.
\<close>

theorem malloc_wraps:
  "\<exists>g. malloc heap0 (2 ^ 64 - 16) = Some (g, SAMM_pool heap0 + 16) \<and> sizep g (SAMM_pool heap0) = 2 ^ 60
    \<and> SAMM_pool_free_pos g = 0"
proof -
  have q: "quantas (2 ^ 64 - 16) = 2 ^ 60" by (simp add: quantas_def)
  have z: "size_mul (2 ^ 60) 16 = 0" by (simp add: size_mul_def)
  have "malloc heap0 (2 ^ 64 - 16) = Some (malloc_take (heap0_first (2 ^ 60)) (2 ^ 60) 16 1024)"
    using malloc_first [of "2 ^ 60" "2 ^ 64 - 16"] by (simp only: q z) simp
  then show ?thesis
    by (simp add: malloc_take_def heap0_first_def z heap0_def del: power_numeral)
qed

text \<open>
  \<^verbatim>\<open>memalign\<close> returns NULL for an alignment that is not a power of two and is \<^verbatim>\<open>malloc\<close> for an
  alignment of at most 16. For larger ones, when it has to move the block, it records the new
  and the old size in bytes where the allocator counts quanta: on \<open>heap0\<close>, \<^verbatim>\<open>memalign(64, 16)\<close>
  leaves a free block that reaches beyond what the pool has given out and covers the block
  returned.
\<close>

theorem memalign_behaviour:
  "((of_nat align AND - of_nat align :: u64) \<noteq> of_nat align \<longrightarrow> memalign h align len = Some (h, NULL))
    \<and> ((of_nat align AND - of_nat align :: u64) = of_nat align \<longrightarrow> align \<le> 16 \<longrightarrow> memalign h align len = malloc h len)
    \<and> alloca_with_align h len align = memalign h align len
    \<and> (\<exists>g. memalign heap0 64 16 = Some (g, 1216) \<and> freep g = 1024
         \<and> ends (sizep g) 1024 = 1440 \<and> SAMM_pool g + int (SAMM_pool_free_pos g) = 1280)"
proof -
  define g0 where "g0 = (heap0_first 16)\<lparr>sizep := (sizep (heap0_first 16))(1024 := 10, 1184 := 6)\<rparr>"
  have q: "quantas 79 = 6" by (simp add: quantas_def)
  have "size_mul 16 16 \<le> POOL_SIZE" by (simp add: size_mul_def POOL_SIZE_def)
  from malloc_first [OF _ this, of 79] have m: "malloc heap0 79 = Some (g0, 1200)"
    by (simp add: q malloc_take_def Let_def g0_def) (simp add: heap0_first_def heap0'_def)
  define g1 where "g1 = g0\<lparr>sizep := (sizep g0)(1200 := 16, 1184 := 16)\<rparr>"
  have "free_search g1 1184 16 = Some 1024"
    by (subst free_search.simps, simp add: free_stop_def g1_def g0_def heap0_first_def heap0'_def)
      (subst free_search.simps, simp add: free_stop_def g1_def g0_def heap0_first_def heap0'_def)
  then have f: "free g1 1200 = Some (free_insert g1 1184 1024)"
    by (simp add: free_def) (simp add: g1_def g0_def heap0_first_def heap0'_def)
  have a: "align_up 1200 64 = 1216" by (simp add: align_up_def)
  have "memalign heap0 64 16 = Some (free_insert g1 1184 1024, 1216)"
    using m f a by (simp add: memalign_def g1_def)
  moreover have "freep (free_insert g1 1184 1024) = 1024" "ends (sizep (free_insert g1 1184 1024)) 1024 = 1440"
    "SAMM_pool (free_insert g1 1184 1024) + int (SAMM_pool_free_pos (free_insert g1 1184 1024)) = 1280"
    by (simp_all add: free_insert_def g1_def g0_def heap0_first_def heap0'_def heap0_def Let_def size_add_def size_mul_def)
  moreover have "alloca_with_align h len align = memalign h align len" by (simp add: alloca_with_align_def)
  moreover have "memalign h align len = malloc h len"
    if "(of_nat align AND - of_nat align :: u64) = of_nat align" "align \<le> 16"
    using that by (simp add: memalign_def split: option.split)
  ultimately show ?thesis by (simp add: memalign_def)
qed

theorem memalign_behaviour_witness:
  "memalign heap0 3 16 = Some (heap0, NULL) \<and> memalign heap0 8 16 = malloc heap0 16"
  using memalign_behaviour [of 3 heap0 16] memalign_behaviour [of 8 heap0 16] by simp

text \<open>
  \<^verbatim>\<open>calloc\<close> cuts its operands to the 19 bits of the pool size before it multiplies them, so
  that an element count of \<open>2\<^sup>1\<^sup>9\<close> or \<open>2\<^sup>1\<^sup>9 + 1\<close> passes for 0 or 1: the request is beyond the pool,
  and yet it succeeds with a block of no or one element.
\<close>

theorem calloc_truncates_operands:
  "calloc_size (2 ^ 19) sz = Some 0 \<and> calloc_size (2 ^ 19 + 1) 8 = Some 8
    \<and> (\<exists>g m' a. calloc heap0 m (2 ^ 19 + 1) 8 = Some (g, m', a) \<and> a \<noteq> NULL \<and> payload g a = {a ..< a + 16})"
proof -
  have c: "calloc_size (2 ^ 19 + 1) 8 = Some 8" by (simp add: calloc_size_eq)
  have "fits heap0 (quantas 8)" "quantas 8 = 2" by (simp_all add: fits_def heap0_def quantas_def pool_request_def POOL_SIZE_def)
  then obtain g a where m: "malloc heap0 8 = Some (g, a)" and a: "allocated heap0 {} 2 (g, a)"
    using malloc_ok [OF heap0_ok request_ok_less, of 8] by auto
  have "payload g a = {a ..< a + 16}" using a payload_size [of g a] by (simp add: allocated_def)
  then show ?thesis using calloc_some [OF c m] c a by (simp add: allocated_def calloc_size_eq)
qed

end
