(* ===== verification/FloatBase.thy ===== *)
theory FloatBase
  imports Complex_Main BitMacros
begin

text \<open>
  The common ground of the soft-float library: the constants and formats of
  \<^verbatim>\<open>etc/libbambu/softfloat/softfloat_features.h\<close>, the field extractors and jamming shifts of
  \<^verbatim>\<open>softfloat.h\<close>, and the value that a bit pattern denotes. The eight format parameters that
  every routine of the library takes (\<^verbatim>\<open>__exp_bits\<close> to \<^verbatim>\<open>__sign\<close>) are the record \<open>tfspec\<close>; the
  global rounding mode, tininess mode and exception flags are the record \<open>fenv\<close>, which the
  routines take and return.
\<close>

section \<open>Formats and modes\<close>

record tfspec =
  exp_bits :: nat
  frac_bits :: nat
  exp_bias :: int
  rnd_mode :: nat
  exc_mode :: nat
  has_one :: bool
  has_subnorm :: bool
  sign_spec :: int

definition FLOAT_EXC_OVF :: nat where "FLOAT_EXC_OVF = 0"
definition FLOAT_EXC_STD :: nat where "FLOAT_EXC_STD = 1"
definition FLOAT_EXC_SAT :: nat where "FLOAT_EXC_SAT = 2"
definition FLOAT_EXC_NONAN :: nat where "FLOAT_EXC_NONAN = 4"
definition FLOAT_RND_NONE :: nat where "FLOAT_RND_NONE = 0"
definition FLOAT_RND_NEVN :: nat where "FLOAT_RND_NEVN = 1"

lemmas exc_defs = FLOAT_EXC_OVF_def FLOAT_EXC_STD_def FLOAT_EXC_SAT_def FLOAT_EXC_NONAN_def
  FLOAT_RND_NONE_def FLOAT_RND_NEVN_def

definition IEEE16_SPEC_ARGS :: tfspec where
  "IEEE16_SPEC_ARGS = \<lparr>exp_bits = 5, frac_bits = 10, exp_bias = - 15, rnd_mode = FLOAT_RND_NEVN,
     exc_mode = FLOAT_EXC_STD, has_one = True, has_subnorm = True, sign_spec = - 1\<rparr>"

definition IEEE32_SPEC_ARGS :: tfspec where
  "IEEE32_SPEC_ARGS = \<lparr>exp_bits = 8, frac_bits = 23, exp_bias = - 127, rnd_mode = FLOAT_RND_NEVN,
     exc_mode = FLOAT_EXC_STD, has_one = True, has_subnorm = True, sign_spec = - 1\<rparr>"

definition IEEE64_SPEC_ARGS :: tfspec where
  "IEEE64_SPEC_ARGS = \<lparr>exp_bits = 11, frac_bits = 52, exp_bias = - 1023, rnd_mode = FLOAT_RND_NEVN,
     exc_mode = FLOAT_EXC_STD, has_one = True, has_subnorm = True, sign_spec = - 1\<rparr>"

definition float_tininess_after_rounding :: int where "float_tininess_after_rounding = 0"
definition float_tininess_before_rounding :: int where "float_tininess_before_rounding = 1"
definition float_round_nearest_even :: int where "float_round_nearest_even = 0"
definition float_round_to_zero :: int where "float_round_to_zero = 1"
definition float_round_down :: int where "float_round_down = 2"
definition float_round_up :: int where "float_round_up = 3"
definition float_flag_inexact :: u8 where "float_flag_inexact = 1"
definition float_flag_underflow :: u8 where "float_flag_underflow = 2"
definition float_flag_overflow :: u8 where "float_flag_overflow = 4"
definition float_flag_divbyzero :: u8 where "float_flag_divbyzero = 8"
definition float_flag_invalid :: u8 where "float_flag_invalid = 16"

lemmas round_mode_defs = float_round_nearest_even_def float_round_to_zero_def float_round_down_def
  float_round_up_def

record fenv =
  float_detect_tininess :: int
  float_rounding_mode :: int
  float_exception_flags :: u8

text \<open>The environment at program start.\<close>

definition fenv_init :: fenv where
  "fenv_init = \<lparr>float_detect_tininess = float_tininess_after_rounding,
     float_rounding_mode = float_round_nearest_even, float_exception_flags = 0\<rparr>"

definition float_raise :: "u8 \<Rightarrow> fenv \<Rightarrow> fenv" where
  "float_raise x env = env\<lparr>float_exception_flags := float_exception_flags env OR x\<rparr>"

section \<open>Fields\<close>

text \<open>\<^verbatim>\<open>(1ULL << n) - 1ULL\<close>\<close>

abbreviation ones :: "nat \<Rightarrow> 'a::len word" where
  "ones n \<equiv> push_bit n 1 - 1"

definition extractFloatFrac :: "u64 \<Rightarrow> nat \<Rightarrow> u64" where
  "extractFloatFrac a fb = a AND ones fb"

definition extractFloatExp :: "u64 \<Rightarrow> nat \<Rightarrow> nat \<Rightarrow> u64" where
  "extractFloatExp a eb fb = drop_bit fb a AND ones eb"

definition extractFloatSign :: "u64 \<Rightarrow> nat \<Rightarrow> nat \<Rightarrow> int \<Rightarrow> bool" where
  "extractFloatSign a eb fb sg = (if sg = - 1 then drop_bit (eb + fb) a \<noteq> 0 else sg \<noteq> 0)"

definition float_nan :: "nat \<Rightarrow> nat \<Rightarrow> int \<Rightarrow> u64" where
  "float_nan eb fb sg =
     (push_bit (eb + fb) (of_bool (sg = - 1)) OR push_bit fb (ones eb)) OR push_bit (fb - 1) 1"

text \<open>The shift counts are 16-bit signed integers in the source; \<^verbatim>\<open>(-count) & 31\<close> is the
  complement of the count modulo the width.\<close>

definition shift32RightJamming :: "u32 \<Rightarrow> int \<Rightarrow> u32" where
  "shift32RightJamming a count =
     (if count = 0 then a
      else if count < 32 then drop_bit (nat count) a OR of_bool (push_bit (nat (- count mod 32)) a \<noteq> 0)
      else of_bool (a \<noteq> 0))"

definition shift64RightJamming :: "u64 \<Rightarrow> int \<Rightarrow> u64" where
  "shift64RightJamming a count =
     (if count = 0 then a
      else if count < 64 then drop_bit (nat count) a OR of_bool (push_bit (nat (- count mod 64)) a \<noteq> 0)
      else of_bool (a \<noteq> 0))"

definition packFloat32 :: "bool \<Rightarrow> u32 \<Rightarrow> u32 \<Rightarrow> nat \<Rightarrow> nat \<Rightarrow> u32" where
  "packFloat32 zSign zExp zSig eb fb = push_bit (eb + fb) (of_bool zSign) + push_bit fb zExp + zSig"

definition packFloat64 :: "bool \<Rightarrow> u64 \<Rightarrow> u64 \<Rightarrow> nat \<Rightarrow> nat \<Rightarrow> u64" where
  "packFloat64 zSign zExp zSig eb fb = push_bit (eb + fb) (of_bool zSign) + push_bit fb zExp + zSig"

section \<open>Words, masks and fields as numbers\<close>

lemma ones_mask: "ones n = mask n"
  by (simp add: mask_eq_exp_minus_1 push_bit_of_1)

lemma and_ones [unat_simps]: "unat (a AND ones n) = unat (a :: 'a::len word) mod 2 ^ n"
  by (simp only: ones_mask take_bit_eq_mask [symmetric] unat_take_bit_mod)

lemma unat_ones: "n \<le> LENGTH('a) \<Longrightarrow> unat (ones n :: 'a::len word) = 2 ^ n - 1"
proof -
  assume n: "n \<le> LENGTH('a)"
  have "unat (ones n :: 'a word) = unat (- 1 AND ones n :: 'a word)" by simp
  also have "\<dots> = mask LENGTH('a) mod 2 ^ n" by (simp only: and_ones unsigned_minus_1_eq_mask)
  also have "\<dots> = mask n" using n by (simp add: take_bit_of_mask min_def flip: take_bit_eq_mod)
  finally show ?thesis by (simp add: mask_eq_exp_minus_1)
qed

lemma unat_push_1 [unat_simps]: "n < LENGTH('a) \<Longrightarrow> unat (push_bit n 1 :: 'a::len word) = 2 ^ n"
  by (simp add: unat_push_bit_mult del: push_bit_of_1)

lemma unat_frac [unat_simps]: "unat (extractFloatFrac a fb) = unat a mod 2 ^ fb"
  by (simp only: extractFloatFrac_def and_ones)

lemma unat_exp [unat_simps]: "unat (extractFloatExp a eb fb) = unat a div 2 ^ fb mod 2 ^ eb"
  by (simp only: extractFloatExp_def and_ones unat_drop_bit_div)

lemma sign_iff:
  "unat a < 2 ^ (eb + fb + 1) \<Longrightarrow> extractFloatSign a eb fb (- 1) \<longleftrightarrow> unat a div 2 ^ (eb + fb) = 1"
  by (auto simp: extractFloatSign_def word_eq_0_iff_unat unat_drop_bit_div less_mult_imp_div_less le_less_Suc_eq
      dest!: div_less_iff_less_mult [THEN iffD2, rotated])

text \<open>A jamming shift keeps the quotient and records in the lowest bit whether anything was lost.\<close>

definition jam :: "nat \<Rightarrow> nat \<Rightarrow> nat" where
  "jam a n = (let q = a div 2 ^ n in if a mod 2 ^ n = 0 then q else if even q then q + 1 else q)"

lemma unat_or_of_bool: "unat (w OR of_bool c :: 'a::len word) = (if c \<and> even (unat w) then unat w + 1 else unat w)"
  by (cases c) (simp_all add: unsigned_or_eq or_Suc_0_eq)

lemma push_bit_lost:
  fixes w :: "'a::len word"
  assumes "n \<le> LENGTH('a)"
  shows "push_bit (LENGTH('a) - n) w \<noteq> 0 \<longleftrightarrow> unat w mod 2 ^ n \<noteq> 0"
proof -
  have "(2 :: nat) ^ LENGTH('a) = 2 ^ n * 2 ^ (LENGTH('a) - n)" using assms by (simp flip: power_add)
  then have "unat (push_bit (LENGTH('a) - n) w) = unat w mod 2 ^ n * 2 ^ (LENGTH('a) - n)"
    by (simp add: unat_push_bit_mult mult_mod_left)
  then show ?thesis by (simp add: word_eq_0_iff_unat)
qed

lemma shift64_jam:
  assumes "0 \<le> count"
  shows "unat (shift64RightJamming a count) = jam (unat a) (nat count)"
proof -
  consider "count = 0" | "0 < count" "count < 64" | "64 \<le> count" using assms by linarith
  then show ?thesis
  proof cases
    case 2
    then have c: "nat (- count mod 64) = 64 - nat count" by (subst zmod_zminus1_eq_if) auto
    show ?thesis using 2 push_bit_lost [of "nat count" a]
      by (simp add: shift64RightJamming_def c unat_or_of_bool jam_def Let_def unat_drop_bit_div)
  next
    case 3
    have "unat a < 2 ^ 64" using unat_less_exp [of a] by simp
    also have "(2 :: nat) ^ 64 \<le> 2 ^ nat count" using 3 by (intro power_increasing) auto
    finally show ?thesis using 3 by (simp add: shift64RightJamming_def jam_def word_eq_0_iff_unat)
  qed (simp add: shift64RightJamming_def jam_def)
qed

lemma shift32_jam:
  assumes "0 \<le> count"
  shows "unat (shift32RightJamming a count) = jam (unat a) (nat count)"
proof -
  consider "count = 0" | "0 < count" "count < 32" | "32 \<le> count" using assms by linarith
  then show ?thesis
  proof cases
    case 2
    then have c: "nat (- count mod 32) = 32 - nat count" by (subst zmod_zminus1_eq_if) auto
    show ?thesis using 2 push_bit_lost [of "nat count" a]
      by (simp add: shift32RightJamming_def c unat_or_of_bool jam_def Let_def unat_drop_bit_div)
  next
    case 3
    have "unat a < 2 ^ 32" using unat_less_exp [of a] by simp
    also have "(2 :: nat) ^ 32 \<le> 2 ^ nat count" using 3 by (intro power_increasing) auto
    finally show ?thesis using 3 by (simp add: shift32RightJamming_def jam_def word_eq_0_iff_unat)
  qed (simp add: shift32RightJamming_def jam_def)
qed

section \<open>The value of a bit pattern\<close>

text \<open>
  For a format with hidden bit and subnormals: the magnitude of exponent field \<open>e\<close> and fraction
  \<open>f\<close> in units of the least subnormal, and the value of a pattern. (The patterns of the
  infinities get the value they would have without the exception encoding, which is above that
  of every finite pattern.)
\<close>

definition fmag :: "nat \<Rightarrow> nat \<Rightarrow> nat \<Rightarrow> nat" where
  "fmag fb e f = (if e = 0 then f else (2 ^ fb + f) * 2 ^ (e - 1))"

definition pattern_mag :: "nat \<Rightarrow> nat \<Rightarrow> nat" where
  "pattern_mag fb m = fmag fb (m div 2 ^ fb) (m mod 2 ^ fb)"

definition fsign :: "tfspec \<Rightarrow> u64 \<Rightarrow> bool" where
  "fsign sp a = extractFloatSign a (exp_bits sp) (frac_bits sp) (sign_spec sp)"

definition fabs_bits :: "tfspec \<Rightarrow> u64 \<Rightarrow> nat" where
  "fabs_bits sp a = unat a mod 2 ^ (exp_bits sp + frac_bits sp)"

definition fint :: "tfspec \<Rightarrow> u64 \<Rightarrow> int" where
  "fint sp a = (if fsign sp a then - 1 else 1) * int (pattern_mag (frac_bits sp) (fabs_bits sp a))"

definition fval :: "tfspec \<Rightarrow> u64 \<Rightarrow> real" where
  "fval sp a = of_int (fint sp a) * 2 powi (exp_bias sp + 1 - int (frac_bits sp))"

lemma fmag_bounds: "f < 2 ^ fb \<Longrightarrow> 1 \<le> e \<Longrightarrow> 2 ^ (fb + e - 1) \<le> fmag fb e f \<and> fmag fb e f < 2 ^ (fb + e)"
proof -
  assume f: "f < 2 ^ fb" and e: "1 \<le> e"
  have "(2 ^ fb + f) * 2 ^ (e - 1) < 2 ^ (fb + 1) * 2 ^ (e - 1)" using f by simp
  also have "\<dots> = 2 ^ (fb + 1 + (e - 1))" by (simp only: power_add)
  also have "fb + 1 + (e - 1) = fb + e" using e by simp
  finally have "fmag fb e f < 2 ^ (fb + e)" using e by (simp add: fmag_def)
  moreover have "2 ^ (fb + e - 1) \<le> fmag fb e f" using e by (simp add: fmag_def add_mult_distrib flip: power_add)
  ultimately show ?thesis by simp
qed

lemma pattern_mag_less: "m < n \<Longrightarrow> pattern_mag fb m < pattern_mag fb n"
proof -
  assume mn: "m < n"
  let ?e = "m div 2 ^ fb" and ?e' = "n div 2 ^ fb" and ?f = "m mod 2 ^ fb" and ?f' = "n mod 2 ^ fb"
  have f: "?f < 2 ^ fb" "?f' < 2 ^ fb" by simp_all
  have "?e \<le> ?e'" using mn by (simp add: div_le_mono)
  then consider "?e = ?e'" | "?e < ?e'" by linarith
  then show ?thesis
  proof cases
    case 1
    then have "?f < ?f'" using mn by (metis div_mult_mod_eq nat_add_left_cancel_less)
    then show ?thesis using 1 by (simp add: pattern_mag_def fmag_def)
  next
    case 2
    have "fmag fb ?e ?f < 2 ^ (fb + ?e)"
      using fmag_bounds [OF f(1), of ?e] f(1) by (cases "?e = 0") (auto simp: fmag_def)
    also have "(2 :: nat) ^ (fb + ?e) \<le> 2 ^ (fb + ?e' - 1)" using 2 by (intro power_increasing) auto
    also have "\<dots> \<le> fmag fb ?e' ?f'" using fmag_bounds [OF f(2), of ?e'] 2 by simp
    finally show ?thesis by (simp add: pattern_mag_def)
  qed
qed

lemma pattern_mag_less_iff: "pattern_mag fb m < pattern_mag fb n \<longleftrightarrow> m < n"
  using pattern_mag_less by (metis linorder_neqE_nat order_less_asym)

lemma pattern_mag_eq_iff: "pattern_mag fb m = pattern_mag fb n \<longleftrightarrow> m = n"
  using pattern_mag_less by (metis linorder_neqE_nat order_less_irrefl)

lemma pattern_mag_0 [simp]: "pattern_mag fb 0 = 0"
  by (simp add: pattern_mag_def fmag_def)

lemma pattern_mag_0_iff: "pattern_mag fb m = 0 \<longleftrightarrow> m = 0"
  using pattern_mag_eq_iff [of fb m 0] by simp

lemma fval_less_iff: "fval sp a < fval sp b \<longleftrightarrow> fint sp a < fint sp b"
  and fval_le_iff: "fval sp a \<le> fval sp b \<longleftrightarrow> fint sp a \<le> fint sp b"
  and fval_eq_iff: "fval sp a = fval sp b \<longleftrightarrow> fint sp a = fint sp b"
  by (simp_all add: fval_def)

text \<open>
  The right shifts with jamming of both widths, for every non-negative count (past the width
  too): the quotient, made odd when a non-zero bit was shifted out, so that no inexactness is
  lost to a later rounding.
\<close>

theorem jamming_shifts_correct:
  assumes "0 \<le> count"
  shows "unat (shift64RightJamming a count) = jam (unat a) (nat count)
    \<and> unat (shift32RightJamming b count) = jam (unat b) (nat count)"
  using shift64_jam [OF assms] shift32_jam [OF assms] by simp

theorem jamming_shifts_correct_witness:
  "unat (shift64RightJamming 20 3) = 3 \<and> unat (shift32RightJamming 16 70) = 1"
  using jamming_shifts_correct [of 3 20 0] jamming_shifts_correct [of 70 0 16] by (simp add: jam_def)

end
