(* ===== verification/FloatCompare.thy ===== *)
theory FloatCompare
  imports FloatBase
begin

text \<open>
  The comparisons of \<^verbatim>\<open>etc/libbambu/softfloat/softfloat.c\<close>. Each returns its answer and the
  environment, in which the invalid flag may have been raised. The parameters of the format that
  a routine does not use are left out of the static helpers, as in the source.
\<close>

section \<open>The program\<close>

definition BIT_MASK64 :: "u64 \<Rightarrow> nat \<Rightarrow> u64" where
  "BIT_MASK64 var msbpp = var AND drop_bit (64 - msbpp) 0xFFFFFFFFFFFFFFFF"

definition float_is_signaling_nan :: "u64 \<Rightarrow> tfspec \<Rightarrow> bool" where
  "float_is_signaling_nan a sp =
     (if exc_mode sp = FLOAT_EXC_STD then
        (drop_bit (frac_bits sp - 1) a AND ones (exp_bits sp + 1)) = push_bit (exp_bits sp + 1) 1 - 2
        \<and> (a AND ones (frac_bits sp - 1)) \<noteq> 0
      else False)"

definition nan_operand :: "u64 \<Rightarrow> nat \<Rightarrow> nat \<Rightarrow> bool" where
  "nan_operand a eb fb \<longleftrightarrow> extractFloatExp a eb fb = ones eb \<and> extractFloatFrac a fb \<noteq> 0"

definition FloatEQ :: "u64 \<Rightarrow> u64 \<Rightarrow> tfspec \<Rightarrow> fenv \<Rightarrow> bool \<times> fenv" where
  "FloatEQ a b sp env =
    (let eb = exp_bits sp; fb = frac_bits sp
     in if exc_mode sp = FLOAT_EXC_STD \<and> (nan_operand a eb fb \<or> nan_operand b eb fb)
        then (False, if float_is_signaling_nan a sp \<or> float_is_signaling_nan b sp
                     then float_raise float_flag_invalid env else env)
        else if sign_spec sp = - 1
        then (BIT_MASK64 a (eb + fb + 1) = BIT_MASK64 b (eb + fb + 1) \<or> BIT_MASK64 (a OR b) (eb + fb) = 0, env)
        else (BIT_MASK64 a (eb + fb + 1) = BIT_MASK64 b (eb + fb + 1), env))"

definition float_eq :: "u64 \<Rightarrow> u64 \<Rightarrow> tfspec \<Rightarrow> fenv \<Rightarrow> bool \<times> fenv" where
  "float_eq a b sp env = FloatEQ a b sp env"

definition float_ltgt_quiet :: "u64 \<Rightarrow> u64 \<Rightarrow> tfspec \<Rightarrow> fenv \<Rightarrow> bool \<times> fenv" where
  "float_ltgt_quiet a b sp env = (let (r, env) = FloatEQ a b sp env in (\<not> r, env))"

definition FloatLE :: "u64 \<Rightarrow> u64 \<Rightarrow> nat \<Rightarrow> nat \<Rightarrow> nat \<Rightarrow> int \<Rightarrow> fenv \<Rightarrow> bool \<times> fenv" where
  "FloatLE a b eb fb exc sg env =
    (if exc = FLOAT_EXC_STD \<and> (nan_operand a eb fb \<or> nan_operand b eb fb)
     then (False, float_raise float_flag_invalid env)
     else (let aSign = extractFloatSign a eb fb sg; bSign = extractFloatSign b eb fb sg;
               n = eb + fb + of_bool (sg = - 1)
           in if aSign \<noteq> bSign then (aSign \<or> BIT_MASK64 (a OR b) (eb + fb) = 0, env)
              else (BIT_MASK64 a n = BIT_MASK64 b n \<or> (aSign \<noteq> (BIT_MASK64 a n < BIT_MASK64 b n)), env)))"

definition float_le :: "u64 \<Rightarrow> u64 \<Rightarrow> tfspec \<Rightarrow> fenv \<Rightarrow> bool \<times> fenv" where
  "float_le a b sp env = FloatLE a b (exp_bits sp) (frac_bits sp) (exc_mode sp) (sign_spec sp) env"

definition float_ge :: "u64 \<Rightarrow> u64 \<Rightarrow> tfspec \<Rightarrow> fenv \<Rightarrow> bool \<times> fenv" where
  "float_ge a b sp env = FloatLE b a (exp_bits sp) (frac_bits sp) (exc_mode sp) (sign_spec sp) env"

definition FloatLT :: "u64 \<Rightarrow> u64 \<Rightarrow> nat \<Rightarrow> nat \<Rightarrow> nat \<Rightarrow> int \<Rightarrow> fenv \<Rightarrow> bool \<times> fenv" where
  "FloatLT a b eb fb exc sg env =
    (if exc = FLOAT_EXC_STD \<and> (nan_operand a eb fb \<or> nan_operand b eb fb)
     then (False, float_raise float_flag_invalid env)
     else (let aSign = extractFloatSign a eb fb sg; bSign = extractFloatSign b eb fb sg;
               n = eb + fb + of_bool (sg = - 1)
           in if aSign \<noteq> bSign then (aSign \<and> BIT_MASK64 (a OR b) (eb + fb) \<noteq> 0, env)
              else (BIT_MASK64 a n \<noteq> BIT_MASK64 b n \<and> (aSign \<noteq> (BIT_MASK64 a n < BIT_MASK64 b n)), env)))"

definition float_lt :: "u64 \<Rightarrow> u64 \<Rightarrow> tfspec \<Rightarrow> fenv \<Rightarrow> bool \<times> fenv" where
  "float_lt a b sp env = FloatLT a b (exp_bits sp) (frac_bits sp) (exc_mode sp) (sign_spec sp) env"

definition float_gt :: "u64 \<Rightarrow> u64 \<Rightarrow> tfspec \<Rightarrow> fenv \<Rightarrow> bool \<times> fenv" where
  "float_gt a b sp env = FloatLT b a (exp_bits sp) (frac_bits sp) (exc_mode sp) (sign_spec sp) env"

definition isunordered :: "u64 \<Rightarrow> u64 \<Rightarrow> tfspec \<Rightarrow> bool" where
  "isunordered a b sp =
    (let e_max = ones (exp_bits sp);
         aExp = drop_bit (frac_bits sp) a AND ones (exp_bits sp);
         bExp = drop_bit (frac_bits sp) b AND ones (exp_bits sp);
         aSig = a AND ones (frac_bits sp);
         bSig = b AND ones (frac_bits sp)
     in exc_mode sp = FLOAT_EXC_STD \<and> (aExp = e_max \<and> aSig \<noteq> 0 \<or> bExp = e_max \<and> bSig \<noteq> 0))"

section \<open>Order\<close>

text \<open>A format whose patterns fit the 64-bit container, and a pattern of that format.\<close>

definition format_ok :: "tfspec \<Rightarrow> bool" where
  "format_ok sp \<longleftrightarrow> 0 < exp_bits sp \<and> 0 < frac_bits sp \<and> exp_bits sp + frac_bits sp < 64"

definition pattern_of :: "tfspec \<Rightarrow> u64 \<Rightarrow> bool" where
  "pattern_of sp a \<longleftrightarrow> unat a < 2 ^ (exp_bits sp + frac_bits sp + of_bool (sign_spec sp = - 1))"

definition is_nan :: "tfspec \<Rightarrow> u64 \<Rightarrow> bool" where
  "is_nan sp a \<longleftrightarrow> exc_mode sp = FLOAT_EXC_STD \<and> nan_operand a (exp_bits sp) (frac_bits sp)"

lemma exp_max_iff:
  assumes "eb \<le> 64"
  shows "extractFloatExp a eb fb = ones eb \<longleftrightarrow> unat a div 2 ^ fb mod 2 ^ eb = 2 ^ eb - 1"
proof -
  have "unat (ones eb :: u64) = 2 ^ eb - 1" using assms by (intro unat_ones) simp
  then show ?thesis using unat_exp [of a eb fb] by (metis unsigned_word_eqI)
qed

lemma isunordered_iff: "isunordered a b sp \<longleftrightarrow> is_nan sp a \<or> is_nan sp b"
  by (auto simp: isunordered_def is_nan_def nan_operand_def extractFloatExp_def extractFloatFrac_def Let_def)

lemma unat_BIT_MASK64 [unat_simps]: "n \<le> 64 \<Longrightarrow> unat (BIT_MASK64 a n) = unat a mod 2 ^ n"
proof -
  assume n: "n \<le> 64"
  have "(0xFFFFFFFFFFFFFFFF :: u64) = - 1" by simp
  moreover have "drop_bit (64 - n) (- 1 :: u64) = mask n"
    using n by (intro bit_word_eqI) (auto simp: bit_drop_bit_eq bit_mask_iff)
  ultimately show ?thesis by (simp only: BIT_MASK64_def unat_take_bit_mod flip: take_bit_eq_mask)
qed

text \<open>A pattern splits into its sign and its magnitude bits.\<close>

lemma pattern_split:
  assumes "format_ok sp" "pattern_of sp a"
  shows "sign_spec sp = - 1 \<Longrightarrow> unat a = of_bool (fsign sp a) * 2 ^ (exp_bits sp + frac_bits sp) + fabs_bits sp a"
    and "sign_spec sp \<noteq> - 1 \<Longrightarrow> unat a = fabs_bits sp a"
proof -
  let ?n = "exp_bits sp + frac_bits sp"
  have "unat a = unat a div 2 ^ ?n * 2 ^ ?n + fabs_bits sp a"
    using div_mult_mod_eq [of "unat a" "2 ^ ?n"] by (simp only: fabs_bits_def)
  moreover have "unat a div 2 ^ ?n = of_bool (fsign sp a)" if "sign_spec sp = - 1"
  proof -
    have "unat a div 2 ^ ?n < 2" using assms(2) that by (auto simp: pattern_of_def less_mult_imp_div_less)
    then show ?thesis using that by (auto simp: fsign_def extractFloatSign_def word_eq_0_iff_unat unat_drop_bit_div)
  qed
  ultimately show "sign_spec sp = - 1 \<Longrightarrow> unat a = of_bool (fsign sp a) * 2 ^ ?n + fabs_bits sp a" by simp
  show "sign_spec sp \<noteq> - 1 \<Longrightarrow> unat a = fabs_bits sp a"
    using assms(2) by (simp add: pattern_of_def fabs_bits_def)
qed

lemma fabs_bits_less: "fabs_bits sp a < 2 ^ (exp_bits sp + frac_bits sp)"
  by (simp add: fabs_bits_def)

text \<open>The values are ordered as the sign and the magnitude bits say.\<close>

lemma fint_less_iff:
  "fint sp a < fint sp b \<longleftrightarrow>
    (if fsign sp a = fsign sp b then (if fsign sp a then fabs_bits sp b < fabs_bits sp a else fabs_bits sp a < fabs_bits sp b)
     else fsign sp a \<and> \<not> (fabs_bits sp a = 0 \<and> fabs_bits sp b = 0))"
proof -
  let ?m = "\<lambda>a. int (pattern_mag (frac_bits sp) (fabs_bits sp a))"
  have z: "?m x = 0 \<longleftrightarrow> fabs_bits sp x = 0" "0 \<le> ?m x" for x by (simp_all add: pattern_mag_0_iff)
  have l: "?m a < ?m b \<longleftrightarrow> fabs_bits sp a < fabs_bits sp b" "?m b < ?m a \<longleftrightarrow> fabs_bits sp b < fabs_bits sp a"
    by (simp_all add: pattern_mag_less_iff)
  show ?thesis using z [of a] z [of b] l unfolding fint_def by (cases "fsign sp a"; cases "fsign sp b") auto
qed

lemma fval_eq_0_iff: "fval sp a = 0 \<longleftrightarrow> fabs_bits sp a = 0"
  by (simp add: fval_def fint_def pattern_mag_0_iff)

lemma fint_eq_iff:
  "fint sp a = fint sp b \<longleftrightarrow> fabs_bits sp a = fabs_bits sp b \<and> (fsign sp a = fsign sp b \<or> fabs_bits sp a = 0)"
proof -
  have "fint sp a = fint sp b \<longleftrightarrow> \<not> fint sp a < fint sp b \<and> \<not> fint sp b < fint sp a" by auto
  then show ?thesis unfolding fint_less_iff [of sp a b] fint_less_iff [of sp b a] by (auto split: if_splits)
qed

text \<open>The masks of the comparisons, read as sign and magnitude.\<close>

lemma mask_both:
  assumes "format_ok sp" "pattern_of sp a"
  defines "n \<equiv> exp_bits sp + frac_bits sp + of_bool (sign_spec sp = - 1)"
  shows "unat (BIT_MASK64 a n) = unat a" "unat (BIT_MASK64 a (exp_bits sp + frac_bits sp + 1)) = unat a"
proof -
  have n: "n \<le> 64" "exp_bits sp + frac_bits sp + 1 \<le> 64" using assms(1) by (auto simp: format_ok_def n_def)
  have u: "unat a < 2 ^ n" using assms(2) by (simp add: pattern_of_def n_def)
  then have "unat a < 2 ^ (exp_bits sp + frac_bits sp + 1)"
    by (rule less_le_trans) (intro power_increasing, auto simp: n_def)
  then show "unat (BIT_MASK64 a n) = unat a" "unat (BIT_MASK64 a (exp_bits sp + frac_bits sp + 1)) = unat a"
    using u n by (simp_all add: unat_BIT_MASK64 del: power_Suc power_add)
qed

lemma mask_or_0:
  assumes "format_ok sp"
  shows "BIT_MASK64 (a OR b) (exp_bits sp + frac_bits sp) = 0 \<longleftrightarrow> fabs_bits sp a = 0 \<and> fabs_bits sp b = 0"
proof -
  let ?n = "exp_bits sp + frac_bits sp"
  have n: "?n \<le> 64" using assms by (simp add: format_ok_def)
  have "BIT_MASK64 (a OR b) ?n = BIT_MASK64 a ?n OR BIT_MASK64 b ?n" by (simp add: BIT_MASK64_def bit.conj_disj_distrib2)
  then have "BIT_MASK64 (a OR b) ?n = 0 \<longleftrightarrow> BIT_MASK64 a ?n = 0 \<and> BIT_MASK64 b ?n = 0" by (simp add: or_eq_0_iff)
  then show ?thesis using n by (simp add: word_eq_0_iff_unat unat_BIT_MASK64 fabs_bits_def)
qed

lemma pattern_eq_iff:
  assumes "format_ok sp" "pattern_of sp a" "pattern_of sp b"
  shows "unat a = unat b \<longleftrightarrow> fsign sp a = fsign sp b \<and> fabs_bits sp a = fabs_bits sp b"
proof (cases "sign_spec sp = - 1")
  case True
  then show ?thesis using pattern_split(1) [OF assms(1,2)] pattern_split(1) [OF assms(1,3)]
      fabs_bits_less [of sp a] fabs_bits_less [of sp b]
    by (cases "fsign sp a"; cases "fsign sp b") auto
next
  case False
  then have "fsign sp a = fsign sp b" by (simp add: fsign_def extractFloatSign_def)
  then show ?thesis using False pattern_split(2) [OF assms(1,2)] pattern_split(2) [OF assms(1,3)] by simp
qed

lemma pattern_less_iff:
  assumes "format_ok sp" "pattern_of sp a" "pattern_of sp b" "fsign sp a = fsign sp b"
  shows "unat a < unat b \<longleftrightarrow> fabs_bits sp a < fabs_bits sp b"
  using pattern_split [OF assms(1,2)] pattern_split [OF assms(1,3)] assms(4) by (cases "sign_spec sp = - 1") simp_all

lemma FloatEQ_ordered:
  assumes ok: "format_ok sp" "pattern_of sp a" "pattern_of sp b" and n: "\<not> is_nan sp a" "\<not> is_nan sp b"
  shows "FloatEQ a b sp env = (fint sp a = fint sp b, env)"
proof -
  note m = mask_both(2) [OF ok(1,2)] mask_both(2) [OF ok(1,3)]
  have e: "BIT_MASK64 a (exp_bits sp + frac_bits sp + 1) = BIT_MASK64 b (exp_bits sp + frac_bits sp + 1)
      \<longleftrightarrow> fsign sp a = fsign sp b \<and> fabs_bits sp a = fabs_bits sp b"
    using m pattern_eq_iff [OF ok] by (metis unsigned_word_eqI)
  have "sign_spec sp \<noteq> - 1 \<Longrightarrow> fsign sp a = fsign sp b" by (simp add: fsign_def extractFloatSign_def)
  then show ?thesis using n e unfolding FloatEQ_def Let_def mask_or_0 [OF ok(1)] fint_eq_iff is_nan_def
    by auto
qed

lemma FloatLT_ordered:
  assumes ok: "format_ok sp" "pattern_of sp a" "pattern_of sp b" and n: "\<not> is_nan sp a" "\<not> is_nan sp b"
  shows "FloatLT a b (exp_bits sp) (frac_bits sp) (exc_mode sp) (sign_spec sp) env = (fint sp a < fint sp b, env)"
    and "FloatLE a b (exp_bits sp) (frac_bits sp) (exc_mode sp) (sign_spec sp) env = (fint sp a \<le> fint sp b, env)"
proof -
  let ?n = "exp_bits sp + frac_bits sp + of_bool (sign_spec sp = - 1)"
  note m = mask_both(1) [OF ok(1,2)] mask_both(1) [OF ok(1,3)]
  have e: "BIT_MASK64 a ?n = BIT_MASK64 b ?n \<longleftrightarrow> fsign sp a = fsign sp b \<and> fabs_bits sp a = fabs_bits sp b"
    using m pattern_eq_iff [OF ok] by (metis unsigned_word_eqI)
  have l: "fsign sp a = fsign sp b \<Longrightarrow> BIT_MASK64 a ?n < BIT_MASK64 b ?n \<longleftrightarrow> fabs_bits sp a < fabs_bits sp b"
    using m pattern_less_iff [OF ok] by (simp add: word_less_nat_alt)
  have s: "extractFloatSign x (exp_bits sp) (frac_bits sp) (sign_spec sp) = fsign sp x" for x by (simp add: fsign_def)
  have nn: "\<not> (exc_mode sp = FLOAT_EXC_STD
      \<and> (nan_operand a (exp_bits sp) (frac_bits sp) \<or> nan_operand b (exp_bits sp) (frac_bits sp)))"
    using n by (auto simp: is_nan_def)
  show "FloatLT a b (exp_bits sp) (frac_bits sp) (exc_mode sp) (sign_spec sp) env = (fint sp a < fint sp b, env)"
    unfolding FloatLT_def if_not_P [OF nn] Let_def mask_or_0 [OF ok(1)] fint_less_iff s e
    using l by (cases "fsign sp a"; cases "fsign sp b") auto
  have le: "fint sp a \<le> fint sp b \<longleftrightarrow> \<not> fint sp b < fint sp a" by auto
  show "FloatLE a b (exp_bits sp) (frac_bits sp) (exc_mode sp) (sign_spec sp) env = (fint sp a \<le> fint sp b, env)"
    unfolding FloatLE_def if_not_P [OF nn] Let_def mask_or_0 [OF ok(1)] le fint_less_iff s e
    using l by (cases "fsign sp a"; cases "fsign sp b") auto
qed

text \<open>
  C27. The comparisons, for every format with a hidden bit and subnormals that fits the container,
  signed or not, and any two patterns of it that are not NaN: they decide the order of the values
  (so that the two zeros are equal and the infinities are beyond every finite number), and raise
  no flag. In a format without subnormals every pattern with exponent field 0 stands for zero,
  which the code does not see (it compares the patterns), so such formats are left out.
\<close>

theorem comparisons_correct:
  assumes "format_ok sp" "pattern_of sp a" "pattern_of sp b" "\<not> isunordered a b sp"
    and "has_one sp" "has_subnorm sp"
  shows "float_eq a b sp env = (fval sp a = fval sp b, env)
    \<and> float_ltgt_quiet a b sp env = (fval sp a \<noteq> fval sp b, env)
    \<and> float_lt a b sp env = (fval sp a < fval sp b, env)
    \<and> float_le a b sp env = (fval sp a \<le> fval sp b, env)
    \<and> float_gt a b sp env = (fval sp a > fval sp b, env)
    \<and> float_ge a b sp env = (fval sp a \<ge> fval sp b, env)"
proof -
  have n: "\<not> is_nan sp a" "\<not> is_nan sp b" using assms(4) by (auto simp: isunordered_iff)
  show ?thesis
    unfolding float_eq_def float_ltgt_quiet_def float_lt_def float_le_def float_gt_def float_ge_def
      FloatEQ_ordered [OF assms(1-3) n] FloatLT_ordered [OF assms(1-3) n] FloatLT_ordered [OF assms(1,3,2) n(2,1)]
      fval_less_iff fval_le_iff fval_eq_iff
    by simp
qed

theorem comparisons_correct_witness:
  "fst (float_lt 0xC0000000 0xBF800000 IEEE32_SPEC_ARGS fenv_init)
    = (fval IEEE32_SPEC_ARGS 0xC0000000 < fval IEEE32_SPEC_ARGS 0xBF800000)
   \<and> \<not> isunordered 0xC0000000 0xBF800000 IEEE32_SPEC_ARGS"
proof -
  have n: "\<not> isunordered 0xC0000000 0xBF800000 IEEE32_SPEC_ARGS"
    by (simp add: isunordered_def IEEE32_SPEC_ARGS_def)
  have "format_ok IEEE32_SPEC_ARGS" "pattern_of IEEE32_SPEC_ARGS 0xC0000000" "pattern_of IEEE32_SPEC_ARGS 0xBF800000"
    and h: "has_one IEEE32_SPEC_ARGS" "has_subnorm IEEE32_SPEC_ARGS"
    by (simp_all add: format_ok_def pattern_of_def IEEE32_SPEC_ARGS_def)
  from comparisons_correct [OF this(1-3) n h] n show ?thesis by simp
qed

section \<open>Unordered operands\<close>

text \<open>The signalling NaNs are those with the top fraction bit clear.\<close>

lemma signaling_nan_iff:
  assumes "format_ok sp"
  shows "float_is_signaling_nan a sp \<longleftrightarrow> is_nan sp a \<and> fabs_bits sp a mod 2 ^ frac_bits sp < 2 ^ (frac_bits sp - 1)"
proof -
  let ?e = "exp_bits sp" and ?f = "frac_bits sp"
  obtain g where g: "?f = Suc g" using assms by (cases ?f) (auto simp: format_ok_def)
  have e64: "?e + 1 \<le> 64" "?e \<le> 64" "0 < ?e" using assms by (auto simp: format_ok_def)
  define x where "x = unat a"
  define q where "q = x div 2 ^ ?f mod 2 ^ ?e"
  define t where "t = x div 2 ^ g mod 2"
  have f: "fabs_bits sp a mod 2 ^ ?f = x mod 2 ^ ?f"
    by (simp add: fabs_bits_def x_def mod_mod_cancel le_imp_power_dvd)
  have xf: "x mod 2 ^ ?f = t * 2 ^ g + x mod 2 ^ g" by (simp add: g t_def mod_mult2_eq mult.commute [of 2])
  have "x div 2 ^ g mod 2 ^ (?e + 1) = 2 * q + t"
    using mod_mult2_eq [of "x div 2 ^ g" 2 "2 ^ ?e"] div_mult2_eq [of x "2 ^ g" 2]
    by (simp add: q_def t_def g mult.commute [of _ 2])
  then have sel: "unat (drop_bit (?f - 1) a AND ones (?e + 1)) = 2 * q + t"
    by (simp only: and_ones unat_drop_bit_div g x_def diff_Suc_1)
  have tq: "t < 2" "q < 2 ^ ?e" by (simp_all add: t_def q_def)
  have two: "unat (push_bit (?e + 1) 1 - 2 :: u64) = 2 * (2 ^ ?e - 1)"
  proof -
    have "push_bit (?e + 1) 1 - 2 = ones (?e + 1) - (1 :: u64)" by simp
    moreover have "unat (ones (?e + 1) :: u64) = 2 ^ (?e + 1) - 1" using e64 by (intro unat_ones) simp
    moreover have "(2 :: nat) \<le> 2 ^ ?e" using e64(3) by (cases ?e) auto
    ultimately show ?thesis using unat_diff_le [of 1 "ones (?e + 1) :: u64"] by simp
  qed
  have s: "(drop_bit (?f - 1) a AND ones (?e + 1)) = push_bit (?e + 1) 1 - 2 \<longleftrightarrow> 2 * q + t = 2 * (2 ^ ?e - 1)"
    using sel two by (metis unsigned_word_eqI)
  have low: "(a AND ones (?f - 1)) \<noteq> 0 \<longleftrightarrow> x mod 2 ^ g \<noteq> 0"
    by (simp only: word_eq_0_iff_unat and_ones g x_def diff_Suc_1)
  have mx: "extractFloatExp a ?e ?f = ones ?e \<longleftrightarrow> q = 2 ^ ?e - 1"
    using exp_max_iff [OF e64(2)] by (simp only: q_def x_def)
  have fr: "extractFloatFrac a ?f \<noteq> 0 \<longleftrightarrow> x mod 2 ^ ?f \<noteq> 0" by (simp add: word_eq_0_iff_unat unat_frac x_def)
  have "2 * q + t = 2 * (2 ^ ?e - 1) \<longleftrightarrow> q = 2 ^ ?e - 1 \<and> t = 0" using tq by presburger
  moreover have "t * 2 ^ g + x mod 2 ^ g < 2 ^ (?f - 1) \<longleftrightarrow> t = 0" using tq by (cases t) (auto simp: g)
  ultimately show ?thesis
    unfolding float_is_signaling_nan_def is_nan_def nan_operand_def s low mx fr f xf by auto
qed

text \<open>
  With a NaN among the operands every ordered comparison is false and raises the invalid
  flag; equality is false and raises it only for a signalling NaN (top fraction bit clear);
  \<^verbatim>\<open>__float_ltgt_quiet\<close> is the negation of equality, so that it holds.
\<close>

theorem comparisons_unordered:
  assumes "format_ok sp" "isunordered a b sp"
  shows "float_lt a b sp env = (False, float_raise float_flag_invalid env)
    \<and> float_le a b sp env = (False, float_raise float_flag_invalid env)
    \<and> float_gt a b sp env = (False, float_raise float_flag_invalid env)
    \<and> float_ge a b sp env = (False, float_raise float_flag_invalid env)
    \<and> float_eq a b sp env = (False, if float_is_signaling_nan a sp \<or> float_is_signaling_nan b sp
        then float_raise float_flag_invalid env else env)
    \<and> fst (float_ltgt_quiet a b sp env)
    \<and> (float_is_signaling_nan a sp \<longleftrightarrow> is_nan sp a \<and> fabs_bits sp a mod 2 ^ frac_bits sp < 2 ^ (frac_bits sp - 1))"
  using assms(2) signaling_nan_iff [OF assms(1)]
  by (auto simp: isunordered_iff is_nan_def float_lt_def float_le_def float_gt_def float_ge_def float_eq_def
      float_ltgt_quiet_def FloatLT_def FloatLE_def FloatEQ_def Let_def)

theorem comparisons_unordered_witness:
  "float_lt 0x7FC00000 0 IEEE32_SPEC_ARGS fenv_init = (False, float_raise float_flag_invalid fenv_init)"
proof -
  have "format_ok IEEE32_SPEC_ARGS" "isunordered 0x7FC00000 0 IEEE32_SPEC_ARGS"
    by (simp_all add: format_ok_def isunordered_def IEEE32_SPEC_ARGS_def)
  from comparisons_unordered [OF this] show ?thesis by simp
qed

end
