(* ===== verification/FloatRound.thy ===== *)
theory FloatRound
  imports FloatCompare
begin

text \<open>
  Rounding and packing, \<^verbatim>\<open>__roundAndPackFloat32\<close> and \<^verbatim>\<open>__roundAndPackFloat64\<close> of
  \<^verbatim>\<open>etc/libbambu/softfloat/softfloat.c\<close>: the program, rounding of numbers in the four modes, and
  the theorem that the word-level steps compute it.
  Exponents, 32-bit signed in the source, are integers; where one of them is compared as
  unsigned or cut to 16 bits the reduction is written out.
\<close>

section \<open>The program\<close>

text \<open>The increment of the current rounding mode, below the \<open>ext\<close> bits to be rounded off.\<close>

definition roundIncrement :: "fenv \<Rightarrow> bool \<Rightarrow> nat \<Rightarrow> 'a::len word" where
  "roundIncrement env zSign ext =
    (let mode = float_rounding_mode env
     in if mode = float_round_nearest_even then push_bit (ext - 1) 1
        else if mode = float_round_to_zero then 0
        else if zSign then (if mode = float_round_up then 0 else ones ext)
        else (if mode = float_round_down then 0 else ones ext))"

definition int16 :: "int \<Rightarrow> int" where
  "int16 x = (x + 2 ^ 15) mod 2 ^ 16 - 2 ^ 15"

text \<open>The last part of both routines: rounding \<open>zSig\<close> and packing.\<close>

definition roundPack32 :: "fenv \<Rightarrow> bool \<Rightarrow> int \<Rightarrow> u32 \<Rightarrow> u32 \<Rightarrow> u32 \<Rightarrow> nat \<Rightarrow> nat \<Rightarrow> u32 \<times> fenv" where
  "roundPack32 env zSign zExp zSig roundInc roundBits eb fb =
    (let ext = 30 - fb;
         env = (if roundBits \<noteq> 0 then float_raise float_flag_inexact env else env);
         zSig = drop_bit ext (zSig + roundInc);
         zSig = zSig AND NOT (of_bool (roundBits XOR push_bit (ext - 1) 1 = 0
                                       \<and> float_rounding_mode env = float_round_nearest_even));
         zExp = (if zSig = 0 then 0 else zExp)
     in (packFloat32 zSign (of_int zExp) zSig eb fb, env))"

definition roundAndPackFloat32 ::
  "fenv \<Rightarrow> bool \<Rightarrow> int \<Rightarrow> u32 \<Rightarrow> nat \<Rightarrow> nat \<Rightarrow> nat \<Rightarrow> bool \<Rightarrow> u32 \<times> fenv" where
  "roundAndPackFloat32 env zSign zExp zSig eb fb exc subn =
    (let ext = 30 - fb; e_max = 2 ^ eb - 1 :: int;
         roundInc = roundIncrement env zSign ext;
         roundBits = zSig AND ones ext;
         limit = e_max - (if exc \<noteq> FLOAT_EXC_STD then 2 else 1)
     in if limit mod 2 ^ 32 \<le> zExp mod 2 ^ 32 then
          (if limit < zExp \<or> zExp = limit \<and> sint (zSig + roundInc) < 0 then
             ((push_bit (eb + fb) (of_bool zSign) OR push_bit fb (of_int e_max)
               OR (push_bit fb (of_bool (\<not> exc \<noteq> FLOAT_EXC_STD)) - of_bool (\<not> exc \<noteq> FLOAT_EXC_STD)))
              - of_bool (roundInc = 0),
              float_raise (float_flag_overflow OR float_flag_inexact) env)
           else if zExp < 0 then
             (if subn then
                (let isTiny = float_detect_tininess env = float_tininess_before_rounding \<or> zExp < - 1
                       \<or> zSig + roundInc < 0x80000000;
                     zSig = shift32RightJamming zSig (int16 (- zExp));
                     roundBits = zSig AND ones ext;
                     env = (if isTiny \<and> roundBits \<noteq> 0 then float_raise float_flag_underflow env else env)
                 in roundPack32 env zSign 0 zSig roundInc roundBits eb fb)
              else (push_bit (eb + fb) (of_bool zSign), env))
           else roundPack32 env zSign zExp zSig roundInc roundBits eb fb)
        else roundPack32 env zSign zExp zSig roundInc roundBits eb fb)"

definition roundPack64 :: "fenv \<Rightarrow> bool \<Rightarrow> int \<Rightarrow> u64 \<Rightarrow> u64 \<Rightarrow> u64 \<Rightarrow> nat \<Rightarrow> nat \<Rightarrow> u64 \<times> fenv" where
  "roundPack64 env zSign zExp zSig roundInc roundBits eb fb =
    (let ext = 62 - fb;
         env = (if roundBits \<noteq> 0 then float_raise float_flag_inexact env else env);
         zSig = drop_bit ext (zSig + roundInc);
         zSig = zSig AND NOT (of_bool (roundBits XOR push_bit (ext - 1) 1 = 0
                                       \<and> float_rounding_mode env = float_round_nearest_even));
         zExp = (if zSig = 0 then 0 else zExp)
     in (packFloat64 zSign (of_int zExp) zSig eb fb, env))"

definition roundAndPackFloat64 ::
  "fenv \<Rightarrow> bool \<Rightarrow> int \<Rightarrow> u64 \<Rightarrow> nat \<Rightarrow> nat \<Rightarrow> nat \<Rightarrow> bool \<Rightarrow> u64 \<times> fenv" where
  "roundAndPackFloat64 env zSign zExp zSig eb fb exc subn =
    (let ext = 62 - fb; e_max = 2 ^ eb - 1 :: int;
         roundInc = roundIncrement env zSign ext;
         roundBits = zSig AND ones ext;
         limit = e_max - (if exc = FLOAT_EXC_STD then 2 else 1)
     in if limit mod 2 ^ 32 \<le> zExp mod 2 ^ 32 then
          (if limit < zExp \<or> zExp = limit \<and> sint (zSig + roundInc) < 0 then
             ((push_bit (eb + fb) (of_bool zSign) OR push_bit fb (of_int e_max)
               OR (push_bit fb (of_bool (exc \<noteq> FLOAT_EXC_STD)) - of_bool (exc \<noteq> FLOAT_EXC_STD)))
              - of_bool (roundInc = 0),
              float_raise (float_flag_overflow OR float_flag_inexact) env)
           else if zExp < 0 then
             (if subn then
                (let isTiny = float_detect_tininess env = float_tininess_before_rounding \<or> zExp < - 1
                       \<or> zSig + roundInc < 0x8000000000000000;
                     zSig = shift64RightJamming zSig (int16 (- zExp));
                     roundBits = zSig AND ones ext;
                     env = (if isTiny \<and> roundBits \<noteq> 0 then float_raise float_flag_underflow env else env)
                 in roundPack64 env zSign 0 zSig roundInc roundBits eb fb)
              else (push_bit (eb + fb) (of_bool zSign), env))
           else roundPack64 env zSign zExp zSig roundInc roundBits eb fb)
        else roundPack64 env zSign zExp zSig roundInc roundBits eb fb)"


section \<open>Rounding a number to a multiple of a power of two\<close>

text \<open>\<open>round_nat mode sign x n\<close> is \<open>x / 2\<^sup>n\<close>, rounded to an integer in the given mode.\<close>

definition round_nat :: "int \<Rightarrow> bool \<Rightarrow> nat \<Rightarrow> nat \<Rightarrow> nat" where
  "round_nat mode s x n =
    (let q = x div 2 ^ n; r = x mod 2 ^ n;
         up = (if mode = float_round_nearest_even then 2 ^ n < 2 * r \<or> 2 * r = 2 ^ n \<and> odd q
               else if mode = float_round_to_zero then False
               else if s then mode \<noteq> float_round_up \<and> r \<noteq> 0
               else mode \<noteq> float_round_down \<and> r \<noteq> 0)
     in if up then q + 1 else q)"

text \<open>In the default mode no integer is nearer, and a tie goes to the even one.\<close>

lemma round_nat_nearest:
  fixes m :: int and s :: bool and x n :: nat
  defines "k \<equiv> int (round_nat float_round_nearest_even s x n)"
  shows "\<bar>k * 2 ^ n - int x\<bar> \<le> \<bar>m * 2 ^ n - int x\<bar>"
    and "\<bar>k * 2 ^ n - int x\<bar> = \<bar>m * 2 ^ n - int x\<bar> \<Longrightarrow> m \<noteq> k \<Longrightarrow> even k"
proof -
  define q r where "q = int (x div 2 ^ n)" and "r = int (x mod 2 ^ n)"
  have "int x = int (x div 2 ^ n * 2 ^ n + x mod 2 ^ n)" by (simp only: div_mult_mod_eq)
  then have x: "int x = q * 2 ^ n + r"
    unfolding q_def r_def by (simp only: of_nat_add of_nat_mult of_nat_power of_nat_numeral)
  have r: "0 \<le> r" "r < 2 ^ n" unfolding r_def by (simp_all add: zmod_int)
  have "(2 :: nat) ^ n < 2 * (x mod 2 ^ n) \<longleftrightarrow> 2 ^ n < 2 * r" "2 * (x mod 2 ^ n) = 2 ^ n \<longleftrightarrow> 2 * r = 2 ^ n"
    using of_nat_less_iff [of "2 ^ n" "2 * (x mod 2 ^ n)", where 'a = int]
      of_nat_eq_iff [of "2 * (x mod 2 ^ n)" "2 ^ n", where 'a = int]
    by (simp_all only: r_def of_nat_mult of_nat_power of_nat_numeral)
  then have k: "k = (if 2 ^ n < 2 * r \<or> 2 * r = 2 ^ n \<and> odd q then q + 1 else q)"
    by (simp add: k_def round_nat_def Let_def q_def)
  have d: "\<bar>k * 2 ^ n - int x\<bar> = (if k = q then r else 2 ^ n - r)" using k x r by (auto simp: algebra_simps)
  have m: "m * 2 ^ n - int x = (m - q) * 2 ^ n - r" using x by (simp add: algebra_simps)
  have ml: "r + 2 ^ n \<le> \<bar>m * 2 ^ n - int x\<bar>" if "m < q"
  proof -
    have "(m - q) * 2 ^ n \<le> - 1 * 2 ^ n" using that by (intro mult_right_mono) auto
    then show ?thesis using r unfolding m by linarith
  qed
  have mg: "2 * 2 ^ n - r \<le> \<bar>m * 2 ^ n - int x\<bar>" if "q + 1 < m"
  proof -
    have "2 * 2 ^ n \<le> (m - q) * 2 ^ n" using that by (intro mult_right_mono) auto
    then show ?thesis unfolding m by linarith
  qed
  have me: "m = q \<Longrightarrow> \<bar>m * 2 ^ n - int x\<bar> = r" "m = q + 1 \<Longrightarrow> \<bar>m * 2 ^ n - int x\<bar> = 2 ^ n - r" using m r by auto
  define M where "M = \<bar>m * 2 ^ n - int x\<bar>"
  have M: "m < q \<and> r + 2 ^ n \<le> M \<or> m = q \<and> M = r \<or> m = q + 1 \<and> M = 2 ^ n - r \<or> q + 1 < m \<and> 2 * 2 ^ n - r \<le> M"
    using ml mg me unfolding M_def by (cases "m < q"; cases "m = q"; cases "m = q + 1") simp_all
  have K: "k = q \<and> (2 * r < 2 ^ n \<or> 2 * r = 2 ^ n \<and> even q) \<or> k = q + 1 \<and> (2 ^ n < 2 * r \<or> 2 * r = 2 ^ n \<and> odd q)"
    using k by (cases "2 * r" "2 ^ n :: int" rule: linorder_cases) auto
  show "\<bar>k * 2 ^ n - int x\<bar> \<le> \<bar>m * 2 ^ n - int x\<bar>"
    unfolding M_def [symmetric] using M K d r by (elim disjE conjE) simp_all
  show "\<bar>k * 2 ^ n - int x\<bar> = \<bar>m * 2 ^ n - int x\<bar> \<Longrightarrow> m \<noteq> k \<Longrightarrow> even k"
    unfolding M_def [symmetric] using M K d r by (elim disjE conjE) simp_all
qed

lemma jam_split:
  fixes x n ext :: nat
  assumes "1 \<le> ext"
  defines "u \<equiv> x div 2 ^ n mod 2 ^ ext" and "rm \<equiv> x mod 2 ^ n"
  shows "jam x n div 2 ^ ext = x div 2 ^ (ext + n)"
    and "jam x n mod 2 ^ ext = (if rm = 0 then u else if even u then u + 1 else u)"
proof -
  obtain k where k: "ext = Suc k" using assms(1) by (cases ext) auto
  define q where "q = x div 2 ^ n"
  define Q where "Q = q div 2 ^ ext"
  have q: "q = Q * 2 ^ ext + u" unfolding Q_def u_def q_def by (rule div_mult_mod_eq [symmetric])
  have ev: "even q \<longleftrightarrow> even u" unfolding q by (simp add: k)
  have u: "u < 2 ^ ext" by (simp add: u_def)
  have u1: "u + 1 < 2 ^ ext" if "even u" using that u by (auto simp: k elim!: evenE)
  define v where "v = (if rm = 0 then u else if even u then u + 1 else u)"
  have v: "v < 2 ^ ext" using u u1 by (simp add: v_def)
  have j: "jam x n = Q * 2 ^ ext + v"
    using q ev by (simp add: jam_def Let_def v_def rm_def q_def [symmetric])
  show "jam x n div 2 ^ ext = x div 2 ^ (ext + n)"
    unfolding j using v by (simp add: Q_def q_def power_add mult.commute [of "2 ^ ext"] div_mult2_eq)
  show "jam x n mod 2 ^ ext = (if rm = 0 then u else if even u then u + 1 else u)"
    unfolding j using v by (simp add: v_def)
qed

text \<open>Rounding after a jamming shift is rounding once.\<close>

lemma round_jam:
  assumes "2 \<le> ext"
  shows "round_nat mode s (jam x n) ext = round_nat mode s x (ext + n)"
    and "jam x n mod 2 ^ ext = 0 \<longleftrightarrow> x mod 2 ^ (ext + n) = 0"
proof -
  obtain k where k: "ext = Suc (Suc k)" using assms by (metis One_nat_def Suc_1 Suc_le_D Suc_le_mono)
  define u rm where "u = x div 2 ^ n mod 2 ^ ext" and "rm = x mod 2 ^ n"
  define v where "v = (if rm = 0 then u else if even u then u + 1 else u)"
  have js: "jam x n div 2 ^ ext = x div 2 ^ (ext + n)" "jam x n mod 2 ^ ext = v"
    using jam_split [of ext x n] assms by (auto simp: u_def rm_def v_def)
  have r: "x mod 2 ^ (ext + n) = u * 2 ^ n + rm"
    using mod_mult2_eq [of x "2 ^ n" "2 ^ ext"] by (simp add: u_def rm_def power_add mult.commute)
  have rm: "rm < 2 ^ n" by (simp add: rm_def)
  define H where "H = (2 :: nat) ^ Suc k"
  have H: "even H" "(2 :: nat) ^ ext = 2 * H" "(2 :: nat) ^ (ext + n) = 2 * (H * 2 ^ n)"
    by (simp_all add: H_def k power_add)
  have gt: "H * 2 ^ n < u * 2 ^ n + rm \<longleftrightarrow> H < u \<or> H = u \<and> rm \<noteq> 0"
  proof -
    have "H < u \<Longrightarrow> H * 2 ^ n + 2 ^ n \<le> u * 2 ^ n" using mult_le_mono1 [of "H + 1" u "2 ^ n"] by (simp add: algebra_simps)
    moreover have "u < H \<Longrightarrow> u * 2 ^ n + 2 ^ n \<le> H * 2 ^ n" using mult_le_mono1 [of "u + 1" H "2 ^ n"] by (simp add: algebra_simps)
    ultimately show ?thesis using rm by (cases u H rule: linorder_cases) auto
  qed
  have eq: "u * 2 ^ n + rm = H * 2 ^ n \<longleftrightarrow> u = H \<and> rm = 0"
  proof
    assume a: "u * 2 ^ n + rm = H * 2 ^ n"
    then have "(u * 2 ^ n + rm) div 2 ^ n = H" "(u * 2 ^ n + rm) mod 2 ^ n = 0" by simp_all
    then show "u = H \<and> rm = 0" using rm by simp
  qed simp
  have v1: "H < v \<longleftrightarrow> H < u \<or> H = u \<and> rm \<noteq> 0" "v = H \<longleftrightarrow> u = H \<and> rm = 0" "v = 0 \<longleftrightarrow> u = 0 \<and> rm = 0"
    unfolding v_def using H(1) by presburger+
  have z: "u * 2 ^ n + rm = 0 \<longleftrightarrow> u = 0 \<and> rm = 0" by simp
  show "jam x n mod 2 ^ ext = 0 \<longleftrightarrow> x mod 2 ^ (ext + n) = 0" unfolding js r z v1(3) ..
  have c: "2 ^ ext < 2 * v \<longleftrightarrow> 2 ^ (ext + n) < 2 * (u * 2 ^ n + rm)" "2 * v = 2 ^ ext \<longleftrightarrow> 2 * (u * 2 ^ n + rm) = 2 ^ (ext + n)"
    unfolding H(2,3) nat_mult_less_cancel1 [OF pos2] nat_mult_eq_cancel1 [OF pos2] gt eq v1 by blast+
  show "round_nat mode s (jam x n) ext = round_nat mode s x (ext + n)"
    unfolding round_nat_def js r Let_def c z v1(3) by simp
qed

section \<open>The word-level rounding\<close>

lemma unat_and_not: "unat (w AND NOT (of_bool c) :: 'a::len word) = (if c \<and> odd (unat w) then unat w - 1 else unat w)"
proof (cases c)
  case True
  have "(w AND NOT 1) + (w AND 1) = (w AND NOT 1) OR (w AND 1)"
    by (rule disjunctive_add_eq_or) (simp add: and.left_commute and.assoc)
  also have "\<dots> = w" by (intro bit_word_eqI) (auto simp: bit_simps)
  finally have "w AND NOT 1 = w - (w AND 1)" by (simp add: algebra_simps)
  moreover have "unat (w AND 1) = unat w mod 2"
    using and_ones [of w 1] by (simp only: ones_mask mask_Suc_0 One_nat_def) simp
  ultimately have "unat (w AND NOT 1) = unat w - unat w mod 2" using unat_diff_le [of "w AND 1" w] by simp
  then show ?thesis using True by (simp add: odd_iff_mod_2_eq_one even_iff_mod_2_eq_zero)
qed simp

lemma xor_eq_0_iff: "a XOR b = 0 \<longleftrightarrow> a = (b :: 'a::len word)"
  by (auto simp: bit_eq_iff bit_simps)

lemma increment_div:
  fixes x :: nat
  shows "(x + (2 ^ n - 1)) div 2 ^ n = x div 2 ^ n + of_bool (x mod 2 ^ n \<noteq> 0)"
    and "1 \<le> n \<Longrightarrow> (x + 2 ^ (n - 1)) div 2 ^ n = x div 2 ^ n + of_bool (2 ^ n \<le> 2 * (x mod 2 ^ n))"
proof -
  define P where "P = (2 :: nat) ^ n"
  define q r where "q = x div P" and "r = x mod P"
  have x: "x = q * P + r" unfolding q_def r_def by (rule div_mult_mod_eq [symmetric])
  have r: "r < P" "0 < P" by (simp_all add: P_def r_def)
  have *: "(q * P + s) div P = q + s div P" for s using r by simp
  have "(r + (P - 1)) div P = of_bool (r \<noteq> 0)"
    using r by (cases "r = 0") (auto simp: div_if)
  then show "(x + (2 ^ n - 1)) div 2 ^ n = x div 2 ^ n + of_bool (x mod 2 ^ n \<noteq> 0)"
  proof -
    have "x + (P - 1) = q * P + (r + (P - 1))" using x by simp
    then show ?thesis unfolding P_def [symmetric] q_def [symmetric] r_def [symmetric]
      using * [of "r + (P - 1)"] \<open>(r + (P - 1)) div P = of_bool (r \<noteq> 0)\<close> by (simp only:)
  qed
  assume "1 \<le> n"
  then have h: "2 * 2 ^ (n - 1) = P" by (simp add: P_def flip: power_Suc)
  have "(r + 2 ^ (n - 1)) div P = of_bool (P \<le> 2 * r)"
    using r h by (cases "P \<le> 2 * r") (auto simp: div_if)
  then show "(x + 2 ^ (n - 1)) div 2 ^ n = x div 2 ^ n + of_bool (2 ^ n \<le> 2 * (x mod 2 ^ n))"
  proof -
    have "x + 2 ^ (n - 1) = q * P + (r + 2 ^ (n - 1))" using x by simp
    then show ?thesis unfolding P_def [symmetric] q_def [symmetric] r_def [symmetric]
      using * [of "r + 2 ^ (n - 1)"] \<open>(r + 2 ^ (n - 1)) div P = of_bool (P \<le> 2 * r)\<close> by (simp only:)
  qed
qed

text \<open>Adding the increment, shifting and clearing the last bit of a tie rounds in the current mode.\<close>

lemma round_word:
  fixes z :: "'a::len word" and env :: fenv and s :: bool
  assumes e: "1 \<le> ext" "ext < LENGTH('a)" and z: "unat z + 2 ^ ext \<le> 2 ^ LENGTH('a)"
  defines "inc \<equiv> roundIncrement env s ext :: 'a word"
  shows "unat (drop_bit ext (z + inc)
      AND NOT (of_bool ((z AND ones ext) XOR push_bit (ext - 1) 1 = 0 \<and> float_rounding_mode env = float_round_nearest_even)))
    = round_nat (float_rounding_mode env) s (unat z) ext" (is "unat ?w = _")
proof -
  let ?m = "float_rounding_mode env" and ?x = "unat z"
  have u: "unat inc = (if ?m = float_round_nearest_even then 2 ^ (ext - 1)
      else if ?m = float_round_to_zero then 0
      else if s then (if ?m = float_round_up then 0 else 2 ^ ext - 1)
      else (if ?m = float_round_down then 0 else 2 ^ ext - 1))"
    using e unat_push_1 [of "ext - 1", where 'a = 'a] unat_ones [of ext, where 'a = 'a]
    by (simp add: inc_def roundIncrement_def Let_def del: push_bit_of_1)
  have pe: "(2 :: nat) ^ (ext - 1) < 2 ^ ext" "(0 :: nat) < 2 ^ ext" using e by simp_all
  have "unat inc < 2 ^ ext" using u pe by simp
  then have "unat z + unat inc < 2 ^ LENGTH('a)" using z by linarith
  then have s1: "unat (z + inc) = ?x + unat inc" by (simp add: unat_add_lem)
  have tie: "(z AND ones ext) XOR push_bit (ext - 1) 1 = 0 \<longleftrightarrow> 2 * (?x mod 2 ^ ext) = 2 ^ ext"
  proof -
    have "(z AND ones ext) XOR push_bit (ext - 1) 1 = 0 \<longleftrightarrow> z AND ones ext = push_bit (ext - 1) 1"
      by (rule xor_eq_0_iff)
    also have "\<dots> \<longleftrightarrow> ?x mod 2 ^ ext = 2 ^ (ext - 1)"
    proof -
      have "unat (push_bit (ext - 1) 1 :: 'a word) = 2 ^ (ext - 1)" using e by (intro unat_push_1) simp
      then show ?thesis by (simp only: word_unat_eq_iff and_ones)
    qed
    also have "\<dots> \<longleftrightarrow> 2 * (?x mod 2 ^ ext) = 2 ^ ext" using e by (cases ext) auto
    finally show ?thesis .
  qed
  have w: "unat ?w = (let v = (?x + unat inc) div 2 ^ ext
      in if 2 * (?x mod 2 ^ ext) = 2 ^ ext \<and> ?m = float_round_nearest_even \<and> odd v then v - 1 else v)"
    unfolding tie unat_and_not unat_drop_bit_div s1 Let_def by simp
  note i = increment_div(1) [of ?x ext] increment_div(2) [OF e(1), of ?x]
  show ?thesis
  proof (cases "?m = float_round_nearest_even")
    case True
    then show ?thesis unfolding w u round_nat_def Let_def using i by (auto simp: not_le)
  next
    case False
    then show ?thesis unfolding w u round_nat_def Let_def using i by auto
  qed
qed

section \<open>Packing\<close>

text \<open>Both packing steps are instances of one on words of any length.\<close>

definition round_pack :: "nat \<Rightarrow> fenv \<Rightarrow> bool \<Rightarrow> int \<Rightarrow> 'a::len word \<Rightarrow> 'a word \<Rightarrow> 'a word \<Rightarrow> nat \<Rightarrow> nat \<Rightarrow> 'a word \<times> fenv" where
  "round_pack ext env zSign zExp zSig roundInc roundBits eb fb =
    (let zSig = drop_bit ext (zSig + roundInc)
           AND NOT (of_bool (roundBits XOR push_bit (ext - 1) 1 = 0 \<and> float_rounding_mode env = float_round_nearest_even))
     in (push_bit (eb + fb) (of_bool zSign) + push_bit fb (of_int (if zSig = 0 then 0 else zExp)) + zSig,
         if roundBits \<noteq> 0 then float_raise float_flag_inexact env else env))"

lemma rounding_mode_raise [simp]: "float_rounding_mode (float_raise f env) = float_rounding_mode env"
  by (simp add: float_raise_def)

lemma roundIncrement_raise [simp]: "roundIncrement (float_raise f env) = roundIncrement env"
  by (intro ext) (simp add: roundIncrement_def)

lemma round_pack_64: "roundPack64 env zSign zExp zSig roundInc roundBits eb fb =
    round_pack (62 - fb) env zSign zExp zSig roundInc roundBits eb fb"
  by (simp add: roundPack64_def round_pack_def packFloat64_def Let_def)

lemma round_pack_32: "roundPack32 env zSign zExp zSig roundInc roundBits eb fb =
    round_pack (30 - fb) env zSign zExp zSig roundInc roundBits eb fb"
  by (simp add: roundPack32_def round_pack_def packFloat32_def Let_def)

lemma unat_pack:
  fixes z :: "'a::len word"
  assumes e: "0 \<le> e" and t: "of_bool s * 2 ^ n + nat e * 2 ^ fb + unat z < 2 ^ LENGTH('a)" and n: "n < LENGTH('a)"
  shows "unat (push_bit n (of_bool s) + push_bit fb (of_int e) + z) = of_bool s * 2 ^ n + nat e * 2 ^ fb + unat z"
proof -
  have p: "unat (push_bit n (of_bool s) :: 'a word) = of_bool s * 2 ^ n"
    using unat_push_1 [OF n] by (cases s) simp_all
  have "nat e * 2 ^ fb < 2 ^ LENGTH('a)" using t by linarith
  moreover have "nat e * 1 \<le> nat e * 2 ^ fb" by (intro mult_le_mono2) simp
  ultimately have "nat e < 2 ^ LENGTH('a)" by linarith
  moreover have "(of_int e :: 'a word) = of_nat (nat e)" using e by simp
  ultimately have "unat (of_int e :: 'a word) = nat e" by (simp only: unat_of_nat) simp
  then have q: "unat (push_bit fb (of_int e) :: 'a word) = nat e * 2 ^ fb"
    using \<open>nat e * 2 ^ fb < 2 ^ LENGTH('a)\<close> by (simp add: unat_push_bit_mult)
  have r: "unat (push_bit n (of_bool s) + push_bit fb (of_int e) :: 'a word) = of_bool s * 2 ^ n + nat e * 2 ^ fb"
    using t by (subst unat_add_lem [THEN iffD1]) (simp_all add: p q)
  show ?thesis using t by (subst unat_add_lem [THEN iffD1]) (simp_all add: r)
qed

text \<open>The step on a significand that needs no carry out of the format.\<close>

lemma round_pack_ok:
  fixes z :: "'a::len word"
  assumes e: "1 \<le> ext" "ext < LENGTH('a)" and z: "unat z + 2 ^ ext \<le> 2 ^ LENGTH('a)"
    and zx: "0 \<le> zExp" "round_nat (float_rounding_mode env) s (unat z) ext = 0 \<Longrightarrow> zExp = 0"
    and n: "eb + fb < LENGTH('a)"
    and t: "nat zExp * 2 ^ fb + round_nat (float_rounding_mode env) s (unat z) ext < 2 ^ (eb + fb)"
  shows "unat (fst (round_pack ext env s zExp z (roundIncrement env s ext) (z AND ones ext) eb fb)) =
      of_bool s * 2 ^ (eb + fb) + nat zExp * 2 ^ fb + round_nat (float_rounding_mode env) s (unat z) ext"
    and "snd (round_pack ext env s zExp z (roundIncrement env s ext) (z AND ones ext) eb fb) =
      (if unat z mod 2 ^ ext \<noteq> 0 then float_raise float_flag_inexact env else env)"
proof -
  let ?R = "round_nat (float_rounding_mode env) s (unat z) ext"
  define w where "w = drop_bit ext (z + roundIncrement env s ext)
      AND NOT (of_bool ((z AND ones ext) XOR push_bit (ext - 1) 1 = 0 \<and> float_rounding_mode env = float_round_nearest_even))"
  have w: "unat w = ?R" unfolding w_def by (rule round_word [OF e z])
  have zw: "(if w = 0 then 0 else zExp) = zExp" using zx(2) w by (auto simp: word_eq_0_iff_unat)
  have "(2 :: nat) ^ (eb + fb) + 2 ^ (eb + fb) \<le> 2 ^ LENGTH('a)"
    using n power_increasing [of "eb + fb + 1" "LENGTH('a)" "2 :: nat"] by simp
  then have "of_bool s * 2 ^ (eb + fb) + nat zExp * 2 ^ fb + unat w < 2 ^ LENGTH('a)" using t w by (cases s) simp_all
  from unat_pack [OF zx(1) this n]
  show "unat (fst (round_pack ext env s zExp z (roundIncrement env s ext) (z AND ones ext) eb fb)) =
      of_bool s * 2 ^ (eb + fb) + nat zExp * 2 ^ fb + ?R"
    unfolding round_pack_def Let_def w_def [symmetric] zw fst_conv w .
  show "snd (round_pack ext env s zExp z (roundIncrement env s ext) (z AND ones ext) eb fb) =
      (if unat z mod 2 ^ ext \<noteq> 0 then float_raise float_flag_inexact env else env)"
    unfolding round_pack_def Let_def snd_conv word_eq_0_iff_unat and_ones ..
qed

lemma round_nat_bounds:
  "round_nat mode s x n \<le> x div 2 ^ n + 1" "x div 2 ^ n \<le> round_nat mode s x n"
  by (auto simp: round_nat_def Let_def)

lemma round_nat_exact: "x mod 2 ^ n = 0 \<Longrightarrow> round_nat mode s x n = x div 2 ^ n"
  by (auto simp: round_nat_def Let_def)

text \<open>Without a carry out of the increment the rounded number stays below the bound.\<close>

lemma round_nat_no_carry:
  fixes z :: "'a::len word"
  assumes e: "1 \<le> ext" "ext < LENGTH('a)" and z: "unat z + 2 ^ ext \<le> 2 ^ LENGTH('a)"
    and c: "unat (z + roundIncrement env s ext) < B * 2 ^ ext"
  shows "round_nat (float_rounding_mode env) s (unat z) ext < B"
proof -
  have "round_nat (float_rounding_mode env) s (unat z) ext \<le> unat (z + roundIncrement env s ext) div 2 ^ ext"
    unfolding round_word [OF e z, symmetric] unat_and_not unat_drop_bit_div by auto
  also have "\<dots> < B" using c by (simp add: less_mult_imp_div_less)
  finally show ?thesis .
qed

lemma sint_nonneg_iff: "0 \<le> sint (w :: 'a::len word) \<longleftrightarrow> unat w < 2 ^ (LENGTH('a) - 1)"
proof -
  have "bit w (LENGTH('a) - 1) \<longleftrightarrow> \<not> unat w < 2 ^ (LENGTH('a) - 1)"
  proof -
    have "unat w < 2 * 2 ^ (LENGTH('a) - 1)" using unat_less_exp [of w] by (simp flip: power_Suc)
    then have "unat w div 2 ^ (LENGTH('a) - 1) = of_bool (\<not> unat w < 2 ^ (LENGTH('a) - 1))"
      by (auto simp: le_div_geq div_if)
    moreover have "bit w (LENGTH('a) - 1) = bit (unat w) (LENGTH('a) - 1)" by (simp add: bit_unsigned_iff)
    ultimately show ?thesis by (simp add: bit_iff_odd)
  qed
  then show ?thesis by (simp add: sint_uint signed_take_bit_nonnegative_iff bit_uint_iff)
qed

lemma sint_unat: "unat w < 2 ^ (LENGTH('a) - 1) \<Longrightarrow> sint (w :: 'a::len word) = int (unat w)"
proof -
  assume "unat w < 2 ^ (LENGTH('a) - 1)"
  then have "int (unat w) < int (2 ^ (LENGTH('a) - 1))" by (simp only: of_nat_less_iff)
  then have l: "int (unat w) < 2 ^ (LENGTH('a) - 1)" by simp
  have "- (2 ^ (LENGTH('a) - 1)) \<le> (0 :: int)" by simp
  also have "0 \<le> int (unat w)" by simp
  finally show ?thesis using l signed_take_bit_int_eq_self [of "LENGTH('a) - 1" "int (unat w)"]
    by (simp only: sint_uint uint_nat One_nat_def)
qed

section \<open>Rounding to the format\<close>

lemma int16_small: "0 \<le> x \<Longrightarrow> x < 2 ^ 15 \<Longrightarrow> int16 x = x"
  by (simp add: int16_def)

lemma mod_neg_32: "- (2 ^ 31) \<le> x \<Longrightarrow> x < 0 \<Longrightarrow> x mod 2 ^ 32 = x + (2 ^ 32 :: int)"
  by (subst mod_add_self2 [symmetric], subst mod_pos_pos_trivial) simp_all

definition exp_limit :: "nat \<Rightarrow> nat \<Rightarrow> int" where
  "exp_limit eb exc = 2 ^ eb - 1 - (if exc = FLOAT_EXC_STD then 2 else 1)"

text \<open>The arguments of \<^verbatim>\<open>__roundAndPackFloat64\<close> as its comment asks for them, and not too large.\<close>

definition round_args :: "fenv \<Rightarrow> bool \<Rightarrow> int \<Rightarrow> u64 \<Rightarrow> nat \<Rightarrow> nat \<Rightarrow> nat \<Rightarrow> bool" where
  "round_args env s zExp z eb fb exc \<longleftrightarrow>
     2 \<le> eb \<and> eb \<le> 30 \<and> fb \<le> 60 \<and> eb + fb < 64 \<and> - (2 ^ 15) < zExp \<and> unat z < 2 ^ 63 \<and> (0 < zExp \<longrightarrow> 2 ^ 62 \<le> unat z)
     \<and> (zExp < exp_limit eb exc
        \<or> zExp = exp_limit eb exc \<and> unat (z + roundIncrement env s (62 - fb)) < 2 ^ 63)"

lemma round_args_total:
  assumes a: "round_args env s zExp z eb fb exc" and zx: "0 \<le> zExp"
  defines "R \<equiv> round_nat (float_rounding_mode env) s (unat z) (62 - fb)"
  shows "nat zExp * 2 ^ fb + R < 2 ^ (eb + fb)" "R = 0 \<Longrightarrow> zExp = 0"
proof -
  have p: "(2 :: nat) ^ 62 = 2 ^ fb * 2 ^ (62 - fb)" using a by (simp add: round_args_def flip: power_add)
  then have p1: "(2 :: nat) ^ 63 = 2 ^ (fb + 1) * 2 ^ (62 - fb)" by simp
  have b: "unat z < 2 ^ 63" using a by (simp add: round_args_def)
  have d: "unat z div 2 ^ (62 - fb) < 2 ^ (fb + 1)" using b unfolding p1 by (rule less_mult_imp_div_less)
  have R: "R \<le> 2 ^ (fb + 1)" using round_nat_bounds(1) [of "float_rounding_mode env" s "unat z" "62 - fb"] d
    by (simp add: R_def)
  have "zExp < exp_limit eb exc \<or> zExp = exp_limit eb exc \<and> R < 2 ^ (fb + 1)"
  proof (cases "zExp < exp_limit eb exc")
    case False
    then have l: "zExp = exp_limit eb exc" "unat (z + roundIncrement env s (62 - fb)) < 2 ^ (fb + 1) * 2 ^ (62 - fb)"
      using a unfolding p1 [symmetric] by (auto simp: round_args_def)
    have "(2 :: nat) ^ (62 - fb) \<le> 2 ^ 62" by (intro power_increasing) auto
    then have "unat z + 2 ^ (62 - fb) \<le> 2 ^ LENGTH(64)" using b by simp
    then have "R < 2 ^ (fb + 1)" unfolding R_def using a l(2)
      by (intro round_nat_no_carry) (auto simp: round_args_def)
    then show ?thesis using l(1) by simp
  qed simp
  then show "nat zExp * 2 ^ fb + R < 2 ^ (eb + fb)"
  proof
    assume "zExp < exp_limit eb exc"
    then have "int (nat zExp + 3) \<le> int (2 ^ eb)" using zx by (auto simp: exp_limit_def split: if_splits)
    then have "nat zExp + 3 \<le> 2 ^ eb" by (simp only: of_nat_le_iff)
    then have "(nat zExp + 3) * 2 ^ fb \<le> 2 ^ (eb + fb)" by (simp add: power_add mult_le_mono1)
    moreover have "(nat zExp + 3) * 2 ^ fb = nat zExp * 2 ^ fb + 2 ^ (fb + 1) + 2 ^ fb" by (simp add: algebra_simps)
    moreover have "(0 :: nat) < 2 ^ fb" by simp
    ultimately show ?thesis using R by linarith
  next
    assume l: "zExp = exp_limit eb exc \<and> R < 2 ^ (fb + 1)"
    then have "int (nat zExp + 2) \<le> int (2 ^ eb)" using zx by (auto simp: exp_limit_def split: if_splits)
    then have "nat zExp + 2 \<le> 2 ^ eb" by (simp only: of_nat_le_iff)
    then have "(nat zExp + 2) * 2 ^ fb \<le> 2 ^ (eb + fb)" by (simp only: power_add mult_le_mono1)
    then show ?thesis using l by (simp add: algebra_simps)
  qed
  have "2 ^ fb \<le> R" if "0 < zExp"
  proof -
    have "2 ^ fb * 2 ^ (62 - fb) \<le> unat z" using a that unfolding p [symmetric] by (simp add: round_args_def)
    then have "2 ^ fb \<le> unat z div 2 ^ (62 - fb)" by (simp add: less_eq_div_iff_mult_less_eq)
    then show ?thesis using round_nat_bounds(2) [of "unat z" "62 - fb"] le_trans unfolding R_def by blast
  qed
  then show "R = 0 \<Longrightarrow> zExp = 0" using zx by (cases "0 < zExp") auto
qed

text \<open>At a non-negative exponent the routine rounds and packs, whenever the sum of the fields stays within the format.\<close>

lemma roundAndPack64_packs:
  fixes z :: u64
  assumes f: "eb + fb < 64" "fb \<le> 60" and zx: "0 \<le> zExp"
    and no: "zExp < exp_limit eb exc \<or> zExp = exp_limit eb exc \<and> unat (z + roundIncrement env s (62 - fb)) < 2 ^ 63"
    and z: "unat z < 2 ^ 63"
  defines "R \<equiv> round_nat (float_rounding_mode env) s (unat z) (62 - fb)"
  assumes t: "nat zExp * 2 ^ fb + R < 2 ^ (eb + fb)" "R = 0 \<Longrightarrow> zExp = 0"
  shows "unat (fst (roundAndPackFloat64 env s zExp z eb fb exc sn)) = of_bool s * 2 ^ (eb + fb) + nat zExp * 2 ^ fb + R"
    and "snd (roundAndPackFloat64 env s zExp z eb fb exc sn) =
      (if unat z mod 2 ^ (62 - fb) \<noteq> 0 then float_raise float_flag_inexact env else env)"
proof -
  have l: "exp_limit eb exc = 2 ^ eb - 1 - (if exc = FLOAT_EXC_STD then 2 else 1)" by (rule exp_limit_def)
  have no': "\<not> (exp_limit eb exc < zExp \<or> zExp = exp_limit eb exc \<and> sint (z + roundIncrement env s (62 - fb)) < 0)"
    using no sint_nonneg_iff [of "z + roundIncrement env s (62 - fb)"] by auto
  have r: "roundAndPackFloat64 env s zExp z eb fb exc sn =
      round_pack (62 - fb) env s zExp z (roundIncrement env s (62 - fb)) (z AND ones (62 - fb)) eb fb"
    unfolding roundAndPackFloat64_def Let_def l [symmetric] if_not_P [OF no'] using zx by (simp add: round_pack_64)
  have e: "1 \<le> 62 - fb" "62 - fb < LENGTH(64)" "eb + fb < LENGTH(64)" using f by auto
  have "(2 :: nat) ^ (62 - fb) \<le> 2 ^ 62" by (intro power_increasing) auto
  then have z': "unat z + 2 ^ (62 - fb) \<le> 2 ^ LENGTH(64)" using z by simp
  note ok = round_pack_ok [OF e(1,2) z' zx, of env s, folded R_def, OF t(2) e(3) t(1)]
  show "unat (fst (roundAndPackFloat64 env s zExp z eb fb exc sn)) = of_bool s * 2 ^ (eb + fb) + nat zExp * 2 ^ fb + R"
    unfolding r by (rule ok(1))
  show "snd (roundAndPackFloat64 env s zExp z eb fb exc sn) =
      (if unat z mod 2 ^ (62 - fb) \<noteq> 0 then float_raise float_flag_inexact env else env)"
    unfolding r by (rule ok(2))
qed

lemma roundAndPack64_in_range:
  assumes a: "round_args env s zExp z eb fb exc" and zx: "0 \<le> zExp"
  defines "R \<equiv> round_nat (float_rounding_mode env) s (unat z) (62 - fb)"
  shows "unat (fst (roundAndPackFloat64 env s zExp z eb fb exc sn)) = of_bool s * 2 ^ (eb + fb) + nat zExp * 2 ^ fb + R"
    and "snd (roundAndPackFloat64 env s zExp z eb fb exc sn) =
      (if unat z mod 2 ^ (62 - fb) \<noteq> 0 then float_raise float_flag_inexact env else env)"
proof -
  have c: "eb + fb < 64" "fb \<le> 60" "unat z < 2 ^ 63"
    "zExp < exp_limit eb exc \<or> zExp = exp_limit eb exc \<and> unat (z + roundIncrement env s (62 - fb)) < 2 ^ 63"
    using a unfolding round_args_def by blast+
  note P = roundAndPack64_packs [OF c(1,2) zx c(4,3) round_args_total [OF a zx], folded R_def]
  show "unat (fst (roundAndPackFloat64 env s zExp z eb fb exc sn)) = of_bool s * 2 ^ (eb + fb) + nat zExp * 2 ^ fb + R"
    by (rule P(1))
  show "snd (roundAndPackFloat64 env s zExp z eb fb exc sn) =
      (if unat z mod 2 ^ (62 - fb) \<noteq> 0 then float_raise float_flag_inexact env else env)"
    by (rule P(2))
qed

text \<open>Below the normal range: the significand is shifted with jamming and rounded once.\<close>

lemma jam_le: "jam x n \<le> x div 2 ^ n + 1"
  by (simp add: jam_def Let_def)

lemma roundAndPack64_subnormal:
  assumes a: "round_args env s zExp z eb fb exc" and zx: "zExp < 0"
  defines "n \<equiv> 62 - fb + nat (- zExp)"
  defines "tiny \<equiv> float_detect_tininess env = float_tininess_before_rounding \<or> zExp < - 1
      \<or> unat (z + roundIncrement env s (62 - fb)) < 2 ^ 63"
  shows "unat (fst (roundAndPackFloat64 env s zExp z eb fb exc True)) =
      of_bool s * 2 ^ (eb + fb) + round_nat (float_rounding_mode env) s (unat z) n"
    and "snd (roundAndPackFloat64 env s zExp z eb fb exc True) =
      (if unat z mod 2 ^ n \<noteq> 0
       then float_raise float_flag_inexact (if tiny then float_raise float_flag_underflow env else env) else env)"
proof -
  let ?ext = "62 - fb" and ?k = "nat (- zExp)"
  have l: "exp_limit eb exc = 2 ^ eb - 1 - (if exc = FLOAT_EXC_STD then 2 else 1)" by (rule exp_limit_def)
  have le: "(2 :: int) ^ eb \<le> 2 ^ 30" "(4 :: int) \<le> 2 ^ eb"
    using a power_increasing [of eb 30 "2 :: int"] power_increasing [of 2 eb "2 :: int"] by (auto simp: round_args_def)
  have lim: "0 \<le> exp_limit eb exc" "exp_limit eb exc < 2 ^ 30" using le unfolding exp_limit_def by auto
  have no: "\<not> (exp_limit eb exc < zExp \<or> zExp = exp_limit eb exc \<and> sint (z + roundIncrement env s ?ext) < 0)"
    using lim zx by auto
  have zb: "- (2 ^ 15) < zExp" using a by (simp add: round_args_def)
  have yes: "exp_limit eb exc mod 2 ^ 32 \<le> zExp mod 2 ^ 32"
    using lim zb zx mod_neg_32 [of zExp] by simp
  define z' where "z' = shift64RightJamming z (- zExp)"
  have z': "unat z' = jam (unat z) ?k" unfolding z'_def using zx by (intro shift64_jam) simp
  define env' where "env' = (if tiny \<and> z' AND ones ?ext \<noteq> 0 then float_raise float_flag_underflow env else env)"
  have tn: "z + roundIncrement env s ?ext < 0x8000000000000000 \<longleftrightarrow> unat (z + roundIncrement env s ?ext) < 2 ^ 63"
    by (simp add: word_less_nat_alt)
  have m: "float_rounding_mode env' = float_rounding_mode env" "roundIncrement env' s ?ext = (roundIncrement env s ?ext :: u64)"
    by (simp_all add: env'_def)
  have r: "roundAndPackFloat64 env s zExp z eb fb exc True =
      round_pack ?ext env' s 0 z' (roundIncrement env' s ?ext) (z' AND ones ?ext) eb fb"
    unfolding roundAndPackFloat64_def Let_def l [symmetric] if_not_P [OF no] if_P [OF yes] if_P [OF zx] if_True
      int16_small [of "- zExp", OF _ ] tn m
    using zx zb int16_small [of "- zExp"]
    by (simp add: round_pack_64 z'_def [symmetric] env'_def tiny_def)
  have e: "1 \<le> ?ext" "2 \<le> ?ext" "?ext < LENGTH(64)" "eb + fb < LENGTH(64)" using a by (auto simp: round_args_def)
  have zd: "unat z div 2 ^ (d + ?k) < 2 ^ (62 - d)" if "d \<le> 62" for d
  proof (rule less_mult_imp_div_less)
    have "unat z < 2 ^ 63" using a by (simp add: round_args_def)
    also have "(2 :: nat) ^ 63 \<le> 2 ^ (62 - d + (d + ?k))" using that zx by (intro power_increasing) auto
    finally show "unat z < 2 ^ (62 - d) * 2 ^ (d + ?k)" by (simp only: power_add)
  qed
  have zl: "unat z' \<le> 2 ^ 62" using jam_le [of "unat z" ?k] zd [of 0] unfolding z' by simp
  have "(2 :: nat) ^ ?ext \<le> 2 ^ 62" by (intro power_increasing) auto
  then have z2: "unat z' + 2 ^ ?ext \<le> 2 ^ LENGTH(64)" using zl by simp
  have R: "round_nat (float_rounding_mode env') s (unat z') ?ext = round_nat (float_rounding_mode env) s (unat z) n"
    unfolding m z' n_def by (rule round_jam(1) [OF e(2)])
  have t: "nat 0 * 2 ^ fb + round_nat (float_rounding_mode env') s (unat z') ?ext < 2 ^ (eb + fb)"
  proof -
    have "round_nat (float_rounding_mode env) s (unat z) n \<le> unat z div 2 ^ n + 1" by (rule round_nat_bounds(1))
    moreover have "unat z div 2 ^ n < 2 ^ fb" using zd [of ?ext] a by (simp add: n_def round_args_def)
    moreover have "(2 :: nat) ^ fb < 2 ^ (eb + fb)" using a by (intro power_strict_increasing) (auto simp: round_args_def)
    ultimately have "round_nat (float_rounding_mode env) s (unat z) n < 2 ^ (eb + fb)" by linarith
    then show ?thesis unfolding R by simp
  qed
  note ok = round_pack_ok [OF e(1,3) z2 order_refl _ e(4) t]
  show "unat (fst (roundAndPackFloat64 env s zExp z eb fb exc True)) =
      of_bool s * 2 ^ (eb + fb) + round_nat (float_rounding_mode env) s (unat z) n"
    unfolding r using ok(1) R by simp
  have j: "unat z' mod 2 ^ ?ext = 0 \<longleftrightarrow> unat z mod 2 ^ n = 0" unfolding z' n_def by (rule round_jam(2) [OF e(2)])
  have b: "z' AND ones ?ext = 0 \<longleftrightarrow> unat z mod 2 ^ n = 0" unfolding word_eq_0_iff_unat and_ones j ..
  show "snd (roundAndPackFloat64 env s zExp z eb fb exc True) =
      (if unat z mod 2 ^ n \<noteq> 0
       then float_raise float_flag_inexact (if tiny then float_raise float_flag_underflow env else env) else env)"
  proof -
    have "snd (roundAndPackFloat64 env s zExp z eb fb exc True) =
        (if unat z' mod 2 ^ ?ext \<noteq> 0 then float_raise float_flag_inexact env' else env')"
      unfolding r by (rule ok(2)) simp
    then show ?thesis unfolding j env'_def b by simp
  qed
qed

section \<open>The value of a rounded result\<close>

text \<open>A significand added to an exponent field denotes the significand scaled by the exponent.\<close>

lemma pattern_mag_add:
  assumes R: "R \<le> 2 ^ (fb + 1)" and x: "2 ^ fb \<le> R \<or> x = 0"
  shows "pattern_mag fb (x * 2 ^ fb + R) = R * 2 ^ x"
proof -
  have d: "(x * 2 ^ fb + R) div 2 ^ fb = x + R div 2 ^ fb" "(x * 2 ^ fb + R) mod 2 ^ fb = R mod 2 ^ fb"
    by (simp_all add: add.commute)
  have "R < 2 ^ fb \<or> 2 ^ fb \<le> R \<and> R < 2 * 2 ^ fb \<or> R = 2 * 2 ^ fb" using R by auto
  then consider "R < 2 ^ fb" | "2 ^ fb \<le> R" "R < 2 * 2 ^ fb" | "R = 2 * 2 ^ fb" by blast
  then show ?thesis
  proof cases
    case 1
    then show ?thesis using x d by (simp add: pattern_mag_def fmag_def)
  next
    case 2
    then have "R div 2 ^ fb = 1" "R mod 2 ^ fb = R - 2 ^ fb" by (simp_all add: le_div_geq le_mod_geq)
    then show ?thesis using 2 d by (simp add: pattern_mag_def fmag_def)
  next
    case 3
    then show ?thesis using d by (simp add: pattern_mag_def fmag_def)
  qed
qed

lemma pack_value:
  assumes ok: "format_ok sp" "sign_spec sp = - 1"
    and u: "unat a = of_bool s * 2 ^ (exp_bits sp + frac_bits sp) + x * 2 ^ frac_bits sp + R"
    and t: "x * 2 ^ frac_bits sp + R < 2 ^ (exp_bits sp + frac_bits sp)"
    and R: "R \<le> 2 ^ (frac_bits sp + 1)" "2 ^ frac_bits sp \<le> R \<or> x = 0"
  shows "pattern_of sp a" "fsign sp a = s" "fabs_bits sp a = x * 2 ^ frac_bits sp + R"
    "fint sp a = (if s then - 1 else 1) * int (R * 2 ^ x)"
proof -
  let ?n = "exp_bits sp + frac_bits sp"
  define y where "y = x * 2 ^ frac_bits sp + R"
  have y: "y < 2 ^ ?n" "unat a = of_bool s * 2 ^ ?n + y" using t u by (simp_all add: y_def)
  show "pattern_of sp a" using y ok(2) by (cases s) (auto simp: pattern_of_def)
  have d: "unat a div 2 ^ ?n = of_bool s" "unat a mod 2 ^ ?n = y" using y by (cases s; simp)+
  show s: "fsign sp a = s"
    using ok d(1) by (simp add: fsign_def extractFloatSign_def word_eq_0_iff_unat unat_drop_bit_div)
  show f: "fabs_bits sp a = x * 2 ^ frac_bits sp + R" using d(2) by (simp add: fabs_bits_def y_def)
  show "fint sp a = (if s then - 1 else 1) * int (R * 2 ^ x)"
    unfolding fint_def s f pattern_mag_add [OF R] ..
qed

text \<open>
  C4. \<^verbatim>\<open>__roundAndPackFloat64\<close>, for every format it can serve, in all four rounding modes, and for
  arguments that do not overflow: the result has the given sign and the magnitude of the
  abstract input, rounded once to the precision that its exponent leaves (also below the normal
  range, where the significand is shifted first). The inexact flag is raised exactly when the
  input is not representable, and no other flag but underflow can change.
\<close>

theorem rounding_correct:
  assumes a: "round_args env s zExp z (exp_bits sp) (frac_bits sp) exc" and ok: "format_ok sp" "sign_spec sp = - 1"
  defines "n \<equiv> 62 - frac_bits sp + nat (- zExp)"
  defines "res \<equiv> roundAndPackFloat64 env s zExp z (exp_bits sp) (frac_bits sp) exc True"
  shows "fval sp (fst res) = (if s then - 1 else 1) * real (round_nat (float_rounding_mode env) s (unat z) n)
        * 2 powi (int (nat zExp) + exp_bias sp + 1 - int (frac_bits sp))
    \<and> float_exception_flags (snd res) OR float_flag_underflow = float_exception_flags env OR float_flag_underflow
        OR (if unat z mod 2 ^ n \<noteq> 0 then float_flag_inexact else 0)"
proof -
  let ?eb = "exp_bits sp" and ?fb = "frac_bits sp"
  define R where "R = round_nat (float_rounding_mode env) s (unat z) n"
  have zb: "unat z < 2 ^ 63" "?fb \<le> 60" using a by (auto simp: round_args_def)
  have u: "unat (fst res) = of_bool s * 2 ^ (?eb + ?fb) + nat zExp * 2 ^ ?fb + R"
  proof (cases "0 \<le> zExp")
    case True
    then show ?thesis using roundAndPack64_in_range(1) [OF a True] by (simp add: res_def R_def n_def)
  next
    case False
    then show ?thesis using roundAndPack64_subnormal(1) [OF a] by (simp add: res_def R_def n_def)
  qed
  have Rb: "R \<le> 2 ^ (?fb + 1)"
  proof -
    have "(2 :: nat) ^ 63 \<le> 2 ^ (?fb + 1 + n)" using zb(2) by (intro power_increasing) (auto simp: n_def)
    then have "unat z < 2 ^ (?fb + 1) * 2 ^ n" using zb(1) by (simp only: power_add)
    then have "unat z div 2 ^ n < 2 ^ (?fb + 1)" by (rule less_mult_imp_div_less)
    then show ?thesis using round_nat_bounds(1) [of "float_rounding_mode env" s "unat z" n] by (simp add: R_def)
  qed
  have Rn: "2 ^ ?fb \<le> R \<or> nat zExp = 0"
  proof (cases "0 < zExp")
    case True
    then have "2 ^ ?fb * 2 ^ (62 - ?fb) \<le> unat z" using a zb(2) by (simp add: round_args_def flip: power_add)
    then have "2 ^ ?fb \<le> unat z div 2 ^ n" using True by (simp add: n_def less_eq_div_iff_mult_less_eq)
    then show ?thesis using round_nat_bounds(2) [of "unat z" n] le_trans unfolding R_def by blast
  qed simp
  have t: "nat zExp * 2 ^ ?fb + R < 2 ^ (?eb + ?fb)"
  proof (cases "0 \<le> zExp")
    case True
    then show ?thesis using round_args_total(1) [OF a True] by (simp add: R_def n_def)
  next
    case False
    then have "(2 :: nat) ^ 63 \<le> 2 ^ (?fb + n)" using zb(2) by (intro power_increasing) (auto simp: n_def)
    then have "unat z < 2 ^ ?fb * 2 ^ n" using zb(1) by (simp only: power_add)
    then have "unat z div 2 ^ n < 2 ^ ?fb" by (rule less_mult_imp_div_less)
    then have "R \<le> 2 ^ ?fb" using round_nat_bounds(1) [of "float_rounding_mode env" s "unat z" n] by (simp add: R_def)
    also have "(2 :: nat) ^ ?fb < 2 ^ (?eb + ?fb)" using ok by (intro power_strict_increasing) (auto simp: format_ok_def)
    finally show ?thesis using False by simp
  qed
  have v: "fval sp (fst res) = (if s then - 1 else 1) * real R * 2 powi (int (nat zExp) + exp_bias sp + 1 - int ?fb)"
  proof -
    have "2 powi (int (nat zExp) + exp_bias sp + 1 - int ?fb)
        = (2 :: real) ^ nat zExp * 2 powi (exp_bias sp + 1 - int ?fb)"
    proof -
      have "int (nat zExp) + exp_bias sp + 1 - int ?fb = int (nat zExp) + (exp_bias sp + 1 - int ?fb)" by simp
      then show ?thesis by (simp only: power_int_add power_int_of_nat zero_neq_numeral [symmetric] simp_thms)
    qed
    then show ?thesis unfolding fval_def pack_value(4) [OF ok u t Rb Rn] by simp
  qed
  have fl: "snd res = (if unat z mod 2 ^ n \<noteq> 0 then float_raise float_flag_inexact env else env)
      \<or> snd res = (if unat z mod 2 ^ n \<noteq> 0 then float_raise float_flag_inexact (float_raise float_flag_underflow env) else env)"
  proof (cases "0 \<le> zExp")
    case True
    then show ?thesis using roundAndPack64_in_range(2) [OF a True] by (simp add: res_def n_def)
  next
    case False
    then show ?thesis using roundAndPack64_subnormal(2) [OF a] by (simp add: res_def n_def)
  qed
  have "float_exception_flags (snd res) OR float_flag_underflow = float_exception_flags env OR float_flag_underflow
        OR (if unat z mod 2 ^ n \<noteq> 0 then float_flag_inexact else 0)"
    using fl by (elim disjE) (simp_all add: float_raise_def ac_simps)
  then show ?thesis using v by (simp add: R_def)
qed

theorem rounding_correct_witness:
  "fval IEEE64_SPEC_ARGS (fst (roundAndPackFloat64 fenv_init True 1023 (2 ^ 62 + 1) 11 52 FLOAT_EXC_STD True))
    = - (2 powi (1023 - 1023 + 1))"
proof -
  have "round_args fenv_init True 1023 (2 ^ 62 + 1) (exp_bits IEEE64_SPEC_ARGS) (frac_bits IEEE64_SPEC_ARGS) FLOAT_EXC_STD"
    "format_ok IEEE64_SPEC_ARGS" "sign_spec IEEE64_SPEC_ARGS = - 1"
    by (simp_all add: round_args_def format_ok_def IEEE64_SPEC_ARGS_def exp_limit_def exc_defs)
  from conjunct1 [OF rounding_correct [OF this]] show ?thesis
    by (simp add: IEEE64_SPEC_ARGS_def round_nat_def fenv_init_def round_mode_defs power_int_def power_divide)
qed

text \<open>
  Overflow in \<^verbatim>\<open>__roundAndPackFloat64\<close>: when the exponent is beyond the largest of the format, or
  is the largest and the increment carries out of the significand, the overflow and inexact flags
  are raised and, with the IEEE exceptions, the result is the infinity of that sign, or the
  largest finite number when the mode rounds towards zero on that side.
\<close>

theorem rounding_overflow:
  assumes "exp_limit eb FLOAT_EXC_STD < zExp
      \<or> zExp = exp_limit eb FLOAT_EXC_STD \<and> 2 ^ 63 \<le> unat (z + roundIncrement env s (62 - fb))"
    and "2 \<le> eb" "eb \<le> 30" "zExp < 2 ^ 31"
  shows "roundAndPackFloat64 env s zExp z eb fb FLOAT_EXC_STD sn =
    ((push_bit (eb + fb) (of_bool s) OR push_bit fb (ones eb)) - of_bool (roundIncrement env s (62 - fb) = (0 :: u64)),
     float_raise (float_flag_overflow OR float_flag_inexact) env)"
proof -
  have l: "exp_limit eb FLOAT_EXC_STD = 2 ^ eb - 1 - (if FLOAT_EXC_STD = FLOAT_EXC_STD then 2 else 1)"
    by (rule exp_limit_def)
  have le: "(2 :: int) ^ eb \<le> 2 ^ 30" "(4 :: int) \<le> 2 ^ eb"
    using assms power_increasing [of eb 30 "2 :: int"] power_increasing [of 2 eb "2 :: int"] by auto
  have lim: "0 \<le> exp_limit eb FLOAT_EXC_STD" "exp_limit eb FLOAT_EXC_STD < 2 ^ 30" using le unfolding exp_limit_def by auto
  have c: "exp_limit eb FLOAT_EXC_STD < zExp
      \<or> zExp = exp_limit eb FLOAT_EXC_STD \<and> sint (z + roundIncrement env s (62 - fb)) < 0"
    using assms(1) sint_nonneg_iff [of "z + roundIncrement env s (62 - fb)"] by auto
  have yes: "exp_limit eb FLOAT_EXC_STD mod 2 ^ 32 \<le> zExp mod 2 ^ 32" using c lim assms(4) by auto
  have o: "of_int (2 ^ eb - 1) = (ones eb :: u64)" by simp
  show ?thesis
    unfolding roundAndPackFloat64_def Let_def l [symmetric] if_P [OF c] if_P [OF yes] o by simp
qed

theorem rounding_overflow_witness:
  "fst (roundAndPackFloat64 fenv_init True 2046 (2 ^ 62) 11 52 FLOAT_EXC_STD True) = 0xFFF0000000000000"
proof -
  have "exp_limit 11 FLOAT_EXC_STD < 2046 \<or> (2046 :: int) = exp_limit 11 FLOAT_EXC_STD
      \<and> 2 ^ 63 \<le> unat (2 ^ 62 + roundIncrement fenv_init True (62 - 52) :: u64)"
    by (simp add: exp_limit_def)
  from rounding_overflow [OF this, of True] show ?thesis
    by (simp add: roundIncrement_def fenv_init_def)
qed

end
