(* ===== verification/FloatClass.thy ===== *)
theory FloatClass
  imports FloatCompare
begin

text \<open>
  Classification, quiet comparison and sign manipulation of bit patterns: the kernels of
  \<^verbatim>\<open>etc/libbambu/softfloat/builtins.h\<close>, \<^verbatim>\<open>libm/hls/kt_fabs.h\<close> and \<^verbatim>\<open>libm/hls/kt_copysign.h\<close>, and their
  instances for a custom format (\<^verbatim>\<open>softfloat/*.c\<close>) and for single and double precision
  (\<^verbatim>\<open>builtins/*.c\<close>, \<^verbatim>\<open>libm/hls\<close>). A \<^verbatim>\<open>double\<close> is its 64-bit and a \<^verbatim>\<open>float\<close> its 32-bit pattern, which
  is what \<^verbatim>\<open>asuint64\<close>, \<^verbatim>\<open>asuint\<close> and their inverses read and write.
\<close>

section \<open>The kernels\<close>

definition kernel_fpclassify :: "u64 \<Rightarrow> tfspec \<Rightarrow> nat" where
  "kernel_fpclassify x sp =
    (let xSig = x AND ones (frac_bits sp);
         xExp = drop_bit (frac_bits sp) x AND ones (exp_bits sp);
         expNull = xExp = 0; sigNull = xSig = 0;
         expMax = exc_mode sp = FLOAT_EXC_STD \<and> xExp = ones (exp_bits sp)
     in of_bool (has_one sp \<and> \<not> expNull \<and> \<not> expMax) * 4 + of_bool expNull * 2
        + of_bool ((has_subnorm sp \<and> \<not> sigNull \<and> expNull) \<or> (sigNull \<and> expMax)))"

definition llvm_kernel_fpclassify :: "u64 \<Rightarrow> u32 \<Rightarrow> tfspec \<Rightarrow> bool" where
  "llvm_kernel_fpclassify x msk sp =
    (let xSig = x AND ones (frac_bits sp);
         xExp = drop_bit (frac_bits sp) x AND ones (exp_bits sp);
         signNeg = sign_spec sp \<noteq> 0; expZero = xExp = 0; fracZero = xSig = 0;
         expMax = exc_mode sp = FLOAT_EXC_STD \<and> xExp = ones (exp_bits sp);
         quietBit = (xSig AND ones (frac_bits sp - 1)) \<noteq> 0;
         isZero = expZero \<and> fracZero; isSub = expZero \<and> \<not> fracZero;
         isNorm = \<not> expZero \<and> \<not> expMax; isInf = expMax \<and> fracZero;
         isNaN = expMax \<and> \<not> fracZero; isQNaN = isNaN \<and> quietBit; isSNaN = isNaN \<and> \<not> quietBit
     in (msk AND 0x0001 \<noteq> 0 \<and> isSNaN) \<or> (msk AND 0x0002 \<noteq> 0 \<and> isQNaN)
        \<or> (msk AND 0x0004 \<noteq> 0 \<and> signNeg \<and> isInf) \<or> (msk AND 0x0008 \<noteq> 0 \<and> signNeg \<and> isNorm)
        \<or> (msk AND 0x0010 \<noteq> 0 \<and> signNeg \<and> isSub) \<or> (msk AND 0x0020 \<noteq> 0 \<and> signNeg \<and> isZero)
        \<or> (msk AND 0x0040 \<noteq> 0 \<and> \<not> signNeg \<and> isZero) \<or> (msk AND 0x0080 \<noteq> 0 \<and> \<not> signNeg \<and> isSub)
        \<or> (msk AND 0x0100 \<noteq> 0 \<and> \<not> signNeg \<and> isNorm) \<or> (msk AND 0x0200 \<noteq> 0 \<and> \<not> signNeg \<and> isInf))"

definition kernel_inf :: "tfspec \<Rightarrow> u64" where
  "kernel_inf sp =
    (if exc_mode sp = FLOAT_EXC_STD then push_bit (frac_bits sp) (ones (exp_bits sp))
     else if exp_bits sp + frac_bits sp = 64 then - 1
     else ones (exp_bits sp + frac_bits sp))"

definition kernel_isfinite :: "u64 \<Rightarrow> tfspec \<Rightarrow> bool" where
  "kernel_isfinite x sp =
    (let e = drop_bit (frac_bits sp) x AND ones (exp_bits sp)
     in if exc_mode sp = FLOAT_EXC_STD then e \<noteq> ones (exp_bits sp) else True)"

text \<open>The test for a NaN operand that the quiet comparisons share, and the operand with its sign bit flipped.\<close>

definition kernel_nan_operand :: "u64 \<Rightarrow> u64 \<Rightarrow> tfspec \<Rightarrow> bool" where
  "kernel_nan_operand x y sp =
    (let e_max = ones (exp_bits sp);
         xExp = drop_bit (frac_bits sp) x AND ones (exp_bits sp);
         yExp = drop_bit (frac_bits sp) y AND ones (exp_bits sp);
         xSig = x AND ones (frac_bits sp);
         ySig = y AND ones (frac_bits sp)
     in exc_mode sp = FLOAT_EXC_STD \<and> ((xExp = e_max \<and> xSig \<noteq> 0) \<or> (yExp = e_max \<and> ySig \<noteq> 0)))"

definition flip_sign :: "u64 \<Rightarrow> tfspec \<Rightarrow> u64" where
  "flip_sign x sp = x XOR push_bit (frac_bits sp + exp_bits sp) 1"

definition kernel_isgreater :: "u64 \<Rightarrow> u64 \<Rightarrow> tfspec \<Rightarrow> bool" where
  "kernel_isgreater x y sp \<longleftrightarrow> \<not> kernel_nan_operand x y sp \<and> flip_sign x sp > flip_sign y sp"

definition kernel_isgreaterequal :: "u64 \<Rightarrow> u64 \<Rightarrow> tfspec \<Rightarrow> bool" where
  "kernel_isgreaterequal x y sp \<longleftrightarrow> \<not> kernel_nan_operand x y sp \<and> flip_sign x sp \<ge> flip_sign y sp"

definition kernel_isinf :: "u64 \<Rightarrow> tfspec \<Rightarrow> bool" where
  "kernel_isinf x sp =
    (if exc_mode sp = FLOAT_EXC_STD
     then (x AND ones (exp_bits sp + frac_bits sp)) = push_bit (frac_bits sp) (ones (exp_bits sp))
     else False)"

definition kernel_isless :: "u64 \<Rightarrow> u64 \<Rightarrow> tfspec \<Rightarrow> bool" where
  "kernel_isless x y sp \<longleftrightarrow> \<not> kernel_nan_operand x y sp \<and> flip_sign x sp < flip_sign y sp"

definition kernel_islessequal :: "u64 \<Rightarrow> u64 \<Rightarrow> tfspec \<Rightarrow> bool" where
  "kernel_islessequal x y sp \<longleftrightarrow> \<not> kernel_nan_operand x y sp \<and> flip_sign x sp \<le> flip_sign y sp"

definition kernel_islessgreater :: "u64 \<Rightarrow> u64 \<Rightarrow> tfspec \<Rightarrow> bool" where
  "kernel_islessgreater x y sp \<longleftrightarrow> \<not> kernel_nan_operand x y sp \<and> x \<noteq> y"

definition kernel_isnan :: "u64 \<Rightarrow> tfspec \<Rightarrow> bool" where
  "kernel_isnan x sp =
    (if exc_mode sp = FLOAT_EXC_STD
     then (x AND ones (exp_bits sp + frac_bits sp)) > push_bit (frac_bits sp) (ones (exp_bits sp))
     else False)"

definition kernel_isnormal :: "u64 \<Rightarrow> tfspec \<Rightarrow> bool" where
  "kernel_isnormal x sp =
    (let e = drop_bit (frac_bits sp) x AND ones (exp_bits sp);
         expMax = exc_mode sp = FLOAT_EXC_STD \<and> e = ones (exp_bits sp);
         expNull = e = 0
     in \<not> has_one sp \<or> (\<not> expMax \<and> \<not> expNull))"

text \<open>The tag string of the two NaN generators is not read.\<close>

definition kernel_nan :: "string \<Rightarrow> tfspec \<Rightarrow> u64" where
  "kernel_nan tagb sp =
    (if frac_bits sp > 0 then push_bit (frac_bits sp - 1) (ones (exp_bits sp + 1)) else ones (exp_bits sp))"

definition kernel_nans :: "string \<Rightarrow> tfspec \<Rightarrow> u64" where
  "kernel_nans tagb sp =
    (if frac_bits sp > 1 then push_bit (frac_bits sp - 2) (push_bit 2 (ones (exp_bits sp)) OR 1)
     else if frac_bits sp = 1 then ones (exp_bits sp + 1)
     else ones (exp_bits sp))"

definition kernel_signbit :: "u64 \<Rightarrow> tfspec \<Rightarrow> int" where
  "kernel_signbit x sp =
    (if sign_spec sp = - 1 then uint (drop_bit (exp_bits sp + frac_bits sp) x AND 1) else sign_spec sp)"

definition kernel_copysign :: "u64 \<Rightarrow> u64 \<Rightarrow> tfspec \<Rightarrow> u64" where
  "kernel_copysign x y sp =
    (if sign_spec sp = - 1
     then (x AND ones (exp_bits sp + frac_bits sp)) OR (y AND push_bit (exp_bits sp + frac_bits sp) 1)
     else x)"

definition kernel_fabs :: "u64 \<Rightarrow> tfspec \<Rightarrow> u64" where
  "kernel_fabs x sp = ones (exp_bits sp + frac_bits sp) AND x"

section \<open>Instances for a custom format\<close>

definition tf_isless :: "u64 \<Rightarrow> u64 \<Rightarrow> tfspec \<Rightarrow> bool" where
  "tf_isless x y sp = kernel_isless x y sp"

definition tf_islessequal :: "u64 \<Rightarrow> u64 \<Rightarrow> tfspec \<Rightarrow> bool" where
  "tf_islessequal x y sp = kernel_islessequal x y sp"

definition tf_isgreater :: "u64 \<Rightarrow> u64 \<Rightarrow> tfspec \<Rightarrow> bool" where
  "tf_isgreater x y sp = kernel_isgreater x y sp"

definition tf_isgreaterequal :: "u64 \<Rightarrow> u64 \<Rightarrow> tfspec \<Rightarrow> bool" where
  "tf_isgreaterequal x y sp = kernel_isgreaterequal x y sp"

definition tf_islessgreater :: "u64 \<Rightarrow> u64 \<Rightarrow> tfspec \<Rightarrow> bool" where
  "tf_islessgreater x y sp = kernel_islessgreater x y sp"

definition tf_fpclassify :: "u64 \<Rightarrow> tfspec \<Rightarrow> nat" where
  "tf_fpclassify x sp = kernel_fpclassify x sp"

definition tf_isfinite :: "u64 \<Rightarrow> tfspec \<Rightarrow> bool" where
  "tf_isfinite x sp = kernel_isfinite x sp"

definition tf_isinf :: "u64 \<Rightarrow> tfspec \<Rightarrow> bool" where
  "tf_isinf x sp = kernel_isinf x sp"

definition tf_isnan :: "u64 \<Rightarrow> tfspec \<Rightarrow> bool" where
  "tf_isnan x sp = kernel_isnan x sp"

definition tf_isnormal :: "u64 \<Rightarrow> tfspec \<Rightarrow> bool" where
  "tf_isnormal x sp = kernel_isnormal x sp"

definition tf_signbit :: "u64 \<Rightarrow> tfspec \<Rightarrow> int" where
  "tf_signbit x sp = kernel_signbit x sp"

definition tf_nan :: "string \<Rightarrow> tfspec \<Rightarrow> u64" where
  "tf_nan tagb sp = kernel_nan tagb sp"

definition tf_nans :: "string \<Rightarrow> tfspec \<Rightarrow> u64" where
  "tf_nans tagb sp = kernel_nans tagb sp"

definition tf_inf :: "tfspec \<Rightarrow> u64" where
  "tf_inf sp = kernel_inf sp"

definition tf_infinity :: "tfspec \<Rightarrow> u64" where
  "tf_infinity sp = kernel_inf sp"

definition tf_huge_val :: "tfspec \<Rightarrow> u64" where
  "tf_huge_val sp = kernel_inf sp"

definition tf_finite :: "u64 \<Rightarrow> tfspec \<Rightarrow> bool" where
  "tf_finite x sp = kernel_isfinite x sp"

definition tf_copysign :: "u64 \<Rightarrow> u64 \<Rightarrow> tfspec \<Rightarrow> u64" where
  "tf_copysign x y sp = kernel_copysign x y sp"

definition tf_fabs :: "u64 \<Rightarrow> tfspec \<Rightarrow> u64" where
  "tf_fabs x sp = kernel_fabs x sp"

section \<open>Instances for double and single precision\<close>

definition builtin_isless :: "u64 \<Rightarrow> u64 \<Rightarrow> bool" where
  "builtin_isless x y = kernel_isless x y IEEE64_SPEC_ARGS"

definition builtin_islessf :: "u32 \<Rightarrow> u32 \<Rightarrow> bool" where
  "builtin_islessf x y = kernel_isless (ucast x) (ucast y) IEEE32_SPEC_ARGS"

definition builtin_islessequal :: "u64 \<Rightarrow> u64 \<Rightarrow> bool" where
  "builtin_islessequal x y = kernel_islessequal x y IEEE64_SPEC_ARGS"

definition builtin_islessequalf :: "u32 \<Rightarrow> u32 \<Rightarrow> bool" where
  "builtin_islessequalf x y = kernel_islessequal (ucast x) (ucast y) IEEE32_SPEC_ARGS"

definition builtin_isgreater :: "u64 \<Rightarrow> u64 \<Rightarrow> bool" where
  "builtin_isgreater x y = kernel_isgreater x y IEEE64_SPEC_ARGS"

definition builtin_isgreaterf :: "u32 \<Rightarrow> u32 \<Rightarrow> bool" where
  "builtin_isgreaterf x y = kernel_isgreater (ucast x) (ucast y) IEEE32_SPEC_ARGS"

definition builtin_isgreaterequal :: "u64 \<Rightarrow> u64 \<Rightarrow> bool" where
  "builtin_isgreaterequal x y = kernel_isgreaterequal x y IEEE64_SPEC_ARGS"

definition builtin_isgreaterequalf :: "u32 \<Rightarrow> u32 \<Rightarrow> bool" where
  "builtin_isgreaterequalf x y = kernel_isgreaterequal (ucast x) (ucast y) IEEE32_SPEC_ARGS"

definition builtin_islessgreater :: "u64 \<Rightarrow> u64 \<Rightarrow> bool" where
  "builtin_islessgreater x y = kernel_islessgreater x y IEEE64_SPEC_ARGS"

definition builtin_islessgreaterf :: "u32 \<Rightarrow> u32 \<Rightarrow> bool" where
  "builtin_islessgreaterf x y = kernel_islessgreater (ucast x) (ucast y) IEEE32_SPEC_ARGS"

definition builtin_isfinite :: "u64 \<Rightarrow> bool" where
  "builtin_isfinite d = kernel_isfinite d IEEE64_SPEC_ARGS"

definition builtin_isfinitef :: "u32 \<Rightarrow> bool" where
  "builtin_isfinitef f = kernel_isfinite (ucast f) IEEE32_SPEC_ARGS"

definition builtin_isinf :: "u64 \<Rightarrow> bool" where
  "builtin_isinf d = kernel_isinf d IEEE64_SPEC_ARGS"

definition builtin_isinff :: "u32 \<Rightarrow> bool" where
  "builtin_isinff f = kernel_isinf (ucast f) IEEE32_SPEC_ARGS"

definition builtin_isnan :: "u64 \<Rightarrow> bool" where
  "builtin_isnan d = kernel_isnan d IEEE64_SPEC_ARGS"

definition builtin_isnanf :: "u32 \<Rightarrow> bool" where
  "builtin_isnanf f = kernel_isnan (ucast f) IEEE32_SPEC_ARGS"

definition builtin_isnormal :: "u64 \<Rightarrow> bool" where
  "builtin_isnormal d = kernel_isnormal d IEEE64_SPEC_ARGS"

definition builtin_isnormalf :: "u32 \<Rightarrow> bool" where
  "builtin_isnormalf f = kernel_isnormal (ucast f) IEEE32_SPEC_ARGS"

definition builtin_signbit :: "u64 \<Rightarrow> int" where
  "builtin_signbit d = kernel_signbit d IEEE64_SPEC_ARGS"

definition builtin_signbitf :: "u32 \<Rightarrow> int" where
  "builtin_signbitf f = kernel_signbit (ucast f) IEEE32_SPEC_ARGS"

definition builtin_nan :: "string \<Rightarrow> u64" where
  "builtin_nan tagb = kernel_nan tagb IEEE64_SPEC_ARGS"

definition builtin_nanf :: "string \<Rightarrow> u32" where
  "builtin_nanf tagb = ucast (kernel_nan tagb IEEE32_SPEC_ARGS)"

definition builtin_nans :: "string \<Rightarrow> u64" where
  "builtin_nans tagb = kernel_nans tagb IEEE64_SPEC_ARGS"

definition builtin_nansf :: "string \<Rightarrow> u32" where
  "builtin_nansf tagb = ucast (kernel_nans tagb IEEE32_SPEC_ARGS)"

definition builtin_inf :: "u64" where
  "builtin_inf = kernel_inf IEEE64_SPEC_ARGS"

definition builtin_inff :: "u32" where
  "builtin_inff = ucast (kernel_inf IEEE32_SPEC_ARGS)"

definition builtin_infinity :: "u64" where
  "builtin_infinity = kernel_inf IEEE64_SPEC_ARGS"

definition builtin_infinityf :: "u32" where
  "builtin_infinityf = ucast (kernel_inf IEEE32_SPEC_ARGS)"

definition builtin_huge_val :: "u64" where
  "builtin_huge_val = kernel_inf IEEE64_SPEC_ARGS"

definition builtin_huge_valf :: "u32" where
  "builtin_huge_valf = ucast (kernel_inf IEEE32_SPEC_ARGS)"

definition fpclassifyd :: "u64 \<Rightarrow> nat" where
  "fpclassifyd d = kernel_fpclassify d IEEE64_SPEC_ARGS"

definition llvm_is_fpclass_d :: "u64 \<Rightarrow> u32 \<Rightarrow> bool" where
  "llvm_is_fpclass_d d msk = llvm_kernel_fpclassify d msk IEEE64_SPEC_ARGS"

definition fpclassifyf :: "u32 \<Rightarrow> nat" where
  "fpclassifyf f = kernel_fpclassify (ucast f) IEEE32_SPEC_ARGS"

definition llvm_is_fpclass_f :: "u32 \<Rightarrow> u32 \<Rightarrow> bool" where
  "llvm_is_fpclass_f f msk = llvm_kernel_fpclassify (ucast f) msk IEEE32_SPEC_ARGS"

definition copysign :: "u64 \<Rightarrow> u64 \<Rightarrow> u64" where
  "copysign x y = kernel_copysign x y IEEE64_SPEC_ARGS"

definition copysignf :: "u32 \<Rightarrow> u32 \<Rightarrow> u32" where
  "copysignf x y = ucast (kernel_copysign (ucast x) (ucast y) IEEE32_SPEC_ARGS)"

definition fabs :: "u64 \<Rightarrow> u64" where
  "fabs x = kernel_fabs x IEEE64_SPEC_ARGS"

definition fabsf :: "u32 \<Rightarrow> u32" where
  "fabsf x = ucast (kernel_fabs (ucast x) IEEE32_SPEC_ARGS)"


section \<open>The five classes\<close>

datatype fclass = FP_NAN | FP_INFINITE | FP_ZERO | FP_SUBNORMAL | FP_NORMAL

text \<open>The numbers \<^verbatim>\<open>math.h\<close> gives them.\<close>

fun fclass_code :: "fclass \<Rightarrow> nat" where
  "fclass_code FP_NAN = 0"
| "fclass_code FP_INFINITE = 1"
| "fclass_code FP_ZERO = 2"
| "fclass_code FP_SUBNORMAL = 3"
| "fclass_code FP_NORMAL = 4"

definition class_of :: "tfspec \<Rightarrow> u64 \<Rightarrow> fclass" where
  "class_of sp a =
    (let e = unat a div 2 ^ frac_bits sp mod 2 ^ exp_bits sp; f = unat a mod 2 ^ frac_bits sp
     in if exc_mode sp = FLOAT_EXC_STD \<and> e = 2 ^ exp_bits sp - 1 then (if f = 0 then FP_INFINITE else FP_NAN)
        else if e = 0 then (if f = 0 then FP_ZERO else FP_SUBNORMAL)
        else FP_NORMAL)"

lemma field_tests:
  fixes x :: u64
  assumes "format_ok sp"
  shows "(drop_bit (frac_bits sp) x AND ones (exp_bits sp)) = 0 \<longleftrightarrow> unat x div 2 ^ frac_bits sp mod 2 ^ exp_bits sp = 0"
    and "(x AND ones (frac_bits sp)) = 0 \<longleftrightarrow> unat x mod 2 ^ frac_bits sp = 0"
    and "(drop_bit (frac_bits sp) x AND ones (exp_bits sp)) = ones (exp_bits sp)
      \<longleftrightarrow> unat x div 2 ^ frac_bits sp mod 2 ^ exp_bits sp = 2 ^ exp_bits sp - 1"
proof -
  show "(drop_bit (frac_bits sp) x AND ones (exp_bits sp)) = 0 \<longleftrightarrow> unat x div 2 ^ frac_bits sp mod 2 ^ exp_bits sp = 0"
    "(x AND ones (frac_bits sp)) = 0 \<longleftrightarrow> unat x mod 2 ^ frac_bits sp = 0"
    by (simp_all only: word_eq_0_iff_unat and_ones unat_drop_bit_div)
  have "exp_bits sp \<le> 64" using assms by (simp add: format_ok_def)
  from exp_max_iff [OF this, of x "frac_bits sp"] show "(drop_bit (frac_bits sp) x AND ones (exp_bits sp)) = ones (exp_bits sp)
      \<longleftrightarrow> unat x div 2 ^ frac_bits sp mod 2 ^ exp_bits sp = 2 ^ exp_bits sp - 1"
    by (simp only: extractFloatExp_def)
qed

lemma fabs_bits_fields:
  "fabs_bits sp x = unat x div 2 ^ frac_bits sp mod 2 ^ exp_bits sp * 2 ^ frac_bits sp + unat x mod 2 ^ frac_bits sp"
  using mod_mult2_eq [of "unat x" "2 ^ frac_bits sp" "2 ^ exp_bits sp"]
  by (simp add: fabs_bits_def power_add mult.commute)

lemma max_exp_pos: "format_ok sp \<Longrightarrow> (0 :: nat) < 2 ^ exp_bits sp - 1"
  using one_less_power [of "2 :: nat" "exp_bits sp"] by (simp add: format_ok_def)

lemma unat_inf_bits:
  assumes "format_ok sp"
  shows "unat (push_bit (frac_bits sp) (ones (exp_bits sp)) :: u64) = (2 ^ exp_bits sp - 1) * 2 ^ frac_bits sp"
proof -
  have e: "unat (ones (exp_bits sp) :: u64) = 2 ^ exp_bits sp - 1"
    using assms by (intro unat_ones) (simp add: format_ok_def)
  have "(2 ^ exp_bits sp - 1) * 2 ^ frac_bits sp < (2 :: nat) ^ (exp_bits sp + frac_bits sp)"
    by (simp add: power_add)
  also have "\<dots> \<le> 2 ^ 64" using assms by (intro power_increasing) (auto simp: format_ok_def)
  finally show ?thesis by (simp only: unat_push_bit_mult e len_num0 len_bit0 len_num1) simp
qed

lemma class_tests:
  assumes ok: "format_ok sp"
  shows "kernel_isnan x sp \<longleftrightarrow> class_of sp x = FP_NAN"
    and "kernel_isinf x sp \<longleftrightarrow> class_of sp x = FP_INFINITE"
    and "kernel_isfinite x sp \<longleftrightarrow> class_of sp x \<noteq> FP_NAN \<and> class_of sp x \<noteq> FP_INFINITE"
    and "has_one sp \<Longrightarrow> kernel_isnormal x sp \<longleftrightarrow> class_of sp x = FP_NORMAL"
    and "has_one sp \<Longrightarrow> has_subnorm sp \<Longrightarrow> kernel_fpclassify x sp = fclass_code (class_of sp x)"
proof -
  let ?E = "2 ^ exp_bits sp :: nat" and ?F = "2 ^ frac_bits sp :: nat"
  define e f where "e = unat x div ?F mod ?E" and "f = unat x mod ?F"
  note t = field_tests [OF ok, of x, folded e_def f_def]
  have E: "0 < ?E - 1" using max_exp_pos [OF ok] .
  have m: "unat (x AND ones (exp_bits sp + frac_bits sp)) = e * ?F + f"
    using fabs_bits_fields [of sp x] by (simp only: and_ones fabs_bits_def e_def f_def)
  have ef: "e \<le> ?E - 1" "f < ?F" by (simp_all add: e_def f_def less_Suc_eq_le [symmetric])
  have eq: "e * ?F + f = (?E - 1) * ?F \<longleftrightarrow> e = ?E - 1 \<and> f = 0"
  proof
    assume a: "e * ?F + f = (?E - 1) * ?F"
    then have "(e * ?F + f) mod ?F = 0" "(e * ?F + f) div ?F = ?E - 1" by simp_all
    then show "e = ?E - 1 \<and> f = 0" using ef(2) by simp
  qed simp
  have gt: "(?E - 1) * ?F < e * ?F + f \<longleftrightarrow> e = ?E - 1 \<and> f \<noteq> 0"
  proof
    assume a: "(?E - 1) * ?F < e * ?F + f"
    have "\<not> e < ?E - 1"
    proof
      assume "e < ?E - 1"
      then have "(e + 1) * ?F \<le> (?E - 1) * ?F" by (intro mult_right_mono) auto
      then show False using a ef(2) by simp
    qed
    then show "e = ?E - 1 \<and> f \<noteq> 0" using a ef(1) by auto
  qed simp
  show "kernel_isnan x sp \<longleftrightarrow> class_of sp x = FP_NAN"
    unfolding kernel_isnan_def class_of_def word_less_nat_alt unat_inf_bits [OF ok] m gt Let_def e_def [symmetric] f_def [symmetric]
    by simp
  show "kernel_isinf x sp \<longleftrightarrow> class_of sp x = FP_INFINITE"
    unfolding kernel_isinf_def class_of_def word_unat_eq_iff unat_inf_bits [OF ok] m eq Let_def e_def [symmetric] f_def [symmetric]
    by simp
  show "kernel_isfinite x sp \<longleftrightarrow> class_of sp x \<noteq> FP_NAN \<and> class_of sp x \<noteq> FP_INFINITE"
    unfolding kernel_isfinite_def class_of_def t Let_def e_def [symmetric] f_def [symmetric] by simp
  show "has_one sp \<Longrightarrow> kernel_isnormal x sp \<longleftrightarrow> class_of sp x = FP_NORMAL"
    unfolding kernel_isnormal_def class_of_def t Let_def e_def [symmetric] f_def [symmetric] using E by auto
  show "has_one sp \<Longrightarrow> has_subnorm sp \<Longrightarrow> kernel_fpclassify x sp = fclass_code (class_of sp x)"
    unfolding kernel_fpclassify_def class_of_def t Let_def e_def [symmetric] f_def [symmetric] using E by auto
qed

text \<open>
  C28. Classification, for every format with hidden bit and subnormals: \<^verbatim>\<open>fpclassify\<close> returns
  the number of the class of the pattern, and \<^verbatim>\<open>isnan\<close>, \<^verbatim>\<open>isinf\<close>, \<^verbatim>\<open>isfinite\<close> and \<^verbatim>\<open>isnormal\<close> are the
  tests for these classes, so that they can never disagree; \<^verbatim>\<open>isunordered\<close> finds the same NaNs.
\<close>

theorem classification_correct:
  assumes "format_ok sp" "has_one sp" "has_subnorm sp"
  shows "tf_fpclassify x sp = fclass_code (class_of sp x)
    \<and> (tf_isnan x sp \<longleftrightarrow> class_of sp x = FP_NAN) \<and> (tf_isinf x sp \<longleftrightarrow> class_of sp x = FP_INFINITE)
    \<and> (tf_isnormal x sp \<longleftrightarrow> class_of sp x = FP_NORMAL)
    \<and> (tf_isfinite x sp \<longleftrightarrow> \<not> tf_isnan x sp \<and> \<not> tf_isinf x sp) \<and> tf_finite x sp = tf_isfinite x sp
    \<and> (isunordered x y sp \<longleftrightarrow> tf_isnan x sp \<or> tf_isnan y sp)"
proof -
  have n: "is_nan sp z \<longleftrightarrow> kernel_isnan z sp" for z
    unfolding class_tests(1) [OF assms(1)]
    using field_tests [OF assms(1), of z]
    by (auto simp: is_nan_def nan_operand_def extractFloatExp_def extractFloatFrac_def class_of_def Let_def
        simp del: push_bit_of_1)
  show ?thesis
    using class_tests [OF assms(1), of x] assms(2,3)
    by (simp add: tf_fpclassify_def tf_isnan_def tf_isinf_def tf_isnormal_def tf_isfinite_def tf_finite_def
        isunordered_iff n)
qed

theorem classification_correct_witness:
  "tf_fpclassify 0x7FC00000 IEEE32_SPEC_ARGS = 0 \<and> tf_isnan 0x7FC00000 IEEE32_SPEC_ARGS"
proof -
  have "format_ok IEEE32_SPEC_ARGS" "has_one IEEE32_SPEC_ARGS" "has_subnorm IEEE32_SPEC_ARGS"
    and c: "class_of IEEE32_SPEC_ARGS 0x7FC00000 = FP_NAN"
    by (simp_all add: format_ok_def IEEE32_SPEC_ARGS_def class_of_def)
  from classification_correct [OF this(1-3), of "0x7FC00000"] c show ?thesis by simp
qed

text \<open>The generated special values have the classes their names say.\<close>

lemma generated_classes:
  "class_of IEEE64_SPEC_ARGS builtin_inf = FP_INFINITE" "class_of IEEE64_SPEC_ARGS (builtin_nan t) = FP_NAN"
  "class_of IEEE64_SPEC_ARGS (builtin_nans t) = FP_NAN" "class_of IEEE32_SPEC_ARGS (ucast builtin_inff) = FP_INFINITE"
  "class_of IEEE32_SPEC_ARGS (ucast (builtin_nanf t)) = FP_NAN" "class_of IEEE32_SPEC_ARGS (ucast (builtin_nansf t)) = FP_NAN"
  "float_is_signaling_nan (builtin_nans t) IEEE64_SPEC_ARGS" "\<not> float_is_signaling_nan (builtin_nan t) IEEE64_SPEC_ARGS"
  by (simp_all add: class_of_def IEEE64_SPEC_ARGS_def IEEE32_SPEC_ARGS_def exc_defs builtin_inf_def builtin_nan_def
      builtin_nans_def builtin_inff_def builtin_nanf_def builtin_nansf_def kernel_inf_def kernel_nan_def kernel_nans_def
      float_is_signaling_nan_def)

section \<open>Signs\<close>

lemma flip_top:
  fixes a :: u64
  assumes "unat a < 2 ^ (n + 1)" "n < 64"
  shows "unat (a XOR push_bit n 1) = (if 2 ^ n \<le> unat a then unat a - 2 ^ n else unat a + 2 ^ n)"
proof -
  have d: "unat a div 2 ^ n = of_bool (2 ^ n \<le> unat a)"
    using assms(1) by (auto simp: div_eq_0_iff le_div_geq)
  have b: "bit a n \<longleftrightarrow> 2 ^ n \<le> unat a"
  proof -
    have "bit a n = bit (unat a) n" using assms(2) by (simp add: bit_unsigned_iff bit_imp_le_length [of a n])
    then show ?thesis by (simp add: bit_iff_odd d)
  qed
  have p: "unat (push_bit n 1 :: u64) = 2 ^ n" using assms(2) by (intro unat_push_1) simp
  have f: "a XOR push_bit n 1 = flip_bit n a" by (simp add: flip_bit_eq_xor)
  show ?thesis
  proof (cases "bit a n")
    case True
    then have "a XOR push_bit n 1 = a - push_bit n 1" unfolding f by (simp add: flip_bit_eq_if unset_bit_eq)
    then show ?thesis using True b p unat_diff_le [of "push_bit n 1" a] by (simp del: push_bit_of_1)
  next
    case False
    then have e: "a XOR push_bit n 1 = a + push_bit n 1" unfolding f by (simp add: flip_bit_eq_if set_bit_eq)
    have "unat a + 2 ^ n < 2 ^ (n + 1)" using False b by simp
    also have "(2 :: nat) ^ (n + 1) \<le> 2 ^ 64" using assms(2) by (intro power_increasing) auto
    finally have "unat a + unat (push_bit n 1 :: u64) < 2 ^ LENGTH(64)" by (simp only: p) simp
    then show ?thesis using False b p unat_add_lem [of a "push_bit n 1"] unfolding e by (simp del: push_bit_of_1)
  qed
qed

lemma or_top:
  fixes a :: u64
  assumes "unat a < 2 ^ n" "n < 64"
  shows "unat (a OR push_bit n 1) = 2 ^ n + unat a"
proof -
  have "\<not> bit (unat a) n" using assms(1) by (simp add: bit_iff_odd)
  then have "\<not> bit a n" using assms(2) by (simp add: bit_unsigned_iff)
  then have "a OR push_bit n 1 = a XOR push_bit n 1" by (intro bit_word_eqI) (auto simp: bit_simps)
  then show ?thesis using flip_top [of a n] assms by simp
qed

lemma flip_sign_less_iff:
  assumes ok: "format_ok sp" "sign_spec sp = - 1" "pattern_of sp x" "pattern_of sp y"
  shows "flip_sign x sp < flip_sign y sp \<longleftrightarrow>
    (if fsign sp x = fsign sp y then fabs_bits sp x < fabs_bits sp y else fsign sp x)"
proof -
  let ?n = "exp_bits sp + frac_bits sp"
  have f: "unat (flip_sign z sp) = (if fsign sp z then fabs_bits sp z else 2 ^ ?n + fabs_bits sp z)"
    if z: "pattern_of sp z" for z
  proof -
    have "unat z < 2 ^ (?n + 1)" "?n < 64" using z ok(1,2) by (simp_all add: pattern_of_def format_ok_def)
    from flip_top [OF this] show ?thesis using pattern_split(1) [OF ok(1) z ok(2)] fabs_bits_less [of sp z]
      by (auto simp: flip_sign_def add.commute simp del: push_bit_of_1)
  qed
  show ?thesis using f [OF ok(3)] f [OF ok(4)] fabs_bits_less [of sp x] fabs_bits_less [of sp y]
    by (simp add: word_less_nat_alt)
qed

text \<open>
  C40. The quiet comparisons \<^verbatim>\<open>isless\<close>, \<^verbatim>\<open>isgreater\<close>, \<^verbatim>\<open>islessequal\<close> and \<^verbatim>\<open>isgreaterequal\<close> compare the
  patterns with the sign bit flipped, as unsigned numbers. For every signed format with a hidden
  bit and subnormals and every two patterns of it: with a NaN all four are false; for two operands
  with the sign bit set all four answer the reverse of the order of the values, as in
  \<^verbatim>\<open>isless(-1.0, -2.0)\<close>; for two zeros of which one is not negative they order minus zero
  below plus zero; for all other operands they decide the order of the values.
\<close>

theorem quiet_comparisons:
  assumes "format_ok sp" "sign_spec sp = - 1" "pattern_of sp x" "pattern_of sp y" "has_one sp" "has_subnorm sp"
  shows "if isunordered x y sp
    then \<not> tf_isless x y sp \<and> \<not> tf_islessequal x y sp \<and> \<not> tf_isgreater x y sp \<and> \<not> tf_isgreaterequal x y sp
    else if fsign sp x \<and> fsign sp y
    then (tf_isless x y sp \<longleftrightarrow> fval sp y < fval sp x) \<and> (tf_islessequal x y sp \<longleftrightarrow> fval sp y \<le> fval sp x)
      \<and> (tf_isgreater x y sp \<longleftrightarrow> fval sp x < fval sp y) \<and> (tf_isgreaterequal x y sp \<longleftrightarrow> fval sp x \<le> fval sp y)
    else if fval sp x = 0 \<and> fval sp y = 0
    then (tf_isless x y sp \<longleftrightarrow> fsign sp x \<and> \<not> fsign sp y) \<and> (tf_islessequal x y sp \<longleftrightarrow> \<not> fsign sp y)
      \<and> (tf_isgreater x y sp \<longleftrightarrow> \<not> fsign sp x \<and> fsign sp y) \<and> (tf_isgreaterequal x y sp \<longleftrightarrow> \<not> fsign sp x)
    else (tf_isless x y sp \<longleftrightarrow> fval sp x < fval sp y) \<and> (tf_islessequal x y sp \<longleftrightarrow> fval sp x \<le> fval sp y)
      \<and> (tf_isgreater x y sp \<longleftrightarrow> fval sp y < fval sp x) \<and> (tf_isgreaterequal x y sp \<longleftrightarrow> fval sp y \<le> fval sp x)"
proof -
  have n: "kernel_nan_operand x y sp \<longleftrightarrow> isunordered x y sp" "kernel_nan_operand y x sp \<longleftrightarrow> isunordered x y sp"
    by (auto simp: kernel_nan_operand_def isunordered_def Let_def)
  have le: "a \<le> b \<longleftrightarrow> \<not> b < (a :: u64)" "u \<le> v \<longleftrightarrow> \<not> v < (u :: real)" for a b u v by auto
  note less = flip_sign_less_iff [OF assms(1-4)] flip_sign_less_iff [OF assms(1,2,4,3)]
  show ?thesis
    unfolding tf_isless_def tf_islessequal_def tf_isgreater_def tf_isgreaterequal_def kernel_isless_def
      kernel_islessequal_def kernel_isgreater_def kernel_isgreaterequal_def n le less fval_less_iff fval_eq_0_iff
      fint_less_iff [of sp x y] fint_less_iff [of sp y x]
    by auto
qed

theorem quiet_comparisons_witness:
  "(tf_isless 0x3F800000 0x40000000 IEEE32_SPEC_ARGS
    \<longleftrightarrow> fval IEEE32_SPEC_ARGS 0x3F800000 < fval IEEE32_SPEC_ARGS 0x40000000)
   \<and> (tf_islessequal 0xBF800000 0xC0000000 IEEE32_SPEC_ARGS
    \<longleftrightarrow> fval IEEE32_SPEC_ARGS 0xC0000000 \<le> fval IEEE32_SPEC_ARGS 0xBF800000)"
proof -
  have "format_ok IEEE32_SPEC_ARGS" "sign_spec IEEE32_SPEC_ARGS = - 1" "has_one IEEE32_SPEC_ARGS"
    "has_subnorm IEEE32_SPEC_ARGS"
    and p: "pattern_of IEEE32_SPEC_ARGS 0x3F800000" "pattern_of IEEE32_SPEC_ARGS 0x40000000"
      "pattern_of IEEE32_SPEC_ARGS 0xBF800000" "pattern_of IEEE32_SPEC_ARGS 0xC0000000"
    and u: "\<not> isunordered 0x3F800000 0x40000000 IEEE32_SPEC_ARGS" "\<not> isunordered 0xBF800000 0xC0000000 IEEE32_SPEC_ARGS"
    and s: "\<not> fsign IEEE32_SPEC_ARGS 0x3F800000" "fsign IEEE32_SPEC_ARGS 0xBF800000" "fsign IEEE32_SPEC_ARGS 0xC0000000"
    and z: "fabs_bits IEEE32_SPEC_ARGS 0x3F800000 \<noteq> 0"
    by (simp_all add: format_ok_def pattern_of_def isunordered_def fabs_bits_def fsign_def extractFloatSign_def
        IEEE32_SPEC_ARGS_def)
  note q = quiet_comparisons [OF this(1,2) _ _ this(3,4)]
  from q [OF p(1,2)] q [OF p(3,4)] u s z fval_eq_0_iff [of IEEE32_SPEC_ARGS "0x3F800000"] show ?thesis by simp
qed

text \<open>
  \<^verbatim>\<open>fabs\<close> and \<^verbatim>\<open>copysign\<close> keep the magnitude of every pattern of a signed format and set the
  sign: the first to plus, the second to that of its other operand; \<^verbatim>\<open>signbit\<close> reads the sign.
\<close>

theorem sign_operations_correct:
  assumes ok: "format_ok sp" "sign_spec sp = - 1" and x: "pattern_of sp x" and y: "pattern_of sp y"
  shows "fval sp (tf_fabs x sp) = \<bar>fval sp x\<bar>
    \<and> fval sp (tf_copysign x y sp) = (if fsign sp y then - \<bar>fval sp x\<bar> else \<bar>fval sp x\<bar>)
    \<and> tf_signbit x sp = of_bool (fsign sp x)"
proof -
  let ?n = "exp_bits sp + frac_bits sp"
  have n: "?n < 64" using ok by (simp add: format_ok_def)
  have a: "unat (tf_fabs x sp) = fabs_bits sp x"
    by (simp only: tf_fabs_def kernel_fabs_def and.commute [of "ones _"] and_ones fabs_bits_def)
  then have f: "fabs_bits sp (tf_fabs x sp) = fabs_bits sp x" "\<not> fsign sp (tf_fabs x sp)"
    using ok fabs_bits_less [of sp x]
    by (simp_all add: fabs_bits_def fsign_def extractFloatSign_def word_eq_0_iff_unat unat_drop_bit_div)
  have av: "\<bar>fval sp x\<bar> = real (pattern_mag (frac_bits sp) (fabs_bits sp x)) * 2 powi (exp_bias sp + 1 - int (frac_bits sp))"
    by (simp add: fval_def fint_def abs_mult)
  have d: "unat z div 2 ^ ?n = of_bool (fsign sp z)" if "pattern_of sp z" for z
    using pattern_split(1) [OF ok(1) that ok(2)] fabs_bits_less [of sp z] by simp
  have ybit: "y AND push_bit ?n 1 = (if fsign sp y then push_bit ?n 1 else 0)"
  proof -
    have "bit y ?n = fsign sp y"
    proof -
      have "bit y ?n = bit (unat y) ?n" using n by (simp add: bit_unsigned_iff bit_imp_le_length [of y ?n])
      then show ?thesis by (simp add: bit_iff_odd d [OF y])
    qed
    then show ?thesis by (intro bit_word_eqI) (auto simp: bit_simps)
  qed
  have c: "unat (tf_copysign x y sp) = of_bool (fsign sp y) * 2 ^ ?n + fabs_bits sp x"
  proof -
    have "tf_copysign x y sp = tf_fabs x sp OR (if fsign sp y then push_bit ?n 1 else 0)"
      using ok by (simp add: tf_copysign_def kernel_copysign_def tf_fabs_def kernel_fabs_def ybit and.commute del: push_bit_of_1)
    moreover have "unat (tf_fabs x sp OR push_bit ?n 1) = 2 ^ ?n + fabs_bits sp x"
      using or_top [of "tf_fabs x sp" ?n] a n fabs_bits_less [of sp x] by simp
    ultimately show ?thesis using a by simp
  qed
  have g: "fabs_bits sp (tf_copysign x y sp) = fabs_bits sp x" "fsign sp (tf_copysign x y sp) = fsign sp y"
    using c ok fabs_bits_less [of sp x]
    by (auto simp: fabs_bits_def fsign_def extractFloatSign_def word_eq_0_iff_unat unat_drop_bit_div)
  have "drop_bit ?n x = of_bool (fsign sp x)" using d [OF x] by (simp add: word_unat_eq_iff unat_drop_bit_div)
  then have s: "tf_signbit x sp = of_bool (fsign sp x)" using ok by (simp add: tf_signbit_def kernel_signbit_def)
  show ?thesis using f g s unfolding av by (simp add: fval_def fint_def)
qed

theorem sign_operations_correct_witness:
  "fval IEEE32_SPEC_ARGS (tf_fabs 0xC0000000 IEEE32_SPEC_ARGS) = \<bar>fval IEEE32_SPEC_ARGS 0xC0000000\<bar>
    \<and> tf_signbit 0xC0000000 IEEE32_SPEC_ARGS = 1"
proof -
  have "format_ok IEEE32_SPEC_ARGS" "sign_spec IEEE32_SPEC_ARGS = - 1" "pattern_of IEEE32_SPEC_ARGS 0xC0000000"
    and s: "fsign IEEE32_SPEC_ARGS 0xC0000000"
    by (simp_all add: format_ok_def pattern_of_def fsign_def extractFloatSign_def IEEE32_SPEC_ARGS_def)
  from sign_operations_correct [OF this(1-3,3)] s show ?thesis by simp
qed

section \<open>The class test of LLVM\<close>

text \<open>
  \<^verbatim>\<open>_llvm_is_fpclass\<close> takes the sign from the format and not from the operand, and the low
  fraction bits for the quiet bit: in a signed format no value at all is found in one of the
  positive classes (mask \<^verbatim>\<open>0x3C0\<close>), a positive normal number is found in the negative ones
  (\<^verbatim>\<open>0x8\<close>), and the default quiet NaN is reported as signalling (\<^verbatim>\<open>0x1\<close>), not as quiet (\<^verbatim>\<open>0x2\<close>).
\<close>

theorem llvm_fpclass_ignores_sign:
  assumes "sign_spec sp = - 1" and "msk AND 0x3F = 0"
  shows "\<not> llvm_kernel_fpclassify x msk sp
    \<and> llvm_is_fpclass_d 0x3FF0000000000000 0x008 \<and> \<not> llvm_is_fpclass_d 0x3FF0000000000000 0x100
    \<and> llvm_is_fpclass_d (builtin_nan t) 0x001 \<and> \<not> llvm_is_fpclass_d (builtin_nan t) 0x002"
proof -
  have m: "msk AND k = 0" if "k AND 0x3F = k" for k
    using assms(2) that by (metis and.left_commute and_zero_eq zero_and_eq)
  have "msk AND 1 = 0" "msk AND 2 = 0" "msk AND 4 = 0" "msk AND 8 = 0" "msk AND 0x10 = 0" "msk AND 0x20 = 0"
    by (rule m, simp)+
  then have "\<not> llvm_kernel_fpclassify x msk sp" using assms(1) by (simp add: llvm_kernel_fpclassify_def Let_def)
  then show ?thesis
    by (simp add: llvm_is_fpclass_d_def llvm_kernel_fpclassify_def IEEE64_SPEC_ARGS_def exc_defs builtin_nan_def
        kernel_nan_def)
qed

theorem llvm_fpclass_ignores_sign_witness:
  "\<not> llvm_kernel_fpclassify 0x3FF0000000000000 0x3C0 IEEE64_SPEC_ARGS"
  using llvm_fpclass_ignores_sign [of IEEE64_SPEC_ARGS "0x3C0" "0x3FF0000000000000"]
  by (simp add: IEEE64_SPEC_ARGS_def)

end
