(* ===== verification/FloatConvert.thy ===== *)
theory FloatConvert
  imports FloatRound FloatClass "HOL-Library.Log_Nat"
begin

text \<open>
  The conversions of \<^verbatim>\<open>etc/libbambu/softfloat/softfloat.c\<close> from integers to floating point and
  between single and double precision.
\<close>

section \<open>The program\<close>

definition int_to_float_impl :: "u64 \<Rightarrow> bool \<Rightarrow> nat \<Rightarrow> tfspec \<Rightarrow> fenv \<Rightarrow> u64 \<times> fenv" where
  "int_to_float_impl aAbs aSign a_bits sp env =
    (let exp_int = int a_bits - 2 - exp_bias sp; fb = frac_bits sp; eb = exp_bits sp
     in if aAbs = 0 then (0, env)
        else if sign_spec sp = 1 \<and> \<not> aSign then (0, env)
        else if sign_spec sp = 0 \<and> aSign then (0, env)
        else
          (let (shiftCount, zSig) = count_leading_zero_lshift_runtime_macro a_bits aAbs
           in if fb < a_bits - 1 then
                (let zSigShift = (if a_bits \<ge> 64
                       then drop_bit (a_bits - 63) zSig OR of_bool (zSig AND ones (a_bits - 63) \<noteq> 0)
                       else push_bit (63 - a_bits) zSig)
                 in roundAndPackFloat64 env aSign (exp_int - sint shiftCount) zSigShift eb fb (exc_mode sp)
                      (has_subnorm sp))
              else
                (let zSigShift = push_bit (fb + 1 - a_bits) zSig
                 in (packFloat64 aSign (of_int (exp_int - sint shiftCount)) zSigShift eb fb, env))))"

definition int_to_float :: "u64 \<Rightarrow> nat \<Rightarrow> tfspec \<Rightarrow> fenv \<Rightarrow> u64 \<times> fenv" where
  "int_to_float a a_bits sp env =
     int_to_float_impl (if sint a < 0 then - a else a) (sint a < 0) a_bits sp env"

definition uint_to_float :: "u64 \<Rightarrow> nat \<Rightarrow> tfspec \<Rightarrow> fenv \<Rightarrow> u64 \<times> fenv" where
  "uint_to_float a a_bits sp env = int_to_float_impl a False a_bits sp env"

definition int64_to_float :: "u64 \<Rightarrow> tfspec \<Rightarrow> fenv \<Rightarrow> u64 \<times> fenv" where
  "int64_to_float a sp env = int_to_float_impl (if sint a < 0 then - a else a) (sint a < 0) 64 sp env"

definition int32_to_float :: "u32 \<Rightarrow> tfspec \<Rightarrow> fenv \<Rightarrow> u64 \<times> fenv" where
  "int32_to_float a sp env = int_to_float_impl (scast (if sint a < 0 then - a else a)) (sint a < 0) 32 sp env"

text \<open>The two narrow types are promoted to \<^verbatim>\<open>int\<close> before they are negated.\<close>

definition int16_to_float :: "u16 \<Rightarrow> tfspec \<Rightarrow> fenv \<Rightarrow> u64 \<times> fenv" where
  "int16_to_float a sp env = int_to_float_impl (of_int \<bar>sint a\<bar>) (sint a < 0) 16 sp env"

definition int8_to_float :: "u8 \<Rightarrow> tfspec \<Rightarrow> fenv \<Rightarrow> u64 \<times> fenv" where
  "int8_to_float a sp env = int_to_float_impl (of_int \<bar>sint a\<bar>) (sint a < 0) 8 sp env"

definition uint64_to_float :: "u64 \<Rightarrow> tfspec \<Rightarrow> fenv \<Rightarrow> u64 \<times> fenv" where
  "uint64_to_float a sp env = int_to_float_impl a False 64 sp env"

definition uint32_to_float :: "u32 \<Rightarrow> tfspec \<Rightarrow> fenv \<Rightarrow> u64 \<times> fenv" where
  "uint32_to_float a sp env = int_to_float_impl (ucast a) False 32 sp env"

definition uint16_to_float :: "u16 \<Rightarrow> tfspec \<Rightarrow> fenv \<Rightarrow> u64 \<times> fenv" where
  "uint16_to_float a sp env = int_to_float_impl (ucast a) False 16 sp env"

definition uint8_to_float :: "u8 \<Rightarrow> tfspec \<Rightarrow> fenv \<Rightarrow> u64 \<times> fenv" where
  "uint8_to_float a sp env = int_to_float_impl (ucast a) False 8 sp env"

definition normalizeFloat32Subnormal :: "u32 \<Rightarrow> int \<times> u32" where
  "normalizeFloat32Subnormal aSig =
    (let shiftCount = unat (count_leading_zero_macro 24 (ucast aSig))
     in (1 - int shiftCount, push_bit shiftCount aSig))"

definition float32_to_float64_ieee :: "u32 \<Rightarrow> nat \<Rightarrow> bool \<Rightarrow> u64" where
  "float32_to_float64_ieee a exc subn =
    (let aSig = ucast (extractFloatFrac (ucast a) 23) :: u32;
         aExp = uint (extractFloatExp (ucast a) 8 23);
         aSign = extractFloatSign (ucast a) 8 23 (- 1)
     in if aExp = 0xFF \<and> exc = FLOAT_EXC_STD
        then push_bit 63 (of_bool aSign) OR push_bit 51 (of_bool (aSig \<noteq> 0)) OR 0x7FF0000000000000
        else if aExp = 0 then
          (if subn then
             (if aSig = 0 then push_bit 63 (of_bool aSign)
              else (let (aExp, aSig) = normalizeFloat32Subnormal aSig
                    in packFloat64 aSign (of_int (aExp - 1 + 0x380)) (push_bit 29 (ucast aSig)) 11 52))
           else push_bit 63 (of_bool aSign))
        else packFloat64 aSign (of_int (aExp + 0x380)) (push_bit 29 (ucast aSig)) 11 52)"

definition float64_to_float32_ieee :: "u64 \<Rightarrow> nat \<Rightarrow> bool \<Rightarrow> fenv \<Rightarrow> u32 \<times> fenv" where
  "float64_to_float32_ieee a exc subn env =
    (let aSig = extractFloatFrac a 52;
         aExp = uint (extractFloatExp a 11 52);
         aSign = extractFloatSign a 11 52 (- 1)
     in if aExp = 0x7FF \<and> exc = FLOAT_EXC_STD
        then (push_bit (8 + 23) (of_bool aSign) OR push_bit (23 - 1) (of_bool (aSig \<noteq> 0)) OR 0x7F800000, env)
        else
          (let aSig = shift64RightJamming aSig 22;
               zSig = ucast aSig :: u32;
               (zSig, aExp) = (if aExp \<noteq> 0 \<or> zSig \<noteq> 0 then (zSig OR 0x40000000, aExp - 0x381) else (zSig, aExp))
           in roundAndPackFloat32 env aSign aExp zSig 8 23 exc subn))"

section \<open>Integers to floating point\<close>

lemma round_nat_scale: "round_nat mode s (x * 2 ^ j) (m + j) = round_nat mode s x m"
proof -
  have d: "x * 2 ^ j div 2 ^ (m + j) = x div 2 ^ m" "x * 2 ^ j mod 2 ^ (m + j) = x mod 2 ^ m * 2 ^ j"
    by (simp_all add: power_add mult_mod_left)
  have p: "(0 :: nat) < 2 ^ j" by simp
  have c: "2 ^ (m + j) < 2 * (x mod 2 ^ m * 2 ^ j) \<longleftrightarrow> 2 ^ m < 2 * (x mod 2 ^ m)"
    "2 * (x mod 2 ^ m * 2 ^ j) = 2 ^ (m + j) \<longleftrightarrow> 2 * (x mod 2 ^ m) = 2 ^ m"
    using mult_less_cancel2 [of "2 ^ m" "2 ^ j" "2 * (x mod 2 ^ m)"] mult_cancel2 [of "2 * (x mod 2 ^ m)" "2 ^ j" "2 ^ m"]
    by (simp_all add: power_add mult.assoc)
  show ?thesis unfolding round_nat_def d c Let_def by simp
qed

lemma round_nat_up: "k \<le> j \<Longrightarrow> round_nat mode s (x * 2 ^ j) k = x * 2 ^ (j - k)"
proof -
  assume "k \<le> j"
  then have "x * 2 ^ j = x * 2 ^ (j - k) * 2 ^ k" by (simp add: mult.assoc flip: power_add)
  then have "x * 2 ^ j mod 2 ^ k = 0" "x * 2 ^ j div 2 ^ k = x * 2 ^ (j - k)"
    by (metis mod_mult_self2_is_0, metis nonzero_mult_div_cancel_right power_not_zero zero_neq_numeral)
  then show ?thesis by (simp only: round_nat_exact)
qed

text \<open>The normalisation step: the count and the shifted operand.\<close>

lemma normalise_int:
  assumes L: "2 ^ L \<le> unat x" "unat x < 2 ^ (L + 1)" and n: "L < n" "n \<le> 64"
  shows "\<exists>sc. count_leading_zero_lshift_runtime_macro n x = (sc, push_bit (n - 1 - L) x) \<and> sint sc = int (n - 1 - L)"
    and "unat (push_bit (n - 1 - L) x) = unat x * 2 ^ (n - 1 - L)"
proof -
  let ?c = "n - 1 - L"
  have "is_clz n (unat x) ?c" using L n by (simp add: is_clz_def)
  note m = count_leading_zero_macros_clz(2,4) [OF this]
  have "unat x * 2 ^ ?c < 2 ^ (L + 1) * 2 ^ ?c" using L(2) by simp
  also have "\<dots> = 2 ^ (L + 1 + ?c)" by (simp only: power_add)
  also have "L + 1 + ?c = n" using n by simp
  also have "(2 :: nat) ^ n \<le> 2 ^ 64" using n by (intro power_increasing) auto
  finally show "unat (push_bit ?c x) = unat x * 2 ^ ?c" by (simp add: unat_push_bit_mult)
  let ?sc = "count_leading_zero_runtime_macro n x"
  have c: "unat ?sc = ?c" "count_leading_zero_lshift_runtime_macro n x = (?sc, push_bit ?c x)" using m n by auto
  have "unat ?sc < 2 ^ (LENGTH(64) - 1)" using c(1) n by simp
  then have "sint ?sc = int (unat ?sc)" by (rule sint_unat)
  then show "\<exists>sc. count_leading_zero_lshift_runtime_macro n x = (sc, push_bit ?c x) \<and> sint sc = int ?c"
    using c by auto
qed

lemma round_nat_scaled:
  assumes "L \<le> W" "fb \<le> W"
  shows "round_nat mode s (x * 2 ^ (W - L)) (W - fb) = (if fb \<le> L then round_nat mode s x (L - fb) else x * 2 ^ (fb - L))"
proof (cases "fb \<le> L")
  case True
  then have "W - fb = (L - fb) + (W - L)" using assms by simp
  then show ?thesis using True by (simp only: round_nat_scale if_True)
next
  case False
  then have "(W - L) - (W - fb) = fb - L" using assms by simp
  then show ?thesis using False assms by (simp add: round_nat_up)
qed

lemma normal_round_bounds:
  assumes "fb \<le> 62" "2 ^ 62 \<le> x" "x < 2 ^ 63"
  shows "2 ^ fb \<le> round_nat mode s x (62 - fb)" "round_nat mode s x (62 - fb) \<le> 2 ^ (fb + 1)"
proof -
  have p: "(2 :: nat) ^ 62 = 2 ^ fb * 2 ^ (62 - fb)" using assms(1) by (simp flip: power_add)
  then have p1: "(2 :: nat) ^ 63 = 2 ^ (fb + 1) * 2 ^ (62 - fb)" by simp
  have "2 ^ fb \<le> x div 2 ^ (62 - fb)" using assms(2) unfolding p by (simp add: less_eq_div_iff_mult_less_eq)
  then show "2 ^ fb \<le> round_nat mode s x (62 - fb)" using round_nat_bounds(2) le_trans by blast
  have "x div 2 ^ (62 - fb) < 2 ^ (fb + 1)" using assms(3) unfolding p1 by (rule less_mult_imp_div_less)
  then show "round_nat mode s x (62 - fb) \<le> 2 ^ (fb + 1)"
    using round_nat_bounds(1) [of mode s x "62 - fb"] by simp
qed

lemma fval_scaled:
  assumes "fint sp a = (if s then - 1 else 1) * int (R * 2 ^ x)"
  shows "fval sp a = (if s then - 1 else 1) * real R * 2 powi (int x + exp_bias sp + 1 - int (frac_bits sp))"
proof -
  have "int x + exp_bias sp + 1 - int (frac_bits sp) = int x + (exp_bias sp + 1 - int (frac_bits sp))" by simp
  then have "2 powi (int x + exp_bias sp + 1 - int (frac_bits sp))
      = (2 :: real) ^ x * 2 powi (exp_bias sp + 1 - int (frac_bits sp))"
    by (simp only: power_int_add power_int_of_nat zero_neq_numeral [symmetric] simp_thms)
  then show ?thesis unfolding fval_def assms by simp
qed

lemma exp_room:
  assumes "0 \<le> e" "e < exp_limit eb exc" "R \<le> 2 ^ (fb + 1)"
  shows "nat e * 2 ^ fb + R < 2 ^ (eb + fb)"
proof -
  have "int (nat e + 3) \<le> int (2 ^ eb)" using assms(1,2) by (auto simp: exp_limit_def split: if_splits)
  then have "nat e + 3 \<le> 2 ^ eb" by (simp only: of_nat_le_iff)
  then have "(nat e + 3) * 2 ^ fb \<le> 2 ^ (eb + fb)" by (simp only: power_add mult_le_mono1)
  moreover have "(nat e + 3) * 2 ^ fb = nat e * 2 ^ fb + 2 ^ (fb + 1) + 2 ^ fb" by (simp add: algebra_simps)
  moreover have "(0 :: nat) < 2 ^ fb" by simp
  ultimately show ?thesis using assms(3) by linarith
qed

text \<open>The significand that is handed to the rounding, for operands narrower than 64 bits and for 64 bits.\<close>

lemma narrow_significand:
  fixes x :: u64
  assumes L: "2 ^ L \<le> unat x" "unat x < 2 ^ (L + 1)" and n: "L < n" "n < 64"
  shows "unat (push_bit (63 - n) (push_bit (n - 1 - L) x)) = unat x * 2 ^ (62 - L)"
    and "2 ^ 62 \<le> unat x * 2 ^ (62 - L)" "unat x * 2 ^ (62 - L) < 2 ^ 63"
proof -
  have e: "L + (62 - L) = 62" "L + 1 + (62 - L) = 63" using n by auto
  have "2 ^ L * 2 ^ (62 - L) \<le> unat x * 2 ^ (62 - L)" "unat x * 2 ^ (62 - L) < 2 ^ (L + 1) * 2 ^ (62 - L)" using L by simp_all
  then show b: "2 ^ 62 \<le> unat x * 2 ^ (62 - L)" "unat x * 2 ^ (62 - L) < 2 ^ 63"
    unfolding power_add [symmetric] e by simp_all
  have "push_bit (63 - n) (push_bit (n - 1 - L) x) = push_bit (62 - L) x" using n by simp
  then show "unat (push_bit (63 - n) (push_bit (n - 1 - L) x)) = unat x * 2 ^ (62 - L)"
    using b(2) by (simp only: unat_push_bit_mult) simp
qed

lemma wide_significand:
  fixes x :: u64
  assumes L: "2 ^ L \<le> unat x" "unat x < 2 ^ (L + 1)" and n: "L < 64"
  defines "p \<equiv> push_bit (63 - L) x"
  shows "unat (drop_bit 1 p OR of_bool (p AND ones 1 \<noteq> 0)) = jam (unat x * 2 ^ (63 - L)) 1"
    and "2 ^ 62 \<le> jam (unat x * 2 ^ (63 - L)) 1" "jam (unat x * 2 ^ (63 - L)) 1 < 2 ^ 63"
proof -
  let ?y = "unat x * 2 ^ (63 - L)"
  have e: "L + (63 - L) = 63" "L + 1 + (63 - L) = 64" using n by auto
  have "2 ^ L * 2 ^ (63 - L) \<le> ?y" "?y < 2 ^ (L + 1) * 2 ^ (63 - L)" using L by simp_all
  then have b: "2 ^ 63 \<le> ?y" "?y < 2 ^ 64" unfolding power_add [symmetric] e by simp_all
  have p: "unat p = ?y" using b(2) by (simp only: p_def unat_push_bit_mult) simp
  show "unat (drop_bit 1 p OR of_bool (p AND ones 1 \<noteq> 0)) = jam ?y 1"
    unfolding unat_or_of_bool word_eq_0_iff_unat and_ones unat_drop_bit_div p by (simp add: jam_def Let_def)
  define q where "q = ?y div 2"
  have q: "2 ^ 62 \<le> q" "q < 2 ^ 63" using b by (simp_all add: q_def)
  have "even q \<Longrightarrow> q + 1 < 2 ^ 63" using q(2) by simp presburger
  then show "2 ^ 62 \<le> jam ?y 1" "jam ?y 1 < 2 ^ 63"
    using q unfolding jam_def Let_def power_one_right q_def [symmetric] by simp_all
qed

lemma int_to_float_packed:
  assumes ok: "format_ok sp" "sign_spec sp = - 1" "frac_bits sp \<le> 60" "2 \<le> exp_bits sp" "exp_bits sp \<le> 30"
    and L: "2 ^ L \<le> unat x" "unat x < 2 ^ (L + 1)" and n: "L < n" "n \<le> 64"
    and b: "exp_bias sp < int L" "int n - 2 - exp_bias sp < exp_limit (exp_bits sp) (exc_mode sp)"
  shows "fval sp (fst (int_to_float_impl x s n sp env)) = (if s then - 1 else 1)
    * real (round_nat (float_rounding_mode env) s (unat x) (L - frac_bits sp)) * 2 ^ (L - frac_bits sp)"
proof -
  let ?fb = "frac_bits sp" and ?eb = "exp_bits sp" and ?m = "float_rounding_mode env"
  define e where "e = int L - 1 - exp_bias sp"
  have e: "0 \<le> e" "e < exp_limit ?eb (exc_mode sp)" using b n by (auto simp: e_def)
  have ee: "int n - 2 - exp_bias sp - int (n - 1 - L) = e" using n by (simp add: e_def)
  have x0: "x \<noteq> 0" using L by auto
  obtain sc where sc: "count_leading_zero_lshift_runtime_macro n x = (sc, push_bit (n - 1 - L) x)"
    "sint sc = int (n - 1 - L)" and p: "unat (push_bit (n - 1 - L) x) = unat x * 2 ^ (n - 1 - L)"
    using normalise_int [OF L n] by blast
  have pw: "2 powi (int (nat e) + exp_bias sp + 1 - int ?fb) = (2 :: real) powi (int L - int ?fb)"
    using e(1) by (simp add: e_def)
  have Lf: "real y * 2 powi (int L - int ?fb) = real (round_nat ?m s (unat x) (L - ?fb)) * 2 ^ (L - ?fb)"
    if y: "y = (if ?fb \<le> L then round_nat ?m s (unat x) (L - ?fb) else unat x * 2 ^ (?fb - L))" for y
  proof (cases "?fb \<le> L")
    case True
    then have "int L - int ?fb = int (L - ?fb)" by simp
    then show ?thesis using y True by (simp only: power_int_of_nat if_True)
  next
    case False
    then have "int L - int ?fb = - int (?fb - L)" by simp
    then have "(2 :: real) powi (int L - int ?fb) = 1 / 2 ^ (?fb - L)"
      by (simp only: power_int_minus power_int_of_nat divide_inverse mult_1)
    then show ?thesis using y False by (simp add: round_nat_exact)
  qed
  show ?thesis
  proof (cases "?fb < n - 1")
    case True
    define z where "z = (if n \<ge> 64
       then drop_bit (n - 63) (push_bit (n - 1 - L) x) OR of_bool (push_bit (n - 1 - L) x AND ones (n - 63) \<noteq> 0)
       else push_bit (63 - n) (push_bit (n - 1 - L) x))"
    have r: "int_to_float_impl x s n sp env = roundAndPackFloat64 env s e z ?eb ?fb (exc_mode sp) (has_subnorm sp)"
      using x0 ok(2) True unfolding int_to_float_impl_def Let_def sc prod.case ee z_def by simp
    have z: "unat z < 2 ^ 63 \<and> 2 ^ 62 \<le> unat z \<and> round_nat ?m s (unat z) (62 - ?fb)
        = (if ?fb \<le> L then round_nat ?m s (unat x) (L - ?fb) else unat x * 2 ^ (?fb - L))"
    proof (cases "n < 64")
      case True
      then show ?thesis using narrow_significand [OF L n(1) True] n ok(3) round_nat_scaled [of L 62 ?fb ?m s "unat x"]
        by (simp add: z_def)
    next
      case False
      then have n64: "n = 64" using n by simp
      have zj: "unat z = jam (unat x * 2 ^ (63 - L)) 1" and zb: "2 ^ 62 \<le> unat z" "unat z < 2 ^ 63"
        using wide_significand [OF L] n unfolding z_def n64 by simp_all
      have "round_nat ?m s (unat z) (62 - ?fb) = round_nat ?m s (unat x * 2 ^ (63 - L)) (62 - ?fb + 1)"
        unfolding zj using ok(3) by (intro round_jam(1)) simp
      also have "62 - ?fb + 1 = 63 - ?fb" using ok(3) by simp
      finally show ?thesis using zb round_nat_scaled [of L 63 ?fb ?m s "unat x"] ok(3) n n64 by simp
    qed
    have a: "round_args env s e z ?eb ?fb (exc_mode sp)" using ok e z by (auto simp: round_args_def format_ok_def)
    note rc = roundAndPack64_in_range(1) [OF a e(1)] round_args_total [OF a e(1)]
    have R: "round_nat ?m s (unat z) (62 - ?fb) \<le> 2 ^ (?fb + 1)" "2 ^ ?fb \<le> round_nat ?m s (unat z) (62 - ?fb) \<or> nat e = 0"
      using normal_round_bounds [of ?fb "unat z" ?m s] conjunct1 [OF z] conjunct1 [OF conjunct2 [OF z]] ok(3) by simp_all
    show ?thesis
      unfolding fval_scaled [OF pack_value(4) [OF ok(1,2) rc(1,2) R]] r pw
      using Lf [of "round_nat ?m s (unat z) (62 - ?fb)"] z by (simp add: mult.assoc)
  next
    case False
    define z where "z = push_bit (?fb + 1 - n) (push_bit (n - 1 - L) x)"
    have r: "fst (int_to_float_impl x s n sp env) = packFloat64 s (of_int e) z ?eb ?fb"
      using x0 ok(2) False unfolding int_to_float_impl_def Let_def sc prod.case ee z_def by simp
    have zz: "z = push_bit (?fb - L) x" using False n by (simp add: z_def)
    have "unat x * 2 ^ (?fb - L) < 2 ^ (L + 1) * 2 ^ (?fb - L)" "2 ^ L * 2 ^ (?fb - L) \<le> unat x * 2 ^ (?fb - L)"
      using L by simp_all
    moreover have "L + 1 + (?fb - L) = ?fb + 1" "L + (?fb - L) = ?fb" using False n by auto
    ultimately have zb: "unat x * 2 ^ (?fb - L) < 2 ^ (?fb + 1)" "2 ^ ?fb \<le> unat x * 2 ^ (?fb - L)"
      by (simp_all only: power_add [symmetric])
    have "(2 :: nat) ^ (?fb + 1) \<le> 2 ^ 64" using ok(3) by (intro power_increasing) auto
    then have z: "unat z = unat x * 2 ^ (?fb - L)" unfolding zz unat_push_bit_mult using zb(1) by simp
    have t: "nat e * 2 ^ ?fb + unat z < 2 ^ (?eb + ?fb)" using exp_room [OF e, of "unat z" ?fb] zb z by simp
    have n64: "?eb + ?fb < LENGTH(64)" using ok(1) by (simp add: format_ok_def)
    have "(2 :: nat) ^ (?eb + ?fb) + 2 ^ (?eb + ?fb) \<le> 2 ^ LENGTH(64)"
      using ok(1) power_increasing [of "?eb + ?fb + 1" 64 "2 :: nat"] by (simp add: format_ok_def)
    then have "of_bool s * 2 ^ (?eb + ?fb) + nat e * 2 ^ ?fb + unat z < 2 ^ LENGTH(64)" using t by (cases s) simp_all
    from unat_pack [OF e(1) this n64] have u: "unat (packFloat64 s (of_int e) z ?eb ?fb)
        = of_bool s * 2 ^ (?eb + ?fb) + nat e * 2 ^ ?fb + unat z" unfolding packFloat64_def .
    have R: "unat z \<le> 2 ^ (?fb + 1)" "2 ^ ?fb \<le> unat z \<or> nat e = 0" using zb z by auto
    show ?thesis unfolding r fval_scaled [OF pack_value(4) [OF ok(1,2) u t R]] pw
      using Lf [of "unat z"] z False n by (simp add: mult.assoc round_nat_exact)
  qed
qed

text \<open>An integer rounded to \<open>fb + 1\<close> significant bits.\<close>

definition rounded_int :: "int \<Rightarrow> nat \<Rightarrow> int \<Rightarrow> int" where
  "rounded_int mode fb z =
    (let m = nat \<bar>z\<bar>; k = floorlog 2 m - 1 - fb in sgn z * int (round_nat mode (z < 0) m k * 2 ^ k))"

lemma rounded_int_exact:
  assumes "\<bar>z\<bar> < 2 ^ (fb + 1)"
  shows "rounded_int mode fb z = z"
proof -
  have "nat \<bar>z\<bar> < 2 ^ (fb + 1)" using assms by (simp add: nat_less_iff)
  then have "floorlog 2 (nat \<bar>z\<bar>) \<le> fb + 1" by (simp add: floorlog_le_iff)
  then have "floorlog 2 (nat \<bar>z\<bar>) - 1 - fb = 0" by simp
  then show ?thesis by (simp add: rounded_int_def Let_def round_nat_exact mult.commute [of "sgn z"] abs_mult_sgn)
qed

text \<open>The formats an integer of \<open>n\<close> bits can be converted to: the range of the exponent includes
  every integer of that width.\<close>

definition int_format :: "nat \<Rightarrow> tfspec \<Rightarrow> bool" where
  "int_format n sp \<longleftrightarrow> format_ok sp \<and> sign_spec sp = - 1 \<and> frac_bits sp \<le> 60 \<and> 2 \<le> exp_bits sp \<and> exp_bits sp \<le> 30
     \<and> exp_bias sp < 0 \<and> int n - 2 - exp_bias sp < exp_limit (exp_bits sp) (exc_mode sp)"

lemma int_to_float_impl_rounds:
  assumes f: "int_format n sp" and n: "n \<le> 64" and x: "int (unat x) = \<bar>z\<bar>" "\<bar>z\<bar> < 2 ^ n" and s: "s \<longleftrightarrow> z < 0"
  shows "fval sp (fst (int_to_float_impl x s n sp env)) = real_of_int (rounded_int (float_rounding_mode env) (frac_bits sp) z)"
proof (cases "z = 0")
  case True
  then have "x = 0" using x(1) by (simp add: uint_0_iff)
  then show ?thesis using True
    by (simp add: int_to_float_impl_def Let_def rounded_int_def fval_def fint_def fabs_bits_def)
next
  case False
  define L where "L = floorlog 2 (unat x) - 1"
  have ux: "unat x = nat \<bar>z\<bar>" using x(1) by (metis nat_int)
  then have x0: "0 < unat x" using False by simp
  then have fl: "0 < floorlog 2 (unat x)" by (simp add: floorlog_def)
  have L: "2 ^ L \<le> unat x" "unat x < 2 ^ (L + 1)" using floorlog_bounds [of "unat x" 2] x0 fl by (auto simp: L_def)
  have "unat x < 2 ^ n" using x(2) by (simp add: ux nat_less_iff)
  then have "2 ^ L < (2 :: nat) ^ n" using L(1) by linarith
  then have Ln: "L < n" by (simp add: power_strict_increasing_iff)
  have b: "exp_bias sp < int L" "int n - 2 - exp_bias sp < exp_limit (exp_bits sp) (exc_mode sp)" "format_ok sp"
    "sign_spec sp = - 1" "frac_bits sp \<le> 60" "2 \<le> exp_bits sp" "exp_bits sp \<le> 30"
    using f by (simp_all add: int_format_def)
  have sg: "sgn z = (if s then - 1 else 1)" using False s by auto
  show ?thesis unfolding int_to_float_packed [OF b(3-7) L Ln n b(1,2)] rounded_int_def Let_def sg
    unfolding ux [symmetric] L_def [symmetric] s [symmetric] by simp
qed

lemma sint_bound: "\<bar>sint (w :: 'a::len word)\<bar> \<le> 2 ^ (LENGTH('a) - 1)"
  using sint_range_size [of w] by (simp add: word_size abs_le_iff)

lemma uint_of_abs:
  assumes "\<bar>z\<bar> < 2 ^ LENGTH('a)"
  shows "int (unat (of_int \<bar>z\<bar> :: 'a::len word)) = \<bar>z\<bar>"
  using assms by (simp add: uint_word_of_int_eq take_bit_int_eq_self)

lemma sint_abs_less: "\<bar>sint (w :: 'a::len word)\<bar> < 2 ^ LENGTH('a)"
proof -
  have "(2 :: int) ^ (LENGTH('a) - 1) < 2 ^ LENGTH('a)" by (intro power_strict_increasing) auto
  then show ?thesis using sint_bound [of w] by linarith
qed

lemma sint_abs: "int (unat (if sint w < 0 then - w else w)) = \<bar>sint (w :: 'a::len word)\<bar>"
proof -
  note sint_abs_less [of w]
  moreover have "(if sint w < 0 then - w else w) = of_int \<bar>sint w\<bar>" by (simp add: abs_if)
  ultimately show ?thesis by (simp only: uint_of_abs)
qed

text \<open>The value of a conversion's result is the integer, rounded once.\<close>

definition rounds_int :: "tfspec \<Rightarrow> fenv \<Rightarrow> u64 \<times> fenv \<Rightarrow> int \<Rightarrow> bool" where
  "rounds_int sp env r z \<longleftrightarrow>
     fval sp (fst r) = real_of_int (rounded_int (float_rounding_mode env) (frac_bits sp) z)
     \<and> (\<bar>z\<bar> < 2 ^ (frac_bits sp + 1) \<longrightarrow> fval sp (fst r) = real_of_int z)"

lemma int_conversions:
  fixes a8 :: u8 and a16 :: u16 and a32 :: u32 and a64 :: u64
  shows "int_format n sp \<Longrightarrow> n \<le> 64 \<Longrightarrow> \<bar>sint a64\<bar> < 2 ^ n \<Longrightarrow> rounds_int sp env (int_to_float a64 n sp env) (sint a64)"
    and "int_format n sp \<Longrightarrow> n \<le> 64 \<Longrightarrow> uint a64 < 2 ^ n \<Longrightarrow> rounds_int sp env (uint_to_float a64 n sp env) (uint a64)"
    and "int_format 64 sp \<Longrightarrow> rounds_int sp env (int64_to_float a64 sp env) (sint a64)
      \<and> rounds_int sp env (uint64_to_float a64 sp env) (uint a64)"
    and "int_format 32 sp \<Longrightarrow> (a32 \<noteq> 0x80000000 \<longrightarrow> rounds_int sp env (int32_to_float a32 sp env) (sint a32))
      \<and> rounds_int sp env (uint32_to_float a32 sp env) (uint a32)"
    and "int_format 16 sp \<Longrightarrow> rounds_int sp env (int16_to_float a16 sp env) (sint a16)
      \<and> rounds_int sp env (uint16_to_float a16 sp env) (uint a16)"
    and "int_format 8 sp \<Longrightarrow> rounds_int sp env (int8_to_float a8 sp env) (sint a8)
      \<and> rounds_int sp env (uint8_to_float a8 sp env) (uint a8)"
proof -
  have R: "rounds_int sp env (int_to_float_impl x s n sp env) z"
    if "int_format n sp" "n \<le> 64" "int (unat x) = \<bar>z\<bar>" "\<bar>z\<bar> < 2 ^ n" "s \<longleftrightarrow> z < 0" for n x z s
    using int_to_float_impl_rounds [OF that, of env] by (auto simp: rounds_int_def rounded_int_exact)
  have uc: "uint (ucast w :: u64) = uint w" if "LENGTH('a) \<le> 64" for w :: "'a::len word"
    using that by (simp add: uint_up_ucast is_up)
  have u: "\<bar>uint w\<bar> < 2 ^ LENGTH('a)" for w :: "'a::len word" by simp
  have s: "\<bar>sint w\<bar> < 2 ^ LENGTH('a)" for w :: "'a::len word" by (rule sint_abs_less)
  show "rounds_int sp env (int_to_float a64 n sp env) (sint a64)" if "int_format n sp" "n \<le> 64" "\<bar>sint a64\<bar> < 2 ^ n"
    unfolding int_to_float_def using that by (intro R sint_abs) simp_all
  show "rounds_int sp env (uint_to_float a64 n sp env) (uint a64)" if "int_format n sp" "n \<le> 64" "uint a64 < 2 ^ n"
    unfolding uint_to_float_def using that by (intro R) simp_all
  show "int_format 64 sp \<Longrightarrow> rounds_int sp env (int64_to_float a64 sp env) (sint a64)
      \<and> rounds_int sp env (uint64_to_float a64 sp env) (uint a64)"
    unfolding int64_to_float_def uint64_to_float_def using s [of a64] u [of a64]
    by (intro impI conjI R sint_abs) simp_all
  show "int_format 16 sp \<Longrightarrow> rounds_int sp env (int16_to_float a16 sp env) (sint a16)
      \<and> rounds_int sp env (uint16_to_float a16 sp env) (uint a16)"
    unfolding int16_to_float_def uint16_to_float_def using s [of a16] u [of a16]
    by (auto intro!: R uint_of_abs simp: uc)
  show "int_format 8 sp \<Longrightarrow> rounds_int sp env (int8_to_float a8 sp env) (sint a8)
      \<and> rounds_int sp env (uint8_to_float a8 sp env) (uint a8)"
    unfolding int8_to_float_def uint8_to_float_def using s [of a8] u [of a8]
    by (auto intro!: R uint_of_abs simp: uc)
  have "int (unat (scast (if sint a32 < 0 then - a32 else a32) :: u64)) = \<bar>sint a32\<bar>" if "a32 \<noteq> 0x80000000"
  proof -
    define b where "b = (if sint a32 < 0 then - a32 else a32)"
    have b: "int (unat b) = \<bar>sint a32\<bar>" unfolding b_def by (rule sint_abs)
    have "unat b \<noteq> 2 ^ 31"
    proof
      assume "unat b = 2 ^ 31"
      then have "b = 0x80000000" by (simp add: word_unat_eq_iff)
      then show False using that by (auto simp: b_def minus_equation_iff [of a32] split: if_splits)
    qed
    moreover have "int (unat b) \<le> int (2 ^ 31)" unfolding b using sint_bound [of a32] by simp
    then have "unat b \<le> 2 ^ 31" by (simp only: of_nat_le_iff)
    ultimately have "unat b < 2 ^ 31" by linarith
    then have "sint b = int (unat b)" using sint_unat [of b] by simp
    then have "scast b = (of_int \<bar>sint a32\<bar> :: u64)" by (simp only: b scast_eq)
    then show ?thesis using uint_of_abs [where 'a = 64, of "sint a32"] s [of a32] unfolding b_def by simp
  qed
  then show "int_format 32 sp \<Longrightarrow> (a32 \<noteq> 0x80000000 \<longrightarrow> rounds_int sp env (int32_to_float a32 sp env) (sint a32))
      \<and> rounds_int sp env (uint32_to_float a32 sp env) (uint a32)"
    unfolding int32_to_float_def uint32_to_float_def using s [of a32] u [of a32]
    by (auto intro!: R simp: uc)
qed

text \<open>
  C15. The conversions from integers, of 8 to 64 bits or of a width given at run time, signed and
  unsigned, in every format whose exponent
  range includes the integers of that width: the value of the result is the integer, rounded once
  in the current mode to the precision of the format; an integer of at most that many bits is
  converted exactly. The most negative 32-bit integer is left out, whose negation overflows in C.
\<close>

theorem int_to_float_correct:
  fixes a8 :: u8 and a16 :: u16 and a32 :: u32 and a64 :: u64
  shows "(int_format n sp \<and> n \<le> 64 \<and> \<bar>sint a64\<bar> < 2 ^ n \<longrightarrow> rounds_int sp env (int_to_float a64 n sp env) (sint a64))
    \<and> (int_format n sp \<and> n \<le> 64 \<and> uint a64 < 2 ^ n \<longrightarrow> rounds_int sp env (uint_to_float a64 n sp env) (uint a64))
    \<and> (int_format 64 sp \<longrightarrow> rounds_int sp env (int64_to_float a64 sp env) (sint a64)
      \<and> rounds_int sp env (uint64_to_float a64 sp env) (uint a64))
    \<and> (int_format 32 sp \<longrightarrow> (a32 \<noteq> 0x80000000 \<longrightarrow> rounds_int sp env (int32_to_float a32 sp env) (sint a32))
      \<and> rounds_int sp env (uint32_to_float a32 sp env) (uint a32))
    \<and> (int_format 16 sp \<longrightarrow> rounds_int sp env (int16_to_float a16 sp env) (sint a16)
      \<and> rounds_int sp env (uint16_to_float a16 sp env) (uint a16))
    \<and> (int_format 8 sp \<longrightarrow> rounds_int sp env (int8_to_float a8 sp env) (sint a8)
      \<and> rounds_int sp env (uint8_to_float a8 sp env) (uint a8))"
  by (simp add: int_conversions)

theorem int_to_float_correct_witness:
  "fval IEEE32_SPEC_ARGS (fst (int32_to_float (- 16777217) IEEE32_SPEC_ARGS fenv_init)) = - 16777216
   \<and> fval IEEE64_SPEC_ARGS (fst (uint64_to_float (2 ^ 52 + 1) IEEE64_SPEC_ARGS fenv_init)) = 2 ^ 52 + 1
   \<and> fval IEEE16_SPEC_ARGS (fst (int8_to_float 100 IEEE16_SPEC_ARGS fenv_init)) = 100
   \<and> fval IEEE32_SPEC_ARGS (fst (uint16_to_float 65535 IEEE32_SPEC_ARGS fenv_init)) = 65535
   \<and> fval IEEE64_SPEC_ARGS (fst (int_to_float (- 7) 64 IEEE64_SPEC_ARGS fenv_init)) = - 7"
proof -
  have f: "int_format 32 IEEE32_SPEC_ARGS" "int_format 64 IEEE64_SPEC_ARGS" "int_format 8 IEEE16_SPEC_ARGS"
    "int_format 16 IEEE32_SPEC_ARGS"
    by (simp_all add: int_format_def format_ok_def IEEE16_SPEC_ARGS_def IEEE32_SPEC_ARGS_def IEEE64_SPEC_ARGS_def
        exp_limit_def exc_defs)
  have c: "rounds_int IEEE32_SPEC_ARGS fenv_init (int32_to_float (- 16777217) IEEE32_SPEC_ARGS fenv_init) (sint (- 16777217 :: u32))"
    "rounds_int IEEE64_SPEC_ARGS fenv_init (uint64_to_float (2 ^ 52 + 1) IEEE64_SPEC_ARGS fenv_init) (uint (2 ^ 52 + 1 :: u64))"
    "rounds_int IEEE16_SPEC_ARGS fenv_init (int8_to_float 100 IEEE16_SPEC_ARGS fenv_init) (sint (100 :: u8))"
    "rounds_int IEEE32_SPEC_ARGS fenv_init (uint16_to_float 65535 IEEE32_SPEC_ARGS fenv_init) (uint (65535 :: u16))"
    "rounds_int IEEE64_SPEC_ARGS fenv_init (int_to_float (- 7) 64 IEEE64_SPEC_ARGS fenv_init) (sint (- 7 :: u64))"
    using f int_to_float_correct [of _ IEEE32_SPEC_ARGS _ fenv_init "- 16777217" 65535]
      int_to_float_correct [of _ IEEE64_SPEC_ARGS "2 ^ 52 + 1" fenv_init]
      int_to_float_correct [of _ IEEE16_SPEC_ARGS _ fenv_init _ _ 100]
      int_to_float_correct [of 64 IEEE64_SPEC_ARGS "- 7" fenv_init] by simp_all
  have k: "frac_bits IEEE32_SPEC_ARGS = 23" "frac_bits IEEE64_SPEC_ARGS = 52" "frac_bits IEEE16_SPEC_ARGS = 10"
    by (simp_all add: IEEE16_SPEC_ARGS_def IEEE32_SPEC_ARGS_def IEEE64_SPEC_ARGS_def)
  have "floorlog 2 16777217 = 25"
    by (intro antisym floorlog_leI floorlog_geI) simp_all
  then have r: "rounded_int (float_rounding_mode fenv_init) 23 (- 16777217) = - 16777216"
    by (simp add: rounded_int_def Let_def round_nat_def fenv_init_def round_mode_defs)
  have "fval IEEE32_SPEC_ARGS (fst (int32_to_float (- 16777217) IEEE32_SPEC_ARGS fenv_init)) = - 16777216"
    using c(1) unfolding rounds_int_def k by (simp add: r)
  moreover have "fval IEEE64_SPEC_ARGS (fst (uint64_to_float (2 ^ 52 + 1) IEEE64_SPEC_ARGS fenv_init)) = 2 ^ 52 + 1"
    using c(2) unfolding rounds_int_def k by simp
  moreover have "fval IEEE16_SPEC_ARGS (fst (int8_to_float 100 IEEE16_SPEC_ARGS fenv_init)) = 100"
    using c(3) unfolding rounds_int_def k by simp
  moreover have "fval IEEE32_SPEC_ARGS (fst (uint16_to_float 65535 IEEE32_SPEC_ARGS fenv_init)) = 65535"
    using c(4) unfolding rounds_int_def k by simp
  moreover have "fval IEEE64_SPEC_ARGS (fst (int_to_float (- 7) 64 IEEE64_SPEC_ARGS fenv_init)) = - 7"
    using c(5) unfolding rounds_int_def k by simp
  ultimately show ?thesis by blast
qed

section \<open>Single to double precision and back\<close>

lemma jam_exact: "jam (x * 2 ^ n) n = x"
  by (simp add: jam_def Let_def)

lemma unat_ucast_32: "unat (ucast (a :: u32) :: u64) = unat a"
proof -
  have "unat a < 2 ^ 32" using unat_less_exp [of a] by simp
  then show ?thesis by (simp add: unsigned_ucast_eq take_bit_nat_eq_self)
qed

lemma unat_pack_ieee64:
  assumes "unat z = R * 2 ^ 29" "R < 2 ^ 24" "0 \<le> e" "e < 0x7FD"
  shows "unat (packFloat64 s (of_int e) z 11 52) = of_bool s * 2 ^ 63 + nat e * 2 ^ 52 + R * 2 ^ 29"
proof -
  have "nat e \<le> 0x7FC" "nat e * 2 ^ 52 \<le> 0x7FC * 2 ^ 52" using assms(4) by auto
  then have "of_bool s * 2 ^ 63 + nat e * 2 ^ 52 + unat z < 2 ^ LENGTH(64)" using assms by (cases s) auto
  from unat_pack [OF assms(3) this] show ?thesis using assms(1) by (simp add: packFloat64_def)
qed

lemma single_fields:
  fixes a :: u32
  shows "uint (extractFloatExp (ucast a) 8 23) = int (unat a div 2 ^ 23 mod 256)"
    and "unat (ucast (extractFloatFrac (ucast a) 23) :: u32) = unat a mod 2 ^ 23"
    and "extractFloatSign (ucast a) 8 23 (- 1) \<longleftrightarrow> unat a div 2 ^ 31 = 1"
    and "unat (push_bit 29 (ucast (ucast (extractFloatFrac (ucast a) 23) :: u32)) :: u64) = unat a mod 2 ^ 23 * 2 ^ 29"
proof -
  show "uint (extractFloatExp (ucast a) 8 23) = int (unat a div 2 ^ 23 mod 256)"
    using unat_exp [of "ucast a" 8 23] by (simp only: uint_nat unat_ucast_32) simp
  have f: "unat (extractFloatFrac (ucast a) 23) = unat a mod 2 ^ 23" by (simp only: unat_frac unat_ucast_32)
  moreover have "unat a mod 2 ^ 23 < (2 :: nat) ^ 23" by simp
  ultimately show g: "unat (ucast (extractFloatFrac (ucast a) 23) :: u32) = unat a mod 2 ^ 23"
    by (simp add: unsigned_ucast_eq take_bit_nat_eq_self)
  show "extractFloatSign (ucast a) 8 23 (- 1) \<longleftrightarrow> unat a div 2 ^ 31 = 1"
    using sign_iff [of "ucast a" 8 23] unat_less_exp [of a] by (simp add: unat_ucast_32)
  have "unat a mod 2 ^ 23 * 2 ^ 29 < (2 :: nat) ^ 64" using pos_mod_bound by simp
  then show "unat (push_bit 29 (ucast (ucast (extractFloatFrac (ucast a) 23) :: u32)) :: u64) = unat a mod 2 ^ 23 * 2 ^ 29"
    by (simp add: unat_push_bit_mult unat_ucast_32 g)
qed

text \<open>The three cases of the widening conversion.\<close>

lemma widen_normal:
  fixes a :: u32
  defines "e \<equiv> unat a div 2 ^ 23 mod 256" and "f \<equiv> unat a mod 2 ^ 23"
  assumes "e \<noteq> 0" "e \<noteq> 255"
  shows "unat (float32_to_float64_ieee a exc sn)
      = of_bool (unat a div 2 ^ 31 = 1) * 2 ^ 63 + (e + 0x37F) * 2 ^ 52 + (2 ^ 23 + f) * 2 ^ 29"
proof -
  have e: "e < 256" "0 < e" "f < 2 ^ 23" using assms by (simp_all add: e_def f_def)
  have r: "float32_to_float64_ieee a exc sn = packFloat64 (unat a div 2 ^ 31 = 1) (of_int (int e + 0x380))
      (push_bit 29 (ucast (ucast (extractFloatFrac (ucast a) 23) :: u32))) 11 52"
    unfolding float32_to_float64_ieee_def Let_def single_fields e_def [symmetric] using assms(3,4) by simp
  have "nat (int e + 0x380) = e + 0x37F + 1" by simp
  then show ?thesis unfolding r
    using unat_pack_ieee64 [OF single_fields(4), of a "int e + 0x380"] e by (simp add: f_def add_mult_distrib)
qed

lemma widen_zero:
  "unat a div 2 ^ 23 mod 256 = 0 \<Longrightarrow> unat a mod 2 ^ 23 = 0 \<Longrightarrow>
    unat (float32_to_float64_ieee a exc sn) = of_bool (unat a div 2 ^ 31 = 1) * 2 ^ 63"
  unfolding float32_to_float64_ieee_def Let_def single_fields
  using single_fields(2) [of a] unat_push_1 [of 63, where 'a = 64]
  by (simp add: word_eq_0_iff_unat [symmetric] del: push_bit_of_1)

lemma widen_subnormal:
  fixes a :: u32
  defines "f \<equiv> unat a mod 2 ^ 23"
  assumes e: "unat a div 2 ^ 23 mod 256 = 0" and c: "is_clz 24 f c"
  shows "unat (float32_to_float64_ieee a exc True)
      = of_bool (unat a div 2 ^ 31 = 1) * 2 ^ 63 + (0x380 - c) * 2 ^ 52 + (f * 2 ^ c) * 2 ^ 29"
    and "2 ^ 23 \<le> f * 2 ^ c" "f * 2 ^ c < 2 ^ 24" "1 \<le> c" "c \<le> 23"
proof -
  have f0: "0 < f" "f < 2 ^ 23" "c < 24" using is_clz_pos [OF c] c by (simp_all add: f_def is_clz_def)
  have b: "2 ^ 23 \<le> f * 2 ^ c \<and> f * 2 ^ c < 2 ^ 24" using is_clz_mult_less [OF c] by simp
  then show "2 ^ 23 \<le> f * 2 ^ c" "f * 2 ^ c < 2 ^ 24" by simp_all
  show "1 \<le> c" using b f0 by (cases c) auto
  show "c \<le> 23" using f0 by simp
  define g where "g = (ucast (extractFloatFrac (ucast a) 23) :: u32)"
  have g: "unat g = f" unfolding g_def f_def by (rule single_fields(2))
  have n: "unat (count_leading_zero_macro 24 (ucast g)) = c"
    using count_leading_zero_macros_clz(1) [of 24 "ucast g" c] c by (simp add: unat_ucast_32 g)
  have p: "unat (push_bit c g) = f * 2 ^ c" using b by (simp add: unat_push_bit_mult g)
  then have q: "unat (push_bit 29 (ucast (push_bit c g)) :: u64) = f * 2 ^ c * 2 ^ 29"
    using b by (simp add: unat_push_bit_mult unat_ucast_32)
  have ng: "normalizeFloat32Subnormal g = (1 - int c, push_bit c g)"
    by (simp add: normalizeFloat32Subnormal_def Let_def n)
  have "g \<noteq> 0" using g f0 by auto
  then have r: "float32_to_float64_ieee a exc True = packFloat64 (unat a div 2 ^ 31 = 1) (of_int (1 - int c - 1 + 0x380))
      (push_bit 29 (ucast (push_bit c g))) 11 52"
    unfolding float32_to_float64_ieee_def Let_def single_fields(1,3) g_def [symmetric] ng e by simp
  have "nat (1 - int c - 1 + 0x380) = 0x380 - c" by simp
  then show "unat (float32_to_float64_ieee a exc True)
      = of_bool (unat a div 2 ^ 31 = 1) * 2 ^ 63 + (0x380 - c) * 2 ^ 52 + (f * 2 ^ c) * 2 ^ 29"
    unfolding r using unat_pack_ieee64 [OF q conjunct2 [OF b], of "1 - int c - 1 + 0x380"] f0 by simp
qed

lemma widen_special:
  "unat a div 2 ^ 23 mod 256 = 255 \<Longrightarrow> float32_to_float64_ieee a FLOAT_EXC_STD sn =
    push_bit 63 (of_bool (unat a div 2 ^ 31 = 1)) OR push_bit 51 (of_bool (unat a mod 2 ^ 23 \<noteq> 0)) OR 0x7FF0000000000000"
  unfolding float32_to_float64_ieee_def Let_def single_fields word_eq_0_iff_unat by simp

lemma ieee_formats [simp]:
  "exp_bits IEEE32_SPEC_ARGS = 8" "frac_bits IEEE32_SPEC_ARGS = 23" "exp_bias IEEE32_SPEC_ARGS = - 127"
  "sign_spec IEEE32_SPEC_ARGS = - 1" "format_ok IEEE32_SPEC_ARGS"
  "exp_bits IEEE64_SPEC_ARGS = 11" "frac_bits IEEE64_SPEC_ARGS = 52" "exp_bias IEEE64_SPEC_ARGS = - 1023"
  "sign_spec IEEE64_SPEC_ARGS = - 1" "format_ok IEEE64_SPEC_ARGS"
  by (simp_all add: IEEE32_SPEC_ARGS_def IEEE64_SPEC_ARGS_def format_ok_def)

lemma fint_single:
  fixes a :: u32
  shows "fint IEEE32_SPEC_ARGS (ucast a) = (if unat a div 2 ^ 31 = 1 then - 1 else 1)
    * int (fmag 23 (unat a div 2 ^ 23 mod 256) (unat a mod 2 ^ 23))"
proof -
  have "unat a mod (2 ^ 23 * 2 ^ 8) = 2 ^ 23 * (unat a div 2 ^ 23 mod 2 ^ 8) + unat a mod 2 ^ 23" by (rule mod_mult2_eq)
  then have "unat a mod 2 ^ (8 + 23) div 2 ^ 23 = unat a div 2 ^ 23 mod 2 ^ 8" by simp
  moreover have "unat a mod 2 ^ (8 + 23) mod 2 ^ 23 = unat a mod 2 ^ 23" by (simp add: mod_mod_cancel)
  ultimately show ?thesis using single_fields(3) [of a]
    by (simp add: fint_def fsign_def fabs_bits_def pattern_mag_def unat_ucast_32)
qed

lemma fint_double:
  assumes "unat b = of_bool s * 2 ^ 63 + x * 2 ^ 52 + R * 2 ^ 29" "R < 2 ^ 24" "2 ^ 23 \<le> R \<or> x = 0" "x < 0x7FD"
  shows "fint IEEE64_SPEC_ARGS b = (if s then - 1 else 1) * int (R * 2 ^ 29 * 2 ^ x)"
  using assms by (intro pack_value(4)) auto

text \<open>
  C26. \<^verbatim>\<open>__float32_to_float64_ieee\<close> keeps the value: every finite single-precision number, subnormal or
  not, becomes the double-precision number of the same value. An infinity becomes the infinity
  of that sign, a NaN the quiet NaN of that sign.
\<close>

theorem float32_to_float64_exact:
  fixes a :: u32
  defines "e \<equiv> unat a div 2 ^ 23 mod 256"
  shows "(e \<noteq> 255 \<longrightarrow> fval IEEE64_SPEC_ARGS (float32_to_float64_ieee a FLOAT_EXC_STD True) = fval IEEE32_SPEC_ARGS (ucast a))
    \<and> (e = 255 \<longrightarrow> float32_to_float64_ieee a FLOAT_EXC_STD True =
        push_bit 63 (of_bool (unat a div 2 ^ 31 = 1)) OR push_bit 51 (of_bool (unat a mod 2 ^ 23 \<noteq> 0)) OR 0x7FF0000000000000)"
proof (intro conjI impI)
  let ?r = "float32_to_float64_ieee a FLOAT_EXC_STD True" and ?s = "unat a div 2 ^ 31 = 1"
  define f where "f = unat a mod 2 ^ 23"
  have f: "f < 2 ^ 23" "e < 256" by (simp_all add: f_def e_def)
  assume e: "e \<noteq> 255"
  have "fint IEEE64_SPEC_ARGS ?r = (if ?s then - 1 else 1) * int (fmag 23 e f * 2 ^ 925)"
  proof -
    consider "e \<noteq> 0" | "e = 0" "f = 0" | "e = 0" "f \<noteq> 0" by blast
    then show ?thesis
    proof cases
      case 1
      have "e + 0x37F = (e - 1) + 896" using 1 by simp
      then have v: "(2 ^ 23 + f) * 2 ^ 29 * 2 ^ (e + 0x37F) = fmag 23 e f * 2 ^ 925"
        using 1 by (simp only: fmag_def power_add) simp
      note w = widen_normal [of a FLOAT_EXC_STD True, folded e_def f_def, OF 1 e]
      show ?thesis using fint_double [OF w, unfolded v] f by simp
    next
      case 2
      then show ?thesis using fint_double [of ?r ?s 0 0] widen_zero [of a] by (simp add: e_def f_def fmag_def)
    next
      case 3
      then obtain c where c: "is_clz 24 f c" using is_clz_exists [of f 24] f by auto
      note w = widen_subnormal [of a c, folded f_def, OF _ c]
      have "c + (0x380 - c) = 896" using w(5) 3 by (simp add: e_def)
      then have v: "f * 2 ^ c * 2 ^ 29 * 2 ^ (0x380 - c) = fmag 23 e f * 2 ^ 925"
        using 3 by (simp only: fmag_def power_add [symmetric] mult.assoc if_True) (simp add: power_add [symmetric])
      show ?thesis using fint_double [OF w(1), unfolded v] w(2,3) 3(1) by (simp add: e_def)
    qed
  qed
  then have "fint IEEE64_SPEC_ARGS ?r = fint IEEE32_SPEC_ARGS (ucast a) * 2 ^ 925"
    unfolding fint_single f_def e_def by simp
  moreover have "(2 :: real) ^ 925 * 2 powi (- 1074) = 2 powi (- 149)"
  proof -
    have "(2 :: real) powi (- 149) = 2 powi (int 925 + (- 1074))" by simp
    also have "\<dots> = 2 powi (int 925) * 2 powi (- 1074)" by (rule power_int_add) simp
    finally show ?thesis by (simp only: power_int_of_nat)
  qed
  ultimately show "fval IEEE64_SPEC_ARGS ?r = fval IEEE32_SPEC_ARGS (ucast a)"
    unfolding fval_def by (simp only: ieee_formats of_int_mult of_int_power of_int_numeral mult.assoc) simp
next
  assume "e = 255"
  then show "float32_to_float64_ieee a FLOAT_EXC_STD True =
      push_bit 63 (of_bool (unat a div 2 ^ 31 = 1)) OR push_bit 51 (of_bool (unat a mod 2 ^ 23 \<noteq> 0)) OR 0x7FF0000000000000"
    unfolding e_def by (rule widen_special)
qed

theorem float32_to_float64_exact_witness:
  "fval IEEE64_SPEC_ARGS (float32_to_float64_ieee 3 FLOAT_EXC_STD True) = 3 * 2 powi (- 149)"
proof -
  have "unat (3 :: u32) div 2 ^ 23 mod 256 \<noteq> 255" by simp
  with float32_to_float64_exact [of 3]
  have "fval IEEE64_SPEC_ARGS (float32_to_float64_ieee 3 FLOAT_EXC_STD True) = fval IEEE32_SPEC_ARGS (ucast (3 :: u32))" by blast
  then show ?thesis unfolding fval_def fint_single by (simp add: fmag_def)
qed

lemma unat_or_high:
  fixes w :: "'a::len word"
  assumes "unat w < 2 ^ n" "n < LENGTH('a)"
  shows "unat (w OR push_bit n 1) = unat w + 2 ^ n"
proof -
  have "\<not> bit (unat w) n" using assms(1) by (simp add: bit_iff_odd)
  then have "\<not> bit w n" using assms(2) by (simp add: bit_unsigned_iff)
  then have "w AND push_bit n 1 = 0" by (intro bit_word_eqI) (auto simp: bit_simps)
  then have o: "w OR push_bit n 1 = w + push_bit n 1" by (simp only: disjunctive_add_eq_or)
  have "unat w + 2 ^ n < 2 ^ (n + 1)" using assms(1) by simp
  also have "(2 :: nat) ^ (n + 1) \<le> 2 ^ LENGTH('a)" using assms(2) by (intro power_increasing) auto
  finally show ?thesis unfolding o using unat_push_1 [OF assms(2)] unat_add_lem [of w "push_bit n 1"] by simp
qed

text \<open>Rounding to single precision is exact on a significand with seven zero bits at the end.\<close>

lemma round32_exact:
  assumes z: "unat z = R * 2 ^ 7" "R < 2 ^ 24" and e: "0 \<le> zExp" "zExp < 254" "R = 0 \<Longrightarrow> zExp = 0"
  shows "unat (fst (roundAndPackFloat32 env s zExp z 8 23 FLOAT_EXC_STD sn)) = of_bool s * 2 ^ 31 + nat zExp * 2 ^ 23 + R"
    and "snd (roundAndPackFloat32 env s zExp z 8 23 FLOAT_EXC_STD sn) = env"
proof -
  have r: "roundAndPackFloat32 env s zExp z 8 23 FLOAT_EXC_STD sn
      = round_pack 7 env s zExp z (roundIncrement env s 7) (z AND ones 7) 8 23"
    using e(1,2) by (simp add: roundAndPackFloat32_def Let_def round_pack_32)
  have R: "round_nat m s (unat z) 7 = R" for m unfolding z(1) by (simp add: round_nat_exact)
  have z2: "unat z + 2 ^ 7 \<le> 2 ^ LENGTH(32)" using z by simp
  have "nat zExp \<le> 253" using e by simp
  then have t: "nat zExp * 2 ^ 23 + round_nat (float_rounding_mode env) s (unat z) 7 < 2 ^ (8 + 23)" unfolding R using z(2) by simp
  have n: "1 \<le> (7 :: nat)" "7 < LENGTH(32)" "8 + 23 < LENGTH(32)" by simp_all
  have e0: "round_nat (float_rounding_mode env) s (unat z) 7 = 0 \<Longrightarrow> zExp = 0" unfolding R by (rule e(3))
  note ok = round_pack_ok [OF n(1,2) z2 e(1) e0 n(3) t]
  show "unat (fst (roundAndPackFloat32 env s zExp z 8 23 FLOAT_EXC_STD sn)) = of_bool s * 2 ^ 31 + nat zExp * 2 ^ 23 + R"
    unfolding r using ok(1) R by simp
  show "snd (roundAndPackFloat32 env s zExp z 8 23 FLOAT_EXC_STD sn) = env" unfolding r using ok(2) z(1) by simp
qed

lemma round32_exact_subnormal:
  assumes z: "unat z = f * 2 ^ 7 * 2 ^ c" "f < 2 ^ 23" and c: "1 \<le> c" "c \<le> 23"
  shows "unat (fst (roundAndPackFloat32 env s (- int c) z 8 23 FLOAT_EXC_STD True)) = of_bool s * 2 ^ 31 + f"
    and "snd (roundAndPackFloat32 env s (- int c) z 8 23 FLOAT_EXC_STD True) = env"
proof -
  define w where "w = shift32RightJamming z (int c)"
  have w: "unat w = f * 2 ^ 7" unfolding w_def using shift32_jam [of "int c" z] z(1) by (simp only: jam_exact nat_int)
  then have b: "w AND ones 7 = 0" unfolding word_eq_0_iff_unat and_ones by simp
  have i: "int16 (int c) = int c" using c by (intro int16_small) auto
  have m: "(- int c) mod 2 ^ 32 = 2 ^ 32 - int c" using mod_neg_32 [of "- int c"] c by simp
  have rw: "roundAndPackFloat32 env s (- int c) z 8 23 FLOAT_EXC_STD True
      = roundPack32 env s 0 w (roundIncrement env s 7) (w AND ones 7) 8 23"
    unfolding roundAndPackFloat32_def Let_def m using c b by (simp add: i w_def [symmetric])
  also have "\<dots> = roundAndPackFloat32 env s 0 w 8 23 FLOAT_EXC_STD True"
    by (simp add: roundAndPackFloat32_def Let_def)
  finally have r: "roundAndPackFloat32 env s (- int c) z 8 23 FLOAT_EXC_STD True
      = roundAndPackFloat32 env s 0 w 8 23 FLOAT_EXC_STD True" .
  show "unat (fst (roundAndPackFloat32 env s (- int c) z 8 23 FLOAT_EXC_STD True)) = of_bool s * 2 ^ 31 + f"
    "snd (roundAndPackFloat32 env s (- int c) z 8 23 FLOAT_EXC_STD True) = env"
    unfolding r using round32_exact [OF w, of 0 env s True] z(2) by simp_all
qed

lemma narrow_double:
  assumes b: "unat b = of_bool s * 2 ^ 63 + x * 2 ^ 52 + R * 2 ^ 29" "2 ^ 23 \<le> R" "R < 2 ^ 24" "x < 0x7FD"
  obtains z where "float64_to_float32_ieee b FLOAT_EXC_STD sn env
      = roundAndPackFloat32 env s (int x - 0x380) z 8 23 FLOAT_EXC_STD sn" "unat z = R * 2 ^ 7"
proof -
  define g where "g = R - 2 ^ 23"
  have g: "R = 2 ^ 23 + g" "g < 2 ^ 23" using b by (simp_all add: g_def)
  define y where "y = (x + 1) * 2 ^ 52 + g * 2 ^ 29"
  have "y < (x + 2) * 2 ^ 52" using g(2) by (simp add: y_def)
  also have "\<dots> \<le> 0x7FE * 2 ^ 52" using b(4) by (intro mult_le_mono1) simp
  finally have y: "y < 2 ^ 63" "unat b = of_bool s * 2 ^ 63 + y" using b(1) by (simp_all add: y_def g(1))
  have "y = g * 2 ^ 29 + (x + 1) * 2 ^ 52" "g * 2 ^ 29 < 2 ^ 52" using g(2) by (simp_all add: y_def)
  then have yd: "y div 2 ^ 52 = x + 1" "y mod 2 ^ 52 = g * 2 ^ 29" by (simp_all only: div_mult_self1 mod_mult_self1) simp_all
  have "unat b = y + of_bool s * 2 ^ 11 * 2 ^ 52" using y(2) by simp
  then have "unat b div 2 ^ 52 = of_bool s * 2 ^ 11 + y div 2 ^ 52" "unat b mod 2 ^ 52 = y mod 2 ^ 52"
    by (simp_all only: div_mult_self1 mod_mult_self1 power_not_zero zero_neq_numeral not_False_eq_True)
  then have f: "unat (extractFloatExp b 11 52) = x + 1" "unat (extractFloatFrac b 52) = g * 2 ^ 29"
    using b(4) yd by (simp_all add: unat_exp unat_frac)
  then have e: "uint (extractFloatExp b 11 52) = int x + 1" by (simp add: uint_nat)
  have sg: "extractFloatSign b 11 52 (- 1) \<longleftrightarrow> s" using y
    by (cases s) (auto simp: extractFloatSign_def word_eq_0_iff_unat unat_drop_bit_div)
  define h where "h = shift64RightJamming (extractFloatFrac b 52) 22"
  have h: "unat h = g * 2 ^ 7" unfolding h_def using shift64_jam [of 22 "extractFloatFrac b 52"] jam_exact [of "g * 2 ^ 7" 22]
    by (simp add: f(2) mult.commute)
  then have u: "unat (ucast h :: u32) = g * 2 ^ 7" using g(2) by (simp add: unat_ucast_mod)
  define z where "z = (ucast h :: u32) OR push_bit 30 1"
  have z: "unat z = R * 2 ^ 7" unfolding z_def using unat_or_high [of "ucast h :: u32" 30] u g by simp
  have "float64_to_float32_ieee b FLOAT_EXC_STD sn env
      = roundAndPackFloat32 env s (int x - 0x380) z 8 23 FLOAT_EXC_STD sn"
    unfolding float64_to_float32_ieee_def Let_def e sg h_def [symmetric] using b(4) by (simp add: z_def)
  then show ?thesis using z by (rule that)
qed

lemma roundtrip_cases:
  fixes a :: u32
  defines "e \<equiv> unat a div 2 ^ 23 mod 256" and "f \<equiv> unat a mod 2 ^ 23"
  shows "\<not> (e = 255 \<and> f \<noteq> 0) \<Longrightarrow>
      float64_to_float32_ieee (float32_to_float64_ieee a FLOAT_EXC_STD True) FLOAT_EXC_STD True env = (a, env)"
    and "e = 255 \<and> f \<noteq> 0 \<Longrightarrow>
      float64_to_float32_ieee (float32_to_float64_ieee a FLOAT_EXC_STD True) FLOAT_EXC_STD True env =
        (push_bit 31 (of_bool (unat a div 2 ^ 31 = 1)) OR 0x7FC00000, env)"
proof -
  define s where "s \<longleftrightarrow> unat a div 2 ^ 31 = 1"
  let ?b = "float32_to_float64_ieee a FLOAT_EXC_STD True"
  have lt: "f < 2 ^ 23" "e < 256" by (simp_all add: e_def f_def)
  have "unat a div 2 ^ 31 < 2" using unat_less_exp [of a] by (simp add: less_mult_imp_div_less)
  then have "unat a div 2 ^ 31 = of_bool s" by (auto simp: s_def)
  moreover have "unat a div 2 ^ 23 = unat a div 2 ^ 31 * 256 + e"
    using div_mult_mod_eq [of "unat a div 2 ^ 23" 256] by (simp add: e_def div_mult2_eq [symmetric])
  ultimately have a: "unat a = of_bool s * 2 ^ 31 + e * 2 ^ 23 + f"
    using div_mult_mod_eq [of "unat a" "2 ^ 23"] by (simp add: f_def algebra_simps)
  have eqI: "r = (a, env)" if "unat (fst r) = unat a" "snd r = env" for r
    using that by (simp add: prod_eq_iff word_unat_eq_iff)
  have special: "float64_to_float32_ieee ?b FLOAT_EXC_STD True env =
      (push_bit 31 (of_bool s) OR push_bit 22 (of_bool (f \<noteq> 0)) OR 0x7F800000, env)" if "e = 255"
    unfolding widen_special [of a True, folded e_def f_def s_def, OF that]
    by (cases s; cases "f = 0") (simp_all add: float64_to_float32_ieee_def Let_def extractFloatExp_def extractFloatFrac_def
        extractFloatSign_def)
  show "float64_to_float32_ieee ?b FLOAT_EXC_STD True env = (push_bit 31 (of_bool (unat a div 2 ^ 31 = 1)) OR 0x7FC00000, env)"
    if "e = 255 \<and> f \<noteq> 0"
    using special that unfolding s_def [symmetric] by (simp add: or.assoc)
  show "float64_to_float32_ieee ?b FLOAT_EXC_STD True env = (a, env)" if n: "\<not> (e = 255 \<and> f \<noteq> 0)"
  proof -
    consider "e = 255" "f = 0" | "e \<noteq> 0" "e \<noteq> 255" | "e = 0" "f = 0" | "e = 0" "f \<noteq> 0" using n by blast
    then show ?thesis
    proof cases
      case 1
      then show ?thesis using a special by (cases s) (simp_all add: word_unat_eq_iff)
    next
      case 2
      note w = widen_normal [of a FLOAT_EXC_STD True, folded e_def f_def s_def, OF 2]
      obtain z where z: "float64_to_float32_ieee ?b FLOAT_EXC_STD True env
          = roundAndPackFloat32 env s (int (e + 0x37F) - 0x380) z 8 23 FLOAT_EXC_STD True" "unat z = (2 ^ 23 + f) * 2 ^ 7"
        using narrow_double [OF w, of True env] lt by auto
      have "int (e + 0x37F) - 0x380 = int (e - 1)" using 2 by simp
      moreover have "(e - 1) * 2 ^ 23 + (2 ^ 23 + f) = e * 2 ^ 23 + f" using 2 by (cases e) simp_all
      ultimately show ?thesis unfolding z(1)
        using round32_exact [OF z(2), of "int (e - 1)" env s True] lt 2 by (intro eqI) (simp_all add: a)
    next
      case 3
      have "?b = push_bit 63 (of_bool s)"
        using widen_zero [of a FLOAT_EXC_STD True, folded e_def f_def s_def, OF 3] by (cases s) (simp_all add: word_unat_eq_iff)
      moreover have "roundAndPackFloat32 env s 0 0 8 23 FLOAT_EXC_STD True = (a, env)"
        using round32_exact [of 0 0 0 env s True] a 3 by (intro eqI) simp_all
      ultimately show ?thesis
        by (cases s) (simp_all add: float64_to_float32_ieee_def Let_def extractFloatExp_def extractFloatFrac_def
            extractFloatSign_def shift64RightJamming_def)
    next
      case 4
      obtain c where c: "is_clz 24 f c" using is_clz_exists [of f 24] lt 4 by auto
      note w = widen_subnormal [of a c, folded f_def e_def s_def, OF 4(1) c]
      obtain z where z: "float64_to_float32_ieee ?b FLOAT_EXC_STD True env
          = roundAndPackFloat32 env s (int (0x380 - c) - 0x380) z 8 23 FLOAT_EXC_STD True" "unat z = f * 2 ^ c * 2 ^ 7"
        by (rule narrow_double [OF w(1) [of FLOAT_EXC_STD] w(2,3), of True env]) simp
      have "int (0x380 - c) - 0x380 = - int c" using w(5) by simp
      then show ?thesis unfolding z(1)
        using round32_exact_subnormal [of z f c env s] z(2) lt w(4,5) 4 a by (intro eqI) (simp_all add: mult.commute mult.left_commute)
    qed
  qed
qed

text \<open>
  C24. Round trip: a single-precision number, subnormals, zeros and infinities included, converted to
  double precision and back is the same bit pattern in every rounding mode, and no flag is raised;
  a NaN comes back as the quiet NaN of its sign.
\<close>

theorem float32_roundtrip:
  fixes a :: u32
  shows "float64_to_float32_ieee (float32_to_float64_ieee a FLOAT_EXC_STD True) FLOAT_EXC_STD True env =
    (if unat a div 2 ^ 23 mod 256 = 255 \<and> unat a mod 2 ^ 23 \<noteq> 0
     then (push_bit 31 (of_bool (unat a div 2 ^ 31 = 1)) OR 0x7FC00000, env) else (a, env))"
  using roundtrip_cases by simp

text \<open>
  The narrowing conversion loses overflow: with the IEEE exceptions the finite doubles \<open>2\<^sup>1\<^sup>0\<^sup>2\<^sup>3\<close> and
  \<open>1.5 * 2\<^sup>1\<^sup>2\<^sup>8\<close>, beyond the single-precision range, become NaNs, not infinities, because
  \<^verbatim>\<open>__roundAndPackFloat32\<close> tests the exception mode the other way round from its 64-bit counterpart.
\<close>

theorem float64_to_float32_overflow_nan:
  "float64_to_float32_ieee 0x7FE0000000000000 FLOAT_EXC_STD True fenv_init =
     (0x7FFFFFFF, float_raise (float_flag_overflow OR float_flag_inexact) fenv_init)
   \<and> float64_to_float32_ieee 0x47F8000000000000 FLOAT_EXC_STD True fenv_init = (0x7FC00000, fenv_init)
   \<and> nan_operand 0x7FFFFFFF 8 23 \<and> nan_operand 0x7FC00000 8 23"
  by (simp add: float64_to_float32_ieee_def Let_def extractFloatExp_def extractFloatFrac_def extractFloatSign_def
      shift64RightJamming_def roundAndPackFloat32_def roundIncrement_def roundPack32_def packFloat32_def fenv_init_def
      round_mode_defs nan_operand_def float_flag_overflow_def float_flag_inexact_def)

end
