(* ===== verification/FloatAdd.thy ===== *)
theory FloatAdd
  imports FloatConvert
begin

text \<open>
  Addition and subtraction, \<^verbatim>\<open>__float_addsub\<close> of \<^verbatim>\<open>etc/libbambu/softfloat/softfloat.c\<close>, in the parts the
  function has: the operands are ordered by magnitude, the smaller is aligned and added or
  subtracted, the sum is normalised, rounded and packed. The theorem at the end states that the
  result is the exact sum rounded once.
\<close>

section \<open>The program\<close>

text \<open>\<^verbatim>\<open>(uint64)(((int64)c << 63) >> 63)\<close>: the condition spread over the word.\<close>

definition spread64 :: "bool \<Rightarrow> u64" where
  "spread64 c = signed_drop_bit 63 (push_bit 63 (of_bool c))"

definition spread32 :: "bool \<Rightarrow> u32" where
  "spread32 c = signed_drop_bit 31 (push_bit 31 (of_bool c))"

definition COND_EXPR_MACRO64 :: "bool \<Rightarrow> u64 \<Rightarrow> u64 \<Rightarrow> u64" where
  "COND_EXPR_MACRO64 cond a b = (spread64 cond AND a) OR (NOT (spread64 cond) AND b)"

text \<open>The width of the alignment shift.\<close>

definition addsub_exp_shift :: "nat \<Rightarrow> nat" where
  "addsub_exp_shift fb =
    (if fb > 1 then (if fb > 2 then (if fb > 4 then (if fb > 8 then (if fb > 16 then (if fb > 32 then 6 else 5)
                                                                     else 4)
                                                     else 3)
                                     else 2)
                     else 1)
     else 0)"

text \<open>The smaller significand shifted to the exponent of the larger, and whether bits were lost.\<close>

definition addsub_align :: "u64 \<Rightarrow> u64 \<Rightarrow> nat \<Rightarrow> nat \<Rightarrow> nat \<Rightarrow> u64 \<times> bool" where
  "addsub_align fB expDiff fb frac_almost rnd =
    (let exp_shift = addsub_exp_shift fb;
         ge_frac_bits = (drop_bit exp_shift expDiff \<noteq> 0);
         expDiff = (expDiff OR ucast (spread32 ge_frac_bits)) AND ones exp_shift;
         sb = (if rnd = FLOAT_RND_NEVN then fB AND NOT (push_bit (unat expDiff) (NOT 0)) \<noteq> 0 else False);
         fB_shifted = drop_bit (unat expDiff) fB
     in (fB_shifted AND ones frac_almost, sb))"

text \<open>The sum of the significands, cut to the working width.\<close>

definition addsub_sum :: "u64 \<Rightarrow> u64 \<Rightarrow> bool \<Rightarrow> bool \<Rightarrow> nat \<Rightarrow> u64" where
  "addsub_sum fA fB_shifted sb sAB frac_full =
    (let fB_shifted1 = (spread64 sAB XOR fB_shifted) AND ones frac_full
     in (fA + fB_shifted1 + of_bool (sAB \<and> \<not> sb)) AND ones frac_full)"

text \<open>The exponent and the shifted significand of the sum, and whether it is zero.\<close>

definition addsub_normalise :: "u64 \<Rightarrow> u64 \<Rightarrow> bool \<Rightarrow> bool \<Rightarrow> nat \<Rightarrow> nat \<Rightarrow> bool \<Rightarrow> u64 \<times> u64 \<times> bool" where
  "addsub_normalise fR0 aExp aExp_null bExp_null eb frac_full subn =
    (let (count, shift_0) = count_leading_zero_lshift64_runtime_macro frac_full fR0;
         nZeros = ucast (ucast count :: u16) :: u64;
         nzeros_bits = RUNTIME_CEIL_LOG2 frac_full;
         R_c_zero = (nZeros = ones nzeros_bits);
         (R_c_zero, RExp0, RSig0) =
           (if subn then
              (R_c_zero,
               (if R_c_zero \<or> aExp < nZeros then of_bool (aExp_null \<and> bExp_null \<and> nZeros = 1) else aExp - nZeros + 1),
               (if aExp < nZeros then (if aExp_null \<and> bExp_null then push_bit 1 fR0 else push_bit (unat aExp) fR0)
                else shift_0))
            else (let R_c_zero = (R_c_zero \<or> aExp < nZeros)
                  in (R_c_zero, (if R_c_zero then 0 else aExp - nZeros + 1), shift_0)))
     in (RExp0 AND ones eb, RSig0, R_c_zero))"

definition addsub_round :: "u64 \<Rightarrow> u64 \<Rightarrow> bool \<Rightarrow> nat \<Rightarrow> nat \<Rightarrow> nat \<Rightarrow> u64" where
  "addsub_round RExp0 RSig0 sb fb frac_shift rnd =
    (let RSig1 = drop_bit (frac_shift + 1) RSig0 AND ones fb;
         RExp0RSig1 = push_bit fb RExp0 OR RSig1
     in if rnd = FLOAT_RND_NEVN then
          (let LSB_bit = (SELECT_BIT RSig0 3 \<noteq> 0); Guard_bit = (SELECT_BIT RSig0 2 \<noteq> 0);
               Round_bit = (SELECT_BIT RSig0 1 \<noteq> 0); Sticky_bit = (SELECT_BIT RSig0 0 \<noteq> 0 \<or> sb);
               round = (Guard_bit \<and> (LSB_bit \<or> Round_bit \<or> Sticky_bit))
           in RExp0RSig1 + of_bool round)
        else RExp0RSig1)"

text \<open>The choice between the rounded sum, infinity and NaN.\<close>

definition addsub_pack ::
  "bool \<Rightarrow> bool \<Rightarrow> u64 \<Rightarrow> bool \<Rightarrow> bool \<Rightarrow> bool \<Rightarrow> bool \<Rightarrow> bool \<Rightarrow> u64 \<Rightarrow> tfspec \<Rightarrow> u64" where
  "addsub_pack aSign sAB aSig aExpMax bExpMax nan R_c_zero overflow_to_infinite Rrounded sp =
    (let eb = exp_bits sp; fb = frac_bits sp;
         (RExp1, RSig2) =
           (if exc_mode sp = FLOAT_EXC_STD then
              ((if aExpMax \<or> bExpMax then ones eb else drop_bit fb Rrounded AND ones eb),
               (if R_c_zero \<or> aExpMax \<or> bExpMax \<or> overflow_to_infinite then 0 else Rrounded AND ones fb))
            else
              ((if overflow_to_infinite then ones eb else drop_bit fb Rrounded AND ones eb),
               (if overflow_to_infinite then spread64 (\<not> R_c_zero) else Rrounded) AND ones fb));
         aSign = (aSign \<and> (\<not> R_c_zero \<or> \<not> sAB));
         RSig3 = (if exc_mode sp = FLOAT_EXC_STD \<and> (nan \<or> sAB \<and> aExpMax \<and> bExpMax)
                  then push_bit (fb - 1) 1 OR (aSig AND ones (fb - 1)) else RSig2)
     in (push_bit (eb + fb) (of_bool aSign) OR push_bit fb RExp1) OR RSig3)"

text \<open>The sum of two operands, the first not smaller in magnitude, from their fields.\<close>

definition addsub_ordered :: "bool \<Rightarrow> u64 \<Rightarrow> u64 \<Rightarrow> bool \<Rightarrow> u64 \<Rightarrow> u64 \<Rightarrow> tfspec \<Rightarrow> u64" where
  "addsub_ordered aSign aSig aExp bSign bSig bExp sp =
    (let eb = exp_bits sp; fb = frac_bits sp; rnd = rnd_mode sp; exc = exc_mode sp;
         frac_shift = (if rnd = FLOAT_RND_NEVN then 2 else 0);
         frac_almost = fb + frac_shift + 1;
         frac_full = frac_almost + 1;
         aExp_null = (aExp = 0);
         bExp_null = (bExp = 0);
         aExpMax = (aExp = ones eb);
         bExpMax = (bExp = ones eb);
         a_c_nan = (exc = FLOAT_EXC_STD \<and> aExpMax \<and> aSig \<noteq> 0);
         a_c_normal = (has_one sp \<and> \<not> aExp_null);
         b_c_nan = (exc = FLOAT_EXC_STD \<and> bExpMax \<and> bSig \<noteq> 0);
         b_c_normal = (has_one sp \<and> \<not> bExp_null);
         sAB = (aSign \<noteq> bSign);
         expDiff = (if has_subnorm sp
                    then aExp - bExp - of_bool ((aExp_null \<and> aSig \<noteq> 0) \<noteq> (bExp_null \<and> bSig \<noteq> 0))
                    else aExp - bExp) AND ones eb;
         fA = push_bit frac_shift (aSig OR push_bit fb (of_bool a_c_normal));
         fB = push_bit frac_shift (bSig OR push_bit fb (of_bool b_c_normal));
         (fB_shifted, sb) = addsub_align fB expDiff fb frac_almost rnd;
         fR0 = addsub_sum fA fB_shifted sb sAB frac_full;
         (RExp0, RSig0, R_c_zero) = addsub_normalise fR0 aExp aExp_null bExp_null eb frac_full (has_subnorm sp);
         overflow_to_infinite =
           (aExp = push_bit eb 1 - (if exc = FLOAT_EXC_STD then 2 else 1) \<and> drop_bit frac_almost fR0 AND 1 \<noteq> 0
            \<and> exc \<noteq> FLOAT_EXC_OVF);
         Rrounded = addsub_round RExp0 RSig0 sb fb frac_shift rnd
     in addsub_pack aSign sAB aSig aExpMax bExpMax (a_c_nan \<or> b_c_nan) R_c_zero overflow_to_infinite Rrounded sp)"

text \<open>The operands are first exchanged, if need be, so that the first is not smaller in magnitude.\<close>

definition float_addsub :: "u64 \<Rightarrow> u64 \<Rightarrow> bool \<Rightarrow> tfspec \<Rightarrow> u64" where
  "float_addsub a' b' sub sp =
    (let eb = exp_bits sp; fb = frac_bits sp; sg = sign_spec sp;
         abs_a = a' AND ones (eb + fb);
         abs_b = b' AND ones (eb + fb);
         swap = (abs_a < abs_b);
         a = COND_EXPR_MACRO64 swap b' a';
         b = COND_EXPR_MACRO64 swap a' b';
         aSign = (extractFloatSign a eb fb sg \<noteq> (sub \<and> swap));
         aSig = extractFloatFrac a fb;
         aExp = extractFloatExp a eb fb;
         bSign = (extractFloatSign b eb fb sg \<noteq> (sub \<and> \<not> swap));
         bSig = extractFloatFrac b fb;
         bExp = extractFloatExp b eb fb
     in addsub_ordered aSign aSig aExp bSign bSig bExp sp)"

definition float_add :: "u64 \<Rightarrow> u64 \<Rightarrow> tfspec \<Rightarrow> u64" where
  "float_add a b sp = float_addsub a b False sp"

definition float_sub :: "u64 \<Rightarrow> u64 \<Rightarrow> tfspec \<Rightarrow> u64" where
  "float_sub a b sp = float_addsub a b True sp"

section \<open>The steps as operations on numbers\<close>

lemma spread_simps [simp]:
  "spread64 True = - 1" "spread64 False = 0" "spread32 True = 0xFFFFFFFF" "spread32 False = 0"
  by (simp_all add: spread64_def spread32_def)

lemma COND_EXPR_MACRO64_if [simp]: "COND_EXPR_MACRO64 c a b = (if c then a else b)"
  by (cases c) (simp_all add: COND_EXPR_MACRO64_def)

lemma addsub_exp_shift_le: "addsub_exp_shift fb \<le> 6"
  by (simp add: addsub_exp_shift_def)

text \<open>The alignment: the quotient and whether there is a remainder. A distance that does not fit the
  shifter is replaced by the largest that does, which for the formats below shifts everything out.\<close>

lemma addsub_align_wide: "fb + 4 \<le> 2 ^ addsub_exp_shift fb \<longleftrightarrow> fb \<in> {9..12} \<union> {17..28} \<union> {33..60}"
  by (auto simp: addsub_exp_shift_def)

lemma unat_and_not_push:
  assumes "n < 64"
  shows "unat (a AND NOT (push_bit n (NOT 0)) :: u64) = unat a mod 2 ^ n"
proof -
  have "a AND NOT (push_bit n (NOT 0)) = take_bit n a"
    by (intro bit_word_eqI) (auto simp: bit_simps)
  then show ?thesis by (simp only: unat_take_bit_mod)
qed

lemma addsub_align_eq:
  assumes w: "fb + 4 \<le> 2 ^ addsub_exp_shift fb" and B: "unat fB < 2 ^ (fb + 3)"
  shows "unat (fst (addsub_align fB d fb (fb + 3) FLOAT_RND_NEVN)) = unat fB div 2 ^ unat d"
    and "snd (addsub_align fB d fb (fb + 3) FLOAT_RND_NEVN) \<longleftrightarrow> unat fB mod 2 ^ unat d \<noteq> 0"
proof -
  let ?s = "addsub_exp_shift fb"
  define d' where "d' = (d OR ucast (spread32 (drop_bit ?s d \<noteq> 0))) AND ones ?s"
  have s6: "(2 :: nat) ^ ?s \<le> 2 ^ 6" using addsub_exp_shift_le by (intro power_increasing) auto
  have dm: "unat (drop_bit ?s d) = unat d div 2 ^ ?s" by (rule unat_drop_bit_div)
  have d': "unat d' = (if unat d < 2 ^ ?s then unat d else 2 ^ ?s - 1)"
  proof (cases "unat d < 2 ^ ?s")
    case True
    then have "drop_bit ?s d = 0" using dm by (simp add: word_eq_0_iff_unat)
    then show ?thesis using True by (simp add: d'_def and_ones del: push_bit_of_1)
  next
    case False
    then have "drop_bit ?s d \<noteq> 0" using dm by (simp add: word_eq_0_iff_unat div_eq_0_iff)
    then have "d' = (d OR 0xFFFFFFFF) AND ones ?s" by (simp add: d'_def)
    also have "\<dots> = mask ?s"
    proof (rule bit_word_eqI)
      fix n assume "n < LENGTH(64)"
      have "bit (0xFFFFFFFF :: u64) n" if "n < ?s"
      proof -
        have m: "(0xFFFFFFFF :: u64) = mask 32" by (simp add: mask_eq_exp_minus_1)
        show ?thesis unfolding m bit_mask_iff using that addsub_exp_shift_le [of fb] by simp
      qed
      then show "bit ((d OR 0xFFFFFFFF) AND ones ?s) n \<longleftrightarrow> bit (mask ?s :: u64) n"
        unfolding ones_mask by (auto simp: bit_simps)
    qed
    finally have "d' = ones ?s" by (simp only: ones_mask)
    moreover have "unat (ones ?s :: u64) = 2 ^ ?s - 1" using addsub_exp_shift_le [of fb] by (intro unat_ones) simp
    ultimately show ?thesis using False by simp
  qed
  then have d64: "unat d' < 64" using s6 by auto
  have al: "addsub_align fB d fb (fb + 3) FLOAT_RND_NEVN
      = (drop_bit (unat d') fB AND ones (fb + 3), fB AND NOT (push_bit (unat d') (NOT 0)) \<noteq> 0)"
    unfolding addsub_align_def Let_def d'_def [symmetric] by simp
  have big: "unat fB < 2 ^ n" if "2 ^ ?s - 1 \<le> n" for n
  proof -
    have "fb + 3 \<le> n" using w that by simp
    then have "(2 :: nat) ^ (fb + 3) \<le> 2 ^ n" by (intro power_increasing) auto
    then show ?thesis using B by linarith
  qed
  have "unat fB div 2 ^ unat d' < 2 ^ (fb + 3)" using B by (meson div_le_dividend le_less_trans)
  then have q: "unat (fst (addsub_align fB d fb (fb + 3) FLOAT_RND_NEVN)) = unat fB div 2 ^ unat d'"
    by (simp only: al fst_conv and_ones unat_drop_bit_div mod_less)
  have r: "snd (addsub_align fB d fb (fb + 3) FLOAT_RND_NEVN) \<longleftrightarrow> unat fB mod 2 ^ unat d' \<noteq> 0"
    by (simp only: al snd_conv word_eq_0_iff_unat unat_and_not_push [OF d64])
  show "unat (fst (addsub_align fB d fb (fb + 3) FLOAT_RND_NEVN)) = unat fB div 2 ^ unat d"
    "snd (addsub_align fB d fb (fb + 3) FLOAT_RND_NEVN) \<longleftrightarrow> unat fB mod 2 ^ unat d \<noteq> 0"
    unfolding q r using d' big [of "unat d"] big [of "2 ^ ?s - 1"] by (auto simp: not_less)
qed

text \<open>The sum of the significands, and their difference rounded down.\<close>

lemma unat_compl_ones:
  assumes "unat w < 2 ^ n" "n < 64"
  shows "unat ((- 1 XOR w) AND ones n :: u64) = 2 ^ n - 1 - unat w"
proof -
  have "(- 1 XOR w) AND ones n = ones n - w"
  proof -
    have "w AND ones n = w" using assms(1) by (simp add: word_unat_eq_iff and_ones del: push_bit_of_1)
    then have "((- 1 XOR w) AND ones n) + w = ((- 1 XOR w) AND ones n) OR w"
      unfolding ones_mask by (intro disjunctive_add_eq_or bit_word_eqI) (auto simp: bit_simps bit_eq_iff)
    also have "\<dots> = ones n" using \<open>w AND ones n = w\<close> unfolding ones_mask by (auto simp: bit_eq_iff bit_simps)
    finally show ?thesis by (simp add: algebra_simps)
  qed
  moreover have "unat (ones n :: u64) = 2 ^ n - 1" using assms(2) by (intro unat_ones) simp
  ultimately show ?thesis using unat_diff_le [of w "ones n"] assms(1) by simp
qed

lemma addsub_sum_eq:
  assumes w: "unat fA < 2 ^ (n - 1)" "unat B < 2 ^ (n - 1)" "1 \<le> n" "n < 63"
    and le: "sAB \<Longrightarrow> unat B + of_bool sb \<le> unat fA"
  shows "unat (addsub_sum fA B sb sAB n) = (if sAB then unat fA - unat B - of_bool sb else unat fA + unat B)"
proof -
  define H where "H = (2 :: nat) ^ (n - 1)"
  have p: "(2 :: nat) ^ n = H + H" using w(3) by (simp add: H_def flip: mult_2 power_Suc)
  have h: "unat fA < H" "unat B < H" using w by (simp_all add: H_def)
  have "(2 :: nat) ^ n + 2 ^ n \<le> 2 ^ 64" using w(4) power_increasing [of "n + 1" 64 "2 :: nat"] by simp
  then have h64: "(H + H) + (H + H) \<le> 2 ^ LENGTH(64)" unfolding p by simp
  have add: "unat (x + y) = unat x + unat y" if "unat x + unat y < (H + H) + (H + H)" for x y :: u64
    using that h64 unat_add_lem [of x y] by linarith
  show ?thesis
  proof (cases sAB)
    case True
    let ?c = "(- 1 XOR B) AND ones n"
    have c: "unat ?c = H + H - 1 - unat B" using w h unat_compl_ones [of B n] by (simp only: p)
    have s1: "unat (fA + ?c) = unat fA + (H + H - 1 - unat B)" unfolding c [symmetric] using h c by (intro add) linarith
    have o: "unat (of_bool (\<not> sb) :: u64) = of_bool (\<not> sb)" by (cases sb) simp_all
    have "unat (fA + ?c + of_bool (\<not> sb)) = unat fA + (H + H - 1 - unat B) + of_bool (\<not> sb)"
      unfolding s1 [symmetric] o [symmetric] using h s1 o by (intro add) (cases sb; simp)
    also have "\<dots> = (unat fA - unat B - of_bool sb) + (H + H)" using le [OF True] h by (cases sb) auto
    finally have "unat (addsub_sum fA B sb sAB n) = ((unat fA - unat B - of_bool sb) + (H + H)) mod (H + H)"
      using True by (simp only: addsub_sum_def Let_def and_ones spread_simps p simp_thms)
    also have "\<dots> = unat fA - unat B - of_bool sb" using h by simp
    finally show ?thesis using True by simp
  next
    case False
    have b: "unat (B AND ones n) = unat B" using h by (simp only: and_ones p) simp
    have "unat (fA + (B AND ones n)) = unat fA + unat B" unfolding b [symmetric] using h b by (intro add) linarith
    then have "unat (addsub_sum fA B sb sAB n) = (unat fA + unat B) mod (H + H)"
      using False by (simp only: addsub_sum_def Let_def and_ones spread_simps p xor.left_neutral simp_thms of_bool_eq add_0_right)
    then show ?thesis using False h by simp
  qed
qed

text \<open>Both are the exact sum or difference at the scale of the larger operand, rounded down.\<close>

lemma aligned_sum:
  fixes A B d :: nat
  assumes "sAB \<Longrightarrow> B \<le> A * 2 ^ d"
  defines "N \<equiv> (if sAB then A * 2 ^ d - B else A * 2 ^ d + B)"
  shows "(if sAB then A - B div 2 ^ d - of_bool (B mod 2 ^ d \<noteq> 0) else A + B div 2 ^ d) = N div 2 ^ d"
    and "B mod 2 ^ d \<noteq> 0 \<longleftrightarrow> N mod 2 ^ d \<noteq> 0"
    and "sAB \<Longrightarrow> B div 2 ^ d + of_bool (B mod 2 ^ d \<noteq> 0) \<le> A"
proof -
  define P q r where "P = (2 :: nat) ^ d" and "q = B div P" and "r = B mod P"
  have B: "B = q * P + r" "r < P" unfolding q_def r_def by (rule div_mult_mod_eq [symmetric]) (simp add: P_def)
  have le: "q + of_bool (r \<noteq> 0) \<le> A" if sAB
  proof (rule ccontr)
    assume "\<not> ?thesis"
    then have "A + 1 \<le> q + of_bool (r \<noteq> 0)" by simp
    then have "A < q \<or> A = q \<and> r \<noteq> 0" by (cases "r = 0") auto
    moreover have "A < q \<Longrightarrow> A * P + P \<le> q * P" using mult_le_mono1 [of "A + 1" q P] by simp
    ultimately show False using assms(1) [OF that] B unfolding P_def [symmetric] by auto
  qed
  show "sAB \<Longrightarrow> B div 2 ^ d + of_bool (B mod 2 ^ d \<noteq> 0) \<le> A" using le by (simp add: q_def r_def P_def)
  have N: "N = (if sAB then A - q - of_bool (r \<noteq> 0) else A + q) * P + (if sAB \<and> r \<noteq> 0 then P - r else r)"
  proof (cases sAB)
    case True
    then obtain t where t: "A = q + of_bool (r \<noteq> 0) + t" using le by (metis le_Suc_ex)
    have "N = A * P - B" using True by (simp add: N_def P_def)
    also have "\<dots> = t * P + (if r \<noteq> 0 then P - r else r)" using t B by (auto simp: algebra_simps)
    finally show ?thesis using True t by simp
  next
    case False
    then show ?thesis using B(1) by (simp add: N_def P_def [symmetric] algebra_simps)
  qed
  have m: "(if sAB \<and> r \<noteq> 0 then P - r else r) < P" using B(2) by auto
  show "(if sAB then A - B div 2 ^ d - of_bool (B mod 2 ^ d \<noteq> 0) else A + B div 2 ^ d) = N div 2 ^ d"
    unfolding P_def [symmetric] q_def [symmetric] r_def [symmetric] N using m by simp
  have "N mod P = (if sAB \<and> r \<noteq> 0 then P - r else r)" unfolding N using m by simp
  then show "B mod 2 ^ d \<noteq> 0 \<longleftrightarrow> N mod 2 ^ d \<noteq> 0"
    using B(2) unfolding P_def [symmetric] r_def [symmetric] by auto
qed

text \<open>Normalisation.\<close>

lemma lshift64_step_zero: "lshift64_step g n t 0 = (g, 0)"
  by (simp add: lshift64_step_def Let_def)

lemma count_of_zero: "1 \<le> n \<Longrightarrow> n \<le> 64 \<Longrightarrow>
    count_leading_zero_lshift64_runtime_macro n 0 = (2 ^ RUNTIME_CEIL_LOG2 n - 1, 0)"
proof -
  assume "1 \<le> n" "n \<le> 64"
  have "lshift64_chain (\<lambda>t. t \<le> n) n 0 = ([1 \<le> n, 2 \<le> n, 4 \<le> n, 8 \<le> n, 16 \<le> n, 32 \<le> n], 0)"
    by (simp add: lshift64_chain_def lshift64_step_zero)
  then have r: "count_leading_zero_lshift64_runtime_macro n 0
      = (clz_result_runtime n [1 \<le> n, 2 \<le> n, 4 \<le> n, 8 \<le> n, 16 \<le> n, 32 \<le> n], 0)"
    by (simp add: count_leading_zero_lshift64_runtime_macro_def)
  consider "n = 1" | "1 < n" "n \<le> 2" | "2 < n" "n \<le> 4" | "4 < n" "n \<le> 8" | "8 < n" "n \<le> 16" | "16 < n" "n \<le> 32" | "32 < n"
    using \<open>1 \<le> n\<close> by linarith
  then show ?thesis unfolding r
    by cases (simp_all add: clz_result_runtime_def RUNTIME_CEIL_LOG2_def VECTORIZE_VALUE_numeral)
qed

lemma cut_16: "unat x < 2 ^ 16 \<Longrightarrow> (ucast (ucast x :: u16) :: u64) = x"
  by (simp add: word_unat_eq_iff unat_ucast_mod)

lemma addsub_normalise_zero:
  assumes "3 \<le> n" "n \<le> 64"
  shows "addsub_normalise 0 aExp an bn eb n True = (0, 0, True)"
proof -
  let ?k = "RUNTIME_CEIL_LOG2 n"
  have k: "?k = CEIL_LOG2 n" "n \<le> 2 ^ CEIL_LOG2 n" using assms RUNTIME_CEIL_LOG2_eq [of n] CEIL_LOG2_bounds [of n] by auto
  have k2: "2 \<le> ?k"
  proof (rule ccontr)
    assume "\<not> ?thesis"
    then have "(2 :: nat) ^ ?k \<le> 2 ^ 1" by (intro power_increasing) auto
    then show False using k assms(1) by simp
  qed
  have k6: "?k \<le> 6" by (rule RUNTIME_CEIL_LOG2_le(2))
  have u: "unat (ones ?k :: u64) = 2 ^ ?k - 1" using k6 by (intro unat_ones) simp
  have p: "(4 :: nat) \<le> 2 ^ ?k" "(2 :: nat) ^ ?k \<le> 64"
    using power_increasing [OF k2, of "2 :: nat"] power_increasing [OF k6, of "2 :: nat"] by simp_all
  have o: "(2 ^ ?k - 1 :: u64) = ones ?k" by simp
  have c: "(ucast (ucast (ones ?k :: u64) :: u16) :: u64) = ones ?k" using u p by (intro cut_16) simp
  have n1: "(ones ?k :: u64) \<noteq> 1" using u p by (auto simp: word_unat_eq_iff)
  have z: "count_leading_zero_lshift64_runtime_macro n 0 = (ones ?k, 0)" using count_of_zero [of n] assms by simp
  show ?thesis unfolding addsub_normalise_def z Let_def prod.case c using n1 by simp
qed

lemma addsub_normalise_pos:
  fixes w aExp bExp :: u64 and c n eb :: nat
  defines "r \<equiv> addsub_normalise w aExp (aExp = 0) (bExp = 0) eb n True"
  assumes n: "2 \<le> n" "n \<le> 63" and c: "is_clz n (unat w) c" and w: "2 \<le> unat w" and e: "unat aExp + 1 < 2 ^ eb" "eb < 64"
    and ab: "aExp = 0 \<Longrightarrow> bExp = 0"
  shows "unat (fst r) = (if unat aExp < c then of_bool (aExp = 0 \<and> c = 1) else unat aExp - c + 1)"
    and "unat (fst (snd r)) = unat w * 2 ^ (if unat aExp < c then max 1 (unat aExp) else c)"
    and "\<not> snd (snd r)"
proof -
  let ?k = "RUNTIME_CEIL_LOG2 n" and ?r = "count_leading_zero_lshift64_runtime_macro n w"
  have m: "unat (fst ?r) = c" "snd ?r = push_bit c w" using lshift64_runtime_clz [OF c] n by auto
  have cn: "c < n" "unat w < 2 ^ (n - c)" using c by (simp_all add: is_clz_def)
  have cw: "(ucast (ucast (fst ?r) :: u16) :: u64) = fst ?r" using m(1) cn(1) n by (intro cut_16) simp
  have k: "n \<le> 2 ^ ?k" "?k \<le> 6" using RUNTIME_CEIL_LOG2_le [of n] n by auto
  have u: "unat (ones ?k :: u64) = 2 ^ ?k - 1" using k(2) by (intro unat_ones) simp
  have nz: "fst ?r \<noteq> ones ?k"
  proof
    assume "fst ?r = ones ?k"
    then have "c = 2 ^ ?k - 1" using u m(1) by simp
    then have "n - c \<le> 1" using k(1) by simp
    then have "(2 :: nat) ^ (n - c) \<le> 2 ^ 1" by (intro power_increasing) auto
    then show False using cn(2) w by simp
  qed
  have lt: "aExp < fst ?r \<longleftrightarrow> unat aExp < c" by (simp add: word_less_nat_alt m(1))
  have one: "fst ?r = 1 \<longleftrightarrow> c = 1" using m(1) by (auto simp: word_unat_eq_iff)
  have r: "r = ((if unat aExp < c then of_bool (aExp = 0 \<and> bExp = 0 \<and> c = 1) else aExp - fst ?r + 1) AND ones eb,
      (if unat aExp < c then (if aExp = 0 \<and> bExp = 0 then push_bit 1 w else push_bit (unat aExp) w) else push_bit c w), False)"
    unfolding r_def addsub_normalise_def Let_def case_prod_beta cw using nz lt one m(2) by simp
  show "\<not> snd (snd r)" by (simp add: r)
  have p: "unat (push_bit j w) = unat w * 2 ^ j" if "j \<le> c" for j
  proof -
    have "unat w * 2 ^ j \<le> unat w * 2 ^ c" using that by (simp add: power_increasing)
    also have "\<dots> < 2 ^ n" using is_clz_mult_less [OF c] by simp
    also have "(2 :: nat) ^ n \<le> 2 ^ 64" using n by (intro power_increasing) auto
    finally show ?thesis by (simp add: unat_push_bit_mult)
  qed
  show "unat (fst (snd r)) = unat w * 2 ^ (if unat aExp < c then max 1 (unat aExp) else c)"
    using p [of "unat aExp"] p [of c] p [of 1] ab by (auto simp: r max_def word_eq_0_iff_unat)
  have q: "unat (aExp - fst ?r + 1) = unat aExp - c + 1" if "\<not> unat aExp < c"
  proof -
    have "unat (aExp - fst ?r) = unat aExp - c" using that m(1) by (simp add: unat_diff_le)
    moreover have "unat aExp + 1 < 2 ^ 64" using e power_increasing [of eb 64 "2 :: nat"] by simp
    ultimately show ?thesis by (subst unat_add_small) auto
  qed
  have b1: "(1 :: nat) < 2 ^ eb" using e(1) by simp
  show "unat (fst r) = (if unat aExp < c then of_bool (aExp = 0 \<and> c = 1) else unat aExp - c + 1)"
    unfolding r fst_conv and_ones using q e(1) b1 ab by auto
qed

text \<open>Rounding: the code's decision on the last three bits and the lost ones.\<close>

definition round_up :: "nat \<Rightarrow> bool \<Rightarrow> bool" where
  "round_up z sb \<longleftrightarrow> odd (z div 4) \<and> (odd (z div 8) \<or> odd (z div 2) \<or> odd z \<or> sb)"

lemma round_up_alt: "round_up z sb \<longleftrightarrow> 4 \<le> z mod 8 \<and> (odd (z div 8) \<or> z mod 8 \<noteq> 4 \<or> sb)"
proof -
  define q r where "q = z div 8" and "r = z mod 8"
  have z: "z = 2 * (2 * (2 * q)) + r" unfolding q_def r_def by simp
  have "r \<in> {0, 1, 2, 3, 4, 5, 6, 7}" using mod_less_divisor [of 8 z] unfolding r_def by auto
  moreover have "z div 4 = 2 * q + r div 4" "z div 2 = 2 * (2 * q) + r div 2" unfolding z by simp_all
  ultimately show ?thesis unfolding round_up_def q_def [symmetric] r_def [symmetric] by (auto simp: z)
qed

lemma round_up_nearest:
  "z div 8 + of_bool (round_up z sb) = round_nat float_round_nearest_even s (2 * z + of_bool sb) 4"
proof -
  define q r where "q = z div 8" and "r = z mod 8"
  have "z = 8 * q + r" "r < 8" unfolding q_def r_def by simp_all
  then have m: "(2 * z + of_bool sb) div 2 ^ 4 = q" "(2 * z + of_bool sb) mod 2 ^ 4 = 2 * r + of_bool sb"
    by (cases sb; simp)+
  show ?thesis unfolding round_nat_def Let_def m round_up_alt q_def [symmetric] r_def [symmetric] by (cases sb) auto
qed

lemma addsub_round_eq:
  assumes n: "eb + fb < 64" and e: "unat RExp0 < 2 ^ eb"
  shows "unat (addsub_round RExp0 z sb fb 2 FLOAT_RND_NEVN)
      = unat RExp0 * 2 ^ fb + unat z div 8 mod 2 ^ fb + of_bool (round_up (unat z) sb)"
proof -
  have b: "(SELECT_BIT z m \<noteq> 0) = odd (unat z div 2 ^ m)" for m by (simp add: SELECT_BIT_eq bit_unat_div)
  define RSig1 where "RSig1 = drop_bit 3 z AND ones fb"
  have s: "unat RSig1 = unat z div 8 mod 2 ^ fb" unfolding RSig1_def and_ones unat_drop_bit_div by simp
  have "(unat RExp0 + 1) * 2 ^ fb \<le> 2 ^ eb * 2 ^ fb" using e by (intro mult_le_mono1) simp
  moreover have "2 ^ eb * 2 ^ fb \<le> (2 :: nat) ^ 63" unfolding power_add [symmetric] using n by (intro power_increasing) auto
  moreover have "unat RSig1 < 2 ^ fb" unfolding s by simp
  ultimately have t: "unat RExp0 * 2 ^ fb + unat RSig1 < 2 ^ 63" "unat RSig1 < 2 ^ fb" by simp_all
  have o: "unat (push_bit fb RExp0 OR RSig1) = unat RExp0 * 2 ^ fb + unat RSig1"
    using t by (intro unat_push_or) simp_all
  have r: "addsub_round RExp0 z sb fb 2 FLOAT_RND_NEVN = (push_bit fb RExp0 OR RSig1) + of_bool (round_up (unat z) sb)"
    unfolding addsub_round_def Let_def b round_up_def RSig1_def by (simp add: disj_assoc)
  show ?thesis unfolding r s [symmetric] o [symmetric] using t(1) o by (subst unat_add_small) (cases "round_up (unat z) sb"; simp)+
qed

section \<open>Rounding the sum\<close>

text \<open>The bits that were lost in the alignment do not change the rounding of the shifted sum: either
  nothing was lost, or the sum is shifted by two places at most.\<close>

lemma sticky_round:
  fixes w r d c :: nat
  assumes r: "r < 2 ^ d" and c: "r = 0 \<or> c \<le> 2"
  shows "round_nat float_round_nearest_even s ((w * 2 ^ d + r) * 2 ^ c) (d + 3)
    = w * 2 ^ c div 8 + of_bool (round_up (w * 2 ^ c) (r \<noteq> 0))"
proof (cases "r = 0")
  case True
  have "(w * 2 ^ d + r) * 2 ^ c = w * 2 ^ c * 2 ^ d" "2 * (w * 2 ^ c) = w * 2 ^ c * 2 ^ 1" using True by simp_all
  moreover have "d + 3 = 3 + d" "(4 :: nat) = 3 + 1" by simp_all
  ultimately show ?thesis unfolding round_up_nearest [of _ _ s] using True
    by (simp only: round_nat_scale simp_thms of_bool_eq add_0_right)
next
  case False
  define P where "P = (2 :: nat) ^ d"
  have rP: "0 < r" "r < P" using False r by (simp_all add: P_def)
  have k: "round_nat float_round_nearest_even s (w * P + r) (d + j)
      = w div 2 ^ j + of_bool (2 ^ (j - 1) \<le> w mod 2 ^ j)" if j1: "1 \<le> j" for j
  proof -
    obtain i where i: "j = Suc i" using j1 by (cases j) auto
    have "(2 :: nat) ^ (d + j) = P * 2 ^ j" by (simp add: power_add P_def)
    moreover have "(w * P + r) div P = w" "(w * P + r) mod P = r" using rP by simp_all
    ultimately have q: "(w * P + r) div 2 ^ (d + j) = w div 2 ^ j" "(w * P + r) mod 2 ^ (d + j) = P * (w mod 2 ^ j) + r"
      by (simp_all only: div_mult2_eq mod_mult2_eq)
    define y where "y = w mod 2 ^ j"
    have pw: "(2 :: nat) ^ (d + j) = 2 * (2 ^ i * P)" by (simp add: i power_add P_def)
    have lo: "y * P + P \<le> 2 ^ i * P" if "y < 2 ^ i" using mult_le_mono1 [of "y + 1" "2 ^ i" P] that by simp
    have hi: "2 ^ i * P \<le> y * P" if "2 ^ i \<le> y" using that by (rule mult_le_mono1)
    have gt: "2 ^ i * P < y * P + r \<longleftrightarrow> 2 ^ i \<le> y" "y * P + r \<noteq> 2 ^ i * P"
      using lo hi rP by (atomize, cases "2 ^ i \<le> y", linarith+)+
    show ?thesis unfolding round_nat_def Let_def q unfolding mult.commute [of P] y_def [symmetric] pw nat_mult_less_cancel1 [OF pos2]
        nat_mult_eq_cancel1 [OF pos2] gt(1) using gt(2) by (simp add: i)
  qed
  have e: "d + 3 = (d + (3 - c)) + c" using c False by simp
  have "round_nat float_round_nearest_even s ((w * 2 ^ d + r) * 2 ^ c) (d + 3)
      = w div 2 ^ (3 - c) + of_bool (2 ^ (3 - c - 1) \<le> w mod 2 ^ (3 - c))"
    unfolding e round_nat_scale P_def [symmetric] using k [of "3 - c"] c False by simp
  moreover consider "c = 0" | "c = 1" | "c = 2" using c False by linarith
  then have "w div 2 ^ (3 - c) + of_bool (2 ^ (3 - c - 1) \<le> w mod 2 ^ (3 - c))
      = w * 2 ^ c div 8 + of_bool (round_up (w * 2 ^ c) True)"
    by cases (simp_all add: round_up_def; presburger)+
  ultimately show ?thesis using False by simp
qed

text \<open>The bit pattern of a magnitude, rounded to the nearest of the format.\<close>

definition nearest_pattern :: "nat \<Rightarrow> nat \<Rightarrow> nat" where
  "nearest_pattern fb m =
    (let k = floorlog 2 m - 1 - fb in k * 2 ^ fb + round_nat float_round_nearest_even False m k)"

lemma round_nearest_sign: "round_nat float_round_nearest_even s m k = round_nat float_round_nearest_even False m k"
  by (simp add: round_nat_def)

lemma floorlog_exponent:
  assumes "2 ^ (fb + k) \<le> m" "m < 2 ^ (fb + k + 1)"
  shows "floorlog 2 m - 1 - fb = k"
proof -
  have "floorlog 2 m = fb + k + 1"
    using assms by (intro antisym floorlog_leI floorlog_geI) simp_all
  then show ?thesis by simp
qed

lemma nearest_pattern_exact: "m < 2 ^ (fb + 1) \<Longrightarrow> nearest_pattern fb m = m"
proof -
  assume "m < 2 ^ (fb + 1)"
  then have "floorlog 2 m \<le> fb + 1" by (intro floorlog_leI) simp_all
  then show ?thesis by (simp add: nearest_pattern_def Let_def round_nat_exact)
qed

lemma nearest_pattern_mag:
  "int (pattern_mag fb (nearest_pattern fb m)) = rounded_int float_round_nearest_even fb (int m)"
proof -
  define k where "k = floorlog 2 m - 1 - fb"
  let ?R = "round_nat float_round_nearest_even False m k"
  have "?R \<le> 2 ^ (fb + 1) \<and> (2 ^ fb \<le> ?R \<or> k = 0)"
  proof (cases "m = 0")
    case True
    then show ?thesis by (simp add: k_def floorlog_def round_nat_exact)
  next
    case False
    then have m: "2 ^ (floorlog 2 m - 1) \<le> m" "m < 2 ^ floorlog 2 m" using floorlog_bounds [of m 2] by simp_all
    have "(2 :: nat) ^ floorlog 2 m \<le> 2 ^ (fb + 1 + k)" by (intro power_increasing) (auto simp: k_def)
    then have "m < 2 ^ (fb + 1) * 2 ^ k" using m(2) by (simp only: power_add)
    then have "m div 2 ^ k < 2 ^ (fb + 1)" by (rule less_mult_imp_div_less)
    then have up: "?R \<le> 2 ^ (fb + 1)" using round_nat_bounds(1) [of float_round_nearest_even False m k] by linarith
    have "2 ^ fb \<le> ?R" if "k \<noteq> 0"
    proof -
      have "fb + k = floorlog 2 m - 1" using that by (simp add: k_def)
      then have "2 ^ fb * 2 ^ k \<le> m" using m(1) by (simp flip: power_add)
      then have "2 ^ fb \<le> m div 2 ^ k" by (simp add: less_eq_div_iff_mult_less_eq)
      then show ?thesis using round_nat_bounds(2) [of m k] le_trans by blast
    qed
    then show ?thesis using up by blast
  qed
  then have "pattern_mag fb (k * 2 ^ fb + ?R) = ?R * 2 ^ k" by (intro pattern_mag_add) auto
  moreover have "m = 0 \<Longrightarrow> ?R = 0" by (simp add: k_def floorlog_def round_nat_exact)
  moreover have "nearest_pattern fb m = k * 2 ^ fb + ?R"
    "rounded_int float_round_nearest_even fb (int m) = sgn (int m) * int (?R * 2 ^ k)"
    by (simp_all only: nearest_pattern_def rounded_int_def Let_def k_def nat_int abs_of_nat of_nat_0_le_iff not_less)
      (simp add: not_less)
  ultimately show ?thesis by (cases "m = 0") simp_all
qed

text \<open>The normalised case of the code computes it.\<close>

lemma nearest_sum:
  fixes n d c w Ea Eb fb :: nat
  assumes w: "w = 4 * n div 2 ^ d" and sb: "sb \<longleftrightarrow> 4 * n mod 2 ^ d \<noteq> 0"
    and lo: "2 ^ (fb + 3) \<le> w * 2 ^ c" "w * 2 ^ c < 2 ^ (fb + 4)"
    and ex: "c \<le> 2 \<or> \<not> sb" and E: "Ea = Eb + d" "1 \<le> Eb" "c \<le> Ea"
  shows "nearest_pattern fb (n * 2 ^ (Eb - 1)) = (Ea - c) * 2 ^ fb + (w * 2 ^ c div 8 + of_bool (round_up (w * 2 ^ c) sb))"
proof -
  define m k r where "m = n * 2 ^ (Eb - 1)" and "k = Ea - c" and "r = 4 * n mod 2 ^ d"
  have n: "4 * n = w * 2 ^ d + r" "r < 2 ^ d" unfolding w r_def by (rule div_mult_mod_eq [symmetric]) simp
  have mc: "m * 2 ^ (c + 2) = 4 * n * 2 ^ c * 2 ^ (Eb - 1)" by (simp add: m_def power_add)
  have kc: "k + (c + 2) = (d + 3) + (Eb - 1)" using E by (simp add: k_def)
  have "round_nat float_round_nearest_even False m k = round_nat float_round_nearest_even False (m * 2 ^ (c + 2)) (k + (c + 2))"
    by (rule round_nat_scale [symmetric])
  also have "\<dots> = round_nat float_round_nearest_even False (4 * n * 2 ^ c) (d + 3)"
    unfolding mc kc by (rule round_nat_scale)
  also have "\<dots> = w * 2 ^ c div 8 + of_bool (round_up (w * 2 ^ c) (r \<noteq> 0))"
    unfolding n(1) using n(2) ex sb by (intro sticky_round) (auto simp: r_def)
  finally have R: "round_nat float_round_nearest_even False m k = w * 2 ^ c div 8 + of_bool (round_up (w * 2 ^ c) sb)"
    using sb by (simp add: r_def)
  have e1: "fb + k + (c + 2) = fb + 3 + d + (Eb - 1)" "fb + k + 1 + (c + 2) = fb + 4 + d + (Eb - 1)" using kc by simp_all
  have "2 ^ (fb + 3) * 2 ^ d \<le> w * 2 ^ c * 2 ^ d" using lo(1) by simp
  also have "\<dots> \<le> 4 * n * 2 ^ c" unfolding n(1) by (simp add: algebra_simps)
  finally have "2 ^ (fb + 3) * 2 ^ d * 2 ^ (Eb - 1) \<le> 4 * n * 2 ^ c * 2 ^ (Eb - 1)" by simp
  then have l: "2 ^ (fb + k) \<le> m" unfolding mc [symmetric] power_add [symmetric] e1(1) [symmetric]
    by (simp only: power_add) simp
  have "c \<le> fb + 4"
  proof (rule ccontr)
    assume "\<not> ?thesis"
    then have "(2 :: nat) ^ (fb + 4) \<le> 2 ^ c" by (intro power_increasing) auto
    moreover have "w \<noteq> 0" using lo(1) by (cases "w = 0") auto
    then have "2 ^ c \<le> w * 2 ^ c" by simp
    ultimately show False using lo(2) by linarith
  qed
  then have "(2 :: nat) ^ (fb + 4) = 2 ^ (fb + 4 - c) * 2 ^ c" by (simp flip: power_add)
  then have "w < 2 ^ (fb + 4 - c)" using lo(2) by simp
  then have "(w + 1) * 2 ^ c \<le> 2 ^ (fb + 4 - c) * 2 ^ c" by (intro mult_le_mono1) simp
  then have "(w + 1) * 2 ^ c * 2 ^ d \<le> 2 ^ (fb + 4) * 2 ^ d" using \<open>2 ^ (fb + 4) = _\<close> by simp
  moreover have "4 * n * 2 ^ c < (w + 1) * 2 ^ c * 2 ^ d" unfolding n(1) using n(2) by (simp add: algebra_simps)
  ultimately have "4 * n * 2 ^ c < 2 ^ (fb + 4) * 2 ^ d" by (rule less_le_trans [rotated])
  then have "4 * n * 2 ^ c * 2 ^ (Eb - 1) < 2 ^ (fb + 4) * 2 ^ d * 2 ^ (Eb - 1)" by simp
  then have u: "m < 2 ^ (fb + k + 1)" unfolding mc [symmetric] power_add [symmetric] e1(2) [symmetric]
    by (simp only: power_add) simp
  show ?thesis unfolding nearest_pattern_def Let_def m_def [symmetric] floorlog_exponent [OF l u] R by (simp add: k_def)
qed

section \<open>The sum of two finite operands\<close>

definition significand :: "nat \<Rightarrow> nat \<Rightarrow> nat \<Rightarrow> nat" where
  "significand fb e f = (if e = 0 then f else 2 ^ fb + f)"

lemma fmag_significand: "fmag fb e f = significand fb e f * 2 ^ (max 1 e - 1)"
  by (auto simp: fmag_def significand_def max_def)

lemma significand_less: "f < 2 ^ fb \<Longrightarrow> significand fb e f < 2 ^ (fb + 1)"
  by (simp add: significand_def)

lemma working_significand:
  assumes "unat s < 2 ^ fb" "fb \<le> 58"
  shows "unat (push_bit 2 (s OR push_bit fb (of_bool (e \<noteq> (0 :: u64)))) :: u64) = 4 * significand fb (unat e) (unat s)"
proof -
  have "unat (s OR push_bit fb (of_bool (e \<noteq> 0))) = significand fb (unat e) (unat s)"
    using unat_or_high [of s fb] assms by (cases "e = 0") (simp_all add: significand_def word_eq_0_iff_unat del: push_bit_of_1)
  moreover have "(2 :: nat) ^ (fb + 1) \<le> 2 ^ 59" using assms(2) by (intro power_increasing) auto
  then have "significand fb (unat e) (unat s) < 2 ^ 59" using significand_less [OF assms(1), of "unat e"] by linarith
  ultimately show ?thesis by (simp only: unat_push_bit_mult) simp
qed

text \<open>The operand that is not smaller has the larger exponent, or the larger significand.\<close>

lemma ordered_exponents:
  assumes s: "unat aSig < 2 ^ fb" "unat bSig < 2 ^ fb"
    and le: "unat bExp * 2 ^ fb + unat bSig \<le> unat aExp * 2 ^ fb + unat aSig"
  shows "unat bExp \<le> unat aExp" "unat aExp = unat bExp \<Longrightarrow> unat bSig \<le> unat aSig"
    "significand fb (unat bExp) (unat bSig)
      \<le> significand fb (unat aExp) (unat aSig) * 2 ^ (max 1 (unat aExp) - max 1 (unat bExp))"
proof -
  have "(unat bExp * 2 ^ fb + unat bSig) div 2 ^ fb \<le> (unat aExp * 2 ^ fb + unat aSig) div 2 ^ fb" by (rule div_le_mono [OF le])
  then show e: "unat bExp \<le> unat aExp" using s by simp
  show g: "unat aExp = unat bExp \<Longrightarrow> unat bSig \<le> unat aSig" using le by simp
  show "significand fb (unat bExp) (unat bSig)
      \<le> significand fb (unat aExp) (unat aSig) * 2 ^ (max 1 (unat aExp) - max 1 (unat bExp))"
  proof (cases "max 1 (unat aExp) = max 1 (unat bExp)")
    case True
    then have "unat aExp = unat bExp \<or> unat aExp = 1 \<and> unat bExp = 0" using e by (auto simp: max_def split: if_splits)
    then show ?thesis using True g s by (auto simp: significand_def)
  next
    case False
    then have d: "1 \<le> max 1 (unat aExp) - max 1 (unat bExp)" "unat aExp \<noteq> 0" using e by (auto simp: max_def split: if_splits)
    have "significand fb (unat bExp) (unat bSig) \<le> 2 ^ fb * 2 ^ 1" using significand_less [OF s(2), of "unat bExp"] by simp
    also have "\<dots> \<le> significand fb (unat aExp) (unat aSig) * 2 ^ (max 1 (unat aExp) - max 1 (unat bExp))"
      using d by (intro mult_le_mono power_increasing) (auto simp: significand_def)
    finally show ?thesis .
  qed
qed

text \<open>The distance of the exponents; it does not matter when the smaller operand is zero.\<close>

lemma exponent_distance:
  fixes aSig aExp bSig bExp :: u64
  assumes s: "unat aSig < 2 ^ fb" "unat bSig < 2 ^ fb" and e: "unat aExp < 2 ^ eb"
    and le: "unat bExp * 2 ^ fb + unat bSig \<le> unat aExp * 2 ^ fb + unat aSig"
    and nz: "bSig \<noteq> 0 \<or> bExp \<noteq> 0"
  shows "unat ((aExp - bExp - of_bool ((aExp = 0 \<and> aSig \<noteq> 0) \<noteq> (bExp = 0 \<and> bSig \<noteq> 0))) AND ones eb)
    = max 1 (unat aExp) - max 1 (unat bExp)"
proof -
  note o = ordered_exponents(1,2) [OF s le]
  have ab: "unat (aExp - bExp) = unat aExp - unat bExp" using o(1) by (rule unat_diff_le)
  have u: "unat (aExp - bExp - of_bool ((aExp = 0 \<and> aSig \<noteq> 0) \<noteq> (bExp = 0 \<and> bSig \<noteq> 0)))
      = max 1 (unat aExp) - max 1 (unat bExp)"
  proof (cases "bExp = 0")
    case False
    then show ?thesis using o(1) ab by (auto simp: word_eq_0_iff_unat max_def)
  next
    case b: True
    then have bs: "0 < unat bSig" using nz by (simp add: unat_gt_0)
    show ?thesis
    proof (cases "aExp = 0")
      case True
      then have "aSig \<noteq> 0" using b bs o(2) by auto
      then show ?thesis using True b bs by auto
    next
      case False
      then have "unat (aExp - 1) = unat aExp - 1" "1 \<le> unat aExp" by (simp_all add: unat_diff_le Suc_le_eq unat_gt_0)
      then show ?thesis using False b bs by (auto simp: max_def)
    qed
  qed
  have "max 1 (unat aExp) - max 1 (unat bExp) \<le> unat aExp" by (auto simp: max_def)
  then have "max 1 (unat aExp) - max 1 (unat bExp) < 2 ^ eb" using e by linarith
  then show ?thesis unfolding and_ones u by (rule mod_less)
qed

text \<open>The first three steps: the sum of the significands at the scale of the larger operand, rounded
  down, and whether it is inexact.\<close>

lemma addsub_aligned_sum:
  fixes aSig aExp bSig bExp :: u64 and fb eb :: nat and sAB :: bool
  assumes f: "fb + 4 \<le> 2 ^ addsub_exp_shift fb" "fb \<le> 58"
    and s: "unat aSig < 2 ^ fb" "unat bSig < 2 ^ fb" and e: "unat aExp < 2 ^ eb"
    and le: "unat bExp * 2 ^ fb + unat bSig \<le> unat aExp * 2 ^ fb + unat aSig"
  defines "d \<equiv> max 1 (unat aExp) - max 1 (unat bExp)"
  defines "MA \<equiv> significand fb (unat aExp) (unat aSig)" and "MB \<equiv> significand fb (unat bExp) (unat bSig)"
  defines "n \<equiv> (if sAB then MA * 2 ^ d - MB else MA * 2 ^ d + MB)"
  defines "al \<equiv> addsub_align (push_bit 2 (bSig OR push_bit fb (of_bool (bExp \<noteq> 0))))
      ((aExp - bExp - of_bool ((aExp = 0 \<and> aSig \<noteq> 0) \<noteq> (bExp = 0 \<and> bSig \<noteq> 0))) AND ones eb) fb (fb + 3) FLOAT_RND_NEVN"
  shows "unat (addsub_sum (push_bit 2 (aSig OR push_bit fb (of_bool (aExp \<noteq> 0)))) (fst al) (snd al) sAB (fb + 4))
      = 4 * n div 2 ^ d"
    and "snd al \<longleftrightarrow> 4 * n mod 2 ^ d \<noteq> 0"
proof -
  define fA fB where "fA = push_bit 2 (aSig OR push_bit fb (of_bool (aExp \<noteq> 0)))"
    and "fB = push_bit 2 (bSig OR push_bit fb (of_bool (bExp \<noteq> 0)))"
  let ?e = "(aExp - bExp - of_bool ((aExp = 0 \<and> aSig \<noteq> 0) \<noteq> (bExp = 0 \<and> bSig \<noteq> 0))) AND ones eb"
  have fA: "unat fA = 4 * MA" and fB: "unat fB = 4 * MB"
    unfolding MA_def MB_def fA_def fB_def using working_significand s f(2) by blast+
  have M: "4 * MA < 2 ^ (fb + 3)" "4 * MB < 2 ^ (fb + 3)"
    using significand_less [OF s(1), of "unat aExp"] significand_less [OF s(2), of "unat bExp"]
    unfolding MA_def MB_def by (simp_all add: power_add)
  have de: "4 * MB div 2 ^ unat ?e = 4 * MB div 2 ^ d \<and> 4 * MB mod 2 ^ unat ?e = 4 * MB mod 2 ^ d"
  proof (cases "bSig \<noteq> 0 \<or> bExp \<noteq> 0")
    case True
    then show ?thesis unfolding exponent_distance [OF s e le True] d_def by simp
  next
    case False
    then show ?thesis by (simp add: MB_def significand_def)
  qed
  have B: "unat fB < 2 ^ (fb + 3)" using M(2) fB by simp
  have al: "unat (fst al) = 4 * MB div 2 ^ d" "snd al \<longleftrightarrow> 4 * MB mod 2 ^ d \<noteq> 0"
    unfolding al_def fB_def [symmetric] using addsub_align_eq [OF f(1) B, of ?e] de fB by simp_all
  have "4 * MB \<le> 4 * MA * 2 ^ d"
    using ordered_exponents(3) [OF s le] unfolding MA_def MB_def d_def by simp
  note as = aligned_sum [of sAB "4 * MB" "4 * MA" d, OF this]
  have N: "(if sAB then 4 * MA * 2 ^ d - 4 * MB else 4 * MA * 2 ^ d + 4 * MB) = 4 * n"
    by (simp add: n_def right_diff_distrib' mult.assoc)
  have le': "unat (fst al) + of_bool (snd al) \<le> unat fA" if sAB using as(3) [OF that] al fA by simp
  have "4 * MB div 2 ^ d < 2 ^ (fb + 3)" using M(2) by (meson div_le_dividend le_less_trans)
  then have "unat (addsub_sum fA (fst al) (snd al) sAB (fb + 4))
      = (if sAB then unat fA - unat (fst al) - of_bool (snd al) else unat fA + unat (fst al))"
    using M f(2) le' by (intro addsub_sum_eq) (simp_all add: fA al add.commute [of 3 fb])
  also have "\<dots> = 4 * n div 2 ^ d" by (simp only: fA al as(1) N)
  finally show "unat (addsub_sum (push_bit 2 (aSig OR push_bit fb (of_bool (aExp \<noteq> 0)))) (fst al) (snd al) sAB (fb + 4))
      = 4 * n div 2 ^ d" unfolding fA_def .
  show "snd al \<longleftrightarrow> 4 * n mod 2 ^ d \<noteq> 0" using as(2) N al(2) by simp
qed

text \<open>What the sizes of the operands leave for the sum: far apart exponents cannot cancel, near ones
  lose nothing.\<close>

lemma sum_bounds:
  fixes ea fb d MA MB n :: nat and sAB :: bool
  assumes MA: "MA < 2 ^ (fb + 1)" "ea \<noteq> 0 \<Longrightarrow> 2 ^ fb \<le> MA" and MB: "MB < 2 ^ (fb + 1)" "MB \<le> MA * 2 ^ d"
    and d: "2 \<le> d \<Longrightarrow> ea \<noteq> 0"
  defines "n \<equiv> (if sAB then MA * 2 ^ d - MB else MA * 2 ^ d + MB)"
  shows "4 * n div 2 ^ d \<le> 8 * (2 ^ (fb + 1) - 1)"
    and "2 \<le> d \<Longrightarrow> 2 ^ (fb + 1) \<le> 4 * n div 2 ^ d"
    and "d \<le> 1 \<Longrightarrow> 4 * n mod 2 ^ d = 0"
    and "n = 0 \<longleftrightarrow> 4 * n div 2 ^ d = 0"
    and "n \<noteq> 0 \<Longrightarrow> 2 \<le> 4 * n div 2 ^ d"
proof -
  define P where "P = (2 :: nat) ^ d"
  have P: "0 < P" by (simp add: P_def)
  have "n \<le> MA * P + MB" using trans_le_add1 [OF diff_le_self [of "MA * P" MB], of MB] by (simp add: n_def P_def)
  also have "\<dots> \<le> (2 ^ (fb + 1) - 1) * P + (2 ^ (fb + 1) - 1) * P"
  proof (rule add_mono)
    show "MA * P \<le> (2 ^ (fb + 1) - 1) * P" using MA(1) by (intro mult_le_mono1) linarith
    have "MB \<le> (2 ^ (fb + 1) - 1) * 1" using MB(1) by linarith
    also have "\<dots> \<le> (2 ^ (fb + 1) - 1) * P" using P by (intro mult_le_mono2) linarith
    finally show "MB \<le> (2 ^ (fb + 1) - 1) * P" .
  qed
  finally have "4 * n \<le> 8 * (2 ^ (fb + 1) - 1) * P" by (simp add: mult.commute)
  then have "4 * n div P \<le> 8 * (2 ^ (fb + 1) - 1) * P div P" by (rule div_le_mono)
  then show "4 * n div 2 ^ d \<le> 8 * (2 ^ (fb + 1) - 1)" using P by (simp add: P_def [symmetric])
  show big: "2 ^ (fb + 1) \<le> 4 * n div 2 ^ d" if d2: "2 \<le> d"
  proof -
    define i where "i = d - 2"
    have i: "d = Suc (Suc i)" using d2 by (simp add: i_def)
    have P4: "P = 4 * 2 ^ i" by (simp add: P_def i)
    have a: "2 ^ fb * P \<le> MA * P" using MA(2) d d2 by simp
    have "2 ^ (fb + 1) \<le> 2 ^ fb * (2 * 2 ^ i :: nat)" by simp
    then have "MB \<le> 2 ^ fb * (2 * 2 ^ i)" using MB(1) by linarith
    moreover have "MB \<le> MA * P" "sAB \<Longrightarrow> n = MA * P - MB" "\<not> sAB \<Longrightarrow> n = MA * P + MB"
      using MB(2) by (simp_all add: n_def P_def)
    ultimately have "2 ^ fb * P \<le> n + 2 ^ fb * (2 * 2 ^ i)" using a by (cases sAB) linarith+
    then have "2 ^ (fb + 1) * P \<le> 4 * n" unfolding P4 by simp
    then show ?thesis using P by (simp add: P_def [symmetric] less_eq_div_iff_mult_less_eq)
  qed
  show ex: "4 * n mod 2 ^ d = 0" if "d \<le> 1"
  proof -
    have "P = 1 \<or> P = 2" using that by (auto simp: P_def le_Suc_eq)
    then show ?thesis unfolding P_def [symmetric] by (elim disjE ssubst) presburger+
  qed
  show ge: "2 \<le> 4 * n div 2 ^ d" if "n \<noteq> 0"
  proof (cases "2 \<le> d")
    case True
    have "(2 :: nat) \<le> 2 ^ (fb + 1)" by simp
    then show ?thesis using big [OF True] by linarith
  next
    case False
    then have "d = 0 \<or> d = 1" by auto
    then show ?thesis using that by auto
  qed
  show "n = 0 \<longleftrightarrow> 4 * n div 2 ^ d = 0" using ge by (cases "n = 0") auto
qed

text \<open>The last two steps: the rounded pattern, and where it can lie.\<close>

lemma addsub_rounded:
  fixes aExp bExp w :: u64 and fb eb d n :: nat
  defines "ea \<equiv> unat aExp" and "Eb \<equiv> max 1 (unat bExp)"
  assumes f: "fb \<le> 58" "eb + fb < 64" and e: "ea + 1 < 2 ^ eb" and ab: "unat bExp \<le> ea" and d: "d = max 1 ea - Eb"
    and w: "unat w = 4 * n div 2 ^ d" "sb \<longleftrightarrow> 4 * n mod 2 ^ d \<noteq> 0" and w8: "unat w \<le> 8 * (2 ^ (fb + 1) - 1)"
    and far: "2 \<le> d \<Longrightarrow> 2 ^ (fb + 1) \<le> unat w" and near: "d \<le> 1 \<Longrightarrow> \<not> sb"
    and n0: "n \<noteq> 0" "2 \<le> unat w" and null: "ea = 0 \<Longrightarrow> n < 2 ^ (fb + 1)"
  defines "nm \<equiv> addsub_normalise w aExp (aExp = 0) (bExp = 0) eb (fb + 4) True"
  defines "P \<equiv> nearest_pattern fb (n * 2 ^ (Eb - 1))"
  shows "unat (addsub_round (fst nm) (fst (snd nm)) sb fb 2 FLOAT_RND_NEVN) = P \<and> \<not> snd (snd nm)
    \<and> (if 2 ^ (fb + 3) \<le> unat w then (ea + 1) * 2 ^ fb \<le> P \<and> P < (ea + 2) * 2 ^ fb
       else P \<le> (ea + 1) * 2 ^ fb \<or> ea = 0 \<and> P < 2 ^ (fb + 1))"
proof -
  have "8 * (2 ^ (fb + 1) - 1) < (2 :: nat) ^ (fb + 4)" by (simp add: power_add)
  then have w4: "unat w < 2 ^ (fb + 4)" using w8 by linarith
  obtain c where c: "is_clz (fb + 4) (unat w) c" using is_clz_exists [OF _ w4] n0(2) by auto
  note cb = is_clz_mult_less [OF c]
  have cl: "2 ^ (fb + 3) \<le> unat w * 2 ^ c" "unat w * 2 ^ c < 2 ^ (fb + 4)" using cb by (simp_all add: add.commute)
  have b0: "aExp = 0 \<Longrightarrow> bExp = 0" using ab by (simp add: ea_def word_eq_0_iff_unat)
  have nm: "unat (fst nm) = (if ea < c then of_bool (ea = 0 \<and> c = 1) else ea - c + 1)"
    "unat (fst (snd nm)) = unat w * 2 ^ (if ea < c then max 1 ea else c)" "\<not> snd (snd nm)"
    unfolding nm_def ea_def using addsub_normalise_pos [OF _ _ c n0(2), of aExp eb bExp] f e b0
    by (simp_all add: ea_def word_eq_0_iff_unat)
  have lt: "unat (fst nm) < 2 ^ eb" using nm(1) e by auto
  note R = addsub_round_eq [OF f(2) lt, of "fst (snd nm)" sb, unfolded nm(1,2)]
  have E: "max 1 ea = Eb + d" "1 \<le> Eb" using ab d by (auto simp: Eb_def max_def)
  have c2: "c \<le> 2" if "2 \<le> d"
  proof (rule ccontr)
    assume "\<not> c \<le> 2"
    then have "2 ^ (fb + 1) * 2 ^ 3 \<le> unat w * 2 ^ c" using far [OF that] by (intro mult_le_mono power_increasing) auto
    then show False using cl(2) by (simp add: power_add)
  qed
  have c0: "c = 0 \<longleftrightarrow> 2 ^ (fb + 3) \<le> unat w"
  proof
    show "c = 0 \<Longrightarrow> 2 ^ (fb + 3) \<le> unat w" using cl(1) by simp
    assume "2 ^ (fb + 3) \<le> unat w"
    then have "2 ^ (fb + 3) * 2 ^ c \<le> unat w * 2 ^ c" by simp
    moreover have "(2 :: nat) ^ (fb + 4) = 2 ^ (fb + 3) * 2" by (simp add: power_add)
    ultimately have "2 ^ (fb + 3) * 2 ^ c < (2 :: nat) ^ (fb + 3) * 2" using cl(2) by linarith
    then have "(2 :: nat) ^ c < 2 ^ 1" by simp
    then show "c = 0" by (simp only: power_strict_increasing_iff)
  qed
  show ?thesis
  proof (cases "ea < c")
    case c: False
    have ea0: "ea \<noteq> 0"
    proof
      assume z: "ea = 0"
      then have "d = 0" using E by simp
      then have "unat w < 2 ^ (fb + 3)" using w(1) null [OF z] by (simp add: power_add)
      then show False using c0 c z by simp
    qed
    define z up where "z = unat w * 2 ^ c" and "up = (of_bool (round_up z sb) :: nat)"
    have z: "2 ^ (fb + 3) \<le> z" "z < 2 ^ (fb + 4)" using cl by (simp_all add: z_def)
    then have q: "2 ^ fb \<le> z div 8" "z div 8 < 2 ^ (fb + 1)" by (simp_all add: power_add)
    then have qm: "z div 8 mod 2 ^ fb = z div 8 - 2 ^ fb" by (simp add: mod_if le_mod_geq)
    have ex: "c \<le> 2 \<or> \<not> sb" using c2 near by (cases "2 \<le> d") auto
    have Ea: "ea = Eb + d" using E ea0 by simp
    have P: "P = (ea - c) * 2 ^ fb + (z div 8 + up)"
      unfolding P_def z_def up_def using c E(2) ex w cl by (intro nearest_sum [OF _ _ _ _ _ Ea]) simp_all
    have "unat (addsub_round (fst nm) (fst (snd nm)) sb fb 2 FLOAT_RND_NEVN) = (ea - c + 1) * 2 ^ fb + (z div 8 - 2 ^ fb) + up"
      using R c qm by (simp add: z_def up_def)
    then have RP: "unat (addsub_round (fst nm) (fst (snd nm)) sb fb 2 FLOAT_RND_NEVN) = P" using q(1) by (simp add: P)
    have up1: "up \<le> 1" by (simp add: up_def)
    show ?thesis
    proof (cases "c = 0")
      case True
      have "z div 8 + up < 2 ^ (fb + 1)"
      proof (rule ccontr)
        assume a: "\<not> ?thesis"
        then have "z div 8 = 2 ^ (fb + 1) - 1" "up = 1" using q(2) up1 by linarith+
        moreover have "z \<le> 8 * (2 ^ (fb + 1) - 1)" using w8 True by (simp add: z_def)
        ultimately have "z = 8 * (2 ^ (fb + 1) - 1)" by presburger
        then have "even (z div 4)" by simp
        then show False using \<open>up = 1\<close> by (simp add: up_def round_up_def)
      qed
      then show ?thesis using RP nm(3) True c0 q(1) by (simp add: P algebra_simps)
    next
      case False
      then have "ea - c \<le> ea - 1" by simp
      then have "(ea - c) * 2 ^ fb \<le> (ea - 1) * 2 ^ fb" by (rule mult_le_mono1)
      moreover have "(ea + 1) * 2 ^ fb = (ea - 1) * 2 ^ fb + 2 ^ (fb + 1)" using ea0 by (cases ea) (simp_all add: algebra_simps)
      ultimately have "P \<le> (ea + 1) * 2 ^ fb" using q(2) up1 unfolding P by linarith
      then show ?thesis using RP nm(3) False c0 by simp
    qed
  next
    case c: True
    have d1: "d \<le> 1"
    proof (rule ccontr)
      assume "\<not> ?thesis"
      then have "c \<le> 2" "3 \<le> max 1 ea" using c2 E by simp_all
      then show False using c by simp
    qed
    then have sb: "\<not> sb" and n4: "4 * n = unat w * 2 ^ d" using near w by auto
    define m where "m = n * 2 ^ (Eb - 1)"
    have z8: "unat w * 2 ^ max 1 ea = 8 * m"
    proof -
      have "unat w * 2 ^ max 1 ea = unat w * 2 ^ d * 2 ^ Eb" unfolding E(1) by (simp add: power_add)
      also have "\<dots> = 4 * n * (2 * 2 ^ (Eb - 1))" unfolding n4 [symmetric] using E(2) by (cases Eb) simp_all
      finally show ?thesis by (simp add: m_def)
    qed
    have "\<not> round_up (8 * m) sb" by (simp add: round_up_def)
    then have r: "unat (addsub_round (fst nm) (fst (snd nm)) sb fb 2 FLOAT_RND_NEVN) = of_bool (ea = 0 \<and> c = 1) * 2 ^ fb + m mod 2 ^ fb"
      using R c by (simp only: z8 if_True) simp
    have nc: "\<not> 2 ^ (fb + 3) \<le> unat w" using c0 c by simp
    show ?thesis
    proof (cases "ea = 0")
      case True
      then have d0: "d = 0" "Eb = 1" using E ab by (simp_all add: Eb_def)
      then have m: "m = n" "unat w = 4 * n" using n4 by (simp_all add: m_def)
      have "c = 1 \<longleftrightarrow> 2 ^ fb \<le> n"
      proof
        show "c = 1 \<Longrightarrow> 2 ^ fb \<le> n" using cl(1) m(2) by (simp add: power_add)
        assume n: "2 ^ fb \<le> n"
        show "c = 1"
        proof (rule ccontr)
          assume "c \<noteq> 1"
          then have "4 * 2 ^ fb * 2 ^ 2 \<le> unat w * 2 ^ c" using c n True m(2) by (intro mult_le_mono power_increasing) auto
          then show False using cl(2) by (simp add: power_add)
        qed
      qed
      then have "of_bool (c = 1) * 2 ^ fb + n mod 2 ^ fb = n" using null [OF True] by (auto simp: mod_if le_mod_geq)
      moreover have "P = m" unfolding P_def m_def [symmetric] using null [OF True] m by (intro nearest_pattern_exact) simp
      ultimately show ?thesis using r nm(3) nc True m null [OF True] by simp
    next
      case False
      have "unat w * 2 ^ max 1 ea * 2 \<le> unat w * 2 ^ c"
        using c False power_increasing [of "ea + 1" c "2 :: nat"] by (simp add: max_def mult.commute mult.left_commute)
      then have "m < 2 ^ fb" using cl(2) unfolding z8 by (simp add: power_add)
      moreover then have "P = m" unfolding P_def m_def [symmetric] by (intro nearest_pattern_exact) simp
      moreover have "(2 :: nat) ^ fb \<le> (ea + 1) * 2 ^ fb" by simp
      ultimately show ?thesis using r nm(3) nc False by simp
    qed
  qed
qed

text \<open>Formats for which the addition is meant: round to nearest, IEEE exceptions, hidden bit, subnormals,
  a sign, and a fraction for which the alignment shifter is wide enough.\<close>

definition add_format :: "tfspec \<Rightarrow> bool" where
  "add_format sp \<longleftrightarrow> rnd_mode sp = FLOAT_RND_NEVN \<and> exc_mode sp = FLOAT_EXC_STD \<and> has_one sp \<and> has_subnorm sp
     \<and> sign_spec sp = - 1 \<and> 2 \<le> exp_bits sp \<and> exp_bits sp + frac_bits sp < 64 \<and> frac_bits sp \<le> 58
     \<and> frac_bits sp + 4 \<le> 2 ^ addsub_exp_shift (frac_bits sp)"

lemma ieee_add_formats: "add_format IEEE16_SPEC_ARGS" "add_format IEEE32_SPEC_ARGS" "add_format IEEE64_SPEC_ARGS"
  by (simp_all add: add_format_def IEEE16_SPEC_ARGS_def IEEE32_SPEC_ARGS_def IEEE64_SPEC_ARGS_def addsub_exp_shift_def)

definition infinity_bits :: "tfspec \<Rightarrow> nat" where
  "infinity_bits sp = (2 ^ exp_bits sp - 1) * 2 ^ frac_bits sp"

definition finite_pattern :: "tfspec \<Rightarrow> u64 \<Rightarrow> bool" where
  "finite_pattern sp a \<longleftrightarrow> fabs_bits sp a < infinity_bits sp"

lemma unat_fields:
  assumes "unat F < 2 ^ fb" "unat E < 2 ^ eb" "eb + fb < 64"
  shows "unat ((push_bit (eb + fb) (of_bool s) OR push_bit fb E) OR F :: u64)
    = of_bool s * 2 ^ (eb + fb) + (unat E * 2 ^ fb + unat F)"
proof -
  have "(unat E + 1) * 2 ^ fb \<le> 2 ^ eb * 2 ^ fb" using assms(2) by (intro mult_le_mono1) simp
  then have t: "unat E * 2 ^ fb + unat F < 2 ^ (eb + fb)" using assms(1) by (simp add: power_add)
  have "(2 :: nat) ^ (eb + fb) + 2 ^ (eb + fb) \<le> 2 ^ 64" using assms(3) power_increasing [of "eb + fb + 1" 64 "2 :: nat"] by simp
  then have t2: "of_bool s * 2 ^ (eb + fb) + (unat E * 2 ^ fb + unat F) < 2 ^ LENGTH(64)" using t by (cases s) simp_all
  have i: "unat (push_bit fb E OR F) = unat E * 2 ^ fb + unat F" using assms(1) t2 by (intro unat_push_or) simp_all
  have o: "unat (of_bool s :: u64) = of_bool s" by (cases s) simp_all
  have "unat (push_bit (eb + fb) (of_bool s) OR (push_bit fb E OR F) :: u64)
      = unat (of_bool s :: u64) * 2 ^ (eb + fb) + unat (push_bit fb E OR F)"
    using t t2 i o by (intro unat_push_or) simp_all
  then show ?thesis by (simp only: or.assoc i o)
qed

text \<open>The rounded pattern and the overflow test give the pattern, or that of infinity.\<close>

lemma addsub_pack_finite:
  fixes P eb fb :: nat and w R aExp :: u64
  defines "I \<equiv> (2 ^ eb - 1) * 2 ^ fb" and "carry \<equiv> 2 ^ (fb + 3) \<le> unat w"
  assumes f: "exc_mode sp = FLOAT_EXC_STD" "exp_bits sp = eb" "frac_bits sp = fb" "2 \<le> eb" "eb + fb < 64" "fb \<le> 58"
    and w: "unat w < 2 ^ (fb + 4)" and e: "unat aExp + 1 < 2 ^ eb" and R: "unat R = P" and z: "z \<Longrightarrow> P = 0 \<and> \<not> carry"
    and P: "if carry then (unat aExp + 1) * 2 ^ fb \<le> P \<and> P < (unat aExp + 2) * 2 ^ fb
       else P \<le> (unat aExp + 1) * 2 ^ fb \<or> unat aExp = 0 \<and> P < 2 ^ (fb + 1)"
  shows "unat (addsub_pack aSign sAB aSig False False False z
      (aExp = push_bit eb 1 - 2 \<and> drop_bit (fb + 3) w AND 1 \<noteq> 0 \<and> FLOAT_EXC_STD \<noteq> FLOAT_EXC_OVF) R sp)
    = of_bool (aSign \<and> (\<not> z \<or> \<not> sAB)) * 2 ^ (eb + fb) + min P I"
proof -
  define ovf where "ovf \<longleftrightarrow> aExp = push_bit eb 1 - 2 \<and> drop_bit (fb + 3) w AND 1 \<noteq> 0 \<and> FLOAT_EXC_STD \<noteq> FLOAT_EXC_OVF"
  have e4: "(4 :: nat) \<le> 2 ^ eb" using power_increasing [OF f(4), of "2 :: nat"] by simp
  have eb64: "eb < 64" using f(5) by simp
  have "unat (push_bit eb 1 - 2 :: u64) = 2 ^ eb - 2"
    using unat_push_1 [of eb, where 'a = 64] eb64 e4 by (subst unat_diff_le) (simp_all del: push_bit_of_1)
  moreover have "unat (drop_bit (fb + 3) w AND 1) = of_bool carry"
  proof -
    have "unat w div 2 ^ (fb + 3) < 2" using w by (simp add: less_mult_imp_div_less power_add)
    then have "unat w div 2 ^ (fb + 3) = of_bool carry" unfolding carry_def by (auto simp: div_eq_0_iff less_2_cases_iff)
    moreover have "drop_bit (fb + 3) w AND 1 = take_bit 1 (drop_bit (fb + 3) w)" by (simp add: and_one_eq take_bit_Suc)
    ultimately show ?thesis by (simp only: unat_take_bit_mod unat_drop_bit_div) simp
  qed
  ultimately have ovf: "ovf \<longleftrightarrow> unat aExp = 2 ^ eb - 2 \<and> carry"
    by (auto simp: ovf_def word_unat_eq_iff exc_defs word_eq_0_iff_unat)
  have le: "P \<le> I" if "\<not> ovf"
  proof (cases carry)
    case True
    then have "unat aExp + 2 \<le> 2 ^ eb - 1" using that ovf e by auto
    then have "(unat aExp + 2) * 2 ^ fb \<le> I" unfolding I_def by (rule mult_le_mono1)
    then show ?thesis using P True by simp
  next
    case False
    have "(unat aExp + 1) * 2 ^ fb \<le> I" unfolding I_def using e by (intro mult_le_mono1) simp
    moreover have "2 * 2 ^ fb \<le> I" unfolding I_def using e4 by (intro mult_le_mono1) simp
    ultimately show ?thesis using P False by auto
  qed
  have Ieb: "I < 2 ^ eb * 2 ^ fb" unfolding I_def using e4 by (intro mult_strict_right_mono) simp_all
  define E F where "E = drop_bit fb R AND ones eb" and "F = (if z \<or> ovf then 0 else R AND ones fb)"
  have E: "unat E = P div 2 ^ fb mod 2 ^ eb" by (simp only: E_def and_ones unat_drop_bit_div R)
  have F: "unat F = (if z \<or> ovf then 0 else P mod 2 ^ fb)" by (simp only: F_def and_ones R unat_0 split: if_split) simp
  have EF: "unat E * 2 ^ fb + unat F = min P I"
  proof (cases ovf)
    case True
    then have b: "I \<le> P" "P < I + 2 ^ fb" using P ovf e4 by (auto simp: I_def algebra_simps)
    have "P div 2 ^ fb = 2 ^ eb - 1"
    proof (rule div_nat_eqI)
      show "2 ^ fb * (2 ^ eb - 1) \<le> P" using b(1) by (simp add: I_def mult.commute)
      show "P < 2 ^ fb * Suc (2 ^ eb - 1)" using b(2) unfolding mult_Suc_right I_def by (simp only: mult.commute add.commute)
    qed
    then show ?thesis using E F True b(1) by (simp add: I_def)
  next
    case False
    then have "P div 2 ^ fb < 2 ^ eb" using le Ieb by (simp add: less_mult_imp_div_less le_less_trans)
    moreover have "P div 2 ^ fb * 2 ^ fb + P mod 2 ^ fb = P" by (rule div_mult_mod_eq)
    ultimately show ?thesis using E F False le z by (cases z) simp_all
  qed
  have "unat F < 2 ^ fb" "unat E < 2 ^ eb" unfolding E F by simp_all
  note u = unat_fields [OF this f(5), of "aSign \<and> (\<not> z \<or> \<not> sAB)", unfolded EF]
  have r: "addsub_pack aSign sAB aSig False False False z ovf R sp
      = (push_bit (eb + fb) (of_bool (aSign \<and> (\<not> z \<or> \<not> sAB))) OR push_bit fb E) OR F"
    unfolding addsub_pack_def Let_def f(1-3) E_def F_def by simp
  show ?thesis unfolding ovf_def [symmetric] r u ..
qed

lemma significand_bounds:
  assumes "f < 2 ^ fb"
  shows "significand fb e f < 2 ^ (fb + 1)" "e \<noteq> 0 \<Longrightarrow> 2 ^ fb \<le> significand fb e f"
  using assms by (simp_all add: significand_def)

lemma addsub_ordered_finite:
  fixes aSig aExp bSig bExp :: u64 and sp :: tfspec and aSign bSign :: bool
  defines "A \<equiv> fmag (frac_bits sp) (unat aExp) (unat aSig)" and "B \<equiv> fmag (frac_bits sp) (unat bExp) (unat bSig)"
  defines "m \<equiv> (if aSign \<noteq> bSign then A - B else A + B)"
  assumes f: "add_format sp" and s: "unat aSig < 2 ^ frac_bits sp" "unat bSig < 2 ^ frac_bits sp"
    and e: "unat aExp + 1 < 2 ^ exp_bits sp"
    and le: "unat bExp * 2 ^ frac_bits sp + unat bSig \<le> unat aExp * 2 ^ frac_bits sp + unat aSig"
  shows "unat (addsub_ordered aSign aSig aExp bSign bSig bExp sp)
    = of_bool (aSign \<and> (m \<noteq> 0 \<or> aSign = bSign)) * 2 ^ (exp_bits sp + frac_bits sp)
      + min (nearest_pattern (frac_bits sp) m) (infinity_bits sp)"
proof -
  define eb fb sAB where "eb = exp_bits sp" and "fb = frac_bits sp" and "sAB = (aSign \<noteq> bSign)"
  have F: "rnd_mode sp = FLOAT_RND_NEVN" "exc_mode sp = FLOAT_EXC_STD" "has_one sp" "has_subnorm sp"
    "2 \<le> eb" "eb + fb < 64" "fb \<le> 58" "fb + 4 \<le> 2 ^ addsub_exp_shift fb" "exp_bits sp = eb" "frac_bits sp = fb"
    using f by (simp_all add: add_format_def eb_def fb_def)
  define d MA MB where "d = max 1 (unat aExp) - max 1 (unat bExp)"
    and "MA = significand fb (unat aExp) (unat aSig)" and "MB = significand fb (unat bExp) (unat bSig)"
  define n where "n = (if sAB then MA * 2 ^ d - MB else MA * 2 ^ d + MB)"
  define al where "al = addsub_align (push_bit 2 (bSig OR push_bit fb (of_bool (bExp \<noteq> 0))))
      ((aExp - bExp - of_bool ((aExp = 0 \<and> aSig \<noteq> 0) \<noteq> (bExp = 0 \<and> bSig \<noteq> 0))) AND ones eb) fb (fb + 3) FLOAT_RND_NEVN"
  define w where "w = addsub_sum (push_bit 2 (aSig OR push_bit fb (of_bool (aExp \<noteq> 0)))) (fst al) (snd al) sAB (fb + 4)"
  define nm where "nm = addsub_normalise w aExp (aExp = 0) (bExp = 0) eb (fb + 4) True"
  define R where "R = addsub_round (fst nm) (fst (snd nm)) (snd al) fb 2 FLOAT_RND_NEVN"
  note s' = s [folded fb_def] and e' = e [folded eb_def] and le' = le [folded fb_def]
  have ea: "unat aExp < 2 ^ eb" using e' by simp
  have as: "unat w = 4 * n div 2 ^ d" "snd al \<longleftrightarrow> 4 * n mod 2 ^ d \<noteq> 0"
    unfolding w_def al_def n_def MA_def MB_def d_def using addsub_aligned_sum [OF F(8,7) s' ea le'] by blast+
  note oe = ordered_exponents [OF s' le', folded d_def MA_def MB_def]
  have Eab: "max 1 (unat aExp) = max 1 (unat bExp) + d" using oe(1) by (simp add: d_def max_def)
  have M: "MA < 2 ^ (fb + 1)" "unat aExp \<noteq> 0 \<Longrightarrow> 2 ^ fb \<le> MA" "MB < 2 ^ (fb + 1)"
    using significand_bounds s' by (simp_all add: MA_def MB_def)
  have d2: "2 \<le> d \<Longrightarrow> unat aExp \<noteq> 0" using Eab by auto
  have sb: "unat w \<le> 8 * (2 ^ (fb + 1) - 1)" "2 \<le> d \<Longrightarrow> 2 ^ (fb + 1) \<le> unat w" "d \<le> 1 \<Longrightarrow> 4 * n mod 2 ^ d = 0"
    "n = 0 \<longleftrightarrow> unat w = 0" "n \<noteq> 0 \<Longrightarrow> 2 \<le> unat w"
    unfolding as(1) n_def using sum_bounds [of MA fb "unat aExp" MB d sAB, OF M(1,2) M(3) oe(3) d2] by blast+
  have mn: "m = n * 2 ^ (max 1 (unat bExp) - 1)"
  proof -
    have "A = MA * 2 ^ d * 2 ^ (max 1 (unat bExp) - 1)" "B = MB * 2 ^ (max 1 (unat bExp) - 1)"
      unfolding A_def B_def F(10) fmag_significand MA_def MB_def Eab by (simp_all add: power_add [symmetric] mult.assoc add.commute)
    then show ?thesis unfolding m_def n_def sAB_def [symmetric] by (simp add: diff_mult_distrib add_mult_distrib)
  qed
  have "8 * (2 ^ (fb + 1) - 1) < (2 :: nat) ^ (fb + 4)" by (simp add: power_add)
  then have w4: "unat w < 2 ^ (fb + 4)" using sb(1) by linarith
  have core: "unat R = nearest_pattern fb m \<and> (snd (snd nm) \<longleftrightarrow> m = 0)
    \<and> (snd (snd nm) \<longrightarrow> nearest_pattern fb m = 0 \<and> \<not> 2 ^ (fb + 3) \<le> unat w)
    \<and> (if 2 ^ (fb + 3) \<le> unat w then (unat aExp + 1) * 2 ^ fb \<le> nearest_pattern fb m \<and> nearest_pattern fb m < (unat aExp + 2) * 2 ^ fb
       else nearest_pattern fb m \<le> (unat aExp + 1) * 2 ^ fb \<or> unat aExp = 0 \<and> nearest_pattern fb m < 2 ^ (fb + 1))"
  proof (cases "n = 0")
    case True
    then have w0: "w = 0" using sb(4) by (simp add: word_eq_0_iff_unat)
    have "nm = (0, 0, True)" unfolding nm_def w0 using F(7) by (intro addsub_normalise_zero) simp_all
    moreover have "unat (addsub_round 0 0 (snd al) fb 2 FLOAT_RND_NEVN) = 0"
      using addsub_round_eq [OF F(6), of 0 0 "snd al"] by (simp add: round_up_def)
    moreover have "m = 0" "nearest_pattern fb m = 0" using True mn nearest_pattern_exact [of 0 fb] by simp_all
    ultimately show ?thesis by (simp add: R_def w0)
  next
    case False
    have null: "n < 2 ^ (fb + 1)" if z: "unat aExp = 0"
    proof -
      have "unat bExp = 0" "d = 0" using z oe(1) by (simp_all add: d_def)
      then show ?thesis using z s' by (auto simp: n_def MA_def MB_def significand_def)
    qed
    have near: "d \<le> 1 \<Longrightarrow> \<not> snd al" using sb(3) as(2) by simp
    have dd: "d = max 1 (unat aExp) - max 1 (unat bExp)" by (rule d_def)
    note ar = addsub_rounded [OF F(7,6) e' oe(1) dd as(1,2) sb(1,2) near False sb(5) [OF False] null, folded nm_def R_def mn]
    moreover have "m \<noteq> 0" using False mn by simp
    ultimately show ?thesis by blast
  qed
  have max: "aExp \<noteq> ones eb" "bExp \<noteq> ones eb"
    using e' oe(1) unat_ones [of eb, where 'a = 64] F(6) by auto
  have r: "addsub_ordered aSign aSig aExp bSign bSig bExp sp = addsub_pack aSign sAB aSig False False False (snd (snd nm))
      (aExp = push_bit eb 1 - 2 \<and> drop_bit (fb + 3) w AND 1 \<noteq> 0 \<and> FLOAT_EXC_STD \<noteq> FLOAT_EXC_OVF) R sp"
  proof -
    have T: "has_one sp = True" "has_subnorm sp = True" "(aExp = ones eb) = False" "(bExp = ones eb) = False"
      "fb + 2 + 1 = fb + 3" "fb + 3 + 1 = fb + 4" using F max by simp_all
    show ?thesis
      by (simp only: addsub_ordered_def Let_def F(1,2,9,10) T if_True simp_thms case_prod_beta
          R_def nm_def w_def al_def sAB_def)
  qed
  show ?thesis unfolding r F(9,10) infinity_bits_def
    using core by (subst addsub_pack_finite [OF F(2,9,10,5,6,7) w4 e']) (auto simp: sAB_def)
qed

section \<open>Correct rounding\<close>

lemma pattern_fields:
  shows "unat (extractFloatExp a (exp_bits sp) (frac_bits sp)) = fabs_bits sp a div 2 ^ frac_bits sp"
    and "unat (extractFloatFrac a (frac_bits sp)) = fabs_bits sp a mod 2 ^ frac_bits sp"
    and "unat (a AND ones (exp_bits sp + frac_bits sp)) = fabs_bits sp a"
proof -
  let ?eb = "exp_bits sp" and ?fb = "frac_bits sp"
  have "unat a mod (2 ^ ?fb * 2 ^ ?eb) = 2 ^ ?fb * (unat a div 2 ^ ?fb mod 2 ^ ?eb) + unat a mod 2 ^ ?fb" by (rule mod_mult2_eq)
  moreover have "2 ^ ?fb * 2 ^ ?eb = (2 :: nat) ^ (?eb + ?fb)" by (simp add: power_add)
  ultimately have m: "fabs_bits sp a = 2 ^ ?fb * (unat a div 2 ^ ?fb mod 2 ^ ?eb) + unat a mod 2 ^ ?fb"
    by (simp only: fabs_bits_def)
  show "unat (extractFloatExp a ?eb ?fb) = fabs_bits sp a div 2 ^ ?fb"
    "unat (extractFloatFrac a ?fb) = fabs_bits sp a mod 2 ^ ?fb"
    unfolding m unat_exp unat_frac by simp_all
  show "unat (a AND ones (?eb + ?fb)) = fabs_bits sp a" by (simp only: and_ones fabs_bits_def)
qed

text \<open>The signed sum of two magnitudes, the first not smaller.\<close>

lemma signed_sum:
  fixes A B :: nat and s t :: bool
  assumes "B \<le> A"
  defines "S \<equiv> (if s then - 1 else 1) * int A + (if t then - 1 else 1) * int B"
  defines "m \<equiv> (if s \<noteq> t then A - B else A + B)"
  shows "nat \<bar>S\<bar> = m" "m \<noteq> 0 \<Longrightarrow> S < 0 \<longleftrightarrow> s" "S = 0 \<longleftrightarrow> m = 0"
  using assms by (cases s; cases t; auto)+

lemma rounded_nearest_abs:
  "rounded_int float_round_nearest_even fb S = sgn S * rounded_int float_round_nearest_even fb (int (nat \<bar>S\<bar>))"
  using round_nearest_sign [of "S < 0"] by (cases "S = 0") (simp_all add: rounded_int_def Let_def)

lemma pattern_mag_infinity: "1 \<le> eb \<Longrightarrow> pattern_mag fb ((2 ^ eb - 1) * 2 ^ fb) = 2 ^ (fb + 2 ^ eb - 2)"
proof -
  assume "1 \<le> eb"
  then have e: "(2 :: nat) \<le> 2 ^ eb" using power_increasing [of 1 eb "2 :: nat"] by simp
  then have "2 ^ eb - 1 - 1 + fb = fb + 2 ^ eb - (2 :: nat)" by simp
  then have "2 ^ fb * 2 ^ (2 ^ eb - 1 - 1) = (2 :: nat) ^ (fb + 2 ^ eb - 2)" by (metis add.commute power_add)
  then show ?thesis using e by (simp add: pattern_mag_def fmag_def)
qed

lemma addsub_pattern:
  fixes a b :: u64 and sub :: bool and sp :: tfspec
  defines "S \<equiv> fint sp a + (if sub then - 1 else 1) * fint sp b" and "r \<equiv> float_addsub a b sub sp"
  assumes f: "add_format sp" "format_ok sp" and p: "pattern_of sp a" "pattern_of sp b" "finite_pattern sp a" "finite_pattern sp b"
  shows "unat r = of_bool (if S = 0 then fsign sp a \<and> (fsign sp b \<noteq> sub) else S < 0) * 2 ^ (exp_bits sp + frac_bits sp)
    + min (nearest_pattern (frac_bits sp) (nat \<bar>S\<bar>)) (infinity_bits sp)"
proof -
  let ?eb = "exp_bits sp" and ?fb = "frac_bits sp"
  have sg: "sign_spec sp = - 1" and eb2: "2 \<le> ?eb" using f(1) by (simp_all add: add_format_def)
  have main: "unat (addsub_ordered s (extractFloatFrac x ?fb) (extractFloatExp x ?eb ?fb) t (extractFloatFrac y ?fb)
        (extractFloatExp y ?eb ?fb) sp)
      = of_bool (if T = 0 then s \<and> t else T < 0) * 2 ^ (?eb + ?fb) + min (nearest_pattern ?fb (nat \<bar>T\<bar>)) (infinity_bits sp)"
    if xy: "pattern_of sp x" "pattern_of sp y" "finite_pattern sp x" "fabs_bits sp y \<le> fabs_bits sp x"
      and T: "T = (if s then - 1 else 1) * int (pattern_mag ?fb (fabs_bits sp x))
        + (if t then - 1 else 1) * int (pattern_mag ?fb (fabs_bits sp y))" for x y s t T
  proof -
    note fx = pattern_fields(1,2) [of x sp] and fy = pattern_fields(1,2) [of y sp]
    have "fabs_bits sp x div 2 ^ ?fb < 2 ^ ?eb - 1" using xy(3) by (simp add: finite_pattern_def infinity_bits_def less_mult_imp_div_less)
    then have e: "unat (extractFloatExp x ?eb ?fb) + 1 < 2 ^ ?eb" by (simp add: fx)
    have le: "unat (extractFloatExp y ?eb ?fb) * 2 ^ ?fb + unat (extractFloatFrac y ?fb)
        \<le> unat (extractFloatExp x ?eb ?fb) * 2 ^ ?fb + unat (extractFloatFrac x ?fb)" using xy(4) by (simp only: fx fy div_mult_mod_eq)
    have B: "pattern_mag ?fb (fabs_bits sp y) \<le> pattern_mag ?fb (fabs_bits sp x)"
      using xy(4) pattern_mag_less_iff [of ?fb "fabs_bits sp x" "fabs_bits sp y"] by linarith
    note ss = signed_sum [OF B, of s t, folded T]
    have "unat (extractFloatFrac x ?fb) < 2 ^ ?fb" "unat (extractFloatFrac y ?fb) < 2 ^ ?fb" by (simp_all add: fx fy)
    note o = addsub_ordered_finite [OF f(1) this e le, of s t, unfolded fx fy, folded pattern_mag_def, folded ss(1)]
    have "(s \<and> (nat \<bar>T\<bar> \<noteq> 0 \<or> s = t)) = (if T = 0 then s \<and> t else T < 0)" using ss by auto
    then show ?thesis using o by simp
  qed
  have swap: "a AND ones (?eb + ?fb) < b AND ones (?eb + ?fb) \<longleftrightarrow> fabs_bits sp a < fabs_bits sp b"
    using pattern_fields(3) [of a sp] pattern_fields(3) [of b sp] by (simp add: word_less_nat_alt)
  have S: "S = (if fsign sp a then - 1 else 1) * int (pattern_mag ?fb (fabs_bits sp a))
      + (if fsign sp b \<noteq> sub then - 1 else 1) * int (pattern_mag ?fb (fabs_bits sp b))"
    by (simp add: S_def fint_def)
  show ?thesis
  proof (cases "fabs_bits sp a < fabs_bits sp b")
    case True
    then have r: "r = addsub_ordered (fsign sp b \<noteq> sub) (extractFloatFrac b ?fb) (extractFloatExp b ?eb ?fb) (fsign sp a)
        (extractFloatFrac a ?fb) (extractFloatExp a ?eb ?fb) sp"
      unfolding r_def float_addsub_def Let_def swap fsign_def by simp
    have S2: "S = (if fsign sp b \<noteq> sub then - 1 else 1) * int (pattern_mag ?fb (fabs_bits sp b))
        + (if fsign sp a then - 1 else 1) * int (pattern_mag ?fb (fabs_bits sp a))" using S by simp
    show ?thesis unfolding r using main [OF p(2,1,4) _ S2] True by (simp add: conj_commute)
  next
    case False
    then have r: "r = addsub_ordered (fsign sp a) (extractFloatFrac a ?fb) (extractFloatExp a ?eb ?fb) (fsign sp b \<noteq> sub)
        (extractFloatFrac b ?fb) (extractFloatExp b ?eb ?fb) sp"
      unfolding r_def float_addsub_def Let_def swap fsign_def by simp
    show ?thesis unfolding r using main [OF p(1-3) _ S] False by simp
  qed
qed

text \<open>
  C3. Addition and subtraction are correctly rounded: for finite operands of every format with round to
  nearest, IEEE exceptions and subnormals whose fraction the alignment shifter can hold (half,
  single and double precision among them), the result is the exact sum or difference, rounded
  once to the nearest number of the format, ties to even. When the rounded sum is beyond the
  range the result is the infinity of its sign; an exact zero is positive unless both terms are
  negative.
\<close>

theorem float_addsub_correct:
  fixes a b :: u64 and sub :: bool and sp :: tfspec
  defines "S \<equiv> fint sp a + (if sub then - 1 else 1) * fint sp b" and "r \<equiv> float_addsub a b sub sp"
  defines "R \<equiv> rounded_int float_round_nearest_even (frac_bits sp) S"
  assumes f: "add_format sp" and p: "pattern_of sp a" "pattern_of sp b" "finite_pattern sp a" "finite_pattern sp b"
  shows "pattern_of sp r
    \<and> fsign sp r = (if S = 0 then fsign sp a \<and> (fsign sp b \<noteq> sub) else S < 0)
    \<and> (if \<bar>R\<bar> < 2 ^ (frac_bits sp + 2 ^ exp_bits sp - 2) then finite_pattern sp r \<and> fint sp r = R
       else fabs_bits sp r = infinity_bits sp)"
proof -
  let ?eb = "exp_bits sp" and ?fb = "frac_bits sp" and ?I = "infinity_bits sp"
  have sg: "sign_spec sp = - 1" and e2: "2 \<le> ?eb" and ok: "format_ok sp" using f addsub_align_wide [of ?fb] by (auto simp: add_format_def format_ok_def)
  define P where "P = nearest_pattern ?fb (nat \<bar>S\<bar>)"
  define s where "s \<longleftrightarrow> (if S = 0 then fsign sp a \<and> (fsign sp b \<noteq> sub) else S < 0)"
  have u: "unat r = of_bool s * 2 ^ (?eb + ?fb) + min P ?I"
    using addsub_pattern [OF f ok p, of sub] by (simp add: r_def s_def P_def S_def)
  have "?I < 2 ^ ?eb * 2 ^ ?fb" unfolding infinity_bits_def by (intro mult_strict_right_mono) simp_all
  then have I: "min P ?I < 2 ^ (?eb + ?fb)" by (simp add: power_add)
  have pat: "pattern_of sp r" using u I sg by (cases s) (auto simp: pattern_of_def)
  have d: "unat r div 2 ^ (?eb + ?fb) = of_bool s" "fabs_bits sp r = min P ?I"
    unfolding fabs_bits_def u using I by (cases s; simp)+
  have sr: "fsign sp r = s"
    using sg d(1) by (simp add: fsign_def extractFloatSign_def word_eq_0_iff_unat unat_drop_bit_div)
  have R: "R = (if s then - 1 else 1) * int (pattern_mag ?fb P)"
    unfolding R_def rounded_nearest_abs [of _ S] nearest_pattern_mag [symmetric] P_def [symmetric]
    by (cases "S = 0") (auto simp: s_def P_def nearest_pattern_exact)
  have mI: "int (pattern_mag ?fb ?I) = 2 ^ (?fb + 2 ^ ?eb - 2)"
    unfolding infinity_bits_def using pattern_mag_infinity [of ?eb ?fb] e2 by simp
  have aR: "\<bar>R\<bar> = int (pattern_mag ?fb P)" by (simp add: R)
  have lim: "\<bar>R\<bar> < 2 ^ (?fb + 2 ^ ?eb - 2) \<longleftrightarrow> P < ?I"
    unfolding aR mI [symmetric] of_nat_less_iff pattern_mag_less_iff ..
  show ?thesis
  proof (cases "P < ?I")
    case True
    then show ?thesis using pat sr d(2) R lim by (simp add: s_def finite_pattern_def fint_def)
  next
    case False
    then show ?thesis using pat sr d(2) lim by (simp add: s_def)
  qed
qed

theorem float_addsub_correct_witness:
  "fint IEEE16_SPEC_ARGS (float_addsub 0x3C00 0x1000 False IEEE16_SPEC_ARGS) = 2 ^ 24
   \<and> fint IEEE16_SPEC_ARGS (float_addsub 0x3C00 0x1000 True IEEE16_SPEC_ARGS) = 2 ^ 24 - 2 ^ 13
   \<and> fabs_bits IEEE16_SPEC_ARGS (float_addsub 0x7BFF 0x7BFF False IEEE16_SPEC_ARGS) = 0x7C00"
proof -
  have k: "frac_bits IEEE16_SPEC_ARGS = 10" "exp_bits IEEE16_SPEC_ARGS = 5" "sign_spec IEEE16_SPEC_ARGS = - 1"
    by (simp_all add: IEEE16_SPEC_ARGS_def)
  have v: "fint IEEE16_SPEC_ARGS 0x3C00 = 2 ^ 24" "fint IEEE16_SPEC_ARGS 0x1000 = 2 ^ 13" "fint IEEE16_SPEC_ARGS 0x7BFF = 0x7FF * 2 ^ 29"
    by (simp_all add: fint_def fsign_def fabs_bits_def k pattern_mag_def fmag_def extractFloatSign_def)
  have p: "pattern_of IEEE16_SPEC_ARGS x \<and> finite_pattern IEEE16_SPEC_ARGS x" if "x \<in> {0x3C00, 0x1000, 0x7BFF}" for x
    using that by (auto simp: pattern_of_def finite_pattern_def fabs_bits_def infinity_bits_def k)
  have l: "floorlog 2 16785408 = 25" "floorlog 2 16769024 = 24" "floorlog 2 2197949513728 = 41"
    by (intro antisym floorlog_leI floorlog_geI; simp)+
  have "fint IEEE16_SPEC_ARGS (float_addsub 0x3C00 0x1000 False IEEE16_SPEC_ARGS) = 2 ^ 24"
    using float_addsub_correct [OF ieee_add_formats(1), of "0x3C00" "0x1000" False] p unfolding k v
    by (simp add: rounded_int_def round_nat_def Let_def l)
  moreover have "fint IEEE16_SPEC_ARGS (float_addsub 0x3C00 0x1000 True IEEE16_SPEC_ARGS) = 2 ^ 24 - 2 ^ 13"
    using float_addsub_correct [OF ieee_add_formats(1), of "0x3C00" "0x1000" True] p unfolding k v
    by (simp add: rounded_int_def round_nat_def Let_def l)
  moreover have "fabs_bits IEEE16_SPEC_ARGS (float_addsub 0x7BFF 0x7BFF False IEEE16_SPEC_ARGS) = 0x7C00"
    using float_addsub_correct [OF ieee_add_formats(1), of "0x7BFF" "0x7BFF" False] p unfolding k v
    by (simp add: rounded_int_def round_nat_def Let_def l infinity_bits_def k)
  ultimately show ?thesis by blast
qed

section \<open>Narrow formats\<close>

text \<open>The format \<^verbatim>\<open>bfloat16\<close>: eight bits of exponent and seven of fraction.\<close>

definition bfloat16 :: tfspec where
  "bfloat16 = IEEE32_SPEC_ARGS\<lparr>frac_bits := 7\<rparr>"

text \<open>
  The alignment shifter of \<^verbatim>\<open>__float_addsub\<close> saturates at a distance that the significand of some formats
  exceeds: the fractions for which it does not are those of the last conjunct. In \<^verbatim>\<open>bfloat16\<close>, with 7 bits of
  fraction, the sums of 1 with \<open>2\<^sup>-\<^sup>3\<^sup>1\<close> and with \<open>2\<^sup>-\<^sup>1\<^sup>2\<^sup>6\<close> are \<open>1 + 2\<^sup>-\<^sup>7\<close>.
\<close>

theorem narrow_addition_wrong:
  "float_add 0x3F80 0x3000 bfloat16 = 0x3F81 \<and> float_add 0x3F80 0x0080 bfloat16 = 0x3F81
   \<and> (fb + 4 \<le> 2 ^ addsub_exp_shift fb \<longleftrightarrow> fb \<in> {9..12} \<union> {17..28} \<union> {33..60})"
proof -
  have k: "frac_bits bfloat16 = 7" "exp_bits bfloat16 = 8" "sign_spec bfloat16 = - 1" "rnd_mode bfloat16 = FLOAT_RND_NEVN"
    "exc_mode bfloat16 = FLOAT_EXC_STD" "has_one bfloat16 = True" "has_subnorm bfloat16 = True"
    by (simp_all add: bfloat16_def IEEE32_SPEC_ARGS_def)
  have al: "addsub_align 512 31 7 10 FLOAT_RND_NEVN = (4, False)" "addsub_align 512 126 7 10 FLOAT_RND_NEVN = (4, False)"
    by (simp_all add: addsub_align_def addsub_exp_shift_def mask_eq_exp_minus_1)
  have s: "addsub_sum 512 4 False False 11 = 516" by (simp add: addsub_sum_def)
  have n: "addsub_normalise 516 127 False False 8 11 True = (127, 1032, False)"
    by (simp add: addsub_normalise_def macro_eval)
  have r: "addsub_round 127 1032 False 7 2 FLOAT_RND_NEVN = 0x3F81" by (simp add: addsub_round_def macro_eval)
  have o: "addsub_ordered False 0 127 False 0 e bfloat16 = 0x3F81" if "e = 96 \<or> e = 1" for e
    using that by (elim disjE) (simp_all add: addsub_ordered_def k al s n r addsub_pack_def)
  show ?thesis
    using o [of 96] o [of 1] addsub_align_wide [of fb]
    by (simp add: float_add_def float_addsub_def k extractFloatExp_def extractFloatFrac_def extractFloatSign_def)
qed

end
