(* ===== verification/FloatMul.thy ===== *)
theory FloatMul
  imports FloatAdd SoftintCore
begin

text \<open>
  Multiplication, \<^verbatim>\<open>__float_mul\<close> of \<^verbatim>\<open>etc/libbambu/softfloat/softfloat.c\<close>, in its parts: the classes of
  the operands and of the result, the product of the significands in the two ways the function
  computes it, rounding, and the choice of the result. The theorems show that normal operands
  are multiplied and rounded once, what happens to infinities, zeros and NaNs, and where
  subnormal numbers are handled wrongly.
\<close>

section \<open>The program\<close>

definition FP_CLS_ZERO :: u8 where "FP_CLS_ZERO = 0"
definition FP_CLS_NORMAL :: u8 where "FP_CLS_NORMAL = 1"
definition FP_CLS_INF :: u8 where "FP_CLS_INF = 2"
definition FP_CLS_NAN :: u8 where "FP_CLS_NAN = 3"

lemmas cls_defs = FP_CLS_ZERO_def FP_CLS_NORMAL_def FP_CLS_INF_def FP_CLS_NAN_def

text \<open>A condition on both bits of a class.\<close>

definition cls_select :: "bool \<Rightarrow> u8 \<Rightarrow> u8" where
  "cls_select c k = (push_bit 1 (of_bool c) OR of_bool c) AND k"

text \<open>The class of an operand from its fields, and whether it counts as a nonzero number.\<close>

definition mul_class :: "u64 \<Rightarrow> u64 \<Rightarrow> tfspec \<Rightarrow> u8 \<times> bool" where
  "mul_class aExp aSig sp =
    (let std = (exc_mode sp = FLOAT_EXC_STD);
         aExpMax = (aExp = ones (exp_bits sp));
         a_c_zero = (aExp = 0 \<and> (aSig = 0 \<or> \<not> has_subnorm sp));
         a_c_inf = (if std then aExpMax \<and> aSig = 0 else False);
         a_c_nan = (if std then aExpMax \<and> aSig \<noteq> 0 else False);
         a_c_normal = (if std then \<not> a_c_zero \<and> \<not> aExpMax else \<not> a_c_zero)
     in ((cls_select a_c_normal FP_CLS_NORMAL OR cls_select a_c_inf FP_CLS_INF) OR cls_select a_c_nan FP_CLS_NAN, a_c_normal))"

text \<open>The class of the product of two classes. Products with \<open>~\<close> in the source are computed as
  \<^verbatim>\<open>int\<close>, of which only the last bit is used.\<close>

definition mul_class_result :: "u8 \<Rightarrow> u8 \<Rightarrow> nat \<Rightarrow> u8" where
  "mul_class_result a_c b_c exc =
    (let a1 = drop_bit 1 a_c; b1 = drop_bit 1 b_c; a0 = a_c AND 1; b0 = b_c AND 1;
         z_c = push_bit 1 (a1 OR b1) OR
               (((((a1 AND a0) OR (b1 AND b0)) OR (a0 AND b0))
                 OR (((1 AND NOT a1) AND (NOT a_c AND 1)) AND b1))
                OR (((1 AND NOT b1) AND (NOT b_c AND 1)) AND a1))
     in if exc = FLOAT_EXC_OVF then z_c AND 1 else z_c)"

text \<open>The product of significands of more than 32 bits, from four products of half words: as two
  words, and as the bits from \<open>fb + 2\<close> up and those below.\<close>

definition mul_words :: "u64 \<Rightarrow> u64 \<Rightarrow> u64 \<times> u64" where
  "mul_words aSig bSig =
    (let u0 = drop_bit 32 aSig; u1 = aSig AND 0xFFFFFFFF;
         v0 = drop_bit 32 bSig; v1 = bSig AND 0xFFFFFFFF;
         t = u1 * v1;
         w3 = t AND 0xFFFFFFFF; k = drop_bit 32 t;
         t = u0 * v1 + k;
         w2 = t AND 0xFFFFFFFF; w1 = drop_bit 32 t;
         ts = u1 * v0 + w2;
         ks = drop_bit 32 ts;
         w_0 = u0 * v0 + w1 + ks;
         w_1 = push_bit 32 ts + w3
     in (w_0, w_1))"

definition mul_parts :: "u64 \<Rightarrow> u64 \<Rightarrow> nat \<Rightarrow> u64 \<times> u64" where
  "mul_parts aSig bSig fb =
    (let low_high = fb - ((fb + fb + 1) - 63);
         (w_0, w_1) = mul_words aSig bSig
     in ((push_bit low_high w_0 OR (drop_bit (64 - low_high) w_1 AND ones low_high)) AND ones fb,
         w_1 AND ones (64 - low_high)))"

text \<open>The normalised product: whether it has a carry, its leading fraction bits, and the bits below
  them, left-aligned in \<open>fb + 2\<close> bits.\<close>

definition mul_wide :: "u64 \<Rightarrow> u64 \<Rightarrow> nat \<Rightarrow> bool \<times> u64 \<times> u64" where
  "mul_wide aSig bSig fb =
    (let (sigProdHigh, sigProdLow) = mul_parts aSig bSig fb;
         norm = (drop_bit (fb - 1) sigProdHigh AND 1 \<noteq> 0);
         sigProdExtLow = push_bit (of_bool (\<not> norm)) (push_bit 1 sigProdLow) AND ones (fb + 2);
         sigProdLow = drop_bit (of_bool norm) (drop_bit fb sigProdLow AND 3);
         sigProdHigh = push_bit (of_bool (\<not> norm)) sigProdHigh;
         sigProdExtHigh = (push_bit 1 sigProdHigh OR sigProdLow) AND ones fb
     in (norm, sigProdExtHigh, sigProdExtLow))"

text \<open>The same for significands of at most 32 bits, with all bits of the product in one word.\<close>

definition mul_narrow :: "u64 \<Rightarrow> u64 \<Rightarrow> nat \<Rightarrow> bool \<times> u64" where
  "mul_narrow aSig bSig fb =
    (let frac_mul = fb + fb + 1;
         sigProd = ucast (ucast aSig :: u32) * ucast (ucast bSig :: u32) :: u64;
         norm = (drop_bit frac_mul sigProd AND 1 \<noteq> 0);
         sigProdExt = push_bit (of_bool (\<not> norm)) sigProd;
         sigProdExt = push_bit 1 (sigProdExt AND ones frac_mul)
     in (norm, sigProdExt))"

text \<open>The decision to round up, from the word that holds the bits below the fraction and the last
  bit of the fraction.\<close>

definition mul_round_bit :: "u64 \<Rightarrow> bool \<Rightarrow> nat \<Rightarrow> bool" where
  "mul_round_bit sigProdExt lsb fb =
    (let frac_almost = fb + 1;
         sticky = (drop_bit frac_almost sigProdExt AND 1 \<noteq> 0);
         guard = (sigProdExt AND ones frac_almost \<noteq> 0)
     in sticky \<and> (guard \<or> lsb))"

text \<open>Carry, fraction and the decision to round up, of either product.\<close>

definition mul_significand :: "u64 \<Rightarrow> u64 \<Rightarrow> nat \<Rightarrow> bool \<times> u64 \<times> bool" where
  "mul_significand aSig bSig fb =
    (if fb + 1 > 32 then
       (let (norm, sigProdExtHigh, sigProdExtLow) = mul_wide aSig bSig fb
        in (norm, sigProdExtHigh, mul_round_bit sigProdExtLow (sigProdExtHigh AND 1 \<noteq> 0) fb))
     else
       (let (norm, sigProdExt) = mul_narrow aSig bSig fb
        in (norm, drop_bit (fb + 2) sigProdExt AND ones fb,
            mul_round_bit sigProdExt (drop_bit (fb + 2) sigProdExt AND 1 \<noteq> 0) fb)))"

text \<open>Exponent and fraction in one word, rounded, and the overflow bit.\<close>

definition mul_pack :: "u32 \<Rightarrow> u64 \<Rightarrow> bool \<Rightarrow> nat \<Rightarrow> nat \<Rightarrow> nat \<Rightarrow> u64 \<times> bool" where
  "mul_pack expPostNorm sig rup eb fb rnd =
    (let expSig = push_bit fb (ucast expPostNorm) OR sig;
         expSig = (if eb + fb < 62 then expSig AND ones (eb + fb + 2) else expSig);
         expSigOvf0 = (drop_bit (eb + 1) expPostNorm AND 1 \<noteq> 0)
     in if rnd = FLOAT_RND_NEVN then
          (let expSigPostRound = expSig + of_bool rup;
               expSigOvf1 =
                 (if eb + fb = 63 then rup \<and> expSig = - 1
                  else (of_bool rup AND drop_bit (eb + fb + 1) expSigPostRound)
                         AND of_bool (drop_bit (eb + fb + 1) expSig = 0) \<noteq> 0)
           in (expSigPostRound, expSigOvf0 \<noteq> expSigOvf1))
        else (expSig, expSigOvf0))"

text \<open>The result: number, zero, infinity or NaN.\<close>

definition mul_result :: "bool \<Rightarrow> u8 \<Rightarrow> u64 \<Rightarrow> bool \<Rightarrow> tfspec \<Rightarrow> u64" where
  "mul_result zSign z_c expSigPostRound expSigOvf2 sp =
    (let eb = exp_bits sp; fb = frac_bits sp; exc = exc_mode sp;
         excPostNorm = (push_bit 1 (of_bool expSigOvf2) OR (drop_bit (eb + fb) expSigPostRound AND 1))
             OR of_bool (drop_bit fb expSigPostRound AND ones eb = ones eb) :: u64;
         zSig = push_bit (eb + fb) (of_bool zSign) OR (expSigPostRound AND ones (eb + fb));
         z_c = (if z_c = FP_CLS_NORMAL
                then push_bit 1 (of_bool (excPostNorm = 1)) OR of_bool (excPostNorm = 0) else z_c)
     in if z_c = FP_CLS_NORMAL then zSig
        else if z_c = FP_CLS_ZERO then push_bit (eb + fb) (of_bool zSign)
        else if z_c = FP_CLS_NAN \<and> exc = FLOAT_EXC_STD then float_nan eb fb (sign_spec sp)
        else (push_bit (eb + fb) (of_bool zSign) OR push_bit fb (ones eb))
               OR (if exc = FLOAT_EXC_STD then 0 else ones fb))"

definition float_mul :: "u64 \<Rightarrow> u64 \<Rightarrow> tfspec \<Rightarrow> u64" where
  "float_mul a b sp =
    (let eb = exp_bits sp; fb = frac_bits sp; exc = exc_mode sp; sg = sign_spec sp
     in if sg = 1 then (if exc = FLOAT_EXC_STD then float_nan eb fb sg else 0)
        else
     (let aSig = extractFloatFrac a fb;
          aExp = extractFloatExp a eb fb;
          bSig = extractFloatFrac b fb;
          bExp = extractFloatExp b eb fb;
          zSign = (extractFloatSign a eb fb sg \<noteq> extractFloatSign b eb fb sg);
          (a_c, a_c_normal) = mul_class aExp aSig sp;
          (b_c, b_c_normal) = mul_class bExp bSig sp;
          z_c = mul_class_result a_c b_c exc;
          expSum = ucast aExp + ucast bExp + of_int (exp_bias sp) :: u32;
          aSig = aSig OR push_bit fb (of_bool (has_one sp \<and> (a_c_normal \<or> \<not> has_subnorm sp)));
          bSig = bSig OR push_bit fb (of_bool (has_one sp \<and> (b_c_normal \<or> \<not> has_subnorm sp)));
          (norm, sig, round) = mul_significand aSig bSig fb;
          (expSigPostRound, expSigOvf2) = mul_pack (expSum + of_bool norm) sig round eb fb (rnd_mode sp)
      in mul_result zSign z_c expSigPostRound expSigOvf2 sp))"

section \<open>The product of the significands\<close>

lemma low_half: "x AND 0xFFFFFFFF = (ucast (ucast x :: u32) :: u64)"
proof -
  have "(0xFFFFFFFF :: u64) = ones 32" by simp
  then have "unat (x AND 0xFFFFFFFF) = unat x mod 2 ^ 32" by (simp only: and_ones)
  then show ?thesis by (simp add: word_unat_eq_iff unat_simps)
qed

lemma high_half: "drop_bit 32 x = (ucast (ucast (drop_bit 32 x) :: u32) :: u64)"
  by (simp only: word_unat_eq_iff unat_ucast_32_64 unat_high32 unat_drop_bit_div)

lemma push_half_add: "push_bit 32 t + ucast (w :: u32) = (push_bit 32 t OR ucast w :: u64)"
proof -
  have "push_bit 32 t AND ucast w = (0 :: u64)"
    by (rule bit_word_eqI) (auto simp: bit_simps dest: bit_imp_le_length)
  then show ?thesis by (simp add: disjunctive_add_eq_or)
qed

lemma mul_words_eq: "mul_words a b = umul_ppmm_2 a b"
  unfolding mul_words_def umul_ppmm_2_def Let_def low_half
  by (simp add: push_half_add add.assoc flip: high_half)

lemma unat_mul_words: "unat (fst (mul_words a b)) * 2 ^ 64 + unat (snd (mul_words a b)) = unat a * unat b"
  unfolding mul_words_eq by (rule unat_umul_ppmm_2)

lemma mul_parts_eq:
  assumes fb: "32 \<le> fb" "fb \<le> 61" and P: "unat a * unat b < 2 ^ (2 * fb + 2)"
  shows "unat (fst (mul_parts a b fb)) = unat a * unat b div 2 ^ (fb + 2)"
    and "unat (snd (mul_parts a b fb)) = unat a * unat b mod 2 ^ (fb + 2)"
proof -
  let ?P = "unat a * unat b"
  obtain w v where wv: "mul_words a b = (w, v)" by fastforce
  have l: "fb - ((fb + fb + 1) - 63) = 62 - fb" "64 - (62 - fb) = fb + 2" using fb by simp_all
  have B: "(2 :: nat) ^ 64 = 2 ^ (62 - fb) * 2 ^ (fb + 2)" using fb by (simp flip: power_add)
  have e: "?P = unat w * 2 ^ (62 - fb) * 2 ^ (fb + 2) + unat v"
    using unat_mul_words [of a b] unfolding wv fst_conv snd_conv B by (simp only: mult.assoc)
  have d: "?P div 2 ^ (fb + 2) = unat w * 2 ^ (62 - fb) + unat v div 2 ^ (fb + 2)" "?P mod 2 ^ (fb + 2) = unat v mod 2 ^ (fb + 2)"
    unfolding e by simp_all
  have "(2 :: nat) ^ (2 * fb + 2) = 2 ^ fb * 2 ^ (fb + 2)" by (simp flip: power_add)
  then have q: "?P div 2 ^ (fb + 2) < 2 ^ fb" using P by (simp only: div_less_iff_less_mult zero_less_power zero_less_numeral)
  have "unat v < 2 ^ (62 - fb) * 2 ^ (fb + 2)" using unat_less_exp [of v] unfolding B [symmetric] by simp
  then have v: "unat v div 2 ^ (fb + 2) < 2 ^ (62 - fb)" by (simp only: div_less_iff_less_mult zero_less_power zero_less_numeral)
  have "(2 :: nat) ^ fb \<le> 2 ^ 64" using fb by (intro power_increasing) simp_all
  then have "unat w * 2 ^ (62 - fb) + unat v div 2 ^ (fb + 2) < 2 ^ LENGTH(64)" using q unfolding d(1) by simp
  then have "unat (push_bit (62 - fb) w OR (drop_bit (fb + 2) v AND ones (62 - fb))) = ?P div 2 ^ (fb + 2)"
    using v q unfolding d(1) by (subst unat_push_or) (simp_all only: and_ones unat_drop_bit_div mod_less)
  then show "unat (fst (mul_parts a b fb)) = ?P div 2 ^ (fb + 2)"
    using q by (simp only: mul_parts_def Let_def wv prod.case fst_conv l and_ones mod_less)
  show "unat (snd (mul_parts a b fb)) = ?P mod 2 ^ (fb + 2)"
    by (simp only: mul_parts_def Let_def wv prod.case snd_conv l and_ones d(2))
qed

text \<open>The normalised product: \<open>j\<close> is the number of bits below the fraction.\<close>

lemma mod_scaled: "(x :: nat) * 2 ^ i mod 2 ^ (j + i) = x mod 2 ^ j * 2 ^ i"
  by (simp add: power_add mult_mod_left)

lemma div_scaled: "(x :: nat) * 2 ^ i div 2 ^ (j + i) = x div 2 ^ j"
  by (simp add: power_add)

lemma last_bit_odd: "(w AND 1 \<noteq> 0) \<longleftrightarrow> odd (unat (w :: 'a::len word))"
  using and_ones [of w 1] by (simp add: word_eq_0_iff_unat odd_iff_mod_2_eq_one)

lemma product_less: "(a :: nat) < 2 ^ (fb + 1) \<Longrightarrow> b < 2 ^ (fb + 1) \<Longrightarrow> a * b < 2 ^ (2 * fb + 2)"
proof -
  assume "a < 2 ^ (fb + 1)" "b < 2 ^ (fb + 1)"
  then have "a * b < 2 ^ (fb + 1) * 2 ^ (fb + 1)" by (intro mult_strict_mono) simp_all
  then show ?thesis unfolding power_add [symmetric] by (simp add: mult_2)
qed

lemma odd_quotient: "(P :: nat) < 2 ^ (k + 1) \<Longrightarrow> odd (P div 2 ^ k) \<longleftrightarrow> 2 ^ k \<le> P"
proof -
  assume "P < 2 ^ (k + 1)"
  then have "P div 2 ^ k < 2" by (simp add: div_less_iff_less_mult mult.commute)
  then consider "P div 2 ^ k = 0" | "P div 2 ^ k = 1" by linarith
  then show ?thesis
  proof cases
    case 1
    then have "P < 2 ^ k" by (simp add: div_eq_0_iff)
    then show ?thesis using 1 by simp
  next
    case 2
    then have "2 ^ k \<le> P" by (metis div_less not_less zero_neq_one)
    then show ?thesis using 2 by simp
  qed
qed

lemma mul_wide_eq:
  fixes a b :: u64 and fb :: nat
  defines "P \<equiv> unat a * unat b"
  defines "n \<equiv> 2 ^ (2 * fb + 1) \<le> P"
  assumes fb: "32 \<le> fb" "fb \<le> 61" and P: "P < 2 ^ (2 * fb + 2)"
  shows "fst (mul_wide a b fb) \<longleftrightarrow> n"
    and "unat (fst (snd (mul_wide a b fb))) = P div 2 ^ (fb + of_bool n) mod 2 ^ fb"
    and "unat (snd (snd (mul_wide a b fb))) = P mod 2 ^ (fb + of_bool n) * 2 ^ (2 - of_bool n)"
proof -
  obtain H L where HL: "mul_parts a b fb = (H, L)" by fastforce
  have u: "unat H = P div 2 ^ (fb + 2)" "unat L = P mod 2 ^ (fb + 2)"
    using mul_parts_eq [OF fb P [unfolded P_def]] by (simp_all only: HL P_def fst_conv snd_conv)
  let ?i = "2 - of_bool n :: nat" and ?j = "fb + of_bool n"
  have ji: "fb + 2 = ?j + ?i" by simp
  have p1: "(2 :: nat) ^ (fb + 2) * 2 ^ (fb - 1) = 2 ^ (2 * fb + 1)" unfolding power_add [symmetric] using fb by simp
  have "(drop_bit (fb - 1) H AND 1 \<noteq> 0) \<longleftrightarrow> odd (P div 2 ^ (2 * fb + 1))"
    by (simp only: last_bit_odd unat_drop_bit_div u div_mult2_eq [symmetric] p1)
  then have norm: "(drop_bit (fb - 1) H AND 1 \<noteq> 0) \<longleftrightarrow> n" using odd_quotient [of P "2 * fb + 1"] P by (simp add: n_def)
  have c: "of_bool (\<not> n) + 1 = ?i" "1 + of_bool (\<not> n) = ?i" by (cases n; simp)+
  have sh: "push_bit (of_bool (\<not> n)) (push_bit 1 x) = push_bit ?i x" "push_bit 1 (push_bit (of_bool (\<not> n)) x) = push_bit ?i x"
    for x :: u64 by (simp_all only: push_bit_push_bit c)
  have W: "mul_wide a b fb = (n, (push_bit ?i H OR drop_bit (of_bool n) (drop_bit fb L AND 3)) AND ones fb, push_bit ?i L AND ones (fb + 2))"
    unfolding mul_wide_def HL Let_def prod.case norm sh ..
  show "fst (mul_wide a b fb) \<longleftrightarrow> n" by (simp add: W)
  have "(2 :: nat) ^ (fb + 2) dvd 2 ^ 64" using fb by (intro le_imp_power_dvd) simp
  then have "unat (push_bit ?i L AND ones (fb + 2)) = unat L * 2 ^ ?i mod 2 ^ (fb + 2)"
    by (simp only: and_ones unat_push_bit_mult) (simp add: mod_mod_cancel)
  also have "\<dots> = P * 2 ^ ?i mod 2 ^ (fb + 2)" unfolding u by (simp add: mod_mult_left_eq)
  also have "\<dots> = P mod 2 ^ ?j * 2 ^ ?i" unfolding ji by (rule mod_scaled)
  finally show "unat (snd (snd (mul_wide a b fb))) = P mod 2 ^ ?j * 2 ^ ?i" by (simp only: W snd_conv)
  define l where "l = drop_bit (of_bool n) (drop_bit fb L AND 3 :: u64)"
  have L: "unat L < 2 ^ (fb + 2)" by (simp add: u)
  then have "unat L div 2 ^ fb < 2 ^ 2" by (simp add: div_less_iff_less_mult power_add)
  moreover have "(3 :: u64) = ones 2" by simp
  ultimately have "unat (drop_bit fb L AND 3) = unat L div 2 ^ fb" by (simp only: and_ones unat_drop_bit_div mod_less)
  then have l: "unat l = unat L div 2 ^ ?j" unfolding l_def by (simp only: unat_drop_bit_div div_mult2_eq power_add)
  then have l2: "unat l < 2 ^ ?i" using L unfolding ji by (simp add: div_less_iff_less_mult power_add mult.commute)
  have "(2 :: nat) ^ fb \<le> 2 ^ 61" using fb by (intro power_increasing) auto
  moreover have "(2 :: nat) ^ (2 * fb + 2) = 2 ^ fb * 2 ^ (fb + 2)" by (simp flip: power_add)
  then have "P div 2 ^ (fb + 2) < 2 ^ fb" using P by (simp only: div_less_iff_less_mult zero_less_power zero_less_numeral)
  ultimately have "unat H < 2 ^ 61" by (simp add: u)
  moreover have "(2 :: nat) ^ ?i \<le> 4" by (simp add: of_bool_def)
  ultimately have "unat H * 2 ^ ?i + unat l < 2 ^ 64" using l2 mult_le_mono [of "unat H" "2 ^ 61 - 1" "2 ^ ?i" 4] by simp
  then have "unat (push_bit ?i H OR l) = unat H * 2 ^ ?i + unat L div 2 ^ ?j" using l l2 by (subst unat_push_or) simp_all
  also have "\<dots> = (unat L + unat H * 2 ^ ?i * 2 ^ ?j) div 2 ^ ?j" by (subst div_mult_self1) simp_all
  also have "unat H * 2 ^ ?i * 2 ^ ?j = unat H * 2 ^ (fb + 2)" by (simp only: ji power_add mult.assoc mult.commute [of "2 ^ ?i"])
  also have "(unat L + unat H * 2 ^ (fb + 2)) div 2 ^ ?j = P div 2 ^ ?j" by (simp only: u mod_mult_div_eq mult.commute [of _ "2 ^ (fb + 2)"])
  finally show "unat (fst (snd (mul_wide a b fb))) = P div 2 ^ ?j mod 2 ^ fb"
    by (simp only: W fst_conv snd_conv and_ones l_def [symmetric])
qed

lemma mul_narrow_eq:
  fixes a b :: u64 and fb :: nat
  defines "P \<equiv> unat a * unat b"
  defines "n \<equiv> 2 ^ (2 * fb + 1) \<le> P"
  assumes fb: "fb \<le> 31" and ab: "unat a < 2 ^ (fb + 1)" "unat b < 2 ^ (fb + 1)"
  shows "fst (mul_narrow a b fb) \<longleftrightarrow> n"
    and "unat (snd (mul_narrow a b fb)) div 2 ^ (fb + 2) mod 2 ^ fb = P div 2 ^ (fb + of_bool n) mod 2 ^ fb"
    and "unat (snd (mul_narrow a b fb)) mod 2 ^ (fb + 2) = P mod 2 ^ (fb + of_bool n) * 2 ^ (2 - of_bool n)"
proof -
  let ?i = "2 - of_bool n :: nat" and ?j = "fb + of_bool n"
  have ji: "fb + 2 = ?j + ?i" by simp
  have "(2 :: nat) ^ (fb + 1) \<le> 2 ^ 32" using fb by (intro power_increasing) auto
  then have "unat a < 2 ^ 32" "unat b < 2 ^ 32" using ab by linarith+
  then have prod: "unat (ucast (ucast a :: u32) * ucast (ucast b :: u32) :: u64) = P"
    unfolding unat_mul_ucast P_def by (simp add: unat_ucast_mod)
  have P: "P < 2 ^ (2 * fb + 1 + 1)" using product_less [OF ab] by (simp add: P_def)
  define Q where "Q = (ucast (ucast a :: u32) * ucast (ucast b :: u32) :: u64)"
  have norm: "(drop_bit (fb + fb + 1) Q AND 1 \<noteq> 0) \<longleftrightarrow> n"
    unfolding last_bit_odd unat_drop_bit_div Q_def prod using odd_quotient [OF P] by (simp add: n_def mult_2)
  have W: "mul_narrow a b fb = (n, push_bit 1 (push_bit (of_bool (\<not> n)) Q AND ones (fb + fb + 1)))"
    unfolding mul_narrow_def Let_def Q_def [symmetric] norm ..
  show "fst (mul_narrow a b fb) \<longleftrightarrow> n" by (simp add: W)
  have d1: "(2 :: nat) ^ (fb + fb + 1) dvd 2 ^ 64" using fb by (intro le_imp_power_dvd) simp
  have "unat (push_bit (of_bool (\<not> n)) Q AND ones (fb + fb + 1)) = P * 2 ^ of_bool (\<not> n) mod 2 ^ 64 mod 2 ^ (fb + fb + 1)"
    by (simp only: and_ones unat_push_bit_mult Q_def prod) simp
  also have "\<dots> = P * 2 ^ of_bool (\<not> n) mod 2 ^ (fb + fb + 1)" using d1 by (rule mod_mod_cancel)
  finally have x: "unat (push_bit (of_bool (\<not> n)) Q AND ones (fb + fb + 1)) = P * 2 ^ of_bool (\<not> n) mod 2 ^ (fb + fb + 1)" .
  moreover have "(2 :: nat) ^ (fb + fb + 1) * 2 \<le> 2 ^ 64" unfolding power_Suc2 [symmetric] using fb by (intro power_increasing) auto
  moreover have "P * 2 ^ of_bool (\<not> n) mod 2 ^ (fb + fb + 1) < 2 ^ (fb + fb + 1)" by simp
  ultimately have "P * 2 ^ of_bool (\<not> n) mod 2 ^ (fb + fb + 1) * 2 < 2 ^ 64" by linarith
  moreover have "LENGTH(64) = 64" by simp
  ultimately have "P * 2 ^ of_bool (\<not> n) mod 2 ^ (fb + fb + 1) * 2 mod 2 ^ LENGTH(64) = P * 2 ^ of_bool (\<not> n) mod 2 ^ (fb + fb + 1) * 2"
    by (simp only: mod_less)
  then have "unat (snd (mul_narrow a b fb)) = P * 2 ^ of_bool (\<not> n) mod 2 ^ (fb + fb + 1) * 2"
    by (simp only: W snd_conv unat_push_bit_mult power_one_right x)
  also have "\<dots> = P * 2 ^ ?i mod 2 ^ (fb + (fb + 2))" using mod_scaled [of "P * 2 ^ of_bool (\<not> n)" 1 "fb + fb + 1"] by (cases n) simp_all
  finally have E: "unat (snd (mul_narrow a b fb)) = P * 2 ^ ?i mod (2 ^ (fb + 2) * 2 ^ fb)"
    by (simp only: power_add [of _ fb "fb + 2"] mult.commute [of "2 ^ fb"])
  then have "unat (snd (mul_narrow a b fb)) mod 2 ^ (fb + 2) = P * 2 ^ ?i mod 2 ^ (fb + 2)"
    by (simp only: mod_mod_cancel [OF dvd_triv_left])
  then show "unat (snd (mul_narrow a b fb)) mod 2 ^ (fb + 2) = P mod 2 ^ ?j * 2 ^ ?i"
    unfolding ji by (simp only: mod_scaled)
  have "unat (snd (mul_narrow a b fb)) div 2 ^ (fb + 2) = P * 2 ^ ?i div 2 ^ (fb + 2) mod 2 ^ fb"
    unfolding E mod_mult2_eq by simp
  also have "P * 2 ^ ?i div 2 ^ (fb + 2) = P div 2 ^ ?j" unfolding ji by (rule div_scaled)
  finally show "unat (snd (mul_narrow a b fb)) div 2 ^ (fb + 2) mod 2 ^ fb = P div 2 ^ ?j mod 2 ^ fb"
    by (simp only: mod_mod_trivial)
qed

text \<open>The decision to round up is that of rounding to nearest even.\<close>

lemma mul_round_bit_eq:
  fixes P j i fb :: nat and x :: u64
  assumes x: "unat x mod 2 ^ (fb + 2) = P mod 2 ^ j * 2 ^ i" and ji: "fb + 2 = j + i" and lsb: "lsb \<longleftrightarrow> odd (P div 2 ^ j)"
  shows "P div 2 ^ j + of_bool (mul_round_bit x lsb fb) = round_nat float_round_nearest_even s P j"
proof -
  define r where "r = P mod 2 ^ j"
  have X: "unat x mod 2 ^ (fb + 2) = r * 2 ^ i" using x by (simp add: r_def)
  have h: "(2 :: nat) ^ (fb + 2) = 2 ^ (fb + 1) * 2" "(2 :: nat) ^ j * 2 ^ i = 2 * 2 ^ (fb + 1)"
    unfolding power_add [symmetric] ji [symmetric] by simp_all
  have lt: "r * 2 ^ i < 2 * 2 ^ (fb + 1)" unfolding h(2) [symmetric] by (simp add: r_def)
  have "drop_bit (fb + 1) x AND 1 \<noteq> 0 \<longleftrightarrow> odd (unat x div 2 ^ (fb + 1))" by (simp only: last_bit_odd unat_drop_bit_div)
  also have "unat x div 2 ^ (fb + 1) mod 2 = r * 2 ^ i div 2 ^ (fb + 1)"
    unfolding X [symmetric] h(1) mod_mult2_eq by simp
  then have "odd (unat x div 2 ^ (fb + 1)) \<longleftrightarrow> odd (r * 2 ^ i div 2 ^ (fb + 1))" by (metis even_mod_2_iff)
  also have "\<dots> \<longleftrightarrow> 2 ^ (fb + 1) \<le> r * 2 ^ i" using lt by (intro odd_quotient) simp
  finally have st: "drop_bit (fb + 1) x AND 1 \<noteq> 0 \<longleftrightarrow> 2 ^ (fb + 1) \<le> r * 2 ^ i" .
  have "unat (x AND ones (fb + 1)) = r * 2 ^ i mod 2 ^ (fb + 1)"
    unfolding and_ones X [symmetric] h(1) mod_mult2_eq by simp
  then have gd: "x AND ones (fb + 1) \<noteq> 0 \<longleftrightarrow> r * 2 ^ i mod 2 ^ (fb + 1) \<noteq> 0" by (simp only: word_eq_0_iff_unat)
  have "mul_round_bit x lsb fb \<longleftrightarrow> 2 ^ (fb + 1) < r * 2 ^ i \<or> r * 2 ^ i = 2 ^ (fb + 1) \<and> lsb"
  proof (cases "2 ^ (fb + 1) \<le> r * 2 ^ i")
    case True
    then obtain t where t: "r * 2 ^ i = 2 ^ (fb + 1) + t" using le_Suc_ex by blast
    then have "r * 2 ^ i mod 2 ^ (fb + 1) = t" using lt by simp
    then show ?thesis unfolding mul_round_bit_def Let_def st gd using t by auto
  qed (auto simp only: mul_round_bit_def Let_def st gd)
  moreover have "2 ^ (fb + 1) < r * 2 ^ i \<longleftrightarrow> 2 ^ j < 2 * r"
  proof -
    have "2 ^ (fb + 1) < r * 2 ^ i \<longleftrightarrow> 2 ^ j * 2 ^ i < 2 * r * 2 ^ i" unfolding h(2) by simp
    then show ?thesis by simp
  qed
  moreover have "r * 2 ^ i = 2 ^ (fb + 1) \<longleftrightarrow> 2 * r = 2 ^ j"
  proof -
    have "r * 2 ^ i = 2 ^ (fb + 1) \<longleftrightarrow> 2 * r * 2 ^ i = 2 ^ j * 2 ^ i" unfolding h(2) by simp
    then show ?thesis by simp
  qed
  ultimately show ?thesis by (simp add: round_nat_def Let_def r_def [symmetric] lsb)
qed

lemma mul_significand_eq:
  fixes a b :: u64 and fb :: nat
  defines "P \<equiv> unat a * unat b"
  defines "n \<equiv> 2 ^ (2 * fb + 1) \<le> P"
  assumes fb: "1 \<le> fb" "fb \<le> 61" and ab: "unat a < 2 ^ (fb + 1)" "unat b < 2 ^ (fb + 1)"
  shows "\<exists>f r. mul_significand a b fb = (n, f, r) \<and> unat f = P div 2 ^ (fb + of_bool n) mod 2 ^ fb
    \<and> P div 2 ^ (fb + of_bool n) + of_bool r = round_nat float_round_nearest_even s P (fb + of_bool n)"
proof (cases "fb + 1 > 32")
  case True
  have P: "P < 2 ^ (2 * fb + 2)" unfolding P_def by (rule product_less [OF ab])
  have b: "32 \<le> fb" using True by simp
  note w = mul_wide_eq [OF b fb(2) P [unfolded P_def], folded P_def, folded n_def]
  obtain f l where W: "mul_wide a b fb = (n, f, l)" using w(1) by (cases "mul_wide a b fb") auto
  have w: "unat f = P div 2 ^ (fb + of_bool n) mod 2 ^ fb" "unat l = P mod 2 ^ (fb + of_bool n) * 2 ^ (2 - of_bool n)"
    using w(2,3) by (simp_all only: W fst_conv snd_conv)
  have "even (2 ^ fb :: nat)" using fb by simp
  then have "odd (unat f) \<longleftrightarrow> odd (P div 2 ^ (fb + of_bool n))" unfolding w(1) by (simp add: dvd_mod_iff)
  moreover have "unat l < 2 ^ (fb + of_bool n) * 2 ^ (2 - of_bool n)" unfolding w(2) by simp
  then have "unat l mod 2 ^ (fb + 2) = unat l" by (simp flip: power_add)
  ultimately show ?thesis unfolding mul_significand_def W Let_def prod.case last_bit_odd
    using True w(1) mul_round_bit_eq [of l fb P "fb + of_bool n" "2 - of_bool n" "odd (unat f)" s] w(2) by simp
next
  case False
  have b: "fb \<le> 31" using False by simp
  note w = mul_narrow_eq [OF b ab, folded P_def, folded n_def]
  obtain e where W: "mul_narrow a b fb = (n, e)" using w(1) by (cases "mul_narrow a b fb") auto
  have w: "unat e div 2 ^ (fb + 2) mod 2 ^ fb = P div 2 ^ (fb + of_bool n) mod 2 ^ fb"
    "unat e mod 2 ^ (fb + 2) = P mod 2 ^ (fb + of_bool n) * 2 ^ (2 - of_bool n)"
    using w(2,3) by (simp_all only: W snd_conv)
  have "even (2 ^ fb :: nat)" using fb by simp
  then have "odd (unat e div 2 ^ (fb + 2)) \<longleftrightarrow> odd (P div 2 ^ (fb + of_bool n))" using w(1) by (metis dvd_mod_iff)
  moreover have "mul_significand a b fb = (n, drop_bit (fb + 2) e AND ones fb, mul_round_bit e (odd (unat e div 2 ^ (fb + 2))) fb)"
    using False by (simp only: mul_significand_def W Let_def prod.case last_bit_odd unat_drop_bit_div if_False)
  moreover have "unat (drop_bit (fb + 2) e AND ones fb) = P div 2 ^ (fb + of_bool n) mod 2 ^ fb"
    using w(1) by (simp only: and_ones unat_drop_bit_div)
  ultimately show ?thesis
    using mul_round_bit_eq [OF w(2) _, of "odd (unat e div 2 ^ (fb + 2))" s] by simp
qed

section \<open>Packing and the result\<close>

lemma push_ucast_or:
  assumes "unat w * 2 ^ fb + unat f < 2 ^ 64" "unat f < 2 ^ fb"
  shows "unat (push_bit fb (ucast (w :: u32)) OR f :: u64) = unat w * 2 ^ fb + unat f"
  using assms by (subst unat_push_or) (simp_all add: unat_ucast_32_64)

lemma mul_pack_nonneg:
  fixes w :: u32 and f :: u64 and r :: bool and eb fb :: nat
  defines "X \<equiv> unat w * 2 ^ fb + unat f + of_bool r"
  assumes e: "unat w < 2 ^ (eb + 1)" "eb + fb \<le> 63" and f: "unat f < 2 ^ fb" and X: "X < 2 ^ (eb + fb + 1)"
  shows "\<exists>p. mul_pack w f r eb fb FLOAT_RND_NEVN = (p, False) \<and> unat p = X"
proof -
  define S where "S = push_bit fb (ucast w) OR f"
  have le: "(2 :: nat) ^ (eb + fb + 1) \<le> 2 ^ 64" using e(2) by (intro power_increasing) simp_all
  then have X64: "unat w * 2 ^ fb + unat f + of_bool r < 2 ^ 64" using X by (simp add: X_def)
  then have S: "unat S = unat w * 2 ^ fb + unat f" unfolding S_def using f by (intro push_ucast_or) simp_all
  have "unat S < 2 ^ (eb + fb + 2)" using X S by (simp add: X_def)
  then have m: "(if eb + fb < 62 then S AND ones (eb + fb + 2) else S) = S"
    by (simp only: word_unat_eq_iff if_distrib [of unat] and_ones mod_less if_cancel)
  have o: "drop_bit (eb + 1) w AND 1 = 0" using e(1) last_bit_odd [of "drop_bit (eb + 1) w"] by (auto simp only: unat_drop_bit_div div_less even_zero)
  have p: "unat (S + of_bool r) = X" using X64 S unfolding X_def by (subst unat_add_small) (cases r; simp)+
  have d: "drop_bit (eb + fb + 1) (S + of_bool r) = 0" using X by (simp only: word_eq_0_iff_unat unat_drop_bit_div p div_less)
  have n: "\<not> (r \<and> S = - 1)" if "eb + fb = 63"
  proof
    assume "r \<and> S = - 1"
    then have "X = 2 ^ 64" using S unat_neg_eq [of "1 :: u64"] by (simp add: X_def)
    then show False using X that by simp
  qed
  have "mul_pack w f r eb fb FLOAT_RND_NEVN = (S + of_bool r, False)"
    unfolding mul_pack_def Let_def S_def [symmetric] m o d using n by simp
  then show ?thesis using p by blast
qed

lemma odd_before_power: "1 \<le> k \<Longrightarrow> odd ((2 :: nat) ^ k - 1)"
  by (cases k) auto

lemma mul_pack_neg:
  fixes w :: u32 and f :: u64
  assumes E: "w = of_int E" "E < 0" "- (2 ^ (eb + 1)) \<le> E" and e: "eb \<le> 30" "eb + fb \<le> 63"
  shows "snd (mul_pack w f r eb fb FLOAT_RND_NEVN) \<or> fst (mul_pack w f r eb fb FLOAT_RND_NEVN) = 0"
proof -
  define S where "S = push_bit fb (ucast w) OR f"
  define T where "T = (if eb + fb < 62 then S AND ones (eb + fb + 2) else S)"
  have le: "(2 :: int) ^ (eb + 1) \<le> 2 ^ 31" using e by (intro power_increasing) simp_all
  have "uint w = 2 ^ 32 + E" unfolding E(1) using mod_neg_32 [of E] E le by (simp add: uint_word_of_int)
  then have "int (unat w) = 2 ^ 32 + E" by simp
  also have "\<dots> = int ((2 ^ (31 - eb) - 1) * 2 ^ (eb + 1) + nat (2 ^ (eb + 1) + E))"
  proof -
    have "(2 :: int) ^ (31 - eb) * 2 ^ (eb + 1) = 2 ^ 32" unfolding power_add [symmetric] using e by simp
    then show ?thesis using E by (simp add: of_nat_diff left_diff_distrib)
  qed
  finally have w: "unat w = (2 ^ (31 - eb) - 1) * 2 ^ (eb + 1) + nat (2 ^ (eb + 1) + E)" by (simp only: of_nat_eq_iff)
  have "int (nat (2 ^ (eb + 1) + E)) < int (2 ^ (eb + 1))" using E by simp
  then have "nat (2 ^ (eb + 1) + E) < 2 ^ (eb + 1)" by (simp only: of_nat_less_iff)
  then have d: "unat w div 2 ^ (eb + 1) = 2 ^ (31 - eb) - 1" unfolding w by simp
  then have od: "odd (unat w div 2 ^ (eb + 1))" using odd_before_power [of "31 - eb"] e by (simp only:) simp
  then have o: "drop_bit (eb + 1) w AND 1 \<noteq> 0" using last_bit_odd [of "drop_bit (eb + 1) w"] by (auto simp only: unat_drop_bit_div)
  have b: "bit w (eb + 1)" unfolding bit_unat_div by (rule od)
  have t: "drop_bit (eb + fb + 1) T \<noteq> 0" if "eb + fb \<noteq> 63"
  proof -
    have "bit S (eb + fb + 1)" using b that e by (auto simp: S_def bit_simps)
    then have "bit T (eb + fb + 1)" unfolding T_def ones_mask by (simp add: bit_simps)
    then have "bit (drop_bit (eb + fb + 1) T) 0" unfolding bit_drop_bit_eq by simp
    then show ?thesis by (metis bit_0_eq bot_apply bot_bool_def)
  qed
  have M: "mul_pack w f r eb fb FLOAT_RND_NEVN = (T + of_bool r, \<not> (if eb + fb = 63 then r \<and> T = - 1 else False))"
    unfolding mul_pack_def Let_def S_def [symmetric] T_def [symmetric] using o t by simp
  show ?thesis unfolding M by (cases "eb + fb = 63 \<and> r \<and> T = - 1") auto
qed

text \<open>The result in a format with IEEE exceptions: beyond the largest exponent it is infinity, and
  zero when the overflow bit is set.\<close>

lemma at_infinity:
  assumes "X < 2 ^ (eb + fb + 1)" "1 \<le> eb"
  shows "odd (X div 2 ^ (eb + fb)) \<or> X div 2 ^ fb mod 2 ^ eb = 2 ^ eb - 1 \<longleftrightarrow> (2 ^ eb - 1) * 2 ^ fb \<le> (X :: nat)"
proof -
  have I: "(2 ^ eb - 1) * 2 ^ fb \<le> X \<longleftrightarrow> 2 ^ eb - 1 \<le> X div 2 ^ fb" by (simp add: less_eq_div_iff_mult_less_eq)
  show ?thesis
  proof (cases "2 ^ (eb + fb) \<le> X")
    case True
    have "2 ^ eb \<le> X div 2 ^ fb" using True by (simp add: less_eq_div_iff_mult_less_eq power_add)
    then show ?thesis using odd_quotient [OF assms(1)] True unfolding I by simp
  next
    case False
    then have "X div 2 ^ fb < 2 ^ eb" by (simp add: div_less_iff_less_mult power_add)
    then show ?thesis using odd_quotient [OF assms(1)] False unfolding I by auto
  qed
qed

lemma mul_result_ovf:
  assumes "exc_mode sp = FLOAT_EXC_STD" "ovf \<or> p = 0" "1 \<le> exp_bits sp" "exp_bits sp \<le> 63"
  shows "mul_result s FP_CLS_NORMAL p ovf sp = push_bit (exp_bits sp + frac_bits sp) (of_bool s)"
proof (cases ovf)
  case True
  define x where "x = (push_bit 1 (of_bool ovf) OR (drop_bit (exp_bits sp + frac_bits sp) p AND 1))
      OR (of_bool (drop_bit (frac_bits sp) p AND ones (exp_bits sp) = ones (exp_bits sp)) :: u64)"
  have "bit x 1" using True by (simp add: x_def bit_simps)
  moreover have "\<not> bit (1 :: u64) 1" "\<not> bit (0 :: u64) 1" by simp_all
  ultimately have "x \<noteq> 0" "x \<noteq> 1" by metis+
  then show ?thesis unfolding mul_result_def Let_def x_def [symmetric] by (simp add: cls_defs)
next
  case False
  have "0 \<noteq> (ones (exp_bits sp) :: u64)"
    using assms(3,4) unat_ones [of "exp_bits sp", where 'a = 64] power_increasing [OF assms(3), of "2 :: nat"]
    by (auto simp: word_eq_0_iff_unat)
  then show ?thesis using False assms(2) by (simp add: mul_result_def cls_defs)
qed

lemma mul_result_finite:
  fixes p :: u64 and sp :: tfspec
  defines "eb \<equiv> exp_bits sp" and "fb \<equiv> frac_bits sp"
  assumes std: "exc_mode sp = FLOAT_EXC_STD" and e: "1 \<le> eb" "eb + fb \<le> 63" and p: "unat p < 2 ^ (eb + fb + 1)"
  shows "unat (mul_result s FP_CLS_NORMAL p False sp) = of_bool s * 2 ^ (eb + fb) + min (unat p) (infinity_bits sp)"
proof -
  let ?c = "odd (unat p div 2 ^ (eb + fb)) \<or> unat p div 2 ^ fb mod 2 ^ eb = 2 ^ eb - 1"
  have I: "?c \<longleftrightarrow> infinity_bits sp \<le> unat p" using at_infinity [OF p e(1)] by (simp add: infinity_bits_def eb_def fb_def)
  have b: "drop_bit (eb + fb) p AND 1 = of_bool (odd (unat p div 2 ^ (eb + fb)))"
    using last_bit_odd [of "drop_bit (eb + fb) p"] by (cases "even (drop_bit (eb + fb) p)") (auto simp: and_one_eq unat_drop_bit_div mod2_eq_if)
  have m: "drop_bit fb p AND ones eb = ones eb \<longleftrightarrow> unat p div 2 ^ fb mod 2 ^ eb = 2 ^ eb - 1"
    using e unat_ones [of eb, where 'a = 64] by (simp only: word_unat_eq_iff and_ones unat_drop_bit_div) simp
  have x: "(push_bit 1 (of_bool False) OR (drop_bit (eb + fb) p AND 1)) OR (of_bool (drop_bit fb p AND ones eb = ones eb) :: u64)
      = of_bool ?c" unfolding b m by (auto simp: of_bool_def)
  have r: "mul_result s FP_CLS_NORMAL p False sp = (if ?c then push_bit (eb + fb) (of_bool s) OR push_bit fb (ones eb)
      else push_bit (eb + fb) (of_bool s) OR (p AND ones (eb + fb)))"
    unfolding mul_result_def Let_def eb_def [symmetric] fb_def [symmetric] x using std by (simp add: cls_defs)
  show ?thesis
  proof (cases ?c)
    case True
    have "unat (push_bit (eb + fb) (of_bool s) OR push_bit fb (ones eb) OR 0 :: u64) = of_bool s * 2 ^ (eb + fb) + ((2 ^ eb - 1) * 2 ^ fb + 0)"
      using unat_fields [of 0 fb "ones eb" eb s] e unat_ones [of eb, where 'a = 64] by simp
    then show ?thesis using True I r by (simp add: infinity_bits_def eb_def fb_def min_def)
  next
    case False
    then have lt: "unat p < infinity_bits sp" using I by simp
    have "infinity_bits sp \<le> 2 ^ eb * 2 ^ fb" unfolding infinity_bits_def eb_def fb_def by (intro mult_le_mono1) simp
    then have "unat p < 2 ^ (eb + fb)" using lt by (simp add: power_add)
    then have "unat (push_bit (eb + fb) (of_bool s) OR (p AND ones (eb + fb)) :: u64) = of_bool s * 2 ^ (eb + fb) + unat p"
    proof -
      have q: "unat (p AND ones (eb + fb)) = unat p" using \<open>unat p < 2 ^ (eb + fb)\<close> by (simp only: and_ones mod_less)
      have "(2 :: nat) ^ (eb + fb) \<le> 2 ^ 63" using e by (intro power_increasing) auto
      then have "unat (of_bool s :: u64) * 2 ^ (eb + fb) + unat p < 2 ^ 64" using \<open>unat p < 2 ^ (eb + fb)\<close> by (cases s) simp_all
      then show ?thesis using q \<open>unat p < 2 ^ (eb + fb)\<close> by (subst unat_push_or) (cases s; simp)+
    qed
    then show ?thesis using False r lt by simp
  qed
qed

section \<open>Normal operands\<close>

definition mul_format :: "tfspec \<Rightarrow> bool" where
  "mul_format sp \<longleftrightarrow> rnd_mode sp = FLOAT_RND_NEVN \<and> exc_mode sp = FLOAT_EXC_STD \<and> has_one sp \<and> sign_spec sp = - 1
     \<and> 2 \<le> exp_bits sp \<and> exp_bits sp \<le> 30 \<and> 1 \<le> frac_bits sp \<and> frac_bits sp \<le> 61 \<and> exp_bits sp + frac_bits sp < 64
     \<and> exp_bias sp \<le> 0 \<and> - (2 ^ (exp_bits sp + 1)) \<le> exp_bias sp + 2"

lemma ieee_mul_formats: "mul_format IEEE16_SPEC_ARGS" "mul_format IEEE32_SPEC_ARGS" "mul_format IEEE64_SPEC_ARGS"
  by (simp_all add: mul_format_def IEEE16_SPEC_ARGS_def IEEE32_SPEC_ARGS_def IEEE64_SPEC_ARGS_def)

definition normal_pattern :: "tfspec \<Rightarrow> u64 \<Rightarrow> bool" where
  "normal_pattern sp a \<longleftrightarrow> 2 ^ frac_bits sp \<le> fabs_bits sp a \<and> fabs_bits sp a < infinity_bits sp"

definition exp_field :: "tfspec \<Rightarrow> u64 \<Rightarrow> nat" where
  "exp_field sp a = fabs_bits sp a div 2 ^ frac_bits sp"

definition sig_field :: "tfspec \<Rightarrow> u64 \<Rightarrow> nat" where
  "sig_field sp a = 2 ^ frac_bits sp + fabs_bits sp a mod 2 ^ frac_bits sp"

lemma normal_fields:
  assumes "normal_pattern sp a"
  shows "1 \<le> exp_field sp a" "exp_field sp a + 2 \<le> 2 ^ exp_bits sp"
    and "2 ^ frac_bits sp \<le> sig_field sp a" "sig_field sp a < 2 ^ (frac_bits sp + 1)"
    and "pattern_mag (frac_bits sp) (fabs_bits sp a) = sig_field sp a * 2 ^ (exp_field sp a - 1)"
proof -
  show e: "1 \<le> exp_field sp a" using assms by (simp add: normal_pattern_def exp_field_def less_eq_div_iff_mult_less_eq)
  have "exp_field sp a < 2 ^ exp_bits sp - 1"
    using assms by (simp add: normal_pattern_def exp_field_def infinity_bits_def less_mult_imp_div_less)
  then show "exp_field sp a + 2 \<le> 2 ^ exp_bits sp" by simp
  show "2 ^ frac_bits sp \<le> sig_field sp a" "sig_field sp a < 2 ^ (frac_bits sp + 1)" by (simp_all add: sig_field_def)
  show "pattern_mag (frac_bits sp) (fabs_bits sp a) = sig_field sp a * 2 ^ (exp_field sp a - 1)"
    using e by (simp add: pattern_mag_def fmag_def exp_field_def sig_field_def)
qed

text \<open>The pattern with a given sign, exponent and fraction.\<close>

definition pattern_bits :: "tfspec \<Rightarrow> bool \<Rightarrow> nat \<Rightarrow> nat \<Rightarrow> nat" where
  "pattern_bits sp s e f = of_bool s * 2 ^ (exp_bits sp + frac_bits sp) + (e * 2 ^ frac_bits sp + f)"

lemma pattern_of_fields:
  assumes "pattern_of sp a" "sign_spec sp = - 1"
  shows "unat a = pattern_bits sp (fsign sp a) (exp_field sp a) (fabs_bits sp a mod 2 ^ frac_bits sp)"
    and "unat (drop_bit (exp_bits sp + frac_bits sp) a) = of_bool (fsign sp a)"
proof -
  let ?n = "exp_bits sp + frac_bits sp"
  have "unat a div 2 ^ ?n < 2" using assms by (simp add: pattern_of_def div_less_iff_less_mult mult.commute)
  then show d: "unat (drop_bit ?n a) = of_bool (fsign sp a)"
    using assms(2) by (auto simp: fsign_def extractFloatSign_def word_eq_0_iff_unat unat_drop_bit_div)
  then have "unat a = of_bool (fsign sp a) * 2 ^ ?n + fabs_bits sp a"
    using div_mult_mod_eq [of "unat a" "2 ^ ?n"] by (simp add: fabs_bits_def unat_drop_bit_div)
  then show "unat a = pattern_bits sp (fsign sp a) (exp_field sp a) (fabs_bits sp a mod 2 ^ frac_bits sp)"
    by (simp only: pattern_bits_def exp_field_def div_mult_mod_eq)
qed

lemma pattern_bits_fields:
  assumes u: "unat a = pattern_bits sp s e f" and "e < 2 ^ exp_bits sp" "f < 2 ^ frac_bits sp" "sign_spec sp = - 1"
  shows "pattern_of sp a" "fsign sp a = s" "fabs_bits sp a = e * 2 ^ frac_bits sp + f"
    "exp_field sp a = e" "fabs_bits sp a mod 2 ^ frac_bits sp = f"
proof -
  let ?n = "exp_bits sp + frac_bits sp"
  have "(e + 1) * 2 ^ frac_bits sp \<le> 2 ^ exp_bits sp * 2 ^ frac_bits sp" using assms by (intro mult_le_mono1) simp
  then have m: "e * 2 ^ frac_bits sp + f < 2 ^ ?n" using assms by (simp add: power_add)
  show "pattern_of sp a" using m assms by (cases s) (auto simp: pattern_of_def pattern_bits_def)
  have d: "unat a div 2 ^ ?n = of_bool s" "unat a mod 2 ^ ?n = e * 2 ^ frac_bits sp + f"
    using m u by (cases s; simp add: pattern_bits_def)+
  show "fsign sp a = s" using d(1) assms(4) by (simp add: fsign_def extractFloatSign_def word_eq_0_iff_unat unat_drop_bit_div)
  show f: "fabs_bits sp a = e * 2 ^ frac_bits sp + f" using d(2) by (simp add: fabs_bits_def)
  show "exp_field sp a = e" "fabs_bits sp a mod 2 ^ frac_bits sp = f" using f assms(3) by (simp_all add: exp_field_def)
qed

lemma mul_class_normal:
  assumes "exc_mode sp = FLOAT_EXC_STD" "unat e \<noteq> 0" "unat e < 2 ^ exp_bits sp - 1" "exp_bits sp \<le> 63"
  shows "mul_class e f sp = (FP_CLS_NORMAL, True)"
proof -
  have "e \<noteq> ones (exp_bits sp)" using assms(3,4) unat_ones [of "exp_bits sp", where 'a = 64] by auto
  moreover have "e \<noteq> 0" using assms(2) by auto
  ultimately show ?thesis using assms(1) unfolding mul_class_def Let_def by (simp add: cls_defs cls_select_def)
qed

lemma hidden_bit:
  assumes "unat f < 2 ^ fb" "fb \<le> 62"
  shows "unat (f OR push_bit fb (of_bool True) :: u64) = 2 ^ fb + unat f"
proof -
  have "(2 :: nat) ^ fb \<le> 2 ^ 62" using assms by (intro power_increasing) auto
  then show ?thesis using assms unat_push_or [of f fb 1] by (simp add: or.commute)
qed

lemma ucast_of_int: "(ucast (w :: u64) :: u32) = of_int (int (unat w))"
  by (simp add: word_unat_eq_iff unat_ucast_mod unat_of_nat)

text \<open>The product of two significands, with its carry \<open>n\<close>, and the rounded product.\<close>

lemma product_bounds:
  fixes A B fb :: nat
  assumes "2 ^ fb \<le> A" "A < 2 ^ (fb + 1)" "2 ^ fb \<le> B" "B < 2 ^ (fb + 1)"
  defines "j \<equiv> fb + of_bool (2 ^ (2 * fb + 1) \<le> A * B)"
  shows "2 ^ (fb + j) \<le> A * B" "A * B < 2 ^ (fb + j + 1)" "2 ^ fb \<le> A * B div 2 ^ j" "A * B div 2 ^ j < 2 ^ (fb + 1)"
    and "2 ^ fb \<le> round_nat mode s (A * B) j" "round_nat mode s (A * B) j \<le> 2 ^ (fb + 1)"
proof -
  have "2 ^ fb * 2 ^ fb \<le> A * B" using assms by (intro mult_le_mono)
  then show lo: "2 ^ (fb + j) \<le> A * B" by (auto simp: j_def power_add mult_2)
  have "A * B < 2 ^ (2 * fb + 2)" using assms by (intro product_less)
  then show hi: "A * B < 2 ^ (fb + j + 1)" by (auto simp: j_def power_add mult_2)
  show q: "2 ^ fb \<le> A * B div 2 ^ j" "A * B div 2 ^ j < 2 ^ (fb + 1)"
    using lo hi by (simp_all add: less_eq_div_iff_mult_less_eq div_less_iff_less_mult power_add ac_simps)
  show "2 ^ fb \<le> round_nat mode s (A * B) j" "round_nat mode s (A * B) j \<le> 2 ^ (fb + 1)"
    using q round_nat_bounds [where mode = mode and s = s and x = "A * B" and n = j] by linarith+
qed

lemma float_mul_normal:
  fixes a b :: u64 and sp :: tfspec
  defines "eb \<equiv> exp_bits sp" and "fb \<equiv> frac_bits sp" and "P \<equiv> sig_field sp a * sig_field sp b"
  defines "n \<equiv> 2 ^ (2 * fb + 1) \<le> P"
  defines "E \<equiv> int (exp_field sp a) + int (exp_field sp b) + exp_bias sp + of_bool n"
  defines "R \<equiv> round_nat float_round_nearest_even False P (fb + of_bool n)"
  assumes f: "mul_format sp" and p: "pattern_of sp a" "pattern_of sp b" "normal_pattern sp a" "normal_pattern sp b"
  shows "unat (float_mul a b sp) = of_bool (fsign sp a \<noteq> fsign sp b) * 2 ^ (eb + fb)
    + (if E < 0 then 0 else min (nat E * 2 ^ fb + R - 2 ^ fb) (infinity_bits sp))"
    and "2 ^ fb \<le> R" "R \<le> 2 ^ (fb + 1)"
proof -
  have F: "rnd_mode sp = FLOAT_RND_NEVN" "exc_mode sp = FLOAT_EXC_STD" "has_one sp" "sign_spec sp = - 1" "2 \<le> eb" "eb \<le> 30"
    "1 \<le> fb" "fb \<le> 61" "eb + fb < 64" "exp_bias sp \<le> 0" "- (2 ^ (eb + 1)) \<le> exp_bias sp + 2"
    using f by (simp_all add: mul_format_def eb_def fb_def)
  have ok: "format_ok sp" using F by (simp add: format_ok_def eb_def fb_def)
  note A = normal_fields [OF p(3), folded eb_def fb_def] and B = normal_fields [OF p(4), folded eb_def fb_def]
  note fa = pattern_fields(1,2) [of a sp, folded eb_def fb_def] and fb' = pattern_fields(1,2) [of b sp, folded eb_def fb_def]
  define w :: u32 where "w = of_int E"
  have cls: "mul_class (extractFloatExp a eb fb) (extractFloatFrac a fb) sp = (FP_CLS_NORMAL, True)"
    "mul_class (extractFloatExp b eb fb) (extractFloatFrac b fb) sp = (FP_CLS_NORMAL, True)"
    using A(1,2) B(1,2) F(2,6) fa(1) fb'(1) by (intro mul_class_normal; simp add: exp_field_def eb_def fb_def)+
  have zc: "mul_class_result FP_CLS_NORMAL FP_CLS_NORMAL FLOAT_EXC_STD = FP_CLS_NORMAL"
    by (simp add: mul_class_result_def cls_defs exc_defs)
  define sa sb where "sa = extractFloatFrac a fb OR push_bit fb (of_bool True)" and "sb = extractFloatFrac b fb OR push_bit fb (of_bool True)"
  have S: "unat sa = sig_field sp a" "unat sb = sig_field sp b"
    unfolding sa_def sb_def using F(8) fa(2) fb'(2) by (subst hidden_bit; simp add: sig_field_def fb_def)+
  obtain g r where M: "mul_significand sa sb fb = (n, g, r)" and g: "unat g = P div 2 ^ (fb + of_bool n) mod 2 ^ fb"
    and r: "P div 2 ^ (fb + of_bool n) + of_bool r = R"
    using mul_significand_eq [of fb sa sb False] F(7,8) S A(4) B(4) unfolding P_def [symmetric] n_def [symmetric] R_def S by auto
  have ex: "ucast (extractFloatExp a eb fb) + ucast (extractFloatExp b eb fb) + of_int (exp_bias sp) + of_bool n = w"
    unfolding w_def E_def ucast_of_int fa(1) fb'(1) by (simp add: exp_field_def fb_def)
  have M2: "float_mul a b sp = (case mul_pack w g r eb fb FLOAT_RND_NEVN of (p, ov) \<Rightarrow>
      mul_result (fsign sp a \<noteq> fsign sp b) FP_CLS_NORMAL p ov sp)"
    unfolding float_mul_def Let_def eb_def [symmetric] fb_def [symmetric] cls prod.case F(1-4) zc simp_thms
      sa_def [symmetric, unfolded of_bool_eq] sb_def [symmetric, unfolded of_bool_eq]
    using M ex F(3,4) by (simp add: fsign_def eb_def fb_def sa_def sb_def)
  note q = product_bounds [OF A(3,4) B(3,4), folded P_def, folded n_def]
  show R: "2 ^ fb \<le> R" "R \<le> 2 ^ (fb + 1)" unfolding R_def by (rule q)+
  have "unat g = P div 2 ^ (fb + of_bool n) - 2 ^ fb" unfolding g using q(3,4) by (simp add: mod_nat_eqI)
  then have gr: "unat g + of_bool r = R - 2 ^ fb" using q(3) r by simp
  show "unat (float_mul a b sp) = of_bool (fsign sp a \<noteq> fsign sp b) * 2 ^ (eb + fb)
    + (if E < 0 then 0 else min (nat E * 2 ^ fb + R - 2 ^ fb) (infinity_bits sp))"
  proof (cases "E < 0")
    case True
    have "- (2 ^ (eb + 1)) \<le> E" using F(11) A(1) B(1) by (simp add: E_def)
    then have "snd (mul_pack w g r eb fb FLOAT_RND_NEVN) \<or> fst (mul_pack w g r eb fb FLOAT_RND_NEVN) = 0"
      using True F(6,9) by (intro mul_pack_neg [OF w_def]) simp_all
    then have "float_mul a b sp = push_bit (eb + fb) (of_bool (fsign sp a \<noteq> fsign sp b))"
      unfolding M2 case_prod_beta eb_def fb_def using F(2,5,6) by (intro mul_result_ovf) (simp_all add: eb_def)
    then show ?thesis using True F(9) by (cases "fsign sp a \<noteq> fsign sp b") (simp_all add: unat_push_1 del: push_bit_of_1)
  next
    case False
    have "int (exp_field sp a + 2) \<le> int (2 ^ eb)" "int (exp_field sp b + 2) \<le> int (2 ^ eb)" using A(2) B(2) by (simp_all only: of_nat_le_iff)
    then have E3: "E + 3 \<le> 2 ^ (eb + 1)" using F(10) by (simp add: E_def)
    then have "int (nat E + 3) \<le> int (2 ^ (eb + 1))" using False by simp
    then have Eb: "nat E + 3 \<le> 2 ^ (eb + 1)" by (simp only: of_nat_le_iff)
    have "(2 :: nat) ^ (eb + 1) \<le> 2 ^ 31" using F(6) by (intro power_increasing) auto
    moreover have "w = of_nat (nat E)" using False by (simp add: w_def)
    ultimately have w: "unat w = nat E" using Eb by (simp add: unat_of_nat)
    have "(nat E + 1) * 2 ^ fb < 2 ^ (eb + 1) * 2 ^ fb" using Eb by (intro mult_strict_right_mono) simp_all
    moreover have "unat g + of_bool r \<le> 2 ^ fb" using gr R by simp
    ultimately have X: "nat E * 2 ^ fb + unat g + of_bool r < 2 ^ (eb + fb + 1)" by (simp add: power_add mult.assoc)
    obtain p where M3: "mul_pack w g r eb fb FLOAT_RND_NEVN = (p, False)" and up: "unat p = nat E * 2 ^ fb + unat g + of_bool r"
      using mul_pack_nonneg [of w eb fb g r] w Eb F(9) g X by auto
    have "nat E * 2 ^ fb + unat g + of_bool r = nat E * 2 ^ fb + R - 2 ^ fb" using gr R by simp
    then show ?thesis unfolding M2 M3 prod.case
      using mul_result_finite [of sp p "fsign sp a \<noteq> fsign sp b"] F X up False unfolding eb_def fb_def by simp
  qed
qed

lemma nearest_pattern_scaled:
  assumes "2 ^ (fb + j) \<le> P" "P < 2 ^ (fb + j + 1)"
  shows "nearest_pattern fb (P * 2 ^ t) = (j + t) * 2 ^ fb + round_nat float_round_nearest_even False P j"
proof -
  have "2 ^ (fb + (j + t)) \<le> P * 2 ^ t" "P * 2 ^ t < 2 ^ (fb + (j + t) + 1)"
    using mult_le_mono1 [OF assms(1), of "2 ^ t"] mult_strict_right_mono [OF assms(2), of "2 ^ t"] by (simp_all add: power_add)
  then have "floorlog 2 (P * 2 ^ t) - 1 - fb = j + t" by (rule floorlog_exponent)
  then show ?thesis by (simp only: nearest_pattern_def Let_def round_nat_scale)
qed

text \<open>The product of two normal patterns in the units of its factors, rounded: \<open>k\<close> is the number of
  places by which the unit of the product is smaller than that of the format.\<close>

lemma rounded_product:
  fixes a b :: u64 and sp :: tfspec
  defines "fb \<equiv> frac_bits sp" and "P \<equiv> sig_field sp a * sig_field sp b"
  defines "n \<equiv> 2 ^ (2 * fb + 1) \<le> P"
  defines "E \<equiv> int (exp_field sp a) + int (exp_field sp b) + exp_bias sp + of_bool n"
  defines "R \<equiv> round_nat float_round_nearest_even False P (fb + of_bool n)"
  assumes p: "normal_pattern sp a" "normal_pattern sp b" and k: "int k = int fb - 1 - exp_bias sp"
  shows "\<exists>m. rounded_int float_round_nearest_even fb (fint sp a * fint sp b)
      = (if fsign sp a \<noteq> fsign sp b then - 1 else 1) * int (R * 2 ^ m) \<and> int m = E - 1 + int k"
proof -
  note A = normal_fields [OF p(1), folded fb_def] and B = normal_fields [OF p(2), folded fb_def]
  let ?t = "exp_field sp a + exp_field sp b - 2" and ?m = "fb + of_bool n + (exp_field sp a + exp_field sp b - 2)"
  define X where "X = fint sp a * fint sp b"
  note q = product_bounds [OF A(3,4) B(3,4), folded P_def, folded n_def]
  have "2 ^ (exp_field sp a - 1) * 2 ^ (exp_field sp b - 1) = (2 :: nat) ^ ?t" unfolding power_add [symmetric] using A(1) B(1) by simp
  then have m: "pattern_mag fb (fabs_bits sp a) * pattern_mag fb (fabs_bits sp b) = P * 2 ^ ?t"
    unfolding A(5) B(5) P_def by (simp add: ac_simps)
  have X: "X = (if fsign sp a \<noteq> fsign sp b then - 1 else 1) * int (P * 2 ^ ?t)"
    unfolding X_def fint_def fb_def [symmetric] m [symmetric] by simp
  have P0: "0 < P" using q(1) by (metis gr0I not_le zero_less_power zero_less_numeral)
  have "nat \<bar>X\<bar> = P * 2 ^ ?t" unfolding X by (simp add: nat_mult_distrib abs_mult nat_power_eq)
  then have "rounded_int float_round_nearest_even fb X = sgn X * int (R * 2 ^ ?m)"
    unfolding rounded_nearest_abs [of _ X] nearest_pattern_mag [symmetric] R_def
    using nearest_pattern_scaled [OF q(1,2), of ?t] pattern_mag_add [of R fb ?m] q(5,6) unfolding R_def by simp
  moreover have "sgn X = (if fsign sp a \<noteq> fsign sp b then - 1 else 1)" unfolding X using P0 by (simp add: sgn_mult)
  moreover have "int ?m = E - 1 + int k" using k A(1) B(1) by (simp add: E_def)
  ultimately show ?thesis unfolding X_def by (intro exI [of _ ?m] conjI) (simp_all only:)
qed

lemma powi_double: "(2 :: real) powi (2 * e) = 2 powi e * 2 powi e"
proof -
  have "2 * e = e + e" by simp
  then show ?thesis by (metis power_int_add zero_neq_numeral)
qed

lemma powi_shift: "x = int n + y \<Longrightarrow> (2 :: real) powi x = 2 ^ n * 2 powi y"
  by (simp only: power_int_add power_int_of_nat zero_neq_numeral [symmetric] simp_thms)

lemma powi_split:
  fixes m n :: nat and x y :: int
  assumes "x = int m + int n + y"
  shows "(2 :: real) powi x = 2 ^ m * 2 ^ n * 2 powi y"
proof -
  have "(2 :: real) powi (int m + int n + y) = 2 powi (int m + int n) * 2 powi y"
    by (rule power_int_add) simp
  also have "\<dots> = 2 powi (int m) * 2 powi (int n) * 2 powi y" by (subst power_int_add) simp_all
  finally show ?thesis unfolding assms by (simp only: power_int_of_nat)
qed

lemma fval_unit:
  assumes "int k = int (frac_bits sp) - 1 - exp_bias sp"
  shows "fval sp r = of_int (fint sp r * 2 ^ k) * 2 powi (2 * (exp_bias sp + 1 - int (frac_bits sp)))"
proof -
  let ?u = "exp_bias sp + 1 - int (frac_bits sp)"
  have u: "?u = - int k" using assms by simp
  have "(2 :: real) ^ k * 2 powi ?u = 2 powi (int k) * 2 powi (- int k)" unfolding u by (simp only: power_int_of_nat)
  also have "\<dots> = 1" by (simp add: power_int_minus)
  finally have k: "(2 :: real) ^ k * 2 powi ?u = 1" .
  then show ?thesis unfolding powi_double fval_def by (simp add: mult.assoc)
qed

text \<open>The pattern of a rounded product: \<open>Q\<close> is its significand and \<open>E\<close> its exponent.\<close>

lemma product_pattern:
  fixes Q fb m k :: nat and E :: int
  defines "x \<equiv> nat E * 2 ^ fb + Q - 2 ^ fb"
  assumes Q: "2 ^ fb \<le> Q" "Q \<le> 2 ^ (fb + 1)" and m: "int m = E - 1 + int k"
  shows "1 \<le> E \<or> E = 0 \<and> Q = 2 ^ (fb + 1) \<Longrightarrow> pattern_mag fb x * 2 ^ k = Q * 2 ^ m"
    and "1 \<le> E \<or> E = 0 \<and> Q = 2 ^ (fb + 1) \<Longrightarrow> 2 ^ fb \<le> pattern_mag fb x"
    and "\<not> (1 \<le> E \<or> E = 0 \<and> Q = 2 ^ (fb + 1)) \<Longrightarrow> Q * 2 ^ m < 2 ^ (fb + k)"
proof -
  have "pattern_mag fb x * 2 ^ k = Q * 2 ^ m \<and> 2 ^ fb \<le> pattern_mag fb x" if "1 \<le> E \<or> E = 0 \<and> Q = 2 ^ (fb + 1)"
  proof (cases "1 \<le> E")
    case True
    define e where "e = nat (E - 1)"
    then have "x = e * 2 ^ fb + Q" "m = e + k" using m True by (simp_all add: x_def nat_diff_distrib' algebra_simps)
    then show ?thesis using pattern_mag_add [of Q fb e] Q by (simp add: power_add le_trans [OF Q(1)])
  next
    case False
    then have "x = 0 * 2 ^ fb + 2 ^ fb" "Suc m = k" "Q = 2 ^ (fb + 1)" using m that by (simp_all add: x_def)
    then show ?thesis using pattern_mag_add [of "2 ^ fb" fb 0] by (auto simp: power_add)
  qed
  then show "1 \<le> E \<or> E = 0 \<and> Q = 2 ^ (fb + 1) \<Longrightarrow> pattern_mag fb x * 2 ^ k = Q * 2 ^ m"
    and "1 \<le> E \<or> E = 0 \<and> Q = 2 ^ (fb + 1) \<Longrightarrow> 2 ^ fb \<le> pattern_mag fb x" by blast+
  show "Q * 2 ^ m < 2 ^ (fb + k)" if "\<not> (1 \<le> E \<or> E = 0 \<and> Q = 2 ^ (fb + 1))"
  proof (cases "E = 0")
    case True
    then have "Q < 2 ^ (fb + 1)" "Suc m = k" using that Q(2) m by auto
    then show ?thesis by (auto simp: power_add)
  next
    case False
    then have "Suc (Suc m) \<le> k" using that m by auto
    then have "(2 :: nat) ^ (fb + 1 + m) < 2 ^ (fb + k)" by (intro power_strict_increasing) auto
    moreover have "Q * 2 ^ m \<le> 2 ^ (fb + 1) * 2 ^ m" using Q(2) by (rule mult_le_mono1)
    ultimately show ?thesis unfolding power_add [symmetric] by linarith
  qed
qed

text \<open>
  C12. Multiplication of normal numbers is correctly rounded: in every format with round to nearest and
  IEEE exceptions the result has the sign of the product and is the exact product, rounded once
  to the nearest number of the format, ties to even; infinity when the rounded product is beyond
  the range. When it is below the smallest normal number the exponent field of the result is
  zero, and nothing more holds (see \<open>multiplication_subnormal\<close>). Here \<open>X\<close> is the product in units
  \<open>u\<close>, the square of the unit of the format, and \<open>2 ^ k\<close> is the ratio of the two units.
\<close>

theorem float_mul_correct:
  fixes a b :: u64 and sp :: tfspec
  defines "X \<equiv> fint sp a * fint sp b" and "r \<equiv> float_mul a b sp"
  defines "R \<equiv> rounded_int float_round_nearest_even (frac_bits sp) X"
  defines "u \<equiv> 2 powi (2 * (exp_bias sp + 1 - int (frac_bits sp))) :: real"
  assumes f: "mul_format sp" and p: "pattern_of sp a" "pattern_of sp b" "normal_pattern sp a" "normal_pattern sp b"
    and k: "int k = int (frac_bits sp) - 1 - exp_bias sp"
  shows "fval sp a * fval sp b = of_int X * u
    \<and> pattern_of sp r \<and> fsign sp r = (fsign sp a \<noteq> fsign sp b)
    \<and> (if \<bar>R\<bar> < 2 ^ (frac_bits sp + k) then fabs_bits sp r < 2 ^ frac_bits sp
       else if \<bar>R\<bar> < 2 ^ (frac_bits sp + 2 ^ exp_bits sp - 2 + k) then finite_pattern sp r \<and> fval sp r = of_int R * u
       else fabs_bits sp r = infinity_bits sp)"
proof -
  let ?eb = "exp_bits sp" and ?fb = "frac_bits sp" and ?I = "infinity_bits sp"
  define s where "s \<longleftrightarrow> fsign sp a \<noteq> fsign sp b"
  define P where "P = sig_field sp a * sig_field sp b"
  define n where "n \<longleftrightarrow> 2 ^ (2 * ?fb + 1) \<le> P"
  define E where "E = int (exp_field sp a) + int (exp_field sp b) + exp_bias sp + of_bool n"
  define Q where "Q = round_nat float_round_nearest_even False P (?fb + of_bool n)"
  define Y where "Y = (if E < 0 then 0 else min (nat E * 2 ^ ?fb + Q - 2 ^ ?fb) ?I)"
  note N = float_mul_normal [OF f p, folded P_def, folded n_def, folded E_def Q_def, folded s_def r_def, folded Y_def]
  obtain m where m: "R = (if s then - 1 else 1) * int (Q * 2 ^ m)" "int m = E - 1 + int k"
    using rounded_product [OF p(3,4) k] unfolding R_def X_def Q_def E_def n_def P_def s_def by blast
  have e2: "2 \<le> ?eb" and sg: "sign_spec sp = - 1" using f by (simp_all add: mul_format_def)
  have "?I < 2 ^ ?eb * 2 ^ ?fb" unfolding infinity_bits_def by (intro mult_strict_right_mono) simp_all
  then have Y: "Y < 2 ^ (?eb + ?fb)" by (auto simp: Y_def power_add min_less_iff_disj)
  have pat: "pattern_of sp r" using N(1) Y sg by (cases s) (auto simp: pattern_of_def)
  have d: "unat r div 2 ^ (?eb + ?fb) = of_bool s" "fabs_bits sp r = Y" unfolding fabs_bits_def N(1) using Y by (cases s; simp)+
  have sr: "fsign sp r = s" using sg d(1) by (simp add: fsign_def extractFloatSign_def word_eq_0_iff_unat unat_drop_bit_div)
  have val: "fval sp a * fval sp b = of_int X * u"
    unfolding u_def X_def fval_def powi_double by simp
  have aR: "\<bar>R\<bar> = int (Q * 2 ^ m)" by (simp add: m(1) abs_mult)
  have exact: "fval sp r = of_int R * u" if "pattern_mag ?fb Y * 2 ^ k = Q * 2 ^ m"
  proof -
    have "fint sp r * 2 ^ k = (if s then - 1 else 1) * int (pattern_mag ?fb Y * 2 ^ k)" by (simp add: fint_def sr d(2))
    then have "fint sp r * 2 ^ k = R" unfolding that m(1) .
    then show ?thesis unfolding u_def by (subst fval_unit [OF k]) simp
  qed
  have mI: "pattern_mag ?fb ?I = 2 ^ (?fb + 2 ^ ?eb - 2)" unfolding infinity_bits_def using pattern_mag_infinity [of ?eb ?fb] e2 by simp
  show ?thesis
  proof (cases "1 \<le> E \<or> E = 0 \<and> Q = 2 ^ (?fb + 1)")
    case True
    define x where "x = nat E * 2 ^ ?fb + Q - 2 ^ ?fb"
    note mx = product_pattern(1,2) [OF N(2,3) m(2) True, folded x_def]
    have Yx: "Y = min x ?I" using True by (auto simp: Y_def x_def)
    have lo: "\<not> \<bar>R\<bar> < 2 ^ (?fb + k)"
    proof -
      have "2 ^ ?fb * 2 ^ k \<le> Q * 2 ^ m" using mx by (metis mult_le_mono1)
      then have "(2 :: nat) ^ (?fb + k) \<le> Q * 2 ^ m" by (simp only: power_add)
      then have "int (2 ^ (?fb + k)) \<le> int (Q * 2 ^ m)" by (simp only: of_nat_le_iff)
      then show ?thesis unfolding aR by simp
    qed
    have "\<bar>R\<bar> < 2 ^ (?fb + 2 ^ ?eb - 2 + k) \<longleftrightarrow> int (pattern_mag ?fb x * 2 ^ k) < int (2 ^ (?fb + 2 ^ ?eb - 2) * 2 ^ k)"
      unfolding aR mx(1) by (simp add: power_add)
    also have "\<dots> \<longleftrightarrow> pattern_mag ?fb x < pattern_mag ?fb ?I" unfolding mI of_nat_less_iff by simp
    also have "\<dots> \<longleftrightarrow> x < ?I" by (rule pattern_mag_less_iff)
    finally have hi: "\<bar>R\<bar> < 2 ^ (?fb + 2 ^ ?eb - 2 + k) \<longleftrightarrow> x < ?I" .
    have "fval sp r = of_int R * u" if "x < ?I" using exact that mx(1) by (simp add: Yx)
    then show ?thesis using val pat sr lo hi d(2) by (auto simp: Yx finite_pattern_def s_def)
  next
    case False
    have "Y < 2 ^ ?fb"
    proof (cases "E < 0")
      case f: False
      then have "Q - 2 ^ ?fb < 2 ^ ?fb" "nat E = 0" using False N(2,3) by auto
      then show ?thesis by (auto simp: Y_def)
    qed (simp add: Y_def)
    moreover have "Q * 2 ^ m < 2 ^ (?fb + k)" by (rule product_pattern(3) [OF N(2,3) m(2) False])
    then have "int (Q * 2 ^ m) < int (2 ^ (?fb + k))" by (simp only: of_nat_less_iff)
    then have "\<bar>R\<bar> < 2 ^ (?fb + k)" unfolding aR by simp
    ultimately show ?thesis using val pat sr d(2) by (simp add: s_def)
  qed
qed

theorem float_mul_correct_witness:
  "fval IEEE16_SPEC_ARGS (float_mul 0x3C01 0x3C01 IEEE16_SPEC_ARGS) = of_int (2 ^ 48 + 2 ^ 39) * 2 powi (- 48)
   \<and> fabs_bits IEEE16_SPEC_ARGS (float_mul 0x7800 0x4000 IEEE16_SPEC_ARGS) = infinity_bits IEEE16_SPEC_ARGS"
proof -
  have k: "frac_bits IEEE16_SPEC_ARGS = 10" "exp_bits IEEE16_SPEC_ARGS = 5" "sign_spec IEEE16_SPEC_ARGS = - 1" "exp_bias IEEE16_SPEC_ARGS = - 15"
    by (simp_all add: IEEE16_SPEC_ARGS_def)
  have v: "fint IEEE16_SPEC_ARGS 0x3C01 = 1025 * 2 ^ 14" "fint IEEE16_SPEC_ARGS 0x7800 = 2 ^ 39" "fint IEEE16_SPEC_ARGS 0x4000 = 2 ^ 25"
    by (simp_all add: fint_def fsign_def fabs_bits_def k pattern_mag_def fmag_def extractFloatSign_def)
  have p: "pattern_of IEEE16_SPEC_ARGS x \<and> normal_pattern IEEE16_SPEC_ARGS x" if "x \<in> {0x3C01, 0x7800, 0x4000}" for x
    using that by (auto simp: pattern_of_def normal_pattern_def fabs_bits_def infinity_bits_def k)
  have l: "floorlog 2 282025000960000 = 49" "floorlog 2 18446744073709551616 = 65"
    by (intro antisym floorlog_leI floorlog_geI; simp)+
  have R: "rounded_int float_round_nearest_even 10 (1025 * 2 ^ 14 * (1025 * 2 ^ 14)) = 2 ^ 48 + 2 ^ 39"
    "rounded_int float_round_nearest_even 10 (2 ^ 39 * 2 ^ 25) = 2 ^ 64"
    by (simp_all add: rounded_int_def round_nat_def Let_def l)
  have "fval IEEE16_SPEC_ARGS (float_mul 0x3C01 0x3C01 IEEE16_SPEC_ARGS) = of_int (2 ^ 48 + 2 ^ 39) * 2 powi (- 48)"
    using float_mul_correct [OF ieee_mul_formats(1), of "0x3C01" "0x3C01" 24] p unfolding k v R by simp
  moreover have "fabs_bits IEEE16_SPEC_ARGS (float_mul 0x7800 0x4000 IEEE16_SPEC_ARGS) = infinity_bits IEEE16_SPEC_ARGS"
    using float_mul_correct [OF ieee_mul_formats(1), of "0x7800" "0x4000" 24] p unfolding k v R by simp
  ultimately show ?thesis by blast
qed

section \<open>Zeros, infinities and NaNs\<close>

definition nan_pattern :: "tfspec \<Rightarrow> u64 \<Rightarrow> bool" where
  "nan_pattern sp a \<longleftrightarrow> infinity_bits sp < fabs_bits sp a"

definition inf_pattern :: "tfspec \<Rightarrow> u64 \<Rightarrow> bool" where
  "inf_pattern sp a \<longleftrightarrow> fabs_bits sp a = infinity_bits sp"

definition zero_pattern :: "tfspec \<Rightarrow> u64 \<Rightarrow> bool" where
  "zero_pattern sp a \<longleftrightarrow> (if has_subnorm sp then fabs_bits sp a = 0 else fabs_bits sp a < 2 ^ frac_bits sp)"

text \<open>The classes of patterns by their fields.\<close>

lemma pattern_classes:
  fixes a :: u64 and sp :: tfspec
  defines "e \<equiv> extractFloatExp a (exp_bits sp) (frac_bits sp)" and "x \<equiv> extractFloatFrac a (frac_bits sp)"
  assumes f: "1 \<le> exp_bits sp" "exp_bits sp + frac_bits sp < 64"
  shows "nan_pattern sp a \<longleftrightarrow> e = ones (exp_bits sp) \<and> x \<noteq> 0" "inf_pattern sp a \<longleftrightarrow> e = ones (exp_bits sp) \<and> x = 0"
    and "zero_pattern sp a \<longleftrightarrow> e = 0 \<and> (x = 0 \<or> \<not> has_subnorm sp)" "ones (exp_bits sp) \<noteq> (0 :: u64)"
proof -
  let ?eb = "exp_bits sp" and ?fb = "frac_bits sp"
  define m where "m = fabs_bits sp a"
  define k where "k = m div 2 ^ ?fb"
  note F = pattern_fields(1,2) [of a sp, folded m_def e_def x_def, folded k_def]
  have m: "m = k * 2 ^ ?fb + m mod 2 ^ ?fb" by (simp only: k_def div_mult_mod_eq)
  have "m < 2 ^ ?eb * 2 ^ ?fb" by (simp add: m_def fabs_bits_def power_add)
  then have k: "k < 2 ^ ?eb" by (simp add: k_def div_less_iff_less_mult)
  have one: "(1 :: nat) < 2 ^ ?eb" using power_increasing [OF f(1), of "2 :: nat"] by simp
  have on: "unat (ones ?eb :: u64) = 2 ^ ?eb - 1" using f(2) by (intro unat_ones) simp
  show "ones ?eb \<noteq> (0 :: u64)" using on one by (auto simp: word_eq_0_iff_unat simp del: push_bit_of_1)
  have x: "e = ones ?eb \<longleftrightarrow> k = 2 ^ ?eb - 1" by (simp only: word_unat_eq_iff on F)
  have z: "e = 0 \<longleftrightarrow> k = 0" "x = 0 \<longleftrightarrow> m mod 2 ^ ?fb = 0" by (simp_all only: word_eq_0_iff_unat F)
  have I: "infinity_bits sp = (2 ^ ?eb - 1) * 2 ^ ?fb" by (simp add: infinity_bits_def)
  show inf: "inf_pattern sp a \<longleftrightarrow> e = ones ?eb \<and> x = 0"
    unfolding inf_pattern_def I m_def [symmetric] x z by (auto simp: k_def)
  have "(2 ^ ?eb - 1) * 2 ^ ?fb \<le> m \<longleftrightarrow> 2 ^ ?eb - 1 \<le> k" by (simp add: k_def less_eq_div_iff_mult_less_eq)
  then have "(2 ^ ?eb - 1) * 2 ^ ?fb \<le> m \<longleftrightarrow> k = 2 ^ ?eb - 1" using k by auto
  then show "nan_pattern sp a \<longleftrightarrow> e = ones ?eb \<and> x \<noteq> 0"
    using inf unfolding nan_pattern_def inf_pattern_def I m_def [symmetric] x by (auto simp: le_less)
  show "zero_pattern sp a \<longleftrightarrow> e = 0 \<and> (x = 0 \<or> \<not> has_subnorm sp)"
    unfolding zero_pattern_def m_def [symmetric] z by (auto simp: k_def div_eq_0_iff)
qed

lemma mul_class_eq:
  fixes a :: u64 and sp :: tfspec
  assumes f: "exc_mode sp = FLOAT_EXC_STD" "1 \<le> exp_bits sp" "exp_bits sp + frac_bits sp < 64"
  shows "fst (mul_class (extractFloatExp a (exp_bits sp) (frac_bits sp)) (extractFloatFrac a (frac_bits sp)) sp) =
    (if nan_pattern sp a then FP_CLS_NAN else if inf_pattern sp a then FP_CLS_INF else if zero_pattern sp a then FP_CLS_ZERO else FP_CLS_NORMAL)"
  unfolding pattern_classes(1-3) [OF f(2,3)] mul_class_def Let_def using f(1) pattern_classes(4) [OF f(2,3)]
  by (auto simp: cls_select_def cls_defs simp del: push_bit_of_1)

text \<open>
  C20. Multiplication of zeros, infinities and NaNs, in every format with IEEE exceptions: with a NaN, or with
  an infinity and a zero, the result is the default NaN; another product with an infinity is the
  infinity of the sign of the product, and another product with a zero the zero of that sign.
  In a format without subnormal numbers every operand with a zero exponent counts as zero.
\<close>

theorem float_mul_special:
  fixes a b :: u64 and sp :: tfspec
  defines "n \<equiv> exp_bits sp + frac_bits sp" and "s \<equiv> fsign sp a \<noteq> fsign sp b" and "r \<equiv> float_mul a b sp"
  assumes f: "exc_mode sp = FLOAT_EXC_STD" "sign_spec sp = - 1" "1 \<le> exp_bits sp" "1 \<le> frac_bits sp" "n < 64"
    and p: "pattern_of sp a" "pattern_of sp b"
  shows "(nan_pattern sp a \<or> nan_pattern sp b \<or> inf_pattern sp a \<and> zero_pattern sp b \<or> zero_pattern sp a \<and> inf_pattern sp b
      \<longrightarrow> r = float_nan (exp_bits sp) (frac_bits sp) (- 1))
    \<and> (inf_pattern sp a \<and> \<not> nan_pattern sp b \<and> \<not> zero_pattern sp b \<or> inf_pattern sp b \<and> \<not> nan_pattern sp a \<and> \<not> zero_pattern sp a
      \<longrightarrow> r = push_bit n (of_bool s) OR push_bit (frac_bits sp) (ones (exp_bits sp)))
    \<and> (zero_pattern sp a \<and> \<not> nan_pattern sp b \<and> \<not> inf_pattern sp b \<or> zero_pattern sp b \<and> \<not> nan_pattern sp a \<and> \<not> inf_pattern sp a
      \<longrightarrow> r = push_bit n (of_bool s))"
proof -
  note c = mul_class_eq [OF f(1,3) f(5) [unfolded n_def], of a] mul_class_eq [OF f(1,3) f(5) [unfolded n_def], of b]
  obtain ca na where ca: "mul_class (extractFloatExp a (exp_bits sp) (frac_bits sp)) (extractFloatFrac a (frac_bits sp)) sp = (ca, na)" by fastforce
  obtain cb nb where cb: "mul_class (extractFloatExp b (exp_bits sp) (frac_bits sp)) (extractFloatFrac b (frac_bits sp)) sp = (cb, nb)" by fastforce
  define z where "z = mul_class_result ca cb FLOAT_EXC_STD"
  obtain y ov where r: "r = mul_result s z y ov sp"
  proof -
    have "\<exists>y ov. r = mul_result s z y ov sp"
      unfolding r_def float_mul_def Let_def ca cb prod.case f(1,2) z_def s_def fsign_def case_prod_beta by auto
    then show ?thesis using that by blast
  qed
  have cls: "ca = (if nan_pattern sp a then FP_CLS_NAN else if inf_pattern sp a then FP_CLS_INF else if zero_pattern sp a then FP_CLS_ZERO else FP_CLS_NORMAL)"
    "cb = (if nan_pattern sp b then FP_CLS_NAN else if inf_pattern sp b then FP_CLS_INF else if zero_pattern sp b then FP_CLS_ZERO else FP_CLS_NORMAL)"
    using c f(5) ca cb by (simp_all add: n_def)
  have one: "1 \<le> (2 :: nat) ^ exp_bits sp - 1" using power_increasing [OF f(3), of "2 :: nat"] by simp
  have "2 ^ frac_bits sp \<le> infinity_bits sp" using mult_le_mono1 [OF one, of "2 ^ frac_bits sp"] by (simp add: infinity_bits_def)
  moreover have "0 < infinity_bits sp" using one by (simp add: infinity_bits_def)
  ultimately have ex: "\<not> (nan_pattern sp x \<and> zero_pattern sp x)" "\<not> (inf_pattern sp x \<and> zero_pattern sp x)" "\<not> (nan_pattern sp x \<and> inf_pattern sp x)" for x
    by (auto simp: nan_pattern_def inf_pattern_def zero_pattern_def split: if_splits)
  have table: "mul_class_result x y FLOAT_EXC_STD =
      (if x = FP_CLS_NAN \<or> y = FP_CLS_NAN \<or> x = FP_CLS_INF \<and> y = FP_CLS_ZERO \<or> x = FP_CLS_ZERO \<and> y = FP_CLS_INF then FP_CLS_NAN
       else if x = FP_CLS_INF \<or> y = FP_CLS_INF then FP_CLS_INF
       else if x = FP_CLS_ZERO \<or> y = FP_CLS_ZERO then FP_CLS_ZERO else FP_CLS_NORMAL)"
    if "x \<in> {FP_CLS_ZERO, FP_CLS_NORMAL, FP_CLS_INF, FP_CLS_NAN}" "y \<in> {FP_CLS_ZERO, FP_CLS_NORMAL, FP_CLS_INF, FP_CLS_NAN}" for x y
    using that by (auto simp: mul_class_result_def cls_defs exc_defs)
  have res: "mul_result s FP_CLS_NAN y ov sp = float_nan (exp_bits sp) (frac_bits sp) (- 1)"
    "mul_result s FP_CLS_INF y ov sp = push_bit n (of_bool s) OR push_bit (frac_bits sp) (ones (exp_bits sp))"
    "mul_result s FP_CLS_ZERO y ov sp = push_bit n (of_bool s)"
    unfolding mul_result_def Let_def n_def using f(1,2) by (simp_all add: cls_defs)
  have dist: "FP_CLS_ZERO \<noteq> FP_CLS_NORMAL" "FP_CLS_INF \<noteq> FP_CLS_NORMAL" "FP_CLS_NAN \<noteq> FP_CLS_NORMAL" "FP_CLS_INF \<noteq> FP_CLS_ZERO"
    "FP_CLS_NAN \<noteq> FP_CLS_ZERO" "FP_CLS_NAN \<noteq> FP_CLS_INF" by (simp_all add: cls_defs)
  have z: "z = (if ca = FP_CLS_NAN \<or> cb = FP_CLS_NAN \<or> ca = FP_CLS_INF \<and> cb = FP_CLS_ZERO \<or> ca = FP_CLS_ZERO \<and> cb = FP_CLS_INF then FP_CLS_NAN
       else if ca = FP_CLS_INF \<or> cb = FP_CLS_INF then FP_CLS_INF
       else if ca = FP_CLS_ZERO \<or> cb = FP_CLS_ZERO then FP_CLS_ZERO else FP_CLS_NORMAL)"
    unfolding z_def by (rule table) (simp_all add: cls)
  show ?thesis unfolding r z cls using ex [of a] ex [of b] res dist dist [symmetric] by auto
qed

theorem float_mul_special_witness:
  "float_mul 0x7C00 0x8000 IEEE16_SPEC_ARGS = float_nan 5 10 (- 1) \<and> float_mul 0x7C00 0xC000 IEEE16_SPEC_ARGS = 0xFC00
   \<and> float_mul 0x0000 0xC000 IEEE16_SPEC_ARGS = 0x8000"
proof -
  have k: "frac_bits IEEE16_SPEC_ARGS = 10" "exp_bits IEEE16_SPEC_ARGS = 5" "sign_spec IEEE16_SPEC_ARGS = - 1"
    "exc_mode IEEE16_SPEC_ARGS = FLOAT_EXC_STD" "has_subnorm IEEE16_SPEC_ARGS"
    by (simp_all add: IEEE16_SPEC_ARGS_def)
  note d = nan_pattern_def inf_pattern_def zero_pattern_def fabs_bits_def infinity_bits_def pattern_of_def fsign_def extractFloatSign_def k
  show ?thesis
    using float_mul_special [of IEEE16_SPEC_ARGS "0x7C00" "0x8000"] float_mul_special [of IEEE16_SPEC_ARGS "0x7C00" "0xC000"]
      float_mul_special [of IEEE16_SPEC_ARGS "0x0000" "0xC000"] by (simp add: d)
qed

section \<open>Subnormal numbers\<close>

text \<open>
  Multiplication gets subnormal numbers wrong although the formats declare them. A product in the
  subnormal range is not shifted into place: \<open>2\<^sup>-\<^sup>1\<^sup>0\<^sup>0\<close> times \<open>2\<^sup>-\<^sup>2\<^sup>7\<close> is zero instead of \<open>2\<^sup>-\<^sup>1\<^sup>2\<^sup>7\<close>.
  And a subnormal operand is given the hidden bit of a normal one: in single precision twice the least
  number is above the least normal number.
\<close>

theorem multiplication_subnormal:
  "float_mul 0x0D800000 0x32000000 IEEE32_SPEC_ARGS = 0
   \<and> fval IEEE32_SPEC_ARGS 0x0D800000 * fval IEEE32_SPEC_ARGS 0x32000000 = fval IEEE32_SPEC_ARGS 0x00400000
   \<and> float_mul 0x40000000 0x00000001 IEEE32_SPEC_ARGS = 0x00800001
   \<and> fval IEEE32_SPEC_ARGS 0x40000000 * fval IEEE32_SPEC_ARGS 0x00000001 = fval IEEE32_SPEC_ARGS 0x00000002"
proof -
  have k: "frac_bits IEEE32_SPEC_ARGS = 23" "exp_bits IEEE32_SPEC_ARGS = 8" "sign_spec IEEE32_SPEC_ARGS = - 1" "exp_bias IEEE32_SPEC_ARGS = - 127"
    "exc_mode IEEE32_SPEC_ARGS = FLOAT_EXC_STD" "has_subnorm IEEE32_SPEC_ARGS" "has_one IEEE32_SPEC_ARGS" "rnd_mode IEEE32_SPEC_ARGS = FLOAT_RND_NEVN"
    by (simp_all add: IEEE32_SPEC_ARGS_def)
  have v: "fint IEEE32_SPEC_ARGS 0x0D800000 = 2 ^ 49" "fint IEEE32_SPEC_ARGS 0x32000000 = 2 ^ 122" "fint IEEE32_SPEC_ARGS 0x40000000 = 2 ^ 150"
    "fint IEEE32_SPEC_ARGS 0x00400000 = 2 ^ 22" "fint IEEE32_SPEC_ARGS 1 = 1" "fint IEEE32_SPEC_ARGS 2 = 2"
    by (simp_all add: fint_def fsign_def fabs_bits_def k pattern_mag_def fmag_def extractFloatSign_def)
  have o: "ones 23 = (0x7FFFFF :: u64)" "ones 8 = (0xFF :: u64)" "ones 33 = (0x1FFFFFFFF :: u64)" "ones 47 = (0x7FFFFFFFFFFF :: u64)"
    "ones 24 = (0xFFFFFF :: u64)" "ones 31 = (0x7FFFFFFF :: u64)" by simp_all
  have fields: "extractFloatExp 0x0D800000 8 23 = 27" "extractFloatExp 0x32000000 8 23 = 100" "extractFloatExp 0x40000000 8 23 = 128"
    "extractFloatExp 1 8 23 = 0" "extractFloatFrac 0x0D800000 23 = 0" "extractFloatFrac 0x32000000 23 = 0" "extractFloatFrac 0x40000000 23 = 0"
    "extractFloatFrac 1 23 = 1" "\<not> extractFloatSign x 8 23 (- 1)" if "x \<in> {0x0D800000, 0x32000000, 0x40000000, 1}" for x
    using that by (auto simp: extractFloatExp_def extractFloatFrac_def extractFloatSign_def o)
  have c: "mul_class e 0 IEEE32_SPEC_ARGS = (FP_CLS_NORMAL, True)"
    if "e \<in> {27, 100, 128}" for e
    using that by (auto simp: mul_class_def cls_select_def cls_defs k o)
  have c1: "mul_class 0 1 IEEE32_SPEC_ARGS = (FP_CLS_NORMAL, True)"
    by (simp add: mul_class_def cls_select_def cls_defs k o)
  have z: "mul_class_result FP_CLS_NORMAL FP_CLS_NORMAL FLOAT_EXC_STD = FP_CLS_NORMAL"
    by (simp add: mul_class_result_def cls_defs exc_defs)
  have n: "mul_narrow 0x800000 0x800000 23 = (False, 0)" "mul_narrow 0x800000 0x800001 23 = (False, 0x2000000)"
    by (simp_all add: mul_narrow_def o)
  have m: "mul_significand 0x800000 0x800000 23 = (False, 0, False)" "mul_significand 0x800000 0x800001 23 = (False, 1, False)"
    by (simp_all add: mul_significand_def n mul_round_bit_def o)
  have q: "mul_pack 0 0 False 8 23 FLOAT_RND_NEVN = (0, False)" "mul_pack 1 1 False 8 23 FLOAT_RND_NEVN = (0x800001, False)"
    by (simp_all add: mul_pack_def o)
  have r: "mul_result False FP_CLS_NORMAL 0 False IEEE32_SPEC_ARGS = 0"
    "mul_result False FP_CLS_NORMAL 0x800001 False IEEE32_SPEC_ARGS = 0x800001"
    by (simp_all add: mul_result_def cls_defs k o)
  have "float_mul 0x0D800000 0x32000000 IEEE32_SPEC_ARGS = 0"
    using fields [of "0x0D800000"] fields(9) [of "0x32000000"] by (simp add: float_mul_def k c c1 z m q r)
  moreover have "float_mul 0x40000000 0x00000001 IEEE32_SPEC_ARGS = 0x00800001"
    using fields [of "0x40000000"] fields(9) [of 1] by (simp add: float_mul_def k c c1 z m q r)
  ultimately show ?thesis by (simp add: fval_def v k)
qed

end
