(* ===== verification/FloatToInt.thy ===== *)
theory FloatToInt
  imports FloatAdd
begin

text \<open>
  Conversion to integers, \<^verbatim>\<open>__float_to_int_impl\<close> and its entry points in
  \<^verbatim>\<open>etc/libbambu/softfloat/softfloat.c\<close>. The theorems show that a number in range is rounded in the
  current mode, what happens out of range, that integers survive the way to double precision
  and back, and the cases the routine gets wrong.
\<close>

section \<open>The program\<close>

text \<open>The significand shifted by \<open>shiftCount\<close>: its integer part, rounded, and the bits below it. The
  three cases avoid a shift beyond 64 bits.\<close>

definition f2i_fixed :: "u64 \<Rightarrow> nat \<Rightarrow> u64 \<Rightarrow> bool \<Rightarrow> nat \<Rightarrow> bool \<Rightarrow> nat \<Rightarrow> nat \<Rightarrow> u64 \<times> u64" where
  "f2i_fixed aSigShift shiftCount roundInc roundNearestEven r_bits r_sign fb rnd =
    (if rnd \<noteq> FLOAT_RND_NONE then
       (let (aFixed, roundBits) =
          (if fb + r_bits - of_bool r_sign < 64 then
             (let aSigShift = push_bit shiftCount aSigShift
              in (drop_bit fb (drop_bit 1 aSigShift + roundInc), aSigShift AND ones (fb + 1)))
           else
             (let (aFixed, roundBits) =
                (if r_bits - of_bool r_sign < 64 then
                   (drop_bit (63 - shiftCount) (push_bit (62 - fb) aSigShift), push_bit shiftCount aSigShift AND ones (fb + 1))
                 else
                   (if shiftCount \<noteq> 0 then drop_bit (64 - shiftCount) (push_bit (63 - fb) aSigShift) else 0,
                    if odd (shiftCount div 2 ^ 6) then 0 else push_bit shiftCount aSigShift AND ones (fb + 1)))
              in (aFixed + (drop_bit fb (drop_bit 1 roundBits + roundInc) AND 1), roundBits)))
        in (aFixed AND NOT (of_bool (roundBits XOR push_bit fb 1 = 0 \<and> roundNearestEven)), roundBits))
     else (drop_bit (fb + 1) aSigShift, push_bit shiftCount aSigShift AND ones (fb + 1)))"

text \<open>The increment is that of rounding with \<open>frac_bits\<close> bits to cut, as in the rounding routines.\<close>

definition float_to_int_impl :: "u64 \<Rightarrow> nat \<Rightarrow> bool \<Rightarrow> tfspec \<Rightarrow> fenv \<Rightarrow> u64 \<times> fenv" where
  "float_to_int_impl a r_bits r_sign sp env =
    (let eb = exp_bits sp; fb = frac_bits sp;
         exp_max = 2 ^ eb - 1 + exp_bias sp; exp_min = exp_bias sp + 1;
         aSig = extractFloatFrac a fb;
         aExp = uint (extractFloatExp a eb fb);
         aSign = extractFloatSign a eb fb (sign_spec sp);
         notZero = (aExp \<noteq> 0);
         roundNearestEven = (float_rounding_mode env = float_round_nearest_even);
         roundInc = roundIncrement env aSign fb;
         shiftCount = signed_take_bit eb (aExp + exp_bias sp + 1);
         width = int r_bits - of_bool r_sign
     in if exp_max < 0 \<or> shiftCount < 0 then (0, float_raise float_flag_inexact env)
        else if exp_min > width \<or> shiftCount > width \<or> \<not> r_sign \<and> aSign \<and> notZero \<and> shiftCount \<noteq> 0
        then (if r_sign then push_bit (r_bits - 1) 1 else push_bit r_bits 1 - 1, float_raise float_flag_invalid env)
        else
          (let shiftCount = nat (shiftCount AND 0x7F);
               aSigShift = aSig OR push_bit fb (of_bool (notZero \<and> has_one sp));
               (aFixed, roundBits) = f2i_fixed aSigShift shiftCount roundInc roundNearestEven r_bits r_sign fb (rnd_mode sp);
               aFixed = (if r_bits < 64
                         then (aFixed AND ones r_bits) OR (if drop_bit r_bits aFixed AND 1 \<noteq> 0 then - 1 else 0)
                         else aFixed);
               env = (if roundBits \<noteq> 0 then float_raise float_flag_inexact env else env)
           in (if aSign then - aFixed else aFixed, env)))"

definition float_to_int :: "u64 \<Rightarrow> nat \<Rightarrow> tfspec \<Rightarrow> fenv \<Rightarrow> u64 \<times> fenv" where
  "float_to_int a r_bits sp env = float_to_int_impl a r_bits True sp env"

definition float_to_uint :: "u64 \<Rightarrow> nat \<Rightarrow> tfspec \<Rightarrow> fenv \<Rightarrow> u64 \<times> fenv" where
  "float_to_uint a r_bits sp env = float_to_int_impl a r_bits False sp env"

definition float_to_int32 :: "u64 \<Rightarrow> tfspec \<Rightarrow> fenv \<Rightarrow> u32 \<times> fenv" where
  "float_to_int32 a sp env = (let (r, env) = float_to_int_impl a 32 True sp env in (ucast r, env))"

definition float_to_uint32 :: "u64 \<Rightarrow> tfspec \<Rightarrow> fenv \<Rightarrow> u32 \<times> fenv" where
  "float_to_uint32 a sp env = (let (r, env) = float_to_int_impl a 32 False sp env in (ucast r, env))"

definition float_to_int64 :: "u64 \<Rightarrow> tfspec \<Rightarrow> fenv \<Rightarrow> u64 \<times> fenv" where
  "float_to_int64 a sp env = float_to_int_impl a 64 True sp env"

definition float_to_uint64 :: "u64 \<Rightarrow> tfspec \<Rightarrow> fenv \<Rightarrow> u64 \<times> fenv" where
  "float_to_uint64 a sp env = float_to_int_impl a 64 False sp env"

section \<open>The rounded integer part\<close>

text \<open>The increment as a number, and the rounding it gives when it is added below the unit.\<close>

definition increment_nat :: "int \<Rightarrow> bool \<Rightarrow> nat \<Rightarrow> nat" where
  "increment_nat mode s n =
    (if mode = float_round_nearest_even then 2 ^ (n - 1) else if mode = float_round_to_zero then 0
     else if s then (if mode = float_round_up then 0 else 2 ^ n - 1)
     else (if mode = float_round_down then 0 else 2 ^ n - 1))"

lemma unat_roundIncrement:
  assumes "1 \<le> n" "n < 64"
  shows "unat (roundIncrement env s n :: u64) = increment_nat (float_rounding_mode env) s n"
  using assms unat_push_1 [of "n - 1", where 'a = 64] unat_ones [of n, where 'a = 64]
  by (simp add: increment_nat_def roundIncrement_def Let_def del: push_bit_of_1)

lemma increment_nat_less: "1 \<le> n \<Longrightarrow> increment_nat mode s n < 2 ^ n"
  by (simp add: increment_nat_def)

lemma increment_carry:
  fixes z fb :: nat and mode :: int and s :: bool
  assumes fb: "1 \<le> fb"
  defines "r \<equiv> z mod 2 ^ (fb + 1)" and "q \<equiv> z div 2 ^ (fb + 1)"
  defines "v \<equiv> q + (r div 2 + increment_nat mode s fb) div 2 ^ fb"
  assumes r1: "r \<noteq> 1"
  shows "(if r = 2 ^ fb \<and> mode = float_round_nearest_even \<and> odd v then v - 1 else v) = round_nat mode s z (fb + 1)"
    and "(r div 2 + increment_nat mode s fb) div 2 ^ fb \<le> 1"
proof -
  have r: "r div 2 < 2 ^ fb" unfolding r_def by (simp add: div_less_iff_less_mult mult.commute)
  have h: "2 ^ fb \<le> 2 * (r div 2) \<longleftrightarrow> 2 ^ fb \<le> r" using fb by (cases fb) auto
  have n0: "(r div 2 mod 2 ^ fb \<noteq> 0) = (r \<noteq> 0)" using r r1 by auto
  have c: "(r div 2 + increment_nat mode s fb) div 2 ^ fb = of_bool
      (if mode = float_round_nearest_even then 2 ^ fb \<le> r else if mode = float_round_to_zero then False
       else if s then mode \<noteq> float_round_up \<and> r \<noteq> 0 else mode \<noteq> float_round_down \<and> r \<noteq> 0)"
    using increment_div(1) [of "r div 2" fb] increment_div(2) [OF fb, of "r div 2"] r h n0
    by (auto simp: increment_nat_def)
  show "(r div 2 + increment_nat mode s fb) div 2 ^ fb \<le> 1" unfolding c by simp
  show "(if r = 2 ^ fb \<and> mode = float_round_nearest_even \<and> odd v then v - 1 else v) = round_nat mode s z (fb + 1)"
    unfolding v_def c round_nat_def Let_def r_def [symmetric] q_def [symmetric] by auto
qed

lemma div_shift: "i + l = k + j \<Longrightarrow> (a :: nat) * 2 ^ i div 2 ^ j = a * 2 ^ k div 2 ^ l"
proof -
  assume e: "i + l = k + j"
  have "a * 2 ^ i div 2 ^ j = a * 2 ^ i * 2 ^ l div (2 ^ j * 2 ^ l)" by simp
  also have "a * 2 ^ i * 2 ^ l = a * 2 ^ k * 2 ^ j" by (simp only: mult.assoc power_add [symmetric] e)
  also have "a * 2 ^ k * 2 ^ j div (2 ^ j * 2 ^ l) = a * 2 ^ k div 2 ^ l" by (simp add: mult.commute [of "2 ^ j"])
  finally show ?thesis .
qed

lemma f2i_fixed_eq:
  fixes w :: u64 and fb sc r_bits :: nat and env :: fenv and s r_sign :: bool
  defines "z \<equiv> unat w * 2 ^ sc" and "mode \<equiv> float_rounding_mode env"
  assumes fb: "1 \<le> fb" "fb \<le> 62" and w: "unat w < 2 ^ (fb + 1)" "sc = 0 \<Longrightarrow> unat w \<noteq> 1" and r: "r_bits \<le> 64" "1 \<le> r_bits"
    and sc: "sc \<le> r_bits - of_bool r_sign" and rnd: "rnd \<noteq> FLOAT_RND_NONE"
  shows "\<exists>f b. f2i_fixed w sc (roundIncrement env s fb) (mode = float_round_nearest_even) r_bits r_sign fb rnd = (f, b)
    \<and> unat f = round_nat mode s z (fb + 1) \<and> unat b = z mod 2 ^ (fb + 1)"
proof -
  define inc where "inc = (roundIncrement env s fb :: u64)"
  have inc: "unat inc = increment_nat mode s fb" unfolding inc_def mode_def using fb by (intro unat_roundIncrement) simp_all
  define rr q where "rr = z mod 2 ^ (fb + 1)" and "q = z div 2 ^ (fb + 1)"
  define c where "c = (rr div 2 + increment_nat mode s fb) div 2 ^ fb"
  have "rr \<noteq> 1"
  proof (cases "sc = 0")
    case False
    then have "even z" by (simp add: z_def)
    then have "even rr" unfolding rr_def by (simp add: dvd_mod_iff)
    then show ?thesis by auto
  qed (use w in \<open>simp add: rr_def z_def\<close>)
  note C = increment_carry [OF fb(1) this [unfolded rr_def], of mode s, folded rr_def q_def, folded c_def]
  have rlt: "rr < 2 ^ (fb + 1)" by (simp add: rr_def)
  then have r2: "rr div 2 < 2 ^ fb" by (simp add: div_less_iff_less_mult mult.commute)
  have p62: "(2 :: nat) ^ fb \<le> 2 ^ 62" using fb by (intro power_increasing) auto
  have zq: "z div 2 = q * 2 ^ fb + rr div 2"
  proof -
    have "z = 2 * (q * 2 ^ fb) + rr" using div_mult_mod_eq [of z "2 ^ (fb + 1)"] by (simp add: q_def rr_def)
    then show ?thesis by simp
  qed
  have carry: "unat (drop_bit fb (drop_bit 1 b + inc) AND 1) = c" if b: "unat b = rr" for b
  proof -
    have "unat (drop_bit 1 b + inc) = rr div 2 + increment_nat mode s fb"
      using r2 increment_nat_less [OF fb(1), of mode s] p62 b inc by (subst unat_add_small) (simp_all add: unat_drop_bit_div)
    then have "unat (drop_bit fb (drop_bit 1 b + inc)) = c" by (simp add: unat_drop_bit_div c_def)
    then show ?thesis using and_ones [of "drop_bit fb (drop_bit 1 b + inc)" 1] C(2) by simp
  qed
  have "z < 2 ^ (fb + 1) * 2 ^ sc" unfolding z_def using w by simp
  then have qsc: "q < 2 ^ sc" unfolding q_def by (simp add: div_less_iff_less_mult mult.commute)
  have qc: "q + c < 2 ^ 64"
  proof (cases "sc = 64")
    case True
    have "(2 :: nat) ^ (fb + 1) dvd 2 ^ 64" using fb by (intro le_imp_power_dvd) simp
    then have "rr = 0" unfolding rr_def z_def True by simp
    then have "c = 0" using increment_nat_less [OF fb(1), of mode s] by (simp add: c_def)
    then show ?thesis using qsc True by simp
  next
    case False
    then have "(2 :: nat) ^ sc \<le> 2 ^ 63" using sc r by (intro power_increasing) auto
    then show ?thesis using qsc C(2) by simp
  qed
  have low_bits: "unat (push_bit sc w AND ones (fb + 1)) = rr"
  proof -
    have "(2 :: nat) ^ (fb + 1) dvd 2 ^ 64" using fb by (intro le_imp_power_dvd) simp
    then have "unat w * 2 ^ sc mod 2 ^ LENGTH(64) mod 2 ^ (fb + 1) = z mod 2 ^ (fb + 1)" by (simp add: mod_mod_cancel z_def)
    then show ?thesis by (simp only: and_ones unat_push_bit_mult rr_def)
  qed
  have int_part: "unat (drop_bit (k - sc) (push_bit (k - 1 - fb) w)) = q" if "fb + 1 \<le> k" "sc \<le> k" "k \<le> 64" for k
  proof -
    have "unat w * 2 ^ (k - 1 - fb) < 2 ^ (fb + 1) * 2 ^ (k - 1 - fb)" using w by simp
    also have "\<dots> = 2 ^ k" unfolding power_add [symmetric] using that by simp
    also have "(2 :: nat) ^ k \<le> 2 ^ 64" using that by (intro power_increasing) auto
    finally have "unat (push_bit (k - 1 - fb) w) = unat w * 2 ^ (k - 1 - fb)" by (simp add: unat_push_bit_mult)
    then show ?thesis unfolding unat_drop_bit_div q_def z_def using that by (simp only:) (rule div_shift, simp)
  qed
  have fin: "unat (x AND NOT (of_bool (b XOR push_bit fb 1 = 0 \<and> (mode = float_round_nearest_even)))) = round_nat mode s z (fb + 1)"
    if x: "unat x = q + c" and b: "unat b = rr" for x b :: u64
  proof -
    have "b XOR push_bit fb 1 = 0 \<longleftrightarrow> rr = 2 ^ fb"
      unfolding xor_eq_0_iff using fb b unat_push_1 [of fb, where 'a = 64] by (simp add: word_unat_eq_iff)
    then show ?thesis unfolding unat_and_not x C(1) [symmetric] by auto
  qed
  let ?m = "r_bits - of_bool r_sign"
  consider (low) "fb + r_bits - of_bool r_sign < 64" | (mid) "\<not> fb + r_bits - of_bool r_sign < 64" "?m < 64"
    | (high) "\<not> fb + r_bits - of_bool r_sign < 64" "\<not> ?m < 64" by blast
  then show ?thesis
  proof cases
    case low
    have "fb + 1 + sc \<le> 64" using low sc r by (cases r_sign) simp_all
    then have "(2 :: nat) ^ (fb + 1 + sc) \<le> 2 ^ 64" by (intro power_increasing) simp_all
    moreover have "z < 2 ^ (fb + 1 + sc)" unfolding z_def power_add [of _ "fb + 1"] using w by simp
    ultimately have z64: "z < 2 ^ 64" by linarith
    have u: "unat (push_bit sc w) = z" using z64 by (simp add: unat_push_bit_mult z_def)
    have "unat (drop_bit 1 (push_bit sc w) + inc) = z div 2 + increment_nat mode s fb"
      using z64 increment_nat_less [OF fb(1), of mode s] p62 u inc by (subst unat_add_small) (simp_all add: unat_drop_bit_div)
    then have "unat (drop_bit fb (drop_bit 1 (push_bit sc w) + inc)) = q + c"
      by (simp add: unat_drop_bit_div zq c_def add.assoc)
    moreover have "unat (push_bit sc w AND ones (fb + 1)) = rr" by (simp only: and_ones u rr_def)
    ultimately show ?thesis
      using low rnd fin [of "drop_bit fb (drop_bit 1 (push_bit sc w) + inc)" "push_bit sc w AND ones (fb + 1)"]
      unfolding f2i_fixed_def Let_def inc_def [symmetric] rr_def by simp
  next
    case mid
    define x where "x = drop_bit (63 - sc) (push_bit (62 - fb) w)"
    define b where "b = push_bit sc w AND ones (fb + 1)"
    have b: "unat b = rr" unfolding b_def by (rule low_bits)
    have "unat x = q" unfolding x_def using int_part [of 63] fb mid sc by simp
    then have "unat (x + (drop_bit fb (drop_bit 1 b + inc) AND 1)) = q + c" using qc carry [OF b] by (subst unat_add_small) simp_all
    then show ?thesis using mid rnd b fin [OF _ b]
      unfolding f2i_fixed_def Let_def inc_def [symmetric] x_def [symmetric] b_def [symmetric] rr_def by simp
  next
    case high
    define x where "x = (if sc \<noteq> 0 then drop_bit (64 - sc) (push_bit (63 - fb) w) else 0)"
    define b where "b = (if odd (sc div 2 ^ 6) then 0 else push_bit sc w AND ones (fb + 1))"
    have b: "unat b = rr"
    proof (cases "sc = 64")
      case True
      have "(2 :: nat) ^ (fb + 1) dvd 2 ^ 64" using fb by (intro le_imp_power_dvd) simp
      then show ?thesis by (simp add: b_def True rr_def z_def)
    next
      case False
      then have "sc div 2 ^ 6 = 0" using sc r by simp
      then show ?thesis unfolding b_def using low_bits by simp
    qed
    have "unat x = q" unfolding x_def using int_part [of 64] fb sc r qsc by (cases "sc = 0") auto
    then have "unat (x + (drop_bit fb (drop_bit 1 b + inc) AND 1)) = q + c" using qc carry [OF b] by (subst unat_add_small) simp_all
    then show ?thesis using high rnd b fin [OF _ b]
      unfolding f2i_fixed_def Let_def inc_def [symmetric] x_def [symmetric] b_def [symmetric] rr_def by simp
  qed
qed

section \<open>Conversion\<close>

text \<open>Formats in which the numbers below one half are those of negative \<open>shiftCount\<close>.\<close>

definition f2i_format :: "tfspec \<Rightarrow> bool" where
  "f2i_format sp \<longleftrightarrow> rnd_mode sp \<noteq> FLOAT_RND_NONE \<and> has_one sp \<and> sign_spec sp = - 1 \<and> 2 \<le> exp_bits sp \<and> exp_bits sp \<le> 30
     \<and> 1 \<le> frac_bits sp \<and> frac_bits sp \<le> 62 \<and> exp_bits sp + frac_bits sp < 64
     \<and> exp_bias sp \<le> - 2 \<and> 0 \<le> 2 ^ exp_bits sp - 1 + exp_bias sp"

lemma ieee_f2i_formats: "f2i_format IEEE16_SPEC_ARGS" "f2i_format IEEE32_SPEC_ARGS" "f2i_format IEEE64_SPEC_ARGS"
  by (simp_all add: f2i_format_def IEEE16_SPEC_ARGS_def IEEE32_SPEC_ARGS_def IEEE64_SPEC_ARGS_def exc_defs)

text \<open>The magnitude of the operand, in units of which \<open>2 ^ t\<close> make one; and the shift the code computes.\<close>

definition magnitude :: "tfspec \<Rightarrow> u64 \<Rightarrow> nat" where
  "magnitude sp a = pattern_mag (frac_bits sp) (fabs_bits sp a)"

definition shift_count :: "tfspec \<Rightarrow> u64 \<Rightarrow> int" where
  "shift_count sp a = int (fabs_bits sp a div 2 ^ frac_bits sp) + exp_bias sp + 1"

lemma magnitude_shift:
  fixes a :: u64 and sp :: tfspec and t :: nat
  defines "fb \<equiv> frac_bits sp" and "x \<equiv> magnitude sp a" and "S \<equiv> 2 ^ frac_bits sp + fabs_bits sp a mod 2 ^ frac_bits sp"
    and "c \<equiv> shift_count sp a"
  assumes f: "f2i_format sp" and t: "int t = int fb - 1 - exp_bias sp"
  shows "c < 0 \<longleftrightarrow> 2 * x < 2 ^ t"
    and "0 \<le> c \<Longrightarrow> x = S * 2 ^ nat c * 2 ^ (t - fb - 1) \<and> fabs_bits sp a div 2 ^ fb \<noteq> 0"
    and "0 \<le> c \<Longrightarrow> x < 2 ^ (t + m) \<longleftrightarrow> c \<le> int m"
proof -
  define e g where "e = fabs_bits sp a div 2 ^ fb" and "g = fabs_bits sp a mod 2 ^ fb"
  have b: "exp_bias sp \<le> - 2" using f by (simp add: f2i_format_def)
  have tb: "fb + 1 \<le> t" using t b by simp
  have g: "g < 2 ^ fb" by (simp add: g_def)
  have S: "S = 2 ^ fb + g" "2 ^ fb \<le> S" "S < 2 ^ (fb + 1)" using g by (simp_all add: S_def fb_def g_def)
  have c: "c = int e + exp_bias sp + 1" by (simp add: c_def shift_count_def e_def fb_def)
  have x: "x = fmag fb e g" by (simp add: x_def magnitude_def pattern_mag_def e_def g_def fb_def)
  have nn: "x = S * 2 ^ nat c * 2 ^ (t - fb - 1) \<and> e \<noteq> 0" if c0: "0 \<le> c"
  proof -
    have e: "e \<noteq> 0" using c0 b c by auto
    then have "e - 1 = nat c + (t - fb - 1)" using c0 c t b by linarith
    then show ?thesis using e by (simp add: x fmag_def S(1) power_add mult.assoc)
  qed
  then show "0 \<le> c \<Longrightarrow> x = S * 2 ^ nat c * 2 ^ (t - fb - 1) \<and> fabs_bits sp a div 2 ^ fb \<noteq> 0" by (simp add: e_def)
  have tp: "(2 :: nat) ^ t = 2 ^ (fb + 1) * 2 ^ (t - fb - 1)" unfolding power_add [symmetric] using tb by simp
  show "x < 2 ^ (t + m) \<longleftrightarrow> c \<le> int m" if c0: "0 \<le> c" for m
  proof -
    have "x < 2 ^ (t + m) \<longleftrightarrow> S * 2 ^ nat c < 2 ^ (fb + 1) * 2 ^ m"
      unfolding power_add [of _ t] tp conjunct1 [OF nn [OF c0]] by (simp add: mult.commute [of _ "2 ^ m"] mult.left_commute)
    also have "\<dots> \<longleftrightarrow> nat c \<le> m"
    proof
      assume "S * 2 ^ nat c < 2 ^ (fb + 1) * 2 ^ m"
      moreover have "2 ^ fb * 2 ^ nat c \<le> S * 2 ^ nat c" using S by simp
      ultimately have "2 ^ (fb + nat c) < (2 :: nat) ^ (fb + 1 + m)" unfolding power_add by linarith
      then have "fb + nat c < fb + 1 + m" by (rule power_less_imp_less_exp [rotated]) simp
      then show "nat c \<le> m" by simp
    next
      assume "nat c \<le> m"
      then have "S * 2 ^ nat c \<le> S * 2 ^ m" by (simp add: power_increasing)
      also have "\<dots> < 2 ^ (fb + 1) * 2 ^ m" using S by simp
      finally show "S * 2 ^ nat c < 2 ^ (fb + 1) * 2 ^ m" .
    qed
    finally show ?thesis using c0 by (simp add: nat_le_iff)
  qed
  show "c < 0 \<longleftrightarrow> 2 * x < 2 ^ t"
  proof (cases "c < 0")
    case True
    have "x < 2 ^ (fb + e)" using g fmag_bounds [OF g, of e] by (cases "e = 0") (simp_all add: x fmag_def)
    moreover have "fb + e + 1 \<le> t" using True c t by linarith
    then have "(2 :: nat) ^ (fb + e + 1) \<le> 2 ^ t" by (intro power_increasing) simp_all
    ultimately show ?thesis using True by simp
  next
    case False
    have "2 * x = S * 2 * 2 ^ nat c * 2 ^ (t - fb - 1)" using nn False by simp
    moreover have "2 ^ (fb + 1) * 1 * 2 ^ (t - fb - 1) \<le> S * 2 * 2 ^ nat c * 2 ^ (t - fb - 1)"
      using S by (intro mult_le_mono) simp_all
    ultimately show ?thesis using False by (simp add: tp)
  qed
qed

lemma float_to_int_cases:
  fixes a :: u64 and sp :: tfspec and r_bits :: nat and r_sign :: bool and env :: fenv
  defines "c \<equiv> shift_count sp a" and "s \<equiv> fsign sp a" and "m \<equiv> r_bits - of_bool r_sign"
  assumes f: "f2i_format sp" and r: "2 \<le> r_bits" "r_bits \<le> 64"
  shows "c < 0 \<Longrightarrow> float_to_int_impl a r_bits r_sign sp env = (0, float_raise float_flag_inexact env)"
    and "int m < c \<or> s \<and> \<not> r_sign \<and> 0 < c \<Longrightarrow> float_to_int_impl a r_bits r_sign sp env
      = (if r_sign then push_bit (r_bits - 1) 1 else push_bit r_bits 1 - 1, float_raise float_flag_invalid env)"
    and "0 \<le> c \<Longrightarrow> c \<le> int m \<Longrightarrow> \<not> (s \<and> \<not> r_sign \<and> 0 < c) \<Longrightarrow> float_to_int_impl a r_bits r_sign sp env =
      (let (w, b) = f2i_fixed (extractFloatFrac a (frac_bits sp) OR push_bit (frac_bits sp) 1) (nat c) (roundIncrement env s (frac_bits sp))
             (float_rounding_mode env = float_round_nearest_even) r_bits r_sign (frac_bits sp) (rnd_mode sp);
           w = (if r_bits < 64 then (w AND ones r_bits) OR (if drop_bit r_bits w AND 1 \<noteq> 0 then - 1 else 0) else w)
       in (if s then - w else w, if b \<noteq> 0 then float_raise float_flag_inexact env else env))"
proof -
  have F: "has_one sp" "sign_spec sp = - 1" "exp_bits sp \<le> 30" "exp_bias sp \<le> - 2" "0 \<le> 2 ^ exp_bits sp - 1 + exp_bias sp"
    using f by (simp_all add: f2i_format_def)
  have e_mod: "int (fabs_bits sp a div 2 ^ frac_bits sp) = uint (extractFloatExp a (exp_bits sp) (frac_bits sp))"
    unfolding pattern_fields(1) [symmetric] by simp
  have u: "uint (extractFloatExp a (exp_bits sp) (frac_bits sp)) = int (fabs_bits sp a div 2 ^ frac_bits sp)"
    by (rule e_mod [symmetric])
  define e where "e = fabs_bits sp a div 2 ^ frac_bits sp"
  have "fabs_bits sp a < 2 ^ exp_bits sp * 2 ^ frac_bits sp" by (simp add: fabs_bits_def power_add)
  then have "e < 2 ^ exp_bits sp" by (simp add: e_def div_less_iff_less_mult)
  then have "int e < int (2 ^ exp_bits sp)" by (simp only: of_nat_less_iff)
  then have e: "int e < 2 ^ exp_bits sp" by simp
  have c: "c = int e + exp_bias sp + 1" by (simp add: c_def shift_count_def e_def)
  then have "- (2 ^ exp_bits sp) \<le> c" "c < 2 ^ exp_bits sp" using e F(4,5) by linarith+
  then have st: "signed_take_bit (exp_bits sp) (int e + exp_bias sp + 1) = c" unfolding c by (rule signed_take_bit_int_eq_self)
  have m: "int r_bits - of_bool r_sign = int m" using r by (simp add: m_def)
  have no: "\<not> 2 ^ exp_bits sp - 1 + exp_bias sp < 0" "\<not> int m < exp_bias sp + 1" using F(4,5) by simp_all
  have nz: "0 \<le> c \<Longrightarrow> int e \<noteq> 0" using c F(4) by linarith
  have cut: "nat (c AND 0x7F) = nat c" if "0 \<le> c" "c \<le> int m"
  proof -
    have "c < 2 ^ 7" using that r by (cases r_sign) (simp_all add: m_def)
    moreover have "(0x7F :: int) = mask 7" by (simp add: mask_eq_exp_minus_1)
    ultimately show ?thesis using that by (simp only: take_bit_eq_mask [symmetric] take_bit_int_eq_self)
  qed
  note unfold = float_to_int_impl_def Let_def u [folded e_def] st m fsign_def [of sp a, folded s_def, symmetric] F(1)
  show "c < 0 \<Longrightarrow> float_to_int_impl a r_bits r_sign sp env = (0, float_raise float_flag_inexact env)"
    unfolding unfold by simp
  show "int m < c \<or> s \<and> \<not> r_sign \<and> 0 < c \<Longrightarrow> float_to_int_impl a r_bits r_sign sp env
      = (if r_sign then push_bit (r_bits - 1) 1 else push_bit r_bits 1 - 1, float_raise float_flag_invalid env)"
    unfolding unfold using no nz by auto
  show "float_to_int_impl a r_bits r_sign sp env =
      (let (w, b) = f2i_fixed (extractFloatFrac a (frac_bits sp) OR push_bit (frac_bits sp) 1) (nat c) (roundIncrement env s (frac_bits sp))
             (float_rounding_mode env = float_round_nearest_even) r_bits r_sign (frac_bits sp) (rnd_mode sp);
           w = (if r_bits < 64 then (w AND ones r_bits) OR (if drop_bit r_bits w AND 1 \<noteq> 0 then - 1 else 0) else w)
       in (if s then - w else w, if b \<noteq> 0 then float_raise float_flag_inexact env else env))"
    if c0: "0 \<le> c" "c \<le> int m" "\<not> (s \<and> \<not> r_sign \<and> 0 < c)"
  proof -
    have "\<not> (2 ^ exp_bits sp - 1 + exp_bias sp < 0 \<or> c < 0)"
      "\<not> (int m < exp_bias sp + 1 \<or> int m < c \<or> \<not> r_sign \<and> s \<and> int e \<noteq> 0 \<and> c \<noteq> 0)" using no c0 by auto
    moreover have "of_bool (int e \<noteq> 0 \<and> has_one sp) = (1 :: u64)" using nz c0 F(1) by simp
    ultimately show ?thesis unfolding unfold cut [OF c0(1,2)] by (simp only: if_False)
  qed
qed

lemma sign_fill:
  assumes "unat w < 2 ^ n"
  shows "(if n < 64 then (w AND ones n) OR (if drop_bit n w AND 1 \<noteq> 0 then - 1 else 0) else w) = (w :: u64)"
proof -
  have "drop_bit n w = 0" using assms by (simp only: word_eq_0_iff_unat unat_drop_bit_div div_less)
  moreover have "w AND ones n = w" using assms by (simp only: word_unat_eq_iff and_ones mod_less)
  ultimately show ?thesis by simp
qed

lemma float_to_int_rounds:
  fixes a :: u64 and sp :: tfspec and env :: fenv and r_bits t :: nat and r_sign :: bool
  defines "x \<equiv> magnitude sp a" and "s \<equiv> fsign sp a" and "mode \<equiv> float_rounding_mode env"
  assumes f: "f2i_format sp" and r: "2 \<le> r_bits" "r_bits \<le> 64"
    and t: "int t = int (frac_bits sp) - 1 - exp_bias sp"
    and range: "x < 2 ^ (t + (r_bits - of_bool r_sign))" "round_nat mode s x t < 2 ^ r_bits"
    and sg: "s \<Longrightarrow> \<not> r_sign \<Longrightarrow> x < 2 ^ t \<and> round_nat mode s x t = 0"
    and md: "2 * x < 2 ^ t \<Longrightarrow> mode = float_round_nearest_even \<or> mode = float_round_to_zero"
  shows "float_to_int_impl a r_bits r_sign sp env = (of_int ((if s then - 1 else 1) * int (round_nat mode s x t)),
      if x mod 2 ^ t \<noteq> 0 \<or> 2 * x < 2 ^ t then float_raise float_flag_inexact env else env)"
proof -
  let ?fb = "frac_bits sp"
  define c where "c = shift_count sp a"
  define m where "m = r_bits - of_bool r_sign"
  define g where "g = fabs_bits sp a mod 2 ^ ?fb"
  have fb: "1 \<le> ?fb" "?fb \<le> 62" and rnd: "rnd_mode sp \<noteq> FLOAT_RND_NONE" and F: "sign_spec sp = - 1" "format_ok sp"
    using f by (simp_all add: f2i_format_def format_ok_def)
  note M = magnitude_shift [OF f t, of a, folded x_def c_def g_def]
  note C = float_to_int_cases [OF f r, where a = a and r_sign = r_sign and env = env, folded c_def s_def m_def]
  show ?thesis
  proof (cases "c < 0")
    case True
    then have lt: "2 * x < 2 ^ t" using M(1) by simp
    then have "x div 2 ^ t = 0" "x mod 2 ^ t = x" by simp_all
    then have "round_nat mode s x t = 0" using md [OF lt] lt by (auto simp: round_nat_def Let_def round_mode_defs)
    then show ?thesis using C(1) [OF True] lt by simp
  next
    case False
    then have c0: "0 \<le> c" by simp
    have cm: "c \<le> int m" using M(3) [OF c0] range(1) by (simp add: m_def)
    define z where "z = (2 ^ ?fb + g) * 2 ^ nat c"
    have x: "x = z * 2 ^ (t - ?fb - 1)" using M(2) [OF c0] by (simp add: z_def)
    have tt: "t = ?fb + 1 + (t - ?fb - 1)" using t f by (simp add: f2i_format_def)
    have N: "round_nat mode s x t = round_nat mode s z (?fb + 1)" unfolding x using round_nat_scale [of mode s z "t - ?fb - 1" "?fb + 1"] tt by simp
    have "x mod 2 ^ t = z mod 2 ^ (?fb + 1) * 2 ^ (t - ?fb - 1)"
    proof -
      have "(2 :: nat) ^ t = 2 ^ (?fb + 1) * 2 ^ (t - ?fb - 1)" unfolding power_add [symmetric] using tt by simp
      then show ?thesis unfolding x by (simp add: mult_mod_left)
    qed
    then have exact: "x mod 2 ^ t = 0 \<longleftrightarrow> z mod 2 ^ (?fb + 1) = 0" by simp
    have sg': "\<not> (s \<and> \<not> r_sign \<and> 0 < c)"
    proof
      assume a: "s \<and> \<not> r_sign \<and> 0 < c"
      then have "x < 2 ^ (t + 0)" using sg by simp
      then show False using M(3) [OF c0, of 0] a by simp
    qed
    define w where "w = extractFloatFrac a ?fb OR push_bit ?fb 1"
    have "unat (extractFloatFrac a ?fb) = g" using pattern_fields(2) [of a sp] by (simp add: g_def)
    moreover have g: "g < 2 ^ ?fb" by (simp add: g_def)
    ultimately have w: "unat w = 2 ^ ?fb + g" unfolding w_def
      using unat_push_or [of "extractFloatFrac a ?fb" ?fb 1] fb power_increasing [of ?fb 62 "2 :: nat"] by (simp add: or.commute)
    have wb: "unat w < 2 ^ (?fb + 1)" "unat w \<noteq> 1"
      using w g power_increasing [OF fb(1), of "2 :: nat"] by simp_all
    have "nat c \<le> r_bits - of_bool r_sign" using cm by (simp add: m_def nat_le_iff)
    then obtain v b where v: "f2i_fixed w (nat c) (roundIncrement env s ?fb) (mode = float_round_nearest_even) r_bits r_sign ?fb (rnd_mode sp) = (v, b)"
      "unat v = round_nat mode s z (?fb + 1)" "unat b = z mod 2 ^ (?fb + 1)"
      using f2i_fixed_eq [OF fb wb(1) wb(2) r(2) _ _ rnd, of "nat c" r_sign env s] r w unfolding mode_def z_def by auto
    have fill: "(if r_bits < 64 then (v AND ones r_bits) OR (if drop_bit r_bits v AND 1 \<noteq> 0 then - 1 else 0) else v) = v"
      using range(2) v(2) N by (intro sign_fill) simp
    have "v = of_int (int (round_nat mode s x t))" unfolding N v(2) [symmetric] by simp
    moreover have "b \<noteq> 0 \<longleftrightarrow> x mod 2 ^ t \<noteq> 0" using v(3) exact by (simp add: word_eq_0_iff_unat)
    ultimately show ?thesis
      unfolding C(3) [OF c0 cm sg'] w_def [symmetric] mode_def [symmetric] v(1) prod.case Let_def fill using M(1) False by simp
  qed
qed

lemma fval_magnitude:
  assumes "int t = int (frac_bits sp) - 1 - exp_bias sp"
  shows "fval sp a * 2 ^ t = (if fsign sp a then - 1 else 1) * real (magnitude sp a)"
proof -
  have "exp_bias sp + 1 - int (frac_bits sp) = - int t" using assms by simp
  then show ?thesis by (simp add: fval_def fint_def magnitude_def power_int_minus)
qed



text \<open>
  Conversion out of range: a magnitude of \<open>2\<close> to the width of the target (less the sign bit) or
  more, and for an unsigned target every negative number from \<open>-1\<close> down, raises the invalid flag and gives
  the least integer of a signed target, whatever the sign of the operand, and the largest of an unsigned one.
\<close>

theorem float_to_int_out_of_range:
  fixes a :: u64 and sp :: tfspec and env :: fenv and r_bits t :: nat and r_sign :: bool
  assumes f: "f2i_format sp" and r: "2 \<le> r_bits" "r_bits \<le> 64"
    and t: "int t = int (frac_bits sp) - 1 - exp_bias sp"
    and range: "2 ^ (t + (r_bits - of_bool r_sign)) \<le> magnitude sp a \<or> fsign sp a \<and> \<not> r_sign \<and> 2 ^ t \<le> magnitude sp a"
  shows "float_to_int_impl a r_bits r_sign sp env
    = (if r_sign then push_bit (r_bits - 1) 1 else push_bit r_bits 1 - 1, float_raise float_flag_invalid env)"
proof -
  note M = magnitude_shift [OF f t, of a]
  have "(2 :: nat) ^ t \<le> 2 ^ (t + (r_bits - of_bool r_sign))" by (intro power_increasing) simp_all
  then have "2 ^ t \<le> magnitude sp a" using range le_trans by blast
  then have c0: "0 \<le> shift_count sp a" using M(1) by linarith
  have "\<not> shift_count sp a \<le> int (r_bits - of_bool r_sign) \<or> fsign sp a \<and> \<not> r_sign \<and> \<not> shift_count sp a \<le> int 0"
    using range M(3) [OF c0, of "r_bits - of_bool r_sign"] M(3) [OF c0, of 0] by auto
  then show ?thesis by (intro float_to_int_cases(2) [OF f r]) auto
qed

theorem float_to_int_out_of_range_witness:
  "float_to_int_impl 0x4F800000 32 True IEEE32_SPEC_ARGS fenv_init = (0x80000000, float_raise float_flag_invalid fenv_init)
   \<and> float_to_int_impl 0xBF800000 32 False IEEE32_SPEC_ARGS fenv_init = (0xFFFFFFFF, float_raise float_flag_invalid fenv_init)"
proof -
  have k: "frac_bits IEEE32_SPEC_ARGS = 23" "exp_bits IEEE32_SPEC_ARGS = 8" "sign_spec IEEE32_SPEC_ARGS = - 1" "exp_bias IEEE32_SPEC_ARGS = - 127"
    by (simp_all add: IEEE32_SPEC_ARGS_def)
  have m: "magnitude IEEE32_SPEC_ARGS 0x4F800000 = 2 ^ 181" "magnitude IEEE32_SPEC_ARGS 0xBF800000 = 2 ^ 149" "fsign IEEE32_SPEC_ARGS 0xBF800000"
    by (simp_all add: magnitude_def fabs_bits_def pattern_mag_def fmag_def fsign_def extractFloatSign_def k)
  show ?thesis
    using float_to_int_out_of_range [OF ieee_f2i_formats(2), of 32 149 True "0x4F800000" fenv_init]
      float_to_int_out_of_range [OF ieee_f2i_formats(2), of 32 149 False "0xBF800000" fenv_init] by (simp add: k m)
qed

section \<open>Integers to floating point and back\<close>

lemma float_to_int_exact:
  fixes n :: int
  assumes f: "f2i_format sp" and r: "2 \<le> r_bits" "r_bits \<le> 64"
    and v: "fval sp a = real_of_int n" and n: "\<bar>n\<bar> < 2 ^ (r_bits - of_bool r_sign)" "n < 0 \<Longrightarrow> r_sign"
  shows "fst (float_to_int_impl a r_bits r_sign sp env) = of_int n"
proof -
  define t where "t = nat (int (frac_bits sp) - 1 - exp_bias sp)"
  have t: "int t = int (frac_bits sp) - 1 - exp_bias sp" using f by (simp add: t_def f2i_format_def)
  define s where "s \<longleftrightarrow> fsign sp a"
  have "real_of_int (n * 2 ^ t) = real_of_int ((if s then - 1 else 1) * int (magnitude sp a))"
    using fval_magnitude [OF t, of a] by (simp add: v s_def)
  then have e: "n * 2 ^ t = (if s then - 1 else 1) * int (magnitude sp a)" by (simp only: of_int_eq_iff)
  have "int (magnitude sp a) = \<bar>n * 2 ^ t\<bar>" unfolding e by simp
  then have "int (magnitude sp a) = \<bar>n\<bar> * 2 ^ t" by (simp add: abs_mult)
  then have "int (magnitude sp a) = int (nat \<bar>n\<bar> * 2 ^ t)" by simp
  then have x: "magnitude sp a = nat \<bar>n\<bar> * 2 ^ t" by (simp only: of_nat_eq_iff)
  show ?thesis
  proof (cases "n = 0")
    case True
    then have "shift_count sp a < 0" using magnitude_shift(1) [OF f t, of a] x by simp
    then show ?thesis using float_to_int_cases(1) [OF f r] True by simp
  next
    case False
    have sn: "s \<longleftrightarrow> n < 0"
    proof (cases s)
      case True
      then have "n * 2 ^ t < 0" using e x False by simp
      then show ?thesis using True by (simp add: mult_less_0_iff)
    next
      case s: False
      then have "0 \<le> n * 2 ^ t" using e by simp
      then show ?thesis using s by (simp add: zero_le_mult_iff not_less)
    qed
    have N: "round_nat m s' (magnitude sp a) t = nat \<bar>n\<bar>" for m s' unfolding x by (subst round_nat_exact) simp_all
    have nb: "nat \<bar>n\<bar> < 2 ^ (r_bits - of_bool r_sign)" using n(1) by (simp add: nat_less_iff)
    also have "(2 :: nat) ^ (r_bits - of_bool r_sign) \<le> 2 ^ r_bits" by (intro power_increasing) simp_all
    finally have nb2: "nat \<bar>n\<bar> < 2 ^ r_bits" .
    have "2 ^ t \<le> magnitude sp a" unfolding x using False by simp
    moreover have "magnitude sp a < 2 ^ (t + (r_bits - of_bool r_sign))" unfolding x power_add using nb by simp
    moreover have "(if s then - 1 else 1) * int (nat \<bar>n\<bar>) = n" using sn by simp
    ultimately show ?thesis using float_to_int_rounds [OF f r t, of a r_sign env, folded s_def] n(2) sn nb2 by (simp add: N)
  qed
qed

lemma ucast_of_int_32: "(ucast (of_int n :: u64) :: u32) = of_int n"
  by (rule bit_word_eqI) (simp add: bit_simps)

lemma sint_abs_less_half:
  assumes "a \<noteq> of_int (- (2 ^ (LENGTH('a) - 1)))"
  shows "\<bar>sint (a :: 'a::len word)\<bar> < 2 ^ (LENGTH('a) - 1)"
proof (rule ccontr)
  assume "\<not> ?thesis"
  then have "sint a = - (2 ^ (LENGTH('a) - 1))" using sint_bound [of a] sint_lt [of a] by linarith
  moreover have "a = of_int (sint a)" by simp
  ultimately have "a = of_int (- (2 ^ (LENGTH('a) - 1)))" by (simp only:)
  then show False using assms by simp
qed

text \<open>
  C19. Integers survive the conversion to floating point and back, in every rounding mode: 32-bit integers through
  double precision, signed (but for the least, whose negation overflows) and unsigned, 64-bit integers of magnitude below
  \<open>2 ^ 53\<close>, signed and unsigned, through double precision, and 16-bit integers through single precision (the
  least one excepted: see \<open>conversion_to_int_wrong\<close>). Larger 64-bit integers are rounded on the way in.
\<close>

theorem integer_roundtrip:
  fixes a16 :: u16 and a32 :: u32 and a64 :: u64 and env env' :: fenv
  defines "D \<equiv> IEEE64_SPEC_ARGS" and "S \<equiv> IEEE32_SPEC_ARGS"
  shows "(a32 \<noteq> 0x80000000 \<longrightarrow> fst (float_to_int32 (fst (int32_to_float a32 D env)) D env') = a32)
    \<and> fst (float_to_uint32 (fst (uint32_to_float a32 D env)) D env') = a32
    \<and> (\<bar>sint a64\<bar> < 2 ^ 53 \<longrightarrow> fst (float_to_int64 (fst (int64_to_float a64 D env)) D env') = a64)
    \<and> (uint a64 < 2 ^ 53 \<longrightarrow> fst (float_to_uint64 (fst (uint64_to_float a64 D env)) D env') = a64)
    \<and> (a16 \<noteq> 0x8000 \<longrightarrow> fst (float_to_int (fst (int16_to_float a16 S env)) 16 S env') = scast a16)
    \<and> fst (float_to_uint (fst (uint16_to_float a16 S env)) 16 S env') = ucast a16"
proof -
  have k: "frac_bits D = 52" "frac_bits S = 23" by (simp_all add: D_def S_def IEEE64_SPEC_ARGS_def IEEE32_SPEC_ARGS_def)
  have F: "f2i_format D" "f2i_format S" unfolding D_def S_def by (rule ieee_f2i_formats)+
  have i: "int_format 64 D" "int_format 32 D" "int_format 16 S"
    by (simp_all add: D_def S_def int_format_def format_ok_def IEEE32_SPEC_ARGS_def IEEE64_SPEC_ARGS_def exp_limit_def exc_defs)
  note c = int_conversions(4) [OF i(2), of a32 env] int_conversions(3) [OF i(1), of env a64] int_conversions(5) [OF i(3), of env a16]
  note s32 = sint_bound [of a32] and s16 = sint_bound [of a16] and s64 = sint_bound [of a64]
  have u: "uint a32 < 2 ^ 32" "uint a16 < 2 ^ 16" using uint_lt2p [of a32] uint_lt2p [of a16] by simp_all
  have b: "\<bar>sint a32\<bar> < 2 ^ 53" "\<bar>sint a16\<bar> < 2 ^ 24" using s32 s16 by simp_all
  have m32: "\<bar>sint a32\<bar> < 2 ^ 31" if "a32 \<noteq> 0x80000000"
  proof -
    have "(0x80000000 :: u32) = - 0x80000000" by simp
    then have "a32 \<noteq> - 0x80000000" using that by metis
    then show ?thesis using sint_abs_less_half [of a32] by simp
  qed
  have m16: "\<bar>sint a16\<bar> < 2 ^ 15" if "a16 \<noteq> 0x8000"
  proof -
    have "(0x8000 :: u16) = - 0x8000" by simp
    then have "a16 \<noteq> - 0x8000" using that by metis
    then show ?thesis using sint_abs_less_half [of a16] by simp
  qed
  have "fst (float_to_int32 (fst (int32_to_float a32 D env)) D env') = a32" if "a32 \<noteq> 0x80000000"
  proof -
    have "fval D (fst (int32_to_float a32 D env)) = real_of_int (sint a32)" using c(1) that b by (simp add: rounds_int_def k)
    then show ?thesis using float_to_int_exact [OF F(1), of 32 _ "sint a32" True env'] m32 [OF that] ucast_of_int_32 [of "sint a32"]
      by (simp add: float_to_int32_def case_prod_beta)
  qed
  moreover have "fst (float_to_uint32 (fst (uint32_to_float a32 D env)) D env') = a32"
  proof -
    have "fval D (fst (uint32_to_float a32 D env)) = real_of_int (uint a32)" using c(1) u by (simp add: rounds_int_def k)
    then show ?thesis using float_to_int_exact [OF F(1), of 32 _ "uint a32" False env'] u ucast_of_int_32 [of "uint a32"]
      by (simp add: float_to_uint32_def case_prod_beta)
  qed
  moreover have "fst (float_to_int64 (fst (int64_to_float a64 D env)) D env') = a64" if "\<bar>sint a64\<bar> < 2 ^ 53"
  proof -
    have "fval D (fst (int64_to_float a64 D env)) = real_of_int (sint a64)" using c(2) that by (simp add: rounds_int_def k)
    then show ?thesis using float_to_int_exact [OF F(1), of 64 _ "sint a64" True env'] that by (simp add: float_to_int64_def)
  qed
  moreover have "fst (float_to_uint64 (fst (uint64_to_float a64 D env)) D env') = a64" if "uint a64 < 2 ^ 53"
  proof -
    have "fval D (fst (uint64_to_float a64 D env)) = real_of_int (uint a64)" using c(2) that by (simp add: rounds_int_def k)
    then show ?thesis using float_to_int_exact [OF F(1), of 64 _ "uint a64" False env'] that by (simp add: float_to_uint64_def)
  qed
  moreover have "fst (float_to_int (fst (int16_to_float a16 S env)) 16 S env') = scast a16" if "a16 \<noteq> 0x8000"
  proof -
    have "fval S (fst (int16_to_float a16 S env)) = real_of_int (sint a16)" using c(3) b by (simp add: rounds_int_def k)
    then show ?thesis using float_to_int_exact [OF F(2), of 16 _ "sint a16" True env'] m16 [OF that] by (simp add: float_to_int_def)
  qed
  moreover have "fst (float_to_uint (fst (uint16_to_float a16 S env)) 16 S env') = ucast a16"
  proof -
    have "fval S (fst (uint16_to_float a16 S env)) = real_of_int (uint a16)" using c(3) u by (simp add: rounds_int_def k)
    then show ?thesis using float_to_int_exact [OF F(2), of 16 _ "uint a16" False env'] u
      by (simp add: float_to_uint_def)
  qed
  ultimately show ?thesis by blast
qed

theorem integer_roundtrip_witness:
  "fst (float_to_int32 (fst (int32_to_float (- 5) IEEE64_SPEC_ARGS fenv_init)) IEEE64_SPEC_ARGS fenv_init) = - 5
   \<and> fst (float_to_int64 (fst (int64_to_float (2 ^ 40 + 1) IEEE64_SPEC_ARGS fenv_init)) IEEE64_SPEC_ARGS fenv_init) = 2 ^ 40 + 1"
proof -
  have "sint (2 ^ 40 + 1 :: u64) = 2 ^ 40 + 1" "(- 5 :: u32) \<noteq> 0x80000000" by simp_all
  moreover have "\<bar>2 ^ 40 + 1 :: int\<bar> < 2 ^ 53" by simp
  ultimately show ?thesis using integer_roundtrip [of "- 5" fenv_init fenv_init "2 ^ 40 + 1"] by (simp only: simp_thms)
qed

section \<open>Deviations\<close>

text \<open>
  Where the conversion departs from its description. In a format without rounding the significand is not
  shifted at all and every number converts to zero. Rounding up, \<open>0.25\<close> converts to zero. Infinity and NaN are
  recognised by their exponent being out of range only: in half precision, whose largest
  exponent is in the range of the integer types, infinity converts to 65536 and no flag is raised. Zero
  raises inexact. The least integer of a target of less than 32 bits raises invalid and comes back positive.
\<close>

theorem conversion_to_int_wrong:
  fixes up :: fenv
  defines "up \<equiv> fenv_init\<lparr>float_rounding_mode := float_round_up\<rparr>"
  shows "fst (float_to_int32 0x42C80000 (IEEE32_SPEC_ARGS\<lparr>rnd_mode := FLOAT_RND_NONE\<rparr>) fenv_init) = 0
    \<and> float_to_int32 0x3E800000 IEEE32_SPEC_ARGS up = (0, float_raise float_flag_inexact up)
    \<and> float_to_int32 0x7C00 IEEE16_SPEC_ARGS fenv_init = (65536, fenv_init)
    \<and> float_to_int32 0 IEEE32_SPEC_ARGS fenv_init = (0, float_raise float_flag_inexact fenv_init)
    \<and> float_to_int 0xC7000000 16 IEEE32_SPEC_ARGS fenv_init = (0x8000, float_raise float_flag_invalid fenv_init)"
proof -
  have k: "frac_bits IEEE32_SPEC_ARGS = 23" "exp_bits IEEE32_SPEC_ARGS = 8" "sign_spec IEEE32_SPEC_ARGS = - 1" "exp_bias IEEE32_SPEC_ARGS = - 127"
    "has_one IEEE32_SPEC_ARGS" "frac_bits IEEE16_SPEC_ARGS = 10" "exp_bits IEEE16_SPEC_ARGS = 5" "sign_spec IEEE16_SPEC_ARGS = - 1"
    "exp_bias IEEE16_SPEC_ARGS = - 15" "has_one IEEE16_SPEC_ARGS" "rnd_mode IEEE16_SPEC_ARGS = FLOAT_RND_NEVN"
    "float_rounding_mode fenv_init = float_round_nearest_even"
    by (simp_all add: IEEE32_SPEC_ARGS_def IEEE16_SPEC_ARGS_def fenv_init_def)
  have f: "uint (extractFloatExp 0x42C80000 8 23) = 133" "uint (extractFloatExp 0x3E800000 8 23) = 125" "uint (extractFloatExp 0x7C00 5 10) = 31"
    "uint (extractFloatExp 0 8 23) = 0" "uint (extractFloatExp 0xC7000000 8 23) = 142"
    "extractFloatFrac 0x42C80000 23 = 0x480000" "extractFloatFrac 0x7C00 10 = 0"
    by (simp_all add: extractFloatExp_def extractFloatFrac_def)
  have s: "\<not> extractFloatSign x eb fb (- 1)" if "unat x < 2 ^ (eb + fb)" for x :: u64 and eb fb
    using that by (simp add: extractFloatSign_def word_eq_0_iff_unat unat_drop_bit_div)
  have z: "f2i_fixed 0xC80000 7 inc ev 32 True 23 FLOAT_RND_NONE = (0, 0x64000000 AND 0xFFFFFF)" for inc ev
    by (simp add: f2i_fixed_def exc_defs)
  have i: "f2i_fixed 0x400 17 (roundIncrement fenv_init False 10) True 32 True 10 FLOAT_RND_NEVN = (65536, 0)"
    by (simp add: f2i_fixed_def exc_defs roundIncrement_def k round_mode_defs)
  have t: "signed_take_bit 8 (7 :: int) = 7" "signed_take_bit 8 (- 1 :: int) = - 1" "signed_take_bit 5 (17 :: int) = 17"
    "signed_take_bit 8 (- 126 :: int) = - 126" "signed_take_bit 8 (16 :: int) = 16"
    by simp_all
  note d = float_to_int32_def float_to_int_def float_to_int_impl_def k f s t
  have "fst (float_to_int32 0x42C80000 (IEEE32_SPEC_ARGS\<lparr>rnd_mode := FLOAT_RND_NONE\<rparr>) fenv_init) = 0"
    by (simp add: d z)
  moreover have "float_to_int32 0x3E800000 IEEE32_SPEC_ARGS up = (0, float_raise float_flag_inexact up)"
    by (simp add: d)
  moreover have "float_to_int32 0x7C00 IEEE16_SPEC_ARGS fenv_init = (65536, fenv_init)"
    by (simp add: d i)
  moreover have "float_to_int32 0 IEEE32_SPEC_ARGS fenv_init = (0, float_raise float_flag_inexact fenv_init)"
    by (simp add: d)
  moreover have "float_to_int 0xC7000000 16 IEEE32_SPEC_ARGS fenv_init = (0x8000, float_raise float_flag_invalid fenv_init)"
    by (simp add: d)
  ultimately show ?thesis by blast
qed


end
