(* ===== verification/FloatCast.thy ===== *)
theory FloatCast
  imports FloatMul FloatToInt
begin

text \<open>
  Conversion between floating-point formats, \<^verbatim>\<open>__float_cast\<close> of
  \<^verbatim>\<open>etc/libbambu/softfloat/softfloat.c\<close>: the number of bits an exponent takes, the new exponent, the
  new fraction, and the result. The theorems show that widening is exact on normal numbers,
  that it agrees with the dedicated routine for single to double precision, that narrowing
  undoes it, and which operands the routine gets wrong.
\<close>

section \<open>The program\<close>

text \<open>The macro \<^verbatim>\<open>needed_bits\<close>, on an \<^verbatim>\<open>int\<close>.\<close>

definition needed_bits :: "int \<Rightarrow> nat" where
  "needed_bits x =
    (let i = (if x > 0 then of_int x else - of_int x) :: u32;
         lz = unat (count_leading_zero_runtime_macro 32 (of_int x));
         lz = (if x > 0 then lz else lz + of_bool (i AND (i - 1) \<noteq> 0))
     in 32 - lz)"

definition exp_type_size :: "tfspec \<Rightarrow> tfspec \<Rightarrow> nat" where
  "exp_type_size ins outs =
    (let ie = exp_bits ins; oe = exp_bits outs; exp_bits_diff = (if ie > oe then ie - oe else oe - ie)
     in max (max ie oe + of_bool (exp_bits_diff = 1)) (max (needed_bits (exp_bias ins)) (needed_bits (exp_bias outs))))"

text \<open>Whether the difference of the biases can take an exponent out of the range of the new format.\<close>

definition cast_bias_diff :: "tfspec \<Rightarrow> tfspec \<Rightarrow> int" where
  "cast_bias_diff ins outs = exp_bias ins - exp_bias outs"

definition cast_may_leave :: "tfspec \<Rightarrow> tfspec \<Rightarrow> bool" where
  "cast_may_leave ins outs =
    (let rangeDiff = (2 ^ exp_bits outs - of_bool (\<not> has_subnorm outs)) - (2 ^ exp_bits ins - of_bool (\<not> has_subnorm ins)) :: int
     in cast_bias_diff ins outs < 0 \<or> cast_bias_diff ins outs > rangeDiff)"

text \<open>
  The new exponent, the fraction, and the overflow flag; \<open>None\<close> for an invalid conversion. When
  the exponent can leave the range, the code shifts by \<^verbatim>\<open>__exp_type_size - __out_exp_bits - 1\<close>, which
  the theorems below only use where it is not negative (a negative shift is undefined in C).
\<close>

definition cast_exp :: "u64 \<Rightarrow> u64 \<Rightarrow> u64 \<Rightarrow> tfspec \<Rightarrow> tfspec \<Rightarrow> (u64 \<times> u64 \<times> bool) option" where
  "cast_exp w Exp Frac ins outs =
    (let oe = exp_bits outs; ets = exp_type_size ins outs; leave = cast_may_leave ins outs
     in if exp_bits ins \<noteq> oe \<or> exp_bias ins \<noteq> exp_bias outs then
          (let FExp = Exp + of_int (cast_bias_diff ins outs);
               expOverflow = drop_bit oe FExp AND ones (ets - oe - 1);
               ExpOverflow = (expOverflow \<noteq> 0);
               ExpUnderflow = (drop_bit (ets - 1) FExp AND 1 \<noteq> 0)
           in if leave \<and> (ExpOverflow \<or> ExpUnderflow) \<and> w \<noteq> 0 then None
              else
                (let ExExp = (if ExpUnderflow then 0 else ones oe);
                     FExp = (if leave then (if ExpOverflow then ExExp else FExp AND ones oe) else FExp);
                     Frac = (if leave \<and> ExpUnderflow then 0 else Frac);
                     ExpOverflow = (leave \<and> ExpOverflow \<noteq> ExpUnderflow);
                     FExp = FExp AND ones oe;
                     inputZero = (Exp = 0 \<and> Frac = 0 \<or> leave \<and> ExpUnderflow)
                 in Some (if inputZero then 0 else FExp, Frac, ExpOverflow)))
        else Some (Exp, if has_subnorm ins \<and> \<not> has_subnorm outs \<and> Exp = 0 then 0 else Frac, False))"

text \<open>The fraction cut, and rounded by setting its last bit, or extended.\<close>

definition cast_frac :: "u64 \<Rightarrow> nat \<Rightarrow> nat \<Rightarrow> nat \<Rightarrow> u64" where
  "cast_frac Frac ifb ofb rnd =
    (if ifb > ofb then
       (let bits_diff = ifb - ofb; SFrac = drop_bit bits_diff Frac
        in if rnd = FLOAT_RND_NEVN then
             (let GuardBit = (drop_bit (bits_diff - 1) Frac AND 1 \<noteq> 0);
                  RoundBit = (bits_diff > 1 \<and> drop_bit (bits_diff - 2) Frac AND 1 \<noteq> 0);
                  Sticky = (bits_diff > 2 \<and> Frac AND ones (bits_diff - 2) \<noteq> 0)
              in SFrac OR of_bool (GuardBit \<and> (RoundBit \<or> Sticky)))
           else SFrac)
     else if ifb < ofb then push_bit (ofb - ifb) Frac
     else Frac)"

definition float_cast :: "u64 \<Rightarrow> tfspec \<Rightarrow> tfspec \<Rightarrow> u64" where
  "float_cast w ins outs =
    (let ie = exp_bits ins; ifb = frac_bits ins; oe = exp_bits outs; ofb = frac_bits outs;
         in_sign = sign_spec ins; out_sign = sign_spec outs;
         in_std = (exc_mode ins = FLOAT_EXC_STD); out_std = (exc_mode outs = FLOAT_EXC_STD);
         Sign = drop_bit (ie + ifb) w;
         Exp = drop_bit ifb w AND ones ie;
         Frac = w AND ones ifb
     in case cast_exp w Exp Frac ins outs of
          None \<Rightarrow> 0
        | Some (FExp, Frac, ExpOverflow) \<Rightarrow>
          (let SFrac = cast_frac Frac ifb ofb (rnd_mode outs)
           in if out_sign \<noteq> - 1 \<and> in_sign \<noteq> out_sign \<and> in_sign \<noteq> - 1 then 0
              else
                (let out_nan = (out_sign \<noteq> - 1 \<and> in_sign \<noteq> out_sign \<and> Sign \<noteq> (if out_sign = 1 then 1 else 0));
                     out_nan = (out_nan \<or> in_std \<and> Exp = ones ie);
                     RExp = push_bit ofb (if out_nan then ones oe else FExp);
                     out_nan = (out_nan \<or> cast_may_leave ins outs \<and> ExpOverflow);
                     NFrac = (if out_std then (if in_std \<and> Exp = ones ie \<and> Frac \<noteq> 0 then ones ofb else 0)
                              else ones ofb);
                     RFrac = (if out_nan then NFrac else SFrac);
                     out_val = RExp OR RFrac
                 in if out_sign = - 1
                    then out_val OR (if in_sign \<noteq> - 1 then (if in_sign = 1 then push_bit (oe + ofb) 1 else 0)
                                     else push_bit (oe + ofb) Sign)
                    else out_val)))"

section \<open>Widening\<close>

text \<open>Formats of which the second has at least the precision and the range of the first.\<close>

definition widens :: "tfspec \<Rightarrow> tfspec \<Rightarrow> bool" where
  "widens ins outs \<longleftrightarrow> exc_mode ins = FLOAT_EXC_STD \<and> exc_mode outs = FLOAT_EXC_STD \<and> sign_spec ins = - 1 \<and> sign_spec outs = - 1
     \<and> has_subnorm ins = has_subnorm outs \<and> 2 \<le> exp_bits ins \<and> 1 \<le> frac_bits ins \<and> frac_bits ins \<le> frac_bits outs
     \<and> exp_bits ins + frac_bits ins < 64 \<and> exp_bits outs + frac_bits outs < 64 \<and> exp_bits outs \<le> 30
     \<and> 0 \<le> cast_bias_diff ins outs \<and> \<not> cast_may_leave ins outs"

lemma ieee_widens: "widens IEEE16_SPEC_ARGS IEEE32_SPEC_ARGS" "widens IEEE32_SPEC_ARGS IEEE64_SPEC_ARGS"
  "widens IEEE16_SPEC_ARGS IEEE64_SPEC_ARGS"
  by (simp_all add: widens_def cast_bias_diff_def cast_may_leave_def IEEE16_SPEC_ARGS_def IEEE32_SPEC_ARGS_def IEEE64_SPEC_ARGS_def)

lemma widens_range:
  assumes "widens ins outs" "e < 2 ^ exp_bits ins - 1"
  shows "int e + cast_bias_diff ins outs < 2 ^ exp_bits outs - 1"
proof -
  have "e + 1 < 2 ^ exp_bits ins" using assms(2) by simp
  then have "int (e + 1) < int (2 ^ exp_bits ins)" by (simp only: of_nat_less_iff)
  then have "int e + 1 < 2 ^ exp_bits ins" by simp
  moreover have "cast_bias_diff ins outs \<le> 2 ^ exp_bits outs - 2 ^ exp_bits ins"
  proof -
    have "has_subnorm ins = has_subnorm outs" "\<not> cast_may_leave ins outs" using assms(1) by (simp_all add: widens_def)
    then have "\<not> (2 ^ exp_bits outs - of_bool (\<not> has_subnorm outs)) - (2 ^ exp_bits ins - of_bool (\<not> has_subnorm outs)) < cast_bias_diff ins outs"
      unfolding cast_may_leave_def Let_def by simp
    then show ?thesis by linarith
  qed
  ultimately show ?thesis by linarith
qed

lemma cast_exp_widen:
  fixes E F :: u64 and ins outs :: tfspec
  defines "d \<equiv> nat (cast_bias_diff ins outs)"
  assumes w: "widens ins outs"
  shows "\<exists>X. cast_exp w E F ins outs = Some (X, F, False)
    \<and> (unat E < 2 ^ exp_bits ins - 1 \<longrightarrow> unat X = (if E = 0 \<and> F = 0 then 0 else unat E + d))"
proof (cases "exp_bits ins \<noteq> exp_bits outs \<or> exp_bias ins \<noteq> exp_bias outs")
  case True
  have leave: "\<not> cast_may_leave ins outs" and bd: "cast_bias_diff ins outs = int d" "exp_bits outs \<le> 30"
    using w by (simp_all add: widens_def d_def)
  have "cast_exp w E F ins outs = Some (if E = 0 \<and> F = 0 then 0 else (E + of_int (cast_bias_diff ins outs)) AND ones (exp_bits outs), F, False)"
    using True leave unfolding cast_exp_def Let_def by simp
  moreover have "unat ((E + of_int (cast_bias_diff ins outs)) AND ones (exp_bits outs)) = unat E + d"
    if e: "unat E < 2 ^ exp_bits ins - 1"
  proof -
    have "int (unat E + d) < 2 ^ exp_bits outs - 1" using widens_range [OF w e] by (simp add: bd)
    then have "int (unat E + d) < int (2 ^ exp_bits outs)" by simp
    then have lt: "unat E + d < 2 ^ exp_bits outs" by (simp only: of_nat_less_iff)
    moreover have "(2 :: nat) ^ exp_bits outs \<le> 2 ^ 30" using bd(2) by (intro power_increasing) auto
    ultimately have l: "unat E + d < 2 ^ 30" by linarith
    have "unat (of_int (cast_bias_diff ins outs) :: u64) = d" using l by (simp add: bd(1) unat_of_nat)
    then have "unat (E + of_int (cast_bias_diff ins outs)) = unat E + d" using l by (subst unat_add_small) simp_all
    then show ?thesis using lt by (simp only: and_ones mod_less)
  qed
  ultimately show ?thesis by (intro exI conjI) auto
next
  case False
  then have "d = 0" by (simp add: d_def cast_bias_diff_def)
  moreover have "has_subnorm ins = has_subnorm outs" using w by (simp add: widens_def)
  ultimately show ?thesis using False by (auto simp: cast_exp_def)
qed

lemma cast_frac_widen:
  assumes "ifb \<le> ofb" "unat F < 2 ^ ifb" "ofb < 64"
  shows "unat (cast_frac F ifb ofb rnd) = unat F * 2 ^ (ofb - ifb)" "unat F * 2 ^ (ofb - ifb) < 2 ^ ofb"
proof -
  have "unat F * 2 ^ (ofb - ifb) < 2 ^ ifb * 2 ^ (ofb - ifb)" using assms(2) by simp
  then show l: "unat F * 2 ^ (ofb - ifb) < 2 ^ ofb" using assms(1) by (simp flip: power_add)
  also have "(2 :: nat) ^ ofb \<le> 2 ^ 63" using assms(3) by (intro power_increasing) auto
  finally show "unat (cast_frac F ifb ofb rnd) = unat F * 2 ^ (ofb - ifb)"
    using assms(1) by (auto simp: cast_frac_def unat_push_bit_mult)
qed

text \<open>The fields of the result.\<close>

definition widened_exp :: "tfspec \<Rightarrow> tfspec \<Rightarrow> u64 \<Rightarrow> nat" where
  "widened_exp ins outs a =
    (if exp_field ins a = 2 ^ exp_bits ins - 1 then 2 ^ exp_bits outs - 1
     else if fabs_bits ins a = 0 then 0 else exp_field ins a + nat (cast_bias_diff ins outs))"

definition widened_frac :: "tfspec \<Rightarrow> tfspec \<Rightarrow> u64 \<Rightarrow> nat" where
  "widened_frac ins outs a =
    (let f = fabs_bits ins a mod 2 ^ frac_bits ins
     in if exp_field ins a = 2 ^ exp_bits ins - 1 then (if f \<noteq> 0 then 2 ^ frac_bits outs - 1 else 0)
        else f * 2 ^ (frac_bits outs - frac_bits ins))"

lemma float_cast_widens:
  assumes w: "widens ins outs" and p: "pattern_of ins a"
  shows "unat (float_cast a ins outs) = pattern_bits outs (fsign ins a) (widened_exp ins outs a) (widened_frac ins outs a)"
    and "widened_exp ins outs a < 2 ^ exp_bits outs" "widened_frac ins outs a < 2 ^ frac_bits outs"
proof -
  let ?ie = "exp_bits ins" and ?ifb = "frac_bits ins" and ?oe = "exp_bits outs" and ?ofb = "frac_bits outs"
  have W: "exc_mode ins = FLOAT_EXC_STD" "exc_mode outs = FLOAT_EXC_STD" "sign_spec ins = - 1" "sign_spec outs = - 1"
    "?ifb \<le> ?ofb" "?ie + ?ifb < 64" "?oe + ?ofb < 64" "\<not> cast_may_leave ins outs"
    using w by (simp_all add: widens_def)
  define E F where "E = (drop_bit ?ifb a AND ones ?ie)" and "F = (a AND ones ?ifb)"
  have u: "unat E = exp_field ins a" "unat F = fabs_bits ins a mod 2 ^ ?ifb"
    using pattern_fields(1,2) [of a ins] by (simp_all add: E_def F_def extractFloatExp_def extractFloatFrac_def exp_field_def)
  have f: "unat F < 2 ^ ?ifb" by (simp add: u)
  have "fabs_bits ins a < 2 ^ ?ie * 2 ^ ?ifb" by (simp add: fabs_bits_def power_add)
  then have e: "exp_field ins a < 2 ^ ?ie" by (simp add: exp_field_def div_less_iff_less_mult)
  obtain X where X: "cast_exp a E F ins outs = Some (X, F, False)"
    and Xv: "unat E < 2 ^ ?ie - 1 \<Longrightarrow> unat X = (if E = 0 \<and> F = 0 then 0 else unat E + nat (cast_bias_diff ins outs))"
    using cast_exp_widen [OF w, of a E F] by blast
  have m: "E = ones ?ie \<longleftrightarrow> exp_field ins a = 2 ^ ?ie - 1"
    using W(6) unat_ones [of ?ie, where 'a = 64] by (simp add: word_unat_eq_iff u del: push_bit_of_1)
  have z: "E = 0 \<and> F = 0 \<longleftrightarrow> fabs_bits ins a = 0"
  proof -
    have "fabs_bits ins a = exp_field ins a * 2 ^ ?ifb + fabs_bits ins a mod 2 ^ ?ifb" by (simp only: exp_field_def div_mult_mod_eq)
    then have "fabs_bits ins a = unat E * 2 ^ ?ifb + unat F" by (simp only: u)
    then show ?thesis by (auto simp: word_eq_0_iff_unat)
  qed
  define RE RF where "RE = (if E = ones ?ie then ones ?oe else X)"
    and "RF = (if E = ones ?ie then (if F \<noteq> 0 then ones ?ofb else 0) else cast_frac F ?ifb ?ofb (rnd_mode outs))"
  have s: "drop_bit (?ie + ?ifb) a = of_bool (fsign ins a)"
    using pattern_of_fields(2) [OF p W(3)] by (simp add: word_unat_eq_iff)
  have r: "float_cast a ins outs = (push_bit (?oe + ?ofb) (of_bool (fsign ins a)) OR push_bit ?ofb RE) OR RF"
    unfolding float_cast_def Let_def E_def [symmetric] F_def [symmetric] X RE_def RF_def s using W
    by (simp add: or.assoc or.commute or.left_commute)
  have one: "1 \<le> (2 :: nat) ^ ?oe" by simp
  have RE: "unat RE = widened_exp ins outs a" and REl: "widened_exp ins outs a < 2 ^ ?oe"
  proof -
    have "exp_field ins a + nat (cast_bias_diff ins outs) < 2 ^ ?oe" if "exp_field ins a \<noteq> 2 ^ ?ie - 1"
    proof -
      have "exp_field ins a < 2 ^ ?ie - 1" using that e by simp
      from widens_range [OF w this] have "int (exp_field ins a + nat (cast_bias_diff ins outs)) < int (2 ^ ?oe)"
        using w by (simp add: widens_def)
      then show ?thesis by (simp only: of_nat_less_iff)
    qed
    then show "widened_exp ins outs a < 2 ^ ?oe" using one by (auto simp: widened_exp_def)
    show "unat RE = widened_exp ins outs a" unfolding RE_def widened_exp_def m
      using Xv e W(7) unat_ones [of ?oe, where 'a = 64] u z by (auto simp del: push_bit_of_1)
  qed
  have RF: "unat RF = widened_frac ins outs a" and RFl: "widened_frac ins outs a < 2 ^ ?ofb"
    unfolding RF_def widened_frac_def m Let_def
    using cast_frac_widen(1) [OF W(5) f, of "rnd_mode outs"] cast_frac_widen(2) [OF W(5) f] W(7) unat_ones [of ?ofb, where 'a = 64] u
    by (auto simp: word_eq_0_iff_unat simp del: push_bit_of_1)
  show "unat (float_cast a ins outs) = pattern_bits outs (fsign ins a) (widened_exp ins outs a) (widened_frac ins outs a)"
    unfolding r pattern_bits_def using unat_fields [of RF ?ofb RE ?oe "fsign ins a"] RE REl RF RFl W(7) by simp
  show "widened_exp ins outs a < 2 ^ ?oe" "widened_frac ins outs a < 2 ^ ?ofb" by (rule REl, rule RFl)
qed

text \<open>
  C17. Widening, between IEEE formats of which the second has at least the precision and the range of the
  first: every normal number and zero becomes the pattern of the same value, sign of zero included,
  an infinity the infinity of its sign, and a NaN a NaN.
\<close>

theorem cast_widening_exact:
  fixes a :: u64 and ins outs :: tfspec
  defines "r \<equiv> float_cast a ins outs"
  assumes w: "widens ins outs" and p: "pattern_of ins a"
  shows "pattern_of outs r \<and> fsign outs r = fsign ins a
    \<and> (normal_pattern ins a \<or> fabs_bits ins a = 0 \<longrightarrow> finite_pattern outs r \<and> fval outs r = fval ins a)
    \<and> (inf_pattern ins a \<longrightarrow> inf_pattern outs r)
    \<and> (nan_pattern ins a \<longrightarrow> nan_pattern outs r)"
proof -
  let ?ie = "exp_bits ins" and ?ifb = "frac_bits ins" and ?oe = "exp_bits outs" and ?ofb = "frac_bits outs"
  define e f where "e = exp_field ins a" and "f = fabs_bits ins a mod 2 ^ ?ifb"
  have W: "sign_spec outs = - 1" "sign_spec ins = - 1" "?ifb \<le> ?ofb" "0 \<le> cast_bias_diff ins outs" "1 \<le> ?ofb" "2 \<le> ?ie"
    using w by (simp_all add: widens_def)
  note c = float_cast_widens [OF w p]
  note R = pattern_bits_fields [OF c W(1), folded r_def]
  have m: "fabs_bits ins a = e * 2 ^ ?ifb + f" by (simp only: e_def f_def exp_field_def div_mult_mod_eq)
  have f: "f < 2 ^ ?ifb" by (simp add: f_def)
  have I: "infinity_bits sp = (2 ^ exp_bits sp - 1) * 2 ^ frac_bits sp" for sp by (simp add: infinity_bits_def)
  have top: "e = 2 ^ ?ie - 1 \<longleftrightarrow> inf_pattern ins a \<or> nan_pattern ins a"
  proof -
    have "fabs_bits ins a < 2 ^ ?ie * 2 ^ ?ifb" by (simp add: fabs_bits_def power_add)
    then have "e < 2 ^ ?ie" by (simp add: e_def exp_field_def div_less_iff_less_mult)
    moreover have "infinity_bits ins \<le> fabs_bits ins a \<longleftrightarrow> 2 ^ ?ie - 1 \<le> e"
      by (simp add: I e_def exp_field_def less_eq_div_iff_mult_less_eq)
    ultimately show ?thesis by (auto simp: inf_pattern_def nan_pattern_def)
  qed
  have inf: "inf_pattern outs r" if a: "inf_pattern ins a"
  proof -
    have "e = 2 ^ ?ie - 1" "f = 0" using a top m by (auto simp: inf_pattern_def I)
    then show ?thesis using R(3) by (simp add: inf_pattern_def I widened_exp_def widened_frac_def Let_def e_def [symmetric] f_def [symmetric])
  qed
  have nan: "nan_pattern outs r" if a: "nan_pattern ins a"
  proof -
    have "e = 2 ^ ?ie - 1" "f \<noteq> 0" using a top m by (auto simp: nan_pattern_def I)
    moreover have "(2 :: nat) ^ 1 \<le> 2 ^ ?ofb" using W(5) by (intro power_increasing) auto
    ultimately show ?thesis using R(3) by (simp add: nan_pattern_def I widened_exp_def widened_frac_def Let_def e_def [symmetric] f_def [symmetric])
  qed
  have fin: "finite_pattern outs r \<and> fval outs r = fval ins a" if a: "normal_pattern ins a \<or> fabs_bits ins a = 0"
  proof (cases "fabs_bits ins a = 0")
    case True
    then have "e = 0" "f = 0" by (simp_all add: e_def f_def exp_field_def)
    moreover have "(2 :: nat) ^ 2 \<le> 2 ^ ?ie" using W(6) by (intro power_increasing) auto
    then have "(0 :: nat) \<noteq> 2 ^ ?ie - 1" by simp
    moreover have "(1 :: nat) < 2 ^ ?oe"
    proof -
      have "int 0 + cast_bias_diff ins outs < 2 ^ ?oe - 1" by (rule widens_range [OF w]) (use \<open>0 \<noteq> 2 ^ ?ie - 1\<close> in simp)
      then have "int 1 < int (2 ^ ?oe)" using W(4) by simp
      then show ?thesis by (simp only: of_nat_less_iff)
    qed
    ultimately have "fabs_bits outs r = 0" using R(3) True by (simp add: widened_exp_def widened_frac_def Let_def e_def [symmetric] f_def [symmetric])
    then show ?thesis using True \<open>1 < 2 ^ ?oe\<close> by (simp add: finite_pattern_def I fval_def fint_def)
  next
    case False
    then have N: "normal_pattern ins a" using a by simp
    note A = normal_fields [OF N, folded e_def]
    define d where "d = nat (cast_bias_diff ins outs)"
    have e': "widened_exp ins outs a = e + d" using A False by (simp add: widened_exp_def e_def [symmetric] d_def)
    have f': "widened_frac ins outs a = f * 2 ^ (?ofb - ?ifb)" using A by (simp add: widened_frac_def Let_def e_def [symmetric] f_def)
    have "e < 2 ^ ?ie - 1" using A by simp
    from widens_range [OF w this] have "int (e + d + 1) < int (2 ^ ?oe)" using W(4) by (simp add: d_def)
    then have lt: "e + d + 1 < 2 ^ ?oe" by (simp only: of_nat_less_iff)
    have fl: "f * 2 ^ (?ofb - ?ifb) < 2 ^ ?ofb" using c(3) by (simp add: f')
    have "finite_pattern outs r"
    proof -
      have "(e + d + 1) * 2 ^ ?ofb \<le> (2 ^ ?oe - 1) * 2 ^ ?ofb" using lt by (intro mult_le_mono1) simp
      then show ?thesis using R(3) fl by (simp add: finite_pattern_def I e' f')
    qed
    moreover have "pattern_mag ?ofb (fabs_bits outs r) = sig_field ins a * 2 ^ (?ofb - ?ifb) * 2 ^ (e + d - 1)"
    proof -
      have "2 ^ ?ofb + f * 2 ^ (?ofb - ?ifb) = (2 ^ ?ifb + f) * 2 ^ (?ofb - ?ifb)" using W(3) by (simp add: algebra_simps flip: power_add)
      then show ?thesis using R(4,5) A(1) by (simp add: pattern_mag_def fmag_def exp_field_def [symmetric] e' f' sig_field_def f_def)
    qed
    moreover have "fval outs r = fval ins a"
    proof -
      have k: "e + d - 1 = (e - 1) + d" using A(1) by simp
      have "exp_bias ins + 1 - int ?ifb = int (?ofb - ?ifb) + int d + (exp_bias outs + 1 - int ?ofb)"
        using W(3,4) by (simp add: d_def cast_bias_diff_def of_nat_diff)
      then have "(2 :: real) powi (exp_bias ins + 1 - int ?ifb) = 2 ^ (?ofb - ?ifb) * 2 ^ d * 2 powi (exp_bias outs + 1 - int ?ofb)"
        by (rule powi_split)
      then show ?thesis using R(2) calculation(2) A(5) unfolding fval_def fint_def k by (simp add: power_add)
    qed
    ultimately show ?thesis by blast
  qed
  show ?thesis using R(1,2) fin inf nan by blast
qed


lemma cast_widening_exact_witness:
  "fval IEEE32_SPEC_ARGS (float_cast 0x3C01 IEEE16_SPEC_ARGS IEEE32_SPEC_ARGS) = fval IEEE16_SPEC_ARGS 0x3C01"
proof -
  have "pattern_of IEEE16_SPEC_ARGS 0x3C01" by (simp add: pattern_of_def IEEE16_SPEC_ARGS_def)
  moreover have "normal_pattern IEEE16_SPEC_ARGS 0x3C01"
    by (simp add: normal_pattern_def infinity_bits_def fabs_bits_def IEEE16_SPEC_ARGS_def)
  ultimately show ?thesis using cast_widening_exact [OF ieee_widens(1), of "0x3C01"] by blast
qed

section \<open>Narrowing\<close>

lemma float_cast_finite:
  assumes "exc_mode ins = FLOAT_EXC_STD" "sign_spec ins = - 1" "sign_spec outs = - 1" "pattern_of ins a"
    and X: "cast_exp a (drop_bit (frac_bits ins) a AND ones (exp_bits ins)) (a AND ones (frac_bits ins)) ins outs = Some (X, G, False)"
    and E: "drop_bit (frac_bits ins) a AND ones (exp_bits ins) \<noteq> ones (exp_bits ins)"
  shows "float_cast a ins outs = (push_bit (exp_bits outs + frac_bits outs) (of_bool (fsign ins a)) OR push_bit (frac_bits outs) X)
    OR cast_frac G (frac_bits ins) (frac_bits outs) (rnd_mode outs)"
proof -
  have s: "drop_bit (exp_bits ins + frac_bits ins) a = of_bool (fsign ins a)"
    using pattern_of_fields(2) [OF assms(4,2)] by (simp add: word_unat_eq_iff)
  show ?thesis
    unfolding float_cast_def Let_def X s option.case prod.case using assms(1-3) E
    by (simp add: or.assoc or.commute or.left_commute)
qed

lemma cast_exp_narrow:
  assumes w: "widens ins outs" and v: "unat E = e + nat (cast_bias_diff ins outs)" and e: "1 \<le> e" "e < 2 ^ exp_bits ins - 1"
  shows "\<exists>X. cast_exp a E F outs ins = Some (X, F, False) \<and> unat X = e"
proof (cases "exp_bits outs \<noteq> exp_bits ins \<or> exp_bias outs \<noteq> exp_bias ins")
  case True
  define d where "d = nat (cast_bias_diff ins outs)"
  define l where "l = exp_type_size outs ins"
  have bd: "cast_bias_diff ins outs = int d" "exp_bits outs \<le> 30" "has_subnorm ins = has_subnorm outs"
    using w by (simp_all add: widens_def d_def)
  have r: "int d \<le> 2 ^ exp_bits outs - 2 ^ exp_bits ins"
    using w bd(1,3) by (auto simp: widens_def cast_may_leave_def Let_def)
  then have "int (2 ^ exp_bits ins + d) \<le> int (2 ^ exp_bits outs)" by simp
  then have r: "2 ^ exp_bits ins + d \<le> 2 ^ exp_bits outs" by (simp only: of_nat_le_iff)
  have lt: "exp_bits ins < exp_bits outs"
  proof (rule ccontr)
    assume n: "\<not> ?thesis"
    have "(2 :: nat) ^ exp_bits ins \<le> 2 ^ exp_bits outs" using r by linarith
    then have "exp_bits ins \<le> exp_bits outs" by simp
    with n have "exp_bits ins = exp_bits outs" by simp
    moreover from this have "d = 0" using r by simp
    ultimately show False using True bd(1) by (simp add: cast_bias_diff_def)
  qed
  then have l: "exp_bits ins \<le> l - 1" by (simp add: l_def exp_type_size_def Let_def)
  have "(2 :: nat) ^ exp_bits ins \<le> 2 ^ 30" using lt bd(2) by (intro power_increasing) auto
  then have e30: "e < 2 ^ 30" and elt: "e < 2 ^ exp_bits ins" using e(2) by linarith+
  define Y where "Y = E + of_int (cast_bias_diff outs ins)"
  have "cast_bias_diff outs ins = - int d" using bd(1) by (simp add: cast_bias_diff_def)
  moreover have "E = of_nat (unat E)" by simp
  ultimately have "Y = of_nat e" by (simp add: Y_def v d_def)
  then have Y: "unat Y = e" using e30 by (simp add: unat_of_nat)
  have h: "drop_bit n Y = 0" if "exp_bits ins \<le> n" for n
  proof -
    have "(2 :: nat) ^ exp_bits ins \<le> 2 ^ n" using that by (intro power_increasing) auto
    then have "e < 2 ^ n" using elt by linarith
    then show ?thesis by (simp add: word_eq_0_iff_unat unat_drop_bit_div Y)
  qed
  have "E \<noteq> 0" using v e(1) by (auto simp: word_eq_0_iff_unat)
  then have "cast_exp a E F outs ins = Some (Y AND ones (exp_bits ins), F, False)"
    using True h [of "exp_bits ins"] h [OF l] unfolding cast_exp_def Let_def Y_def [symmetric] l_def by simp
  moreover have "unat (Y AND ones (exp_bits ins)) = e" using elt by (simp only: and_ones Y mod_less)
  ultimately show ?thesis by blast
next
  case False
  then show ?thesis using v w by (auto simp: cast_exp_def cast_bias_diff_def widens_def)
qed

lemma cast_frac_narrow:
  assumes "ifb \<le> ofb" "unat F = f * 2 ^ (ofb - ifb)"
  shows "unat (cast_frac F ofb ifb rnd) = f"
proof (cases "ifb < ofb")
  case True
  then obtain k where k: "ofb - ifb = Suc k" by (metis Suc_diff_Suc)
  have "even (unat (drop_bit k F))" by (simp add: unat_drop_bit_div assms(2) k)
  then have "drop_bit k F AND 1 = 0" using last_bit_odd [of "drop_bit k F"] by (simp add: and_one_eq mod2_eq_if)
  then show ?thesis using True k by (simp add: cast_frac_def Let_def unat_drop_bit_div assms(2))
next
  case False
  then show ?thesis using assms by (simp add: cast_frac_def)
qed

text \<open>
  C18. Narrowing undoes widening: a normal number cast to a format that widens its own and back is
  the same pattern.
\<close>

theorem cast_roundtrip:
  fixes a :: u64 and ins outs :: tfspec
  assumes w: "widens ins outs" and p: "pattern_of ins a" "normal_pattern ins a"
  shows "float_cast (float_cast a ins outs) outs ins = a"
proof -
  let ?ie = "exp_bits ins" and ?ifb = "frac_bits ins" and ?oe = "exp_bits outs" and ?ofb = "frac_bits outs"
  define r e f where "r = float_cast a ins outs" and "e = exp_field ins a" and "f = fabs_bits ins a mod 2 ^ ?ifb"
  define d where "d = nat (cast_bias_diff ins outs)"
  have W: "exc_mode outs = FLOAT_EXC_STD" "sign_spec outs = - 1" "sign_spec ins = - 1" "?ifb \<le> ?ofb"
    "?ie + ?ifb < 64" "?oe + ?ofb < 64" "0 \<le> cast_bias_diff ins outs"
    using w by (simp_all add: widens_def)
  note A = normal_fields [OF p(2), folded e_def]
  have f: "f < 2 ^ ?ifb" by (simp add: f_def)
  have e1: "1 \<le> e" and e2: "e < 2 ^ ?ie - 1" using A by simp_all
  have e': "widened_exp ins outs a = e + d" and f': "widened_frac ins outs a = f * 2 ^ (?ofb - ?ifb)"
  proof -
    have "fabs_bits ins a = e * 2 ^ ?ifb + f" by (simp only: e_def f_def exp_field_def div_mult_mod_eq)
    then have "fabs_bits ins a \<noteq> 0" using e1 by simp
    then show "widened_exp ins outs a = e + d" using e2 by (simp add: widened_exp_def e_def [symmetric] d_def)
    show "widened_frac ins outs a = f * 2 ^ (?ofb - ?ifb)" using e2 by (simp add: widened_frac_def Let_def e_def [symmetric] f_def)
  qed
  note R = pattern_bits_fields [OF float_cast_widens [OF w p(1)] W(2), folded r_def, unfolded e' f']
  define E F where "E = (drop_bit ?ofb r AND ones ?oe)" and "F = (r AND ones ?ofb)"
  have u: "unat E = e + d" "unat F = f * 2 ^ (?ofb - ?ifb)"
    using pattern_fields(1,2) [of r outs] R(4,5)
    by (simp_all add: E_def F_def extractFloatExp_def extractFloatFrac_def exp_field_def)
  obtain X where X: "cast_exp r E F outs ins = Some (X, F, False)" "unat X = e"
    using cast_exp_narrow [OF w u(1) [unfolded d_def] e1 e2] by blast
  have "int (e + d) < int (2 ^ ?oe - 1)" using widens_range [OF w e2] W(7) by (simp add: d_def of_nat_diff)
  then have "e + d < 2 ^ ?oe - 1" by (simp only: of_nat_less_iff)
  then have "E \<noteq> ones ?oe" using W(6) unat_ones [of ?oe, where 'a = 64] u(1) by (auto simp del: push_bit_of_1)
  note N = float_cast_finite [OF W(1-3) R(1) X(1) [unfolded E_def F_def] this [unfolded E_def], folded F_def]
  have "unat (cast_frac F ?ofb ?ifb (rnd_mode ins)) = f" by (rule cast_frac_narrow [OF W(4) u(2)])
  then have "unat (float_cast r outs ins) = pattern_bits ins (fsign ins a) e f"
    unfolding N using unat_fields [of _ ?ifb X ?ie "fsign outs r"] X(2) R(2) f e2 W(5) by (simp add: pattern_bits_def)
  then have "unat (float_cast r outs ins) = unat a"
    using pattern_of_fields(1) [OF p(1) W(3)] by (simp add: e_def f_def)
  then show ?thesis by (simp add: word_unat_eq_iff r_def)
qed

lemma cast_roundtrip_witness:
  "float_cast (float_cast 0x3C01 IEEE16_SPEC_ARGS IEEE64_SPEC_ARGS) IEEE64_SPEC_ARGS IEEE16_SPEC_ARGS = 0x3C01"
proof -
  have "pattern_of IEEE16_SPEC_ARGS 0x3C01" by (simp add: pattern_of_def IEEE16_SPEC_ARGS_def)
  moreover have "normal_pattern IEEE16_SPEC_ARGS 0x3C01"
    by (simp add: normal_pattern_def infinity_bits_def fabs_bits_def IEEE16_SPEC_ARGS_def)
  ultimately show ?thesis by (rule cast_roundtrip [OF ieee_widens(3)])
qed

section \<open>Single to double precision\<close>

text \<open>
  C25. From single to double precision, \<^verbatim>\<open>__float_cast\<close> and the dedicated routine
  \<^verbatim>\<open>__float32_to_float64_ieee\<close> return the same pattern for every normal number, zero and infinity.
\<close>

theorem cast_agrees_with_widening:
  fixes a :: u32
  defines "e \<equiv> unat a div 2 ^ 23 mod 256" and "f \<equiv> unat a mod 2 ^ 23"
  assumes "(e \<noteq> 0 \<and> e \<noteq> 255) \<or> f = 0"
  shows "float_cast (ucast a) IEEE32_SPEC_ARGS IEEE64_SPEC_ARGS = float32_to_float64_ieee a FLOAT_EXC_STD True"
proof -
  have l: "unat a < 2 ^ 32" using unat_less_exp [of a] by simp
  have p: "pattern_of IEEE32_SPEC_ARGS (ucast a)" using l by (simp add: pattern_of_def unat_ucast_32)
  have m: "unat a mod (2 ^ 23 * 2 ^ 8) = 2 ^ 23 * (unat a div 2 ^ 23 mod 2 ^ 8) + unat a mod 2 ^ 23" by (rule mod_mult2_eq)
  then have fb: "fabs_bits IEEE32_SPEC_ARGS (ucast a) = e * 2 ^ 23 + f" by (simp add: fabs_bits_def unat_ucast_32 e_def f_def)
  have f: "f < 2 ^ 23" by (simp add: f_def)
  then have ef: "exp_field IEEE32_SPEC_ARGS (ucast a) = e" "fabs_bits IEEE32_SPEC_ARGS (ucast a) mod 2 ^ 23 = f"
    by (simp_all add: exp_field_def fb)
  have s: "fsign IEEE32_SPEC_ARGS (ucast a) = (unat a div 2 ^ 31 = 1)"
    using single_fields(3) [of a] by (simp add: fsign_def)
  have z: "fabs_bits IEEE32_SPEC_ARGS (ucast a) = 0 \<longleftrightarrow> e = 0 \<and> f = 0" by (simp add: fb)
  have d: "cast_bias_diff IEEE32_SPEC_ARGS IEEE64_SPEC_ARGS = 896" by (simp add: cast_bias_diff_def)
  have c: "unat (float_cast (ucast a) IEEE32_SPEC_ARGS IEEE64_SPEC_ARGS)
      = of_bool (unat a div 2 ^ 31 = 1) * 2 ^ 63 + ((if e = 255 then 2047 else if e = 0 \<and> f = 0 then 0 else e + 896) * 2 ^ 52
        + (if e = 255 then (if f \<noteq> 0 then 2 ^ 52 - 1 else 0) else f * 2 ^ 29))"
    unfolding float_cast_widens(1) [OF ieee_widens(2) p] pattern_bits_def widened_exp_def widened_frac_def Let_def s d z
    using ef by simp
  consider "e \<noteq> 0" "e \<noteq> 255" | "e = 0" "f = 0" | "e = 255" "f = 0" using assms(3) by blast
  then have "unat (float32_to_float64_ieee a FLOAT_EXC_STD True) = unat (float_cast (ucast a) IEEE32_SPEC_ARGS IEEE64_SPEC_ARGS)"
  proof cases
    case 1
    have "(e + 0x37F) * 2 ^ 52 + (2 ^ 23 + f) * 2 ^ 29 = (e + 896) * 2 ^ 52 + f * 2 ^ 29" by simp
    then show ?thesis unfolding c using 1 widen_normal [of a FLOAT_EXC_STD True, folded e_def f_def] by simp
  next
    case 2
    then show ?thesis unfolding c using widen_zero [of a] by (simp add: e_def f_def)
  next
    case 3
    have "unat (push_bit 63 (of_bool (unat a div 2 ^ 31 = 1)) OR 0x7FF0000000000000 :: u64) = of_bool (unat a div 2 ^ 31 = 1) * 2 ^ 63 + 2047 * 2 ^ 52"
      by (cases "unat a div 2 ^ 31 = 1") simp_all
    then show ?thesis unfolding c using 3 widen_special [of a True] by (simp add: e_def f_def)
  qed
  then show ?thesis by (simp add: word_unat_eq_iff)
qed

lemma cast_agrees_with_widening_witness:
  "float_cast (ucast (0x3F800001 :: u32)) IEEE32_SPEC_ARGS IEEE64_SPEC_ARGS = float32_to_float64_ieee 0x3F800001 FLOAT_EXC_STD True"
  by (rule cast_agrees_with_widening) simp

section \<open>Operands that are not converted\<close>

lemma ieee64_to_32:
  "exp_bits IEEE64_SPEC_ARGS = 11" "frac_bits IEEE64_SPEC_ARGS = 52" "exp_bits IEEE32_SPEC_ARGS = 8" "frac_bits IEEE32_SPEC_ARGS = 23"
  "sign_spec IEEE64_SPEC_ARGS = - 1" "sign_spec IEEE32_SPEC_ARGS = - 1" "exp_bias IEEE64_SPEC_ARGS = - 1023" "exp_bias IEEE32_SPEC_ARGS = - 127"
  "exc_mode IEEE64_SPEC_ARGS = FLOAT_EXC_STD" "exc_mode IEEE32_SPEC_ARGS = FLOAT_EXC_STD" "rnd_mode IEEE32_SPEC_ARGS = FLOAT_RND_NEVN"
  "cast_bias_diff IEEE64_SPEC_ARGS IEEE32_SPEC_ARGS = - 896" "cast_may_leave IEEE64_SPEC_ARGS IEEE32_SPEC_ARGS"
  by (simp_all add: IEEE32_SPEC_ARGS_def IEEE64_SPEC_ARGS_def cast_bias_diff_def cast_may_leave_def)

lemma needed_bits_ieee: "needed_bits (- 1023) = 31" "needed_bits (- 127) = 31"
proof -
  have "clz_window_runtime 32 (- 1023) = clz_window_runtime 32 0xFFFFFC01" "clz_window_runtime 32 (- 127) = clz_window_runtime 32 0xFFFFFF81"
    by (simp_all add: clz_window_runtime_def VAL_RESIZE_def)
  then have "unat (count_leading_zero_runtime_macro 32 (- 1023)) = 0" "unat (count_leading_zero_runtime_macro 32 (- 127)) = 0"
    using count_leading_zero_macros_clz(2) [of 32 "0xFFFFFC01" 0] count_leading_zero_macros_clz(2) [of 32 "0xFFFFFF81" 0]
    by (simp_all add: count_leading_zero_runtime_macro_def is_clz_def)
  then show "needed_bits (- 1023) = 31" "needed_bits (- 127) = 31" by (simp_all add: needed_bits_def Let_def)
qed

lemma exp_type_size_64_32: "exp_type_size IEEE64_SPEC_ARGS IEEE32_SPEC_ARGS = 31"
  by (simp add: exp_type_size_def ieee64_to_32 needed_bits_ieee Let_def)

lemma cast_64_32_invalid:
  assumes "w \<noteq> 0" "drop_bit 8 ((drop_bit 52 w AND 0x7FF) - 896) AND 0x3FFFFF \<noteq> 0 \<or> drop_bit 30 ((drop_bit 52 w AND 0x7FF) - 896) AND 1 \<noteq> 0"
  shows "float_cast w IEEE64_SPEC_ARGS IEEE32_SPEC_ARGS = 0"
proof -
  have "cast_exp w (drop_bit 52 w AND 0x7FF) F IEEE64_SPEC_ARGS IEEE32_SPEC_ARGS = None" for F
    using assms by (auto simp: cast_exp_def ieee64_to_32 exp_type_size_64_32 Let_def)
  then show ?thesis by (simp add: float_cast_def ieee64_to_32 Let_def)
qed

text \<open>
  What the conversion does not do. From double to single precision an infinity, a number from \<open>2^129\<close> on, one below the least normal single and the negative zero all become the
  positive zero (the comment in the code calls the conversion invalid), and the rounding sets
  the last bit of the truncated fraction where round-to-nearest adds to it: \<open>1 + 3/2\<cdot>2^-23 + 2^-52\<close> becomes \<open>1 + 2^-23\<close>,
  not \<open>1 + 2^-22\<close>; \<open>3/2\<cdot>2^128\<close>, above the greatest single, becomes a NaN. From single to double precision a subnormal keeps its fraction under a hidden bit it does not have.
\<close>

theorem cast_gaps:
  "float_cast 0x7FF0000000000000 IEEE64_SPEC_ARGS IEEE32_SPEC_ARGS = 0
   \<and> float_cast 0x4800000000000000 IEEE64_SPEC_ARGS IEEE32_SPEC_ARGS = 0
   \<and> float_cast 0x37F0000000000000 IEEE64_SPEC_ARGS IEEE32_SPEC_ARGS = 0
   \<and> float_cast 0x8000000000000000 IEEE64_SPEC_ARGS IEEE32_SPEC_ARGS = 0
   \<and> float_cast 0x3FF0000030000001 IEEE64_SPEC_ARGS IEEE32_SPEC_ARGS = 0x3F800001
   \<and> float_cast 0x47F8000000000000 IEEE64_SPEC_ARGS IEEE32_SPEC_ARGS = 0x7FC00000
   \<and> float_cast 1 IEEE32_SPEC_ARGS IEEE64_SPEC_ARGS = 0x3800000020000000"
proof (intro conjI)
  show "float_cast 0x7FF0000000000000 IEEE64_SPEC_ARGS IEEE32_SPEC_ARGS = 0"
    "float_cast 0x4800000000000000 IEEE64_SPEC_ARGS IEEE32_SPEC_ARGS = 0"
    "float_cast 0x37F0000000000000 IEEE64_SPEC_ARGS IEEE32_SPEC_ARGS = 0"
    "float_cast 0x8000000000000000 IEEE64_SPEC_ARGS IEEE32_SPEC_ARGS = 0"
    by (rule cast_64_32_invalid; simp add: mask_eq_exp_minus_1)+
  have "cast_exp 0x3FF0000030000001 1023 0x30000001 IEEE64_SPEC_ARGS IEEE32_SPEC_ARGS = Some (127, 0x30000001, False)"
    by (simp add: cast_exp_def ieee64_to_32 exp_type_size_64_32 Let_def)
  moreover have "cast_frac 0x30000001 52 23 FLOAT_RND_NEVN = 1" by (simp add: cast_frac_def)
  ultimately show "float_cast 0x3FF0000030000001 IEEE64_SPEC_ARGS IEEE32_SPEC_ARGS = 0x3F800001"
    by (simp add: float_cast_def ieee64_to_32 Let_def)
  have "cast_exp 0x47F8000000000000 1151 0x8000000000000 IEEE64_SPEC_ARGS IEEE32_SPEC_ARGS = Some (255, 0x8000000000000, False)"
    by (simp add: cast_exp_def ieee64_to_32 exp_type_size_64_32 Let_def)
  moreover have "cast_frac 0x8000000000000 52 23 FLOAT_RND_NEVN = 0x400000" by (simp add: cast_frac_def)
  ultimately show "float_cast 0x47F8000000000000 IEEE64_SPEC_ARGS IEEE32_SPEC_ARGS = 0x7FC00000"
    by (simp add: float_cast_def ieee64_to_32 Let_def)
  have "pattern_of IEEE32_SPEC_ARGS 1" by (simp add: pattern_of_def)
  from float_cast_widens(1) [OF ieee_widens(2) this]
  have "unat (float_cast 1 IEEE32_SPEC_ARGS IEEE64_SPEC_ARGS) = 0x3800000020000000"
    by (simp add: pattern_bits_def widened_exp_def widened_frac_def fsign_def extractFloatSign_def exp_field_def fabs_bits_def cast_bias_diff_def)
  then show "float_cast 1 IEEE32_SPEC_ARGS IEEE64_SPEC_ARGS = 0x3800000020000000"
    by (simp add: word_unat_eq_iff)
qed

end
