(* ===== verification/FloatDiv.thy ===== *)
theory FloatDiv
  imports FloatMul
begin

text \<open>
  Division, \<^verbatim>\<open>__kernel_float_divSRT4\<close> of \<^verbatim>\<open>etc/libbambu/softfloat/softfloat.c\<close> and its two entry points, in its
  parts: the classes of the operands and of the result, the normalisation of subnormal operands, the
  radix-4 digit recurrence, rounding, and the choice of the result. The theorems show that the
  recurrence computes the quotient and remainder of the significands, that the division of a finite number by
  a normal number is correctly rounded, that the unrolled form agrees with the loop, what happens to zeros, infinities and NaNs, and where
  subnormal numbers are handled wrongly.
\<close>

section \<open>The program\<close>

text \<open>The class of an operand from its fields, and whether it is a number, a zero, an infinity or a NaN.\<close>

definition div_class :: "u64 \<Rightarrow> u64 \<Rightarrow> tfspec \<Rightarrow> u8 \<times> bool \<times> bool \<times> bool \<times> bool" where
  "div_class aExp aSig sp =
    (let exc = exc_mode sp;
         aExpMax = (aExp = ones (exp_bits sp));
         a_c_zero = (aExp = 0 \<and> (aSig = 0 \<or> \<not> has_subnorm sp));
         a_c_inf = (aExpMax \<and> (aSig = 0 \<or> exc = FLOAT_EXC_NONAN));
         a_c_inf = (if exc \<noteq> FLOAT_EXC_OVF then a_c_inf else False);
         a_c_nan = (aExpMax \<and> aSig \<noteq> 0);
         a_c_nan = (if exc = FLOAT_EXC_STD then a_c_nan else False);
         a_c_normal = (\<not> aExpMax \<and> \<not> a_c_zero);
         a_c_normal = (if exc \<noteq> FLOAT_EXC_OVF then a_c_normal else \<not> a_c_zero)
     in ((cls_select a_c_normal FP_CLS_NORMAL OR cls_select a_c_inf FP_CLS_INF) OR cls_select a_c_nan FP_CLS_NAN,
         a_c_normal, a_c_zero, a_c_inf, a_c_nan))"

definition div_class_result :: "u8 \<Rightarrow> u8 \<Rightarrow> nat \<Rightarrow> u8" where
  "div_class_result a_c b_c exc =
    (let a1 = drop_bit 1 a_c; b1 = drop_bit 1 b_c;
         z_c = push_bit 1 ((a1 OR ((1 AND NOT b1) AND NOT (b_c AND 1))) OR ((1 AND b1) AND b_c)) OR
               (((((1 AND a1) AND a_c) OR ((1 AND b1) AND b_c)) OR ((1 AND a1) AND b1)) OR ((1 AND a_c) AND b_c)
                OR ((((1 AND NOT a1) AND NOT (a_c AND 1)) AND NOT b1) AND NOT (b_c AND 1)))
     in if exc = FLOAT_EXC_OVF then z_c AND 1 else z_c)"

text \<open>A subnormal operand is shifted until its leading bit is in the place of the hidden bit.\<close>

definition div_normalise :: "u64 \<Rightarrow> u64 \<Rightarrow> tfspec \<Rightarrow> int \<times> u64" where
  "div_normalise aExp aSig sp =
    (if has_subnorm sp \<and> aExp = 0 \<and> aSig \<noteq> 0 then
       (let (subnormal_lz, mshifted) = count_leading_zero_lshift_runtime_macro (frac_bits sp) aSig
        in (- uint subnormal_lz, push_bit 1 mshifted AND ones (frac_bits sp)))
     else (uint aExp, aSig))"

text \<open>
  One digit of the quotient, from \<open>- 3\<close> to \<open>3\<close>: it is selected by the leading four bits of the
  remainder and the leading fraction bit of the divisor, as the three bits \<^verbatim>\<open>q_i2\<close>, \<^verbatim>\<open>q_i1\<close>, \<^verbatim>\<open>q_i0\<close> of
  its two's complement. The positive and the negative parts of the digits are collected in two words.
\<close>

definition srt4_select :: "u64 \<Rightarrow> bool \<Rightarrow> nat \<Rightarrow> u64" where
  "srt4_select current MsbB fb = push_bit 1 (drop_bit (fb + 3 - 4) current AND 15) OR of_bool MsbB"

definition srt4_digit :: "u64 \<Rightarrow> bool \<times> bool \<times> bool" where
  "srt4_digit current_sel =
    (SELECT_BIT current_sel 4 \<noteq> 0, drop_bit (unat current_sel) (0xFE00FFD0 :: u32) AND 1 \<noteq> 0,
     drop_bit (unat current_sel) (0xF1FFFF6C :: u32) AND 1 \<noteq> 0)"

definition srt4_multiple :: "u64 \<Rightarrow> u64 \<Rightarrow> u64" where
  "srt4_multiple bSig q_i =
    (let nbSig = - bSig; bSigx2 = push_bit 1 bSig; nbSigx2 = - bSigx2;
         bSigx3 = bSigx2 + bSig; nbSigx3 = - bSigx3
     in if q_i = 1 then nbSig else if q_i = 7 then bSig
        else if q_i = 2 then nbSigx2 else if q_i = 6 then bSigx2
        else if q_i = 3 then nbSigx3 else if q_i = 5 then bSigx3
        else 0)"

definition srt4_step :: "u64 \<Rightarrow> bool \<Rightarrow> nat \<Rightarrow> u64 \<times> u64 \<times> u64 \<Rightarrow> u64 \<times> u64 \<times> u64" where
  "srt4_step bSig MsbB fb = (\<lambda>(current, positive, negative).
    (let (q_i2, q_i1, q_i0) = srt4_digit (srt4_select current MsbB fb);
         q_i = (push_bit 2 (of_bool q_i2) OR push_bit 1 (of_bool q_i1)) OR of_bool q_i0;
         positive = push_bit 2 (positive OR (push_bit 1 (of_bool q_i1) OR of_bool q_i0));
         negative = push_bit 2 (negative OR push_bit 1 (of_bool q_i2));
         w = srt4_multiple bSig q_i;
         current = (push_bit 1 current + w) AND ones (fb + 3 - 1)
     in (push_bit 1 current, positive, negative)))"

text \<open>The loop, and the switch over the number of steps whose cases fall through from 32 down to 1.\<close>

definition srt4_loop :: "u64 \<Rightarrow> bool \<Rightarrow> nat \<Rightarrow> nat \<Rightarrow> u64 \<times> u64 \<times> u64 \<Rightarrow> u64 \<times> u64 \<times> u64" where
  "srt4_loop bSig MsbB fb div_it = srt4_step bSig MsbB fb ^^ div_it"

definition srt4_unrolled :: "u64 \<Rightarrow> bool \<Rightarrow> nat \<Rightarrow> nat \<Rightarrow> u64 \<times> u64 \<times> u64 \<Rightarrow> u64 \<times> u64 \<times> u64" where
  "srt4_unrolled bSig MsbB fb div_it =
    fold (\<lambda>_. srt4_step bSig MsbB fb) (dropWhile (\<lambda>label. label \<noteq> div_it) (rev [1..<33]))"

definition frac_p3 :: "nat \<Rightarrow> nat \<Rightarrow> nat" where
  "frac_p3 fb rnd = (if rnd = FLOAT_RND_NEVN then fb + 3 else fb + 1)"

text \<open>The quotient with a last bit for the remainder.\<close>

definition srt4_quotient :: "u64 \<Rightarrow> u64 \<Rightarrow> bool \<Rightarrow> nat \<Rightarrow> nat \<Rightarrow> bool \<Rightarrow> u64" where
  "srt4_quotient aSig bSig MsbB fb rnd full_unroll =
    (let p3 = frac_p3 fb rnd;
         frac_odd = odd p3;
         div_it = p3 div 2;
         div_it = (if p3 mod 2 \<noteq> 0 then div_it + 1 else div_it);
         div_bits = div_it * 2;
         div_waste = div_bits - p3 - of_bool frac_odd;
         (current, positive, negative) =
           (if full_unroll then srt4_unrolled bSig MsbB fb div_it (aSig, 0, 0) else srt4_loop bSig MsbB fb div_it (aSig, 0, 0));
         positive = (if div_waste > 1 then drop_bit div_waste positive else positive);
         negative = (if div_waste > 1 then drop_bit div_waste negative else negative);
         positive = positive OR push_bit 1 (of_bool (current \<noteq> 0));
         negative = negative OR (drop_bit (p3 - 2) current AND 2);
         negative = push_bit 1 negative AND ones (p3 + 2);
         zSig0 = drop_bit 1 (positive - negative);
         zSig0 = (if frac_odd then drop_bit 1 zSig0 OR (zSig0 AND 1) else zSig0)
     in zSig0 AND ones (p3 + 1))"

text \<open>Whether the quotient of the significands is at least 1, its fraction, and the decision to round up.\<close>

definition srt4_significand :: "u64 \<Rightarrow> nat \<Rightarrow> nat \<Rightarrow> bool \<times> u64 \<times> bool" where
  "srt4_significand zSig0 fb rnd =
    (let p3 = frac_p3 fb rnd;
         correction = (drop_bit p3 zSig0 AND 1 \<noteq> 0);
         zSig1 = drop_bit (of_bool correction) zSig0 OR (zSig0 AND 1);
         zSig1 = zSig1 AND ones (p3 - 1);
         LSB_bit = (SELECT_BIT zSig1 2 \<noteq> 0); Guard_bit = (SELECT_BIT zSig1 1 \<noteq> 0); Round_bit = (SELECT_BIT zSig1 0 \<noteq> 0)
     in (correction, zSig1, if rnd = FLOAT_RND_NEVN then Guard_bit \<and> (LSB_bit \<or> Round_bit) else False))"

definition div_exponent :: "int \<Rightarrow> int \<Rightarrow> int \<Rightarrow> bool \<Rightarrow> int" where
  "div_exponent aExp bExp bias correction =
    (if bias AND 1 \<noteq> 0 then aExp - bExp + (NOT bias OR of_bool correction)
     else aExp - bExp - bias - of_bool (\<not> correction))"

text \<open>The number with its exponent: underflow, overflow, or exponent and fraction in one word.\<close>

definition div_number :: "bool \<Rightarrow> int \<Rightarrow> u64 \<Rightarrow> bool \<Rightarrow> tfspec \<Rightarrow> u64" where
  "div_number zSign zExp zSig1 rup sp =
    (let eb = exp_bits sp; fb = frac_bits sp; exc = exc_mode sp;
         MSB1zExp = (drop_bit (eb + 1) zExp \<noteq> 0);
         MSB0zExp = (drop_bit eb zExp \<noteq> 0);
         zExp = of_int zExp AND ones (eb + 1) :: u64;
         zExpSig = (if rnd_mode sp = FLOAT_RND_NEVN
                    then (push_bit fb zExp OR drop_bit 2 zSig1) + of_bool rup
                    else push_bit fb zExp OR zSig1);
         MSBzExp = (drop_bit (eb + fb) zExpSig \<noteq> 0);
         ovfCond = ((MSB0zExp \<and> \<not> MSBzExp) \<noteq> MSB1zExp)
     in if ovfCond then push_bit (eb + fb) (of_bool zSign)
        else if MSBzExp \<or> zExp = ones eb \<and> exc \<noteq> FLOAT_EXC_OVF
        then (push_bit (eb + fb) (of_bool zSign) OR push_bit fb (ones eb)) OR (if exc \<noteq> FLOAT_EXC_OVF then 0 else ones fb)
        else push_bit (eb + fb) (of_bool zSign) OR (zExpSig AND ones (eb + fb)))"

definition kernel_float_divSRT4 :: "u64 \<Rightarrow> u64 \<Rightarrow> tfspec \<Rightarrow> bool \<Rightarrow> u64" where
  "kernel_float_divSRT4 a b sp full_unroll =
    (let eb = exp_bits sp; fb = frac_bits sp; exc = exc_mode sp; sg = sign_spec sp;
         MsbB = (drop_bit (fb - 1) b AND 1 \<noteq> 0)
     in if sg = 1 then (if exc = FLOAT_EXC_STD then float_nan eb fb sg else 0)
        else
     (let aSig = extractFloatFrac a fb;
          aExp = extractFloatExp a eb fb;
          aSign = extractFloatSign a eb fb sg;
          bSig = extractFloatFrac b fb;
          bExp = extractFloatExp b eb fb;
          bSign = extractFloatSign b eb fb sg;
          zSign = (aSign \<noteq> bSign);
          (a_c, a_c_normal, a_c_zero, a_c_inf, a_c_nan) = div_class aExp aSig sp;
          (b_c, b_c_normal, b_c_zero, b_c_inf, b_c_nan) = div_class bExp bSig sp;
          z_c = div_class_result a_c b_c exc;
          (aExp, aSig) = div_normalise aExp aSig sp;
          (bExp, bSig) = div_normalise bExp bSig sp;
          aSig = aSig OR push_bit fb (of_bool (has_one sp \<and> (a_c_normal \<or> \<not> has_subnorm sp)));
          bSig = bSig OR push_bit fb (of_bool (has_one sp \<and> (b_c_normal \<or> \<not> has_subnorm sp)));
          zSig0 = srt4_quotient aSig bSig MsbB fb (rnd_mode sp) full_unroll;
          (correction, zSig1, rup) = srt4_significand zSig0 fb (rnd_mode sp);
          zExp = div_exponent aExp bExp (exp_bias sp) correction
      in if z_c = FP_CLS_NORMAL then div_number zSign zExp zSig1 rup sp
         else if z_c = FP_CLS_ZERO then push_bit (eb + fb) (of_bool zSign)
         else if z_c = FP_CLS_NAN \<and> exc \<noteq> FLOAT_EXC_NONAN then
           push_bit (eb + fb) ((of_bool (if a_c_nan then aSign else bSign) OR of_bool (a_c_inf \<and> b_c_inf)) OR of_bool (a_c_zero \<and> b_c_zero))
           OR (if exc = FLOAT_EXC_STD
               then (push_bit fb (ones eb) OR push_bit (fb - 1) 1) OR (if a_c_nan then aSig else if b_c_nan then bSig else 0)
               else 0)
         else (push_bit (eb + fb) (of_bool (\<not> (exc = FLOAT_EXC_NONAN \<and> z_c = FP_CLS_NAN) \<and> zSign)) OR push_bit fb (ones eb))
              OR (if exc \<noteq> FLOAT_EXC_OVF then 0 else ones fb)))"

definition float_divSRT4 :: "u64 \<Rightarrow> u64 \<Rightarrow> tfspec \<Rightarrow> u64" where
  "float_divSRT4 a b sp = kernel_float_divSRT4 a b sp False"

definition float_divSRT4U :: "u64 \<Rightarrow> u64 \<Rightarrow> tfspec \<Rightarrow> u64" where
  "float_divSRT4U a b sp = kernel_float_divSRT4 a b sp True"

section \<open>The digit recurrence\<close>

text \<open>The digit, as a number, and the words of its bits.\<close>

definition digit_value :: "bool \<times> bool \<times> bool \<Rightarrow> int" where
  "digit_value d = (case d of (q2, q1, q0) \<Rightarrow> 2 * of_bool q1 + of_bool q0 - 4 * of_bool q2)"

definition table_digit :: "int \<Rightarrow> bool \<Rightarrow> bool \<times> bool \<times> bool" where
  "table_digit t m = srt4_digit (of_int (2 * (t mod 16) + of_bool m))"

text \<open>The selection table, by the integer part of the remainder and the leading fraction bit of the
  divisor.\<close>

lemma table_digits:
  "table_digit (- 8) False = (True, False, True)" "table_digit (- 8) True = (True, False, True)"
  "table_digit (- 7) False = (True, False, True)" "table_digit (- 7) True = (True, False, True)"
  "table_digit (- 6) False = (True, False, True)" "table_digit (- 6) True = (True, False, True)"
  "table_digit (- 5) False = (True, False, True)" "table_digit (- 5) True = (True, False, True)"
  "table_digit (- 4) False = (True, False, True)" "table_digit (- 4) True = (True, True, False)"
  "table_digit (- 3) False = (True, True, False)" "table_digit (- 3) True = (True, True, False)"
  "table_digit (- 2) False = (True, True, True)" "table_digit (- 2) True = (True, True, True)"
  "table_digit (- 1) False = (True, True, True)" "table_digit (- 1) True = (True, True, True)"
  "table_digit 0 False = (False, False, False)" "table_digit 0 True = (False, False, False)"
  "table_digit 1 False = (False, False, True)" "table_digit 1 True = (False, False, True)"
  "table_digit 2 False = (False, True, False)" "table_digit 2 True = (False, False, True)"
  "table_digit 3 False = (False, True, True)" "table_digit 3 True = (False, True, False)"
  "table_digit 4 False = (False, True, True)" "table_digit 4 True = (False, True, True)"
  "table_digit 5 False = (False, True, True)" "table_digit 5 True = (False, True, True)"
  "table_digit 6 False = (False, True, True)" "table_digit 6 True = (False, True, True)"
  "table_digit 7 False = (False, True, True)" "table_digit 7 True = (False, True, True)"
  by (simp_all add: table_digit_def srt4_digit_def SELECT_BIT_def)

lemma int_cases_16:
  fixes t :: int
  assumes "- 8 \<le> t" "t \<le> 7"
  shows "t = - 8 \<or> t = - 7 \<or> t = - 6 \<or> t = - 5 \<or> t = - 4 \<or> t = - 3 \<or> t = - 2 \<or> t = - 1
    \<or> t = 0 \<or> t = 1 \<or> t = 2 \<or> t = 3 \<or> t = 4 \<or> t = 5 \<or> t = 6 \<or> t = 7"
  using assms by presburger

text \<open>A remainder \<open>C\<close> of at most twice the divisor, in units \<open>u\<close> of which the divisor has two to four: the
  digit of the table leaves at most the divisor.\<close>

lemma table_digit_bound:
  fixes C b u t :: int
  assumes t: "- 8 \<le> t" "t \<le> 7" "t * u \<le> C" "C < (t + 1) * u"
    and b: "2 * u \<le> b" "b < 4 * u" "m \<longleftrightarrow> 3 * u \<le> b" and C: "- (2 * b) \<le> C" "C < 2 * b"
  shows "- b \<le> 2 * C - digit_value (table_digit t m) * b \<and> 2 * C - digit_value (table_digit t m) * b < b"
proof (cases m)
  case True
  have T: "t * u \<le> C" "C < t * u + u" "3 * u \<le> b" "b < 4 * u" "- (2 * b) \<le> C" "C < 2 * b" using t b C True by (simp_all add: algebra_simps)
  from int_cases_16 [OF t(1,2)] True show ?thesis
    by (elim disjE; simp only: table_digits digit_value_def prod.case of_bool_eq; intro conjI; insert T; simp)
next
  case False
  have T: "t * u \<le> C" "C < t * u + u" "2 * u \<le> b" "b < 3 * u" "- (2 * b) \<le> C" "C < 2 * b" using t b C False by (simp_all add: algebra_simps)
  from int_cases_16 [OF t(1,2)] False show ?thesis
    by (elim disjE; simp only: table_digits digit_value_def prod.case of_bool_eq; intro conjI; insert T; simp)
qed

text \<open>The words that the recurrence computes, as integers.\<close>

lemma of_int_and_ones: "(of_int k :: 'a::len word) AND ones n = of_int (k mod 2 ^ n)"
  by (simp only: ones_mask take_bit_eq_mask [symmetric] take_bit_of_int) (simp only: take_bit_eq_mod)

lemma push_1_of_int: "push_bit 1 (of_int k :: 'a::len word) = of_int (2 * k)"
  by (simp add: push_bit_eq_mult)

lemma srt4_select_eq:
  assumes "1 \<le> fb" "fb \<le> 61" "current = of_int (C mod 2 ^ (fb + 3))"
  shows "srt4_select current m fb = of_int (2 * (C div 2 ^ (fb - 1) mod 16) + of_bool m)"
proof -
  define D where "D = C mod 2 ^ (fb + 3)"
  have D: "0 \<le> D" "D < 2 ^ (fb + 3)" by (simp_all add: D_def)
  have "(2 :: int) ^ (fb + 3) \<le> 2 ^ 64" using assms(2) by (intro power_increasing) auto
  then have "D < 2 ^ 64" using D(2) by linarith
  then have "uint (of_int D :: u64) = D" using D(1) by (simp add: uint_word_of_int)
  then have u: "int (unat current) = D" using assms(3) by (simp add: D_def)
  have e: "fb + 3 = (fb - 1) + 4" using assms(1) by simp
  have "unat (drop_bit (fb - 1) current AND 15) = unat current div 2 ^ (fb - 1) mod 16"
    using and_ones [of "drop_bit (fb - 1) current" 4] by (simp add: unat_drop_bit_div)
  then have "int (unat (drop_bit (fb - 1) current AND 15)) = int (unat current) div int (2 ^ (fb - 1)) mod int 16"
    by (simp only: zdiv_int zmod_int)
  also have "\<dots> = D div 2 ^ (fb - 1) mod 16" unfolding u by simp
  also have "D div 2 ^ (fb - 1) = C div 2 ^ (fb - 1) mod 2 ^ 4"
    unfolding D_def e power_add by (subst zmod_zmult2_eq) simp_all
  finally have s: "int (unat (drop_bit (fb - 1) current AND 15)) = C div 2 ^ (fb - 1) mod 16" by simp
  have "drop_bit (fb - 1) current AND 15 = of_int (int (unat (drop_bit (fb - 1) current AND 15)))" by simp
  then have "drop_bit (fb - 1) current AND 15 = of_int (C div 2 ^ (fb - 1) mod 16)" unfolding s .
  moreover have "fb + 3 - 4 = fb - 1" by simp
  ultimately show ?thesis
    using push_or_add [of "of_bool m :: u64" 1 "drop_bit (fb - 1) current AND 15"] unfolding srt4_select_def
    by (simp add: push_1_of_int [unfolded One_nat_def])
qed

lemma srt4_multiple_eq:
  "q2 \<longrightarrow> q1 \<or> q0 \<Longrightarrow> srt4_multiple (of_int b) ((push_bit 2 (of_bool q2) OR push_bit 1 (of_bool q1)) OR of_bool q0) = of_int (- digit_value (q2, q1, q0) * b)"
  by (cases q2; cases q1; cases q0) (simp_all add: srt4_multiple_def digit_value_def Let_def push_bit_eq_mult)

text \<open>After \<open>i\<close> steps on a dividend \<open>A\<close>: the remainder \<open>C\<close>, and the positive and negative digits.\<close>

definition srt4_state :: "nat \<Rightarrow> int \<Rightarrow> int \<Rightarrow> nat \<Rightarrow> u64 \<times> u64 \<times> u64 \<Rightarrow> int \<Rightarrow> nat \<Rightarrow> nat \<Rightarrow> bool" where
  "srt4_state fb A b i s C P N \<longleftrightarrow> s = (of_int (C mod 2 ^ (fb + 3)), of_nat (4 * P), of_nat (8 * N))
     \<and> - (2 * b) \<le> C \<and> C < 2 * b \<and> 4 ^ i * A = 2 * b * (int P - 4 * int N) + C
     \<and> (if i = 0 then 0 \<le> C \<and> N = 0 else 3 * N + 1 \<le> 4 ^ (i - 1))"

lemma srt4_step_state:
  fixes b :: int
  assumes fb: "1 \<le> fb" "fb \<le> 61" and b: "2 ^ fb \<le> b" "b < 2 ^ (fb + 1)" "m \<longleftrightarrow> 3 * 2 ^ (fb - 1) \<le> b"
    and s: "srt4_state fb A b i s C P N"
  shows "\<exists>C' P' N'. srt4_state fb A b (Suc i) (srt4_step (of_int b) m fb s) C' P' N'"
proof -
  define u t :: int where "u = 2 ^ (fb - 1)" and "t = C div u"
  obtain q2 q1 q0 where q: "table_digit t m = (q2, q1, q0)" by (metis prod_cases3)
  define d where "d = digit_value (q2, q1, q0)"
  have S: "s = (of_int (C mod 2 ^ (fb + 3)), of_nat (4 * P), of_nat (8 * N))" "- (2 * b) \<le> C" "C < 2 * b"
    "4 ^ i * A = 2 * b * (int P - 4 * int N) + C" "if i = 0 then 0 \<le> C \<and> N = 0 else 3 * N + 1 \<le> 4 ^ (i - 1)"
    using s unfolding srt4_state_def by blast+
  obtain k where "fb = Suc k" using fb(1) by (cases fb) auto
  then have u: "2 ^ fb = 2 * u" "2 ^ (fb + 1) = 4 * u" "0 < u" by (simp_all add: u_def)
  have "t * u + C mod u = C" unfolding t_def by (rule div_mult_mod_eq)
  moreover have "(t + 1) * u = t * u + u" by (simp add: distrib_right)
  ultimately have tC: "t * u \<le> C" "C < (t + 1) * u" using pos_mod_bound [OF u(3), of C] pos_mod_sign [OF u(3), of C] by linarith+
  have "- 8 * u \<le> C" "C < 8 * u" using S(2,3) b(2) u by linarith+
  then have t: "- 8 \<le> t" "t \<le> 7"
  proof -
    have "t * u < 8 * u" "- 8 * u < (t + 1) * u" using tC \<open>- 8 * u \<le> C\<close> \<open>C < 8 * u\<close> by linarith+
    then have "t < 8" "- 8 < t + 1" using u(3) by (simp_all only: mult_less_cancel_right_pos)
    then show "- 8 \<le> t" "t \<le> 7" by linarith+
  qed
  note B = table_digit_bound [OF t tC b(1) [unfolded u] b(2) [unfolded u] b(3) [folded u_def] S(2,3), unfolded q, folded d_def]
  have q4: "q2 \<longrightarrow> q1 \<or> q0" and q2: "q2 \<Longrightarrow> t < 0"
    using int_cases_16 [OF t] q by (cases m; auto simp: table_digits)+
  have sel: "srt4_digit (srt4_select (of_int (C mod 2 ^ (fb + 3))) m fb) = (q2, q1, q0)"
    unfolding srt4_select_eq [OF fb refl] q [symmetric] table_digit_def t_def u_def ..
  have low: "unat (push_bit 1 (of_bool q1) OR of_bool q0 :: u64) < 2 ^ 2" "push_bit 1 (of_bool q1) OR of_bool q0 = (of_nat (2 * of_bool q1 + of_bool q0) :: u64)"
    "unat (push_bit 1 (of_bool q2) :: u64) < 2 ^ 3" "push_bit 1 (of_bool q2) = (of_nat (2 * of_bool q2) :: u64)"
    by (cases q1; cases q0; cases q2; simp)+
  have four: "of_nat (4 * n) = push_bit 2 (of_nat n :: u64)" "of_nat (8 * n) = push_bit 3 (of_nat n :: u64)" for n
    by (simp_all add: push_bit_eq_mult)
  have pos: "push_bit 2 (of_nat (4 * P) OR (push_bit 1 (of_bool q1) OR of_bool q0)) = (of_nat (4 * (4 * P + (2 * of_bool q1 + of_bool q0))) :: u64)"
    unfolding four(1) push_or_add [OF low(1)] unfolding low(2) by (simp add: push_bit_eq_mult algebra_simps)
  have neg: "push_bit 2 (of_nat (8 * N) OR push_bit 1 (of_bool q2)) = (of_nat (8 * (4 * N + of_bool q2)) :: u64)"
    unfolding four(2) push_or_add [OF low(3)] unfolding low(4) by (simp add: push_bit_eq_mult algebra_simps)
  have "(2 * (C mod 2 ^ (fb + 3)) - d * b) mod 2 ^ (fb + 2) = (2 * C - d * b) mod 2 ^ (fb + 2)"
  proof -
    have "2 * (C mod 2 ^ (fb + 3)) = 2 * C - 2 ^ (fb + 2) * (4 * (C div 2 ^ (fb + 3)))"
      by (simp add: minus_div_mult_eq_mod [symmetric] algebra_simps power_add)
    then have "2 * (C mod 2 ^ (fb + 3)) - d * b = (2 * C - d * b) + 2 ^ (fb + 2) * (- 4 * (C div 2 ^ (fb + 3)))" by simp
    then show ?thesis by (simp only: mod_mult_self2)
  qed
  then have "push_bit 1 ((push_bit 1 (of_int (C mod 2 ^ (fb + 3))) + of_int (- d * b)) AND ones (fb + 2)) = (of_int (2 * ((2 * C - d * b) mod 2 ^ (fb + 2))) :: u64)"
    unfolding push_1_of_int of_int_add [symmetric] of_int_and_ones by simp
  also have "2 * ((2 * C - d * b) mod 2 ^ (fb + 2)) = (4 * C - 2 * (d * b)) mod 2 ^ (fb + 3)"
  proof -
    have "(2 :: int) ^ (fb + 3) = 2 * 2 ^ (fb + 2)" by (simp add: power_add)
    moreover have "4 * C - 2 * (d * b) = 2 * (2 * C - d * b)" by simp
    ultimately show ?thesis by (simp only: mult_mod_right)
  qed
  finally have cur: "push_bit 1 ((push_bit 1 (of_int (C mod 2 ^ (fb + 3))) + of_int (- d * b)) AND ones (fb + 3 - 1))
      = (of_int ((4 * C - 2 * (d * b)) mod 2 ^ (fb + 3)) :: u64)" by simp
  have step: "srt4_step (of_int b) m fb s = (of_int ((4 * C - 2 * (d * b)) mod 2 ^ (fb + 3)),
      of_nat (4 * (4 * P + (2 * of_bool q1 + of_bool q0))), of_nat (8 * (4 * N + of_bool q2)))"
    unfolding srt4_step_def S(1) prod.case Let_def sel srt4_multiple_eq [OF q4] pos neg d_def [symmetric] cur ..
  have "4 ^ Suc i * A = 2 * b * (4 * (int P - 4 * int N) + d) + (4 * C - 2 * (d * b))"
    using arg_cong [OF S(4), of "\<lambda>x. 4 * x"] by (simp add: algebra_simps)
  moreover have "4 * (int P - 4 * int N) + d = int (4 * P + (2 * of_bool q1 + of_bool q0)) - 4 * int (4 * N + of_bool q2)"
    by (simp add: d_def digit_value_def)
  ultimately have "4 ^ Suc i * A = 2 * b * (int (4 * P + (2 * of_bool q1 + of_bool q0)) - 4 * int (4 * N + of_bool q2)) + (4 * C - 2 * (d * b))"
    by (simp only:)
  moreover have "3 * (4 * N + of_bool q2) + 1 \<le> 4 ^ (Suc i - 1)"
  proof (cases i)
    case 0
    then have "0 \<le> t" "N = 0" using S(5) u(3) by (simp_all add: t_def pos_imp_zdiv_nonneg_iff)
    then show ?thesis using q2 0 by auto
  next
    case (Suc j)
    then have "3 * N + 1 \<le> 4 ^ j" using S(5) by simp
    then show ?thesis using Suc by (cases q2) simp_all
  qed
  moreover have "- (2 * b) \<le> 4 * C - 2 * (d * b)" "4 * C - 2 * (d * b) < 2 * b" using B by linarith+
  ultimately have "srt4_state fb A b (Suc i) (srt4_step (of_int b) m fb s) (4 * C - 2 * (d * b))
      (4 * P + (2 * of_bool q1 + of_bool q0)) (4 * N + of_bool q2)"
    unfolding srt4_state_def step by (intro conjI refl) (simp_all only: nat.simps if_False)
  then show ?thesis by blast
qed

lemma srt4_loop_state:
  fixes b :: int
  assumes fb: "1 \<le> fb" "fb \<le> 61" and b: "2 ^ fb \<le> b" "b < 2 ^ (fb + 1)" "m \<longleftrightarrow> 3 * 2 ^ (fb - 1) \<le> b"
    and A: "0 \<le> A" "A < 2 ^ (fb + 1)"
  shows "\<exists>C P N. srt4_state fb A b i (srt4_loop (of_int b) m fb i (of_int A, 0, 0)) C P N"
proof (induction i)
  case 0
  have "A mod 2 ^ (fb + 3) = A" using A by (intro mod_pos_pos_trivial) (simp_all add: power_add)
  then have "srt4_state fb A b 0 (of_int A, 0, 0) A 0 0" using A b(1) by (simp add: srt4_state_def)
  then show ?case by (auto simp: srt4_loop_def)
next
  case (Suc i)
  then obtain C P N where "srt4_state fb A b i (srt4_loop (of_int b) m fb i (of_int A, 0, 0)) C P N" by blast
  from srt4_step_state [OF fb b this] show ?case by (simp add: srt4_loop_def)
qed

section \<open>The quotient\<close>

text \<open>The last remainder, as the code tests it.\<close>

lemma last_remainder:
  fixes C :: int and current :: u64
  assumes "fb \<le> 58" "- (2 ^ (fb + 2)) \<le> C" "C < 2 ^ (fb + 2)" "current = of_int (C mod 2 ^ (fb + 3))"
  shows "current \<noteq> 0 \<longleftrightarrow> C \<noteq> 0" and "drop_bit (fb + 1) current AND 2 = of_nat (2 * of_bool (C < 0))"
proof -
  define D where "D = (if C < 0 then C + 2 ^ (fb + 3) else C)"
  have p: "(2 :: int) ^ (fb + 3) = 2 * 2 ^ (fb + 2)" "(2 :: int) ^ (fb + 2) = 2 * 2 ^ (fb + 1)" "(0 :: int) < 2 ^ (fb + 1)" by (simp_all add: power_add)
  have D: "0 \<le> D" "D < 2 ^ (fb + 3)" "D = 0 \<longleftrightarrow> C = 0" "C < 0 \<longleftrightarrow> 2 * 2 ^ (fb + 1) \<le> D"
    using assms(2,3) p unfolding D_def by (auto split: if_splits)
  have "C mod 2 ^ (fb + 3) = D mod 2 ^ (fb + 3)" by (simp add: D_def)
  then have c: "current = of_int D" using D(1,2) assms(4) by (simp add: mod_pos_pos_trivial)
  have "(2 :: int) ^ (fb + 3) \<le> 2 ^ 64" using assms(1) by (intro power_increasing) auto
  then have l: "D < 2 ^ 64" using D(2) by linarith
  then have "uint current = D" using D(1) unfolding c by (simp add: uint_word_of_int)
  then have u: "int (unat current) = D" by simp
  show "current \<noteq> 0 \<longleftrightarrow> C \<noteq> 0" unfolding D(3) [symmetric] u [symmetric] by (simp only: word_eq_0_iff_unat of_nat_eq_0_iff)
  define v where "v = drop_bit (fb + 1) current"
  have v: "unat v = unat current div 2 ^ (fb + 1)" unfolding v_def by (rule unat_drop_bit_div)
  have "int (unat current) < int (4 * 2 ^ (fb + 1))" unfolding u using D(2) p by simp
  then have "unat current < 4 * 2 ^ (fb + 1)" by (simp only: of_nat_less_iff)
  moreover have "C < 0 \<longleftrightarrow> int (2 * 2 ^ (fb + 1)) \<le> int (unat current)" unfolding u D(4) by simp
  then have "C < 0 \<longleftrightarrow> 2 * 2 ^ (fb + 1) \<le> unat current" by (simp only: of_nat_le_iff)
  ultimately have "unat v < 4" "2 \<le> unat v \<longleftrightarrow> C < 0" unfolding v by (simp_all add: div_less_iff_less_mult less_eq_div_iff_mult_less_eq)
  then consider "C < 0" "v = 2 \<or> v = 3" | "\<not> C < 0" "v = 0 \<or> v = 1"
    by (cases "unat v = 0 \<or> unat v = 1 \<or> unat v = 2") (auto simp: word_unat_eq_iff)
  then show "drop_bit (fb + 1) current AND 2 = of_nat (2 * of_bool (C < 0))"
    unfolding v_def [symmetric] by cases auto
qed

lemma word_parts:
  "of_nat (4 * P) OR push_bit 1 (of_bool c) = (of_nat (4 * P + 2 * of_bool c) :: u64)"
  "of_nat (8 * N) OR of_nat (2 * of_bool c) = (of_nat (8 * N + 2 * of_bool c) :: u64)"
proof -
  have four: "of_nat (4 * n) = push_bit 2 (of_nat n :: u64)" "of_nat (8 * n) = push_bit 3 (of_nat n :: u64)" for n
    by (simp_all add: push_bit_eq_mult)
  show "of_nat (4 * P) OR push_bit 1 (of_bool c) = (of_nat (4 * P + 2 * of_bool c) :: u64)"
    using push_or_add [of "push_bit 1 (of_bool c) :: u64" 2 "of_nat P"] unfolding four(1) of_nat_add by (cases c) (simp_all add: push_bit_eq_mult)
  show "of_nat (8 * N) OR of_nat (2 * of_bool c) = (of_nat (8 * N + 2 * of_bool c) :: u64)"
    using push_or_add [of "of_nat (2 * of_bool c) :: u64" 3 "of_nat N"] unfolding four(2) of_nat_add by (cases c) (simp_all add: push_bit_eq_mult)
qed

lemma fold_last_bit:
  "drop_bit 1 z OR (z AND 1) = (of_nat q :: u64)" if "unat z = 2 * F + of_bool c" "q = (if c \<and> even F then F + 1 else F)" for z :: u64
proof -
  have "z AND 1 = of_bool c" using that(1) last_bit_odd [of z] by (cases c) (auto simp: and_one_eq mod2_eq_if)
  moreover have "unat (drop_bit 1 z) = F" using that(1) by (simp add: unat_drop_bit_div)
  ultimately have "unat (drop_bit 1 z OR (z AND 1)) = q" using that(2) by (simp add: unat_or_of_bool)
  then have "of_nat q = (of_nat (unat (drop_bit 1 z OR (z AND 1))) :: u64)" by (simp only:)
  then show ?thesis by simp
qed

lemma unat_of_nat_64: "n < 2 ^ 64 \<Longrightarrow> unat (of_nat n :: u64) = n"
  by (simp add: unat_of_nat)

text \<open>The state after the loop as quotient and remainder: the quotient is exact but for a last bit.\<close>

lemma srt4_state_quotient:
  fixes A B :: nat
  assumes s: "srt4_state fb (int A) (int B) n s C P N" and A: "A < 2 * B" and n: "1 \<le> n" "2 * n \<le> fb + 4" "fb \<le> 58" and B: "B < 2 ^ (fb + 1)"
  defines "F \<equiv> 4 ^ n * A div (2 * B)" and "g \<equiv> of_bool (C < 0)"
  shows "int (4 * P + 2 * of_bool (C \<noteq> 0)) - int (16 * N + 4 * g) = int (4 * F + 2 * of_bool (C \<noteq> 0))"
    and "C = 0 \<Longrightarrow> 2 * B dvd 4 ^ n * A" and "16 * N + 4 * g < 2 ^ (fb + 5)" and "F < 4 ^ n"
proof -
  have S: "- (2 * int B) \<le> C" "C < 2 * int B" "4 ^ n * int A = 2 * int B * (int P - 4 * int N) + C" "3 * N + 1 \<le> 4 ^ (n - 1)"
    using s n(1) unfolding srt4_state_def by (simp_all only: not_one_le_zero if_False)+
  define Q R where "Q = int P - 4 * int N - int g" and "R = C + 2 * int B * int g"
  have R: "0 \<le> R" "R < 2 * int B" using S(1,2) by (auto simp: R_def g_def)
  have QR: "int (4 ^ n * A) = Q * int (2 * B) + R" using S(3) by (simp add: Q_def R_def algebra_simps)
  have "int F = int (4 ^ n * A) div int (2 * B)" by (simp only: F_def zdiv_int)
  also have "\<dots> = Q" unfolding QR using R by (simp add: div_pos_pos_trivial)
  finally have F: "int F = Q" .
  show "int (4 * P + 2 * of_bool (C \<noteq> 0)) - int (16 * N + 4 * g) = int (4 * F + 2 * of_bool (C \<noteq> 0))"
    using F by (simp add: Q_def)
  show "2 * B dvd 4 ^ n * A" if "C = 0"
  proof -
    have "int (2 * B) dvd int (4 ^ n * A)" unfolding QR using that by (simp add: R_def g_def)
    then show ?thesis by (simp only: of_nat_dvd_iff)
  qed
  have "4 * (3 * N + 1) \<le> 4 * 4 ^ (n - 1)" using S(4) by (rule mult_le_mono2)
  also have "4 * 4 ^ (n - 1) = (4 :: nat) ^ n" using n(1) by (cases n) simp_all
  also have "(4 :: nat) ^ n = 2 ^ (2 * n)" by (simp add: power_mult)
  also have "\<dots> \<le> 2 ^ (fb + 4)" using n(2) by (intro power_increasing) auto
  finally have "12 * N + 4 \<le> 2 ^ (fb + 4)" by simp
  moreover have "g \<le> 1" by (simp add: g_def)
  ultimately have "16 * N + 4 * g < 2 * 2 ^ (fb + 4)" by linarith
  then show "16 * N + 4 * g < 2 ^ (fb + 5)" by (simp add: power_add)
  have "4 ^ n * A < 4 ^ n * (2 * B)" using A by simp
  then show "F < 4 ^ n" unfolding F_def by (subst div_less_iff_less_mult) (use A in auto)
qed

lemma srt4_quotient_eq:
  fixes A B fb :: nat
  assumes fb: "1 \<le> fb" "fb \<le> 58" and A: "A < 2 ^ (fb + 1)" and B: "2 ^ fb \<le> B" "B < 2 ^ (fb + 1)" "m \<longleftrightarrow> 3 * 2 ^ (fb - 1) \<le> B"
  shows "\<exists>s. unat (srt4_quotient (of_nat A) (of_nat B) m fb FLOAT_RND_NEVN False) = 2 * (A * 2 ^ (fb + 2) div B) + of_bool s
    \<and> (\<not> s \<longrightarrow> B dvd A * 2 ^ (fb + 2))"
proof -
  define n where "n = (fb + 3) div 2 + of_bool (odd (fb + 3))"
  have n: "1 \<le> n" "2 * n \<le> fb + 4" "2 * n = fb + 3 + of_bool (odd (fb + 3))" by (auto simp: n_def)
  have b: "(2 :: int) ^ fb \<le> int B" "int B < 2 ^ (fb + 1)" "m \<longleftrightarrow> 3 * 2 ^ (fb - 1) \<le> int B" "0 \<le> int A" "int A < 2 ^ (fb + 1)"
  proof -
    show "(2 :: int) ^ fb \<le> int B" using B(1) by (metis of_nat_le_iff of_nat_numeral of_nat_power)
    show "int B < 2 ^ (fb + 1)" using B(2) by (metis of_nat_less_iff of_nat_numeral of_nat_power)
    show "m \<longleftrightarrow> 3 * 2 ^ (fb - 1) \<le> int B" using B(3) of_nat_le_iff [of "3 * 2 ^ (fb - 1)" B, where 'a = int] by simp
    show "int A < 2 ^ (fb + 1)" using A by (metis of_nat_less_iff of_nat_numeral of_nat_power)
  qed simp
  have fb61: "fb \<le> 61" using fb(2) by simp
  define s where "s = srt4_loop (of_nat B) m fb n (of_nat A, 0, 0)"
  obtain C P N where S: "srt4_state fb (int A) (int B) n s C P N"
    using srt4_loop_state [OF fb(1) fb61 b, of n] unfolding s_def by auto
  define nz g where "nz \<longleftrightarrow> C \<noteq> 0" and "g \<longleftrightarrow> C < 0"
  define F where "F = 4 ^ n * A div (2 * B)"
  have A2: "A < 2 * B" using A B(1) by simp
  note Q = srt4_state_quotient [OF S A2 n(1,2) fb(2) B(2), folded F_def nz_def g_def]
  have c: "s = (of_int (C mod 2 ^ (fb + 3)), of_nat (4 * P), of_nat (8 * N))" "- (2 ^ (fb + 2)) \<le> C" "C < 2 ^ (fb + 2)"
    using S b(2) by (auto simp: srt4_state_def)
  note L = last_remainder [OF fb(2) c(2,3) refl, folded nz_def g_def]
  define p q z where "p = (of_nat (4 * P + 2 * of_bool nz) :: u64)" and "q = (of_nat (16 * N + 4 * of_bool g) :: u64)" and "z = drop_bit 1 (p - q)"
  have "4 * F + 2 < 4 * 4 ^ n" using Q(4) by simp
  also have "(4 :: nat) * 4 ^ n = 2 ^ (2 * n + 2)" by (simp add: power_add power_mult)
  also have "\<dots> \<le> 2 ^ 64" using n(2) fb(2) by (intro power_increasing) auto
  finally have "4 * F + 2 < 2 ^ 64" .
  moreover have "p - q = of_int (int (4 * F + 2 * of_bool nz))" unfolding p_def q_def Q(1) [symmetric] by (simp only: of_int_diff of_int_of_nat_eq)
  then have "p - q = of_nat (4 * F + 2 * of_bool nz)" by (simp only: of_int_of_nat_eq)
  moreover have "4 * F + 2 * of_bool nz \<le> 4 * F + 2" by simp
  ultimately have "unat (p - q) = 4 * F + 2 * of_bool nz" by (simp only: unat_of_nat_64 le_less_trans)
  then have z: "unat z = 2 * F + of_bool nz" unfolding z_def unat_drop_bit_div by (cases nz) simp_all
  have neg: "push_bit 1 (of_nat (8 * N) OR of_nat (2 * of_bool g)) AND ones (fb + 5) = q"
  proof -
    have "push_bit 1 (of_nat (8 * N) OR of_nat (2 * of_bool g)) = (of_int (int (16 * N + 4 * of_bool g)) :: u64)"
      unfolding word_parts(2) by (simp add: push_bit_eq_mult algebra_simps)
    moreover have "int (16 * N + 4 * of_bool g) mod 2 ^ (fb + 5) = int (16 * N + 4 * of_bool g)"
    proof -
      have "int (16 * N + 4 * of_bool g) < int (2 ^ (fb + 5))" using Q(3) by (simp only: of_nat_less_iff)
      then show ?thesis by (intro mod_pos_pos_trivial) simp_all
    qed
    ultimately have "push_bit 1 (of_nat (8 * N) OR of_nat (2 * of_bool g)) AND ones (fb + 5) = (of_int (int (16 * N + 4 * of_bool g)) :: u64)"
      by (simp only: of_int_and_ones)
    then show ?thesis unfolding q_def by (simp only: of_int_of_nat_eq)
  qed
  have code: "srt4_quotient (of_nat A) (of_nat B) m fb FLOAT_RND_NEVN False = (if odd (fb + 3) then drop_bit 1 z OR (z AND 1) else z) AND ones (fb + 4)"
  proof -
    have "(if (fb + 3) mod 2 \<noteq> 0 then (fb + 3) div 2 + 1 else (fb + 3) div 2) = n" "n * 2 - (fb + 3) - of_bool (odd (fb + 3)) = 0"
      using n(3) by (auto simp: n_def)
    moreover have "frac_p3 fb FLOAT_RND_NEVN = fb + 3" "fb + 3 - 2 = fb + 1" "fb + 3 + 2 = fb + 5" "fb + 3 + 1 = fb + 4" "\<not> (1 :: nat) < 0"
      by (simp_all add: frac_p3_def)
    ultimately show ?thesis
      unfolding srt4_quotient_def by (simp only: Let_def if_False s_def [symmetric] c(1) prod.case L word_parts(1) p_def [symmetric] neg z_def [symmetric])
  qed
  define G where "G = A * 2 ^ (fb + 2) div B"
  have Bpos: "0 < B" using B(1) by (meson less_le_trans zero_less_numeral zero_less_power)
  have "A * 2 ^ (fb + 2) < 2 ^ (fb + 3) * B" using A2 by (simp add: power_add)
  then have "G < 2 ^ (fb + 3)" unfolding G_def using Bpos by (simp add: div_less_iff_less_mult)
  then have G: "2 * G + of_bool s < 2 ^ (fb + 4)" for s by (cases s) (simp_all add: power_add)
  have f4: "4 ^ n * A = 2 * (2 ^ (2 * n - 1) * A)"
  proof -
    have "(4 :: nat) ^ n = 2 ^ Suc (2 * n - 1)" using n(1) by (simp add: power_mult)
    then show ?thesis by simp
  qed
  then have F2: "F = 2 ^ (2 * n - 1) * A div B" and dv: "C = 0 \<Longrightarrow> B dvd 2 ^ (2 * n - 1) * A"
    using Q(2) unfolding F_def f4 by simp_all
  show ?thesis
  proof (cases "odd (fb + 3)")
    case False
    then have "2 * n - 1 = fb + 2" using n(3) by simp
    then have "F = G" "C = 0 \<Longrightarrow> B dvd A * 2 ^ (fb + 2)" using F2 dv by (simp_all only: G_def mult.commute)
    moreover have "unat (srt4_quotient (of_nat A) (of_nat B) m fb FLOAT_RND_NEVN False) = 2 * F + of_bool nz"
      unfolding code if_not_P [OF False] and_ones z \<open>F = G\<close> using G by (rule mod_less)
    ultimately show ?thesis unfolding G_def [symmetric] by (intro exI [of _ nz]) (simp add: nz_def)
  next
    case True
    then have n1: "2 * n - 1 = Suc (fb + 2)" using n(3) by simp
    then have F3: "F = 2 * (A * 2 ^ (fb + 2)) div B" unfolding F2 by (simp add: ac_simps)
    then have FG: "F div 2 = G" unfolding G_def by (metis div_mult2_eq mult.commute nonzero_mult_div_cancel_left zero_neq_numeral)
    define s where "s \<longleftrightarrow> odd F \<or> nz"
    define k where "k = (if nz \<and> even F then F + 1 else F)"
    have k: "k = 2 * G + of_bool s" unfolding k_def s_def FG [symmetric] by (cases "even F"; cases nz) (auto elim!: oddE)
    have "unat (srt4_quotient (of_nat A) (of_nat B) m fb FLOAT_RND_NEVN False) = k"
    proof -
      have "k < 2 ^ (fb + 4)" unfolding k by (rule G)
      moreover have "(2 :: nat) ^ (fb + 4) \<le> 2 ^ 64" using fb(2) by (intro power_increasing) auto
      ultimately show ?thesis
        unfolding code if_P [OF True] and_ones fold_last_bit [OF z k_def] by (simp only: unat_of_nat_64 less_le_trans mod_less)
    qed
    moreover have "B dvd A * 2 ^ (fb + 2)" if "\<not> s"
    proof -
      have "C = 0" "even F" using that by (simp_all add: s_def nz_def)
      then have "B * F = 2 * (A * 2 ^ (fb + 2))" using dv n1 unfolding F3 by (simp add: ac_simps)
      then have "B * (F div 2) = A * 2 ^ (fb + 2)" using \<open>even F\<close> by (auto elim!: evenE simp: ac_simps)
      then show ?thesis by (metis dvd_triv_left)
    qed
    ultimately show ?thesis unfolding k G_def [symmetric] by blast
  qed
qed

section \<open>Rounding\<close>

text \<open>The quotient of two significands to the nearest integer, with \<open>j\<close> more bits: there are no ties.\<close>

definition nearest_quotient :: "nat \<Rightarrow> nat \<Rightarrow> nat" where
  "nearest_quotient x B = (2 * x + B) div (2 * B)"

lemma nearest_quotient:
  assumes "0 < B"
  shows "2 * \<bar>int (nearest_quotient x B) * int B - int x\<bar> \<le> int B"
proof -
  let ?R = "nearest_quotient x B"
  define r where "r = (2 * x + B) mod (2 * B)"
  have "?R * (2 * B) + r = 2 * x + B" unfolding nearest_quotient_def r_def by (rule div_mult_mod_eq)
  then have "int (?R * (2 * B) + r) = int (2 * x + B)" by (simp only:)
  then have "2 * (int ?R * int B) + int r = 2 * int x + int B" by simp
  moreover define y where y: "y = int ?R * int B"
  moreover have "r < 2 * B" using assms by (simp add: r_def)
  then have "int r < 2 * int B" by simp
  ultimately have "2 * (y - int x) \<le> int B" "2 * (int x - y) \<le> int B" by simp_all
  then show ?thesis unfolding y by (simp add: abs_if)
qed

lemma no_tie:
  fixes A B H k fb :: nat
  assumes "A < 2 ^ (fb + 1)" "2 ^ (fb + 1) \<le> H" "odd H" "0 < A"
  shows "H * B \<noteq> A * 2 ^ k"
proof
  assume "H * B = A * 2 ^ k"
  then have "H dvd A * 2 ^ k" by (metis dvd_triv_left)
  moreover have "coprime H (2 ^ k)" using assms(3) by simp
  ultimately have "H dvd A" by (simp add: coprime_dvd_mult_left_iff)
  then have "H \<le> A" using assms(4) by (rule dvd_imp_le)
  then show False using assms(1,2) by simp
qed

text \<open>One guard bit and a sticky bit are enough.\<close>

lemma guarded_quotient:
  fixes A B H k fb :: nat
  assumes A: "0 < A" "A < 2 ^ (fb + 1)" and B: "0 < B" and H: "H = A * 2 ^ (k + 1) div B" "2 ^ (fb + 1) \<le> H"
    and s: "\<not> s \<Longrightarrow> B dvd A * 2 ^ (k + 1)"
  shows "H div 2 + of_bool (odd H \<and> (odd (H div 2) \<or> s)) = nearest_quotient (A * 2 ^ k) B"
proof -
  define x where "x = A * 2 ^ (k + 1)"
  have x: "2 * (A * 2 ^ k) = x" by (simp add: x_def)
  have "x = H * B + x mod B" "x mod B < B" using B by (simp_all add: H(1) x_def)
  moreover have "nearest_quotient (A * 2 ^ k) B = (x + B) div B div 2" unfolding nearest_quotient_def x by (metis div_mult2_eq mult.commute)
  then have "nearest_quotient (A * 2 ^ k) B = (H + 1) div 2" using B by (simp add: H(1) x_def)
  moreover have s if "odd H"
  proof (rule ccontr)
    assume "\<not> s"
    then have "x mod B = 0" using s by (simp add: x_def)
    then have "H * B = A * 2 ^ (k + 1)" using calculation(1) by (simp add: x_def)
    then show False using no_tie [OF A(2) H(2) that A(1)] by blast
  qed
  ultimately show ?thesis by (cases "odd H") (auto elim: oddE)
qed

lemma quotient_range:
  fixes A B fb :: nat
  assumes A: "2 ^ fb \<le> A" "A < 2 ^ (fb + 1)" and B: "2 ^ fb \<le> B" "B < 2 ^ (fb + 1)"
  defines "k \<equiv> fb + of_bool (A < B)"
  defines "H \<equiv> A * 2 ^ (k + 1) div B" and "R \<equiv> nearest_quotient (A * 2 ^ k) B"
  shows "2 ^ (fb + 1) \<le> H" "H < 2 ^ (fb + 2)" "2 ^ fb \<le> R" "R < 2 ^ (fb + 1)"
proof -
  define p :: nat where "p = 2 ^ fb"
  have p: "p \<le> A" "A < 2 * p" "p \<le> B" "B < 2 * p" "0 < p" using A B by (simp_all add: p_def)
  have k: "2 ^ (k + 1) = (if A < B then 4 * p else 2 * p)" by (simp add: k_def p_def)
  have B0: "0 < B" using p by linarith
  have "2 * p * B \<le> A * 2 ^ (k + 1)" using p mult_le_mono1 [of B "2 * A" "2 * p"] mult_le_mono1 [of B A "2 * p"] unfolding k by (simp add: ac_simps)
  then show lo: "2 ^ (fb + 1) \<le> H" unfolding H_def using B0 by (simp add: less_eq_div_iff_mult_less_eq p_def)
  have "A * 2 ^ (k + 1) < (4 * p - 1) * B"
  proof (cases "A < B")
    case True
    then have "Suc A * (4 * p) \<le> B * (4 * p)" by (intro mult_le_mono1) simp
    then have "A * (4 * p) + 4 * p \<le> B * (4 * p)" by simp
    moreover have "(4 * p - 1) * B = B * (4 * p) - B" unfolding mult.commute [of _ B] by (simp add: diff_mult_distrib2)
    ultimately have "A * (4 * p) < (4 * p - 1) * B" using p by linarith
    then show ?thesis unfolding k using True by simp
  next
    case False
    have "Suc A * (2 * p) \<le> (2 * p) * (2 * p)" using p by (intro mult_le_mono1) simp
    moreover have "p * (4 * p - 1) \<le> B * (4 * p - 1)" using p by (intro mult_le_mono1) simp
    ultimately show ?thesis unfolding k using False p by (simp add: diff_mult_distrib2 ac_simps)
  qed
  then have hi: "H < 4 * p - 1" unfolding H_def using B0 by (simp add: div_less_iff_less_mult)
  then show "H < 2 ^ (fb + 2)" by (simp add: p_def)
  have "R = (H + 1) div 2"
  proof -
    have "R = (A * 2 ^ (k + 1) + B) div B div 2" unfolding R_def nearest_quotient_def by (simp add: div_mult2_eq [symmetric] ac_simps)
    then show ?thesis using B0 by (simp add: H_def)
  qed
  then show "2 ^ fb \<le> R" "R < 2 ^ (fb + 1)" using lo hi by (simp_all add: p_def)
qed

text \<open>The nearest integer quotient differs from the exact one by at most one half.\<close>

lemma nearest_quotient_real:
  fixes A B fb :: nat
  assumes A: "2 ^ fb \<le> A" "A < 2 ^ (fb + 1)" and B: "2 ^ fb \<le> B" "B < 2 ^ (fb + 1)"
  defines "k \<equiv> fb + of_bool (A < B)"
  defines "X \<equiv> real (A * 2 ^ k) / real B" and "R \<equiv> nearest_quotient (A * 2 ^ k) B"
  shows "2 ^ fb \<le> X" "X < 2 ^ (fb + 1)" "\<bar>real R - X\<bar> \<le> 1 / 2"
proof -
  have B0: "0 < B" using B(1) by (meson less_le_trans zero_less_numeral zero_less_power)
  note Q = quotient_range [OF A B, folded k_def]
  have "2 ^ (fb + 1) * B \<le> A * 2 ^ (k + 1)" using Q(1) B0 by (simp add: less_eq_div_iff_mult_less_eq)
  then have "2 ^ fb * B \<le> A * 2 ^ k" by simp
  then have "real (2 ^ fb * B) \<le> real (A * 2 ^ k)" by (simp only: of_nat_le_iff)
  then show "2 ^ fb \<le> X" using B0 by (simp add: X_def field_simps)
  have "A * 2 ^ (k + 1) < 2 ^ (fb + 2) * B" using Q(2) B0 by (simp add: div_less_iff_less_mult)
  then have "A * 2 ^ k < 2 ^ (fb + 1) * B" by (simp add: ac_simps)
  then have "real (A * 2 ^ k) < real (2 ^ (fb + 1) * B)" by (simp only: of_nat_less_iff)
  then show "X < 2 ^ (fb + 1)" using B0 by (simp add: X_def field_simps)
  have "real_of_int (2 * \<bar>int R * int B - int (A * 2 ^ k)\<bar>) \<le> real_of_int (int B)"
    using nearest_quotient [OF B0, of "A * 2 ^ k"] unfolding R_def by (simp only: of_int_le_iff)
  then have "2 * \<bar>real R * real B - real (A * 2 ^ k)\<bar> \<le> real B" by simp
  moreover have "real R * real B - real (A * 2 ^ k) = (real R - X) * real B" using B0 by (simp add: X_def field_simps)
  ultimately have "(2 * \<bar>real R - X\<bar>) * real B \<le> 1 * real B" by (simp add: abs_mult)
  then have "2 * \<bar>real R - X\<bar> \<le> 1" using B0 by (simp only: mult_le_cancel_right_pos of_nat_0_less_iff)
  then show "\<bar>real R - X\<bar> \<le> 1 / 2" by simp
qed

lemma select_bit_iff: "SELECT_BIT (w :: u64) k \<noteq> 0 \<longleftrightarrow> odd (unat w div 2 ^ k)"
  by (simp only: SELECT_BIT_def last_bit_odd unat_drop_bit_div)

lemma srt4_significand_eq:
  fixes A B fb :: nat
  assumes fb: "1 \<le> fb" "fb \<le> 58" and A: "2 ^ fb \<le> A" "A < 2 ^ (fb + 1)" and B: "2 ^ fb \<le> B" "B < 2 ^ (fb + 1)"
    and z: "unat z = 2 * (A * 2 ^ (fb + 2) div B) + of_bool s" and s: "\<not> s \<longrightarrow> B dvd A * 2 ^ (fb + 2)"
  defines "R \<equiv> nearest_quotient (A * 2 ^ (fb + of_bool (A < B))) B"
  shows "\<exists>Y r. srt4_significand z fb FLOAT_RND_NEVN = (\<not> A < B, Y, r) \<and> unat (drop_bit 2 Y) + of_bool r = R - 2 ^ fb
    \<and> unat (drop_bit 2 Y) < 2 ^ fb"
proof -
  define k where "k = fb + of_bool (A < B)"
  define G H where "G = A * 2 ^ (fb + 2) div B" and "H = A * 2 ^ (k + 1) div B"
  note Q = quotient_range [OF A B, folded k_def, folded H_def]
  have B0: "0 < B" and A0: "0 < A" using A(1) B(1) by (meson less_le_trans zero_less_numeral zero_less_power)+
  define t where "t \<longleftrightarrow> (if A < B then s else odd G \<or> s)"
  have H: "H = (if A < B then G else G div 2)"
  proof (cases "A < B")
    case False
    have "G = 2 * (A * 2 ^ (k + 1)) div B" using False by (simp add: G_def k_def ac_simps)
    then have "G div 2 = H" unfolding H_def by (metis div_mult2_eq mult.commute nonzero_mult_div_cancel_left zero_neq_numeral)
    then show ?thesis using False by simp
  qed (simp add: H_def G_def k_def)
  have t: "B dvd A * 2 ^ (k + 1)" if "\<not> t"
  proof (cases "A < B")
    case True
    then show ?thesis using that s by (simp add: t_def k_def)
  next
    case False
    then have "even G" "B * G = A * 2 ^ (fb + 2)" using that s by (auto simp: t_def G_def)
    then have "B * (G div 2) = A * 2 ^ (k + 1)" using False by (auto elim!: evenE simp: k_def ac_simps)
    then show ?thesis by (metis dvd_triv_left)
  qed
  have big: "(2 :: nat) ^ (fb + 4) \<le> 2 ^ 64" using fb(2) by (intro power_increasing) auto
  have c: "drop_bit (fb + 3) z AND 1 \<noteq> 0 \<longleftrightarrow> \<not> A < B"
  proof -
    have "unat z div 2 ^ (fb + 3) = G div 2 ^ (fb + 2)"
    proof -
      have p3: "(2 :: nat) ^ (fb + 3) = 2 * 2 ^ (fb + 2)" by (simp add: power_add)
      have "(2 * G + of_bool s) div 2 = G" by (cases s) simp_all
      then show ?thesis unfolding z G_def [symmetric] p3 div_mult2_eq by (simp only:)
    qed
    also have "\<dots> = of_bool (\<not> A < B)"
    proof (cases "A < B")
      case True
      then show ?thesis using Q(2) H by (simp add: div_eq_0_iff)
    next
      case False
      then have "2 ^ (fb + 2) \<le> G" "G < 2 * 2 ^ (fb + 2)" using Q(1,2) H by (auto simp: power_add)
      then show ?thesis using False by (simp add: div_nat_eqI)
    qed
    finally show ?thesis by (simp only: last_bit_odd unat_drop_bit_div) simp
  qed
  define Z where "Z = drop_bit (of_bool (\<not> A < B)) z OR (z AND 1)"
  have Z: "unat Z = 2 * H + of_bool t"
  proof (cases "A < B")
    case True
    have "z AND 1 = of_bool s" using z last_bit_odd [of z] by (cases s) (auto simp: and_one_eq mod2_eq_if)
    then show ?thesis using True z H unfolding Z_def G_def by (simp add: unat_or_of_bool t_def)
  next
    case False
    define q where "q = (if s \<and> even G then G + 1 else G)"
    have "q = 2 * (G div 2) + of_bool (odd G \<or> s)" unfolding q_def by (cases "even G"; cases s) (auto elim!: oddE)
    then have q: "q = 2 * H + of_bool t" using False H by (simp add: t_def)
    have "Z = of_nat q" using fold_last_bit [OF z [folded G_def] q_def] False by (simp add: Z_def)
    moreover have "q < 2 ^ 64" using q Q(2) big by (simp add: power_add)
    ultimately show ?thesis using q by (simp only: unat_of_nat_64)
  qed
  define Y where "Y = Z AND ones (fb + 2)"
  have p: "(2 :: nat) ^ (fb + 2) = 2 * 2 ^ (fb + 1)" "(2 :: nat) ^ (fb + 1) = 2 * 2 ^ fb" by simp_all
  have Y: "unat Y = 2 * (H - 2 ^ (fb + 1)) + of_bool t"
  proof -
    have "2 * H + of_bool t = 2 ^ (fb + 2) + (2 * (H - 2 ^ (fb + 1)) + of_bool t)" using Q(1) p by simp
    moreover have "2 * (H - 2 ^ (fb + 1)) + of_bool t < 2 ^ (fb + 2)" using Q(2) p by (cases t) auto
    ultimately show ?thesis unfolding Y_def and_ones Z by (simp only: mod_add_self1 mod_less)
  qed
  have bits: "odd (unat Y) = t" "unat Y div 2 = H - 2 ^ (fb + 1)" "unat Y div 4 = H div 2 - 2 ^ fb"
  proof -
    show y2: "unat Y div 2 = H - 2 ^ (fb + 1)" unfolding Y by (cases t) simp_all
    show "odd (unat Y) = t" unfolding Y by (cases t) simp_all
    have "unat Y div 4 = unat Y div 2 div 2" by (simp add: div_mult2_eq [symmetric])
    then show "unat Y div 4 = H div 2 - 2 ^ fb" unfolding y2 p by simp
  qed
  have odds: "odd (H - 2 ^ (fb + 1)) \<longleftrightarrow> odd H" "odd (H div 2 - 2 ^ fb) \<longleftrightarrow> odd (H div 2)"
  proof -
    have "2 ^ fb \<le> H div 2" using Q(1) by (simp add: p less_eq_div_iff_mult_less_eq)
    then show "odd (H div 2 - 2 ^ fb) \<longleftrightarrow> odd (H div 2)" using fb(1) by simp
    show "odd (H - 2 ^ (fb + 1)) \<longleftrightarrow> odd H" using Q(1) by simp
  qed
  define r where "r \<longleftrightarrow> odd H \<and> (odd (H div 2) \<or> t)"
  have "srt4_significand z fb FLOAT_RND_NEVN = (\<not> A < B, Y, SELECT_BIT Y 1 \<noteq> 0 \<and> (SELECT_BIT Y 2 \<noteq> 0 \<or> SELECT_BIT Y 0 \<noteq> 0))"
    using c unfolding srt4_significand_def Let_def frac_p3_def if_P [OF refl] by (simp add: Y_def Z_def)
  also have "SELECT_BIT Y 1 \<noteq> 0 \<and> (SELECT_BIT Y 2 \<noteq> 0 \<or> SELECT_BIT Y 0 \<noteq> 0) \<longleftrightarrow> r"
    unfolding select_bit_iff r_def using bits odds by simp
  finally have code: "srt4_significand z fb FLOAT_RND_NEVN = (\<not> A < B, Y, r)" .
  have "H div 2 + of_bool r = R"
    unfolding R_def k_def [symmetric] r_def using guarded_quotient [OF A0 A(2) B0 H_def Q(1) t] .
  then have "unat (drop_bit 2 Y) + of_bool r = R - 2 ^ fb" using bits(3) Q(1) p by (simp add: unat_drop_bit_div)
  moreover have "unat (drop_bit 2 Y) < 2 ^ fb" using bits(3) Q(2) p by (simp add: unat_drop_bit_div)
  ultimately show ?thesis using code by blast
qed

section \<open>The unrolled form\<close>

lemma srt4_unrolled_eq:
  assumes "1 \<le> n" "n \<le> 32"
  shows "srt4_unrolled B m fb n = srt4_loop B m fb n"
proof -
  have "[1..<33] = [1..<n + 1] @ [n + 1..<33]" using assms upt_add_eq_append [of 1 "n + 1" "32 - n"] by simp
  then have "rev [1..<33] = rev [n + 1..<33] @ n # rev [1..<n]" using assms by simp
  moreover have "dropWhile (\<lambda>label. label \<noteq> n) (rev [n + 1..<33] @ n # rev [1..<n]) = n # rev [1..<n]"
    by (subst dropWhile_append2) auto
  ultimately have d: "dropWhile (\<lambda>label. label \<noteq> n) (rev [1..<33]) = n # rev [1..<n]" by simp
  have f: "fold (\<lambda>_. g) xs = g ^^ length xs" for g :: "'x \<Rightarrow> 'x" and xs :: "nat list"
    by (induction xs) (simp_all add: funpow_swap1 fun_eq_iff)
  have "length (n # rev [1..<n]) = n" using assms by simp
  then show ?thesis unfolding srt4_unrolled_def srt4_loop_def d f by (simp only:)
qed

text \<open>
  C22. The unrolled division runs the same steps as the loop: for every format with up to 61 fraction bits, in every rounding and
  exception mode, \<^verbatim>\<open>__float_divSRT4U\<close> and \<^verbatim>\<open>__float_divSRT4\<close> return the same pattern for all operands.
\<close>

theorem unrolled_division_agrees:
  assumes "frac_bits sp \<le> 61"
  shows "float_divSRT4U a b sp = float_divSRT4 a b sp"
proof -
  have n: "1 \<le> p div 2 + of_bool (odd p)" "p div 2 + of_bool (odd p) \<le> 32" if "1 \<le> p" "p \<le> 64" for p :: nat
    using that by (auto elim!: oddE evenE)
  have "srt4_quotient A B m (frac_bits sp) rnd True = srt4_quotient A B m (frac_bits sp) rnd False" for A B m rnd
  proof -
    define p where "p = frac_p3 (frac_bits sp) rnd"
    have p: "1 \<le> p" "p \<le> 64" using assms by (simp_all add: p_def frac_p3_def)
    have "(if p mod 2 \<noteq> 0 then p div 2 + 1 else p div 2) = p div 2 + of_bool (odd p)" by (simp add: mod2_eq_if)
    then show ?thesis unfolding srt4_quotient_def Let_def p_def [symmetric] using srt4_unrolled_eq [OF n [OF p]] by simp
  qed
  then show ?thesis by (simp add: float_divSRT4U_def float_divSRT4_def kernel_float_divSRT4_def Let_def)
qed

lemma unrolled_division_agrees_witness:
  "float_divSRT4U 0x4000 0x4200 IEEE16_SPEC_ARGS = float_divSRT4 0x4000 0x4200 IEEE16_SPEC_ARGS"
  by (rule unrolled_division_agrees) (simp add: IEEE16_SPEC_ARGS_def)

section \<open>Exponent and result\<close>

lemma div_exponent_eq: "div_exponent ea eb bias c = ea - eb - bias - of_bool (\<not> c)"
proof (cases "bias AND 1 = 0")
  case False
  then have "odd bias" by (simp add: and_one_eq odd_iff_mod_2_eq_one)
  then have "even (NOT bias)" by (simp add: even_not_iff)
  then have "NOT bias OR of_bool c = NOT bias + of_bool c" by (cases c) (auto simp: or_one_eq)
  then show ?thesis using False by (cases c) (simp_all add: div_exponent_def not_int_def)
qed (simp add: div_exponent_def)

lemma div_number_eq:
  fixes E :: int and sp :: tfspec
  defines "eb \<equiv> exp_bits sp" and "fb \<equiv> frac_bits sp"
  assumes f: "rnd_mode sp = FLOAT_RND_NEVN" "exc_mode sp = FLOAT_EXC_STD" "1 \<le> eb" "eb \<le> 30" "eb + fb < 64"
    and E: "- (2 ^ eb) \<le> E" "E < 2 ^ (eb + 1)" and R: "unat (drop_bit 2 Y) + of_bool r = R" "R < 2 ^ fb"
  shows "unat (div_number s E Y r sp) = pattern_bits sp s
    (if E < 0 then 0 else if E < 2 ^ eb - 1 then nat E else 2 ^ eb - 1) (if 0 \<le> E \<and> E < 2 ^ eb - 1 then R else 0)"
proof -
  define e where "e = nat (E mod 2 ^ (eb + 1))"
  have pe: "(2 :: int) ^ (eb + 1) = 2 * 2 ^ eb" "(0 :: int) < 2 ^ eb" by simp_all
  have e: "int e = (if E < 0 then E + 2 ^ (eb + 1) else E)"
  proof (cases "E < 0")
    case True
    have "E mod 2 ^ (eb + 1) = (E + 2 ^ (eb + 1)) mod 2 ^ (eb + 1)" by simp
    also have "\<dots> = E + 2 ^ (eb + 1)" using E True pe by (intro mod_pos_pos_trivial) simp_all
    finally show ?thesis using True E pe by (simp add: e_def)
  next
    case False
    then show ?thesis using E by (simp add: e_def mod_pos_pos_trivial)
  qed
  have "int e < int (2 ^ (eb + 1))" using E pe unfolding e by (auto split: if_splits)
  then have e2: "e < 2 ^ (eb + 1)" by (simp only: of_nat_less_iff)
  define zE where "zE = (of_int E AND ones (eb + 1) :: u64)"
  have "zE = of_int (int e)" unfolding zE_def of_int_and_ones by (simp add: e_def)
  then have "zE = of_nat e" by simp
  moreover have "(2 :: nat) ^ (eb + 1) \<le> 2 ^ 64" using f(4) by (intro power_increasing) auto
  ultimately have zE: "unat zE = e" using e2 by (simp only: unat_of_nat_64 less_le_trans)
  have "(e + 1) * 2 ^ fb \<le> 2 ^ (eb + 1) * 2 ^ fb" using e2 by (intro mult_le_mono1) simp
  also have "(2 :: nat) ^ (eb + 1) * 2 ^ fb = 2 ^ (eb + fb + 1)" by (simp add: power_add)
  finally have top: "e * 2 ^ fb + R < 2 ^ (eb + fb + 1)" using R(2) by simp
  have big: "(2 :: nat) ^ (eb + fb + 1) \<le> 2 ^ 64" using f(5) by (intro power_increasing) auto
  define zS where "zS = (push_bit fb zE OR drop_bit 2 Y) + of_bool r"
  have d2: "unat (drop_bit 2 Y) \<le> R" "unat (drop_bit 2 Y) < 2 ^ fb" using R by auto
  have "unat (push_bit fb zE OR drop_bit 2 Y) = e * 2 ^ fb + unat (drop_bit 2 Y)"
    using unat_push_or [of "drop_bit 2 Y" fb zE] d2 top big zE by simp
  moreover have "unat (of_bool r :: u64) = of_bool r" by simp
  ultimately have zS: "unat zS = e * 2 ^ fb + R" unfolding zS_def using R(1) top big by (subst unat_add_small) simp_all
  have "unat zS div 2 ^ (eb + fb) = e div 2 ^ eb"
    unfolding zS using R(2) by (simp add: power_add mult.commute [of "2 ^ eb"] div_mult2_eq)
  then have m: "drop_bit (eb + fb) zS \<noteq> 0 \<longleftrightarrow> 2 ^ eb \<le> e" by (simp add: word_eq_0_iff_unat unat_drop_bit_div div_eq_0_iff not_less)
  have m0: "drop_bit eb E \<noteq> 0 \<longleftrightarrow> E < 0 \<or> 2 ^ eb \<le> E" "drop_bit (eb + 1) E \<noteq> 0 \<longleftrightarrow> E < 0"
    using E pe div_neg_pos_less0 [of E "2 ^ eb"] div_neg_pos_less0 [of E "2 ^ (eb + 1)"] by (auto simp: drop_bit_eq_div zdiv_eq_0_iff)
  have i: "int (2 ^ eb) \<le> int e \<longleftrightarrow> 2 ^ eb \<le> e" by (simp only: of_nat_le_iff)
  have code: "div_number s E Y r sp =
    (if (drop_bit eb E \<noteq> 0 \<and> \<not> drop_bit (eb + fb) zS \<noteq> 0) \<noteq> (drop_bit (eb + 1) E \<noteq> 0) then push_bit (eb + fb) (of_bool s)
     else if drop_bit (eb + fb) zS \<noteq> 0 \<or> zE = ones eb then push_bit (eb + fb) (of_bool s) OR push_bit fb (ones eb)
     else push_bit (eb + fb) (of_bool s) OR (zS AND ones (eb + fb)))"
    unfolding div_number_def Let_def eb_def [symmetric] fb_def [symmetric] f(1,2) zE_def [symmetric] zS_def [symmetric, unfolded] if_P [OF refl]
    by (simp add: exc_defs)
  have ss: "unat (of_bool s :: u64) = of_bool s" by simp
  have one: "1 < (2 :: nat) ^ eb" using power_increasing [OF f(3), of "2 :: nat"] by simp
  have on: "unat (ones eb :: u64) = 2 ^ eb - 1" using f(4) by (intro unat_ones) simp
  have eb2: "e < 2 ^ eb \<longleftrightarrow> int e < 2 ^ eb" using i by auto
  show ?thesis
  proof (cases "E < 0")
    case True
    then have "2 ^ eb \<le> e" using e E pe i by simp
    then have "div_number s E Y r sp = push_bit (eb + fb) (of_bool s)" unfolding code m m0 using True by simp
    then show ?thesis using True f(5) by (cases s) (simp_all add: pattern_bits_def eb_def fb_def unat_push_1 del: push_bit_of_1)
  next
    case False
    then have eE: "int e = E" "nat E = e" using e by auto
    have n: "(drop_bit eb E \<noteq> 0 \<and> \<not> 2 ^ eb \<le> e) = (drop_bit (eb + 1) E \<noteq> 0)"
      unfolding m0 using False i eE by auto
    have z: "zE = ones eb \<longleftrightarrow> e = 2 ^ eb - 1" unfolding word_unat_eq_iff zE on ..
    have lim: "E < 2 ^ eb - 1 \<longleftrightarrow> e < 2 ^ eb - 1"
    proof -
      have "int e < int (2 ^ eb) - 1 \<longleftrightarrow> int (e + 1) < int (2 ^ eb)" by linarith
      also have "\<dots> \<longleftrightarrow> e + 1 < 2 ^ eb" by (simp only: of_nat_less_iff)
      also have "\<dots> \<longleftrightarrow> e < 2 ^ eb - 1" by linarith
      finally show ?thesis by (simp add: eE)
    qed
    show ?thesis
    proof (cases "e < 2 ^ eb - 1")
      case True
      then have "div_number s E Y r sp = push_bit (eb + fb) (of_bool s) OR (zS AND ones (eb + fb))"
        unfolding code m n z using one by auto
      moreover have "(e + 1) * 2 ^ fb \<le> 2 ^ eb * 2 ^ fb" using True by (intro mult_le_mono1) simp
      then have t: "e * 2 ^ fb + R < 2 ^ (eb + fb)" using R(2) by (simp add: power_add)
      moreover have "unat (push_bit (eb + fb) (of_bool s) OR (zS AND ones (eb + fb))) = of_bool s * 2 ^ (eb + fb) + (e * 2 ^ fb + R)"
        using unat_push_or [of "zS AND ones (eb + fb)" "eb + fb" "of_bool s"] t big unfolding and_ones zS ss
        by (cases s) (simp_all add: power_add)
      ultimately show ?thesis using True False lim eE by (simp add: pattern_bits_def eb_def fb_def)
    next
      case f2: False
      then have "div_number s E Y r sp = (push_bit (eb + fb) (of_bool s) OR push_bit fb (ones eb)) OR 0"
        unfolding code m n z using one by auto
      then show ?thesis using f2 False lim unat_fields [of 0 fb "ones eb" eb s] on one f(5)
        by (simp add: pattern_bits_def eb_def fb_def)
    qed
  qed
qed

section \<open>Operands\<close>

text \<open>
  Formats for which the division is meant: round to nearest, IEEE exceptions, hidden bit and subnormals, with exponents
  that the code can hold.
\<close>

definition div_format :: "tfspec \<Rightarrow> bool" where
  "div_format sp \<longleftrightarrow> rnd_mode sp = FLOAT_RND_NEVN \<and> exc_mode sp = FLOAT_EXC_STD \<and> has_one sp \<and> has_subnorm sp \<and> sign_spec sp = - 1
     \<and> 2 \<le> exp_bits sp \<and> exp_bits sp \<le> 30 \<and> 1 \<le> frac_bits sp \<and> frac_bits sp \<le> 58 \<and> exp_bits sp + frac_bits sp < 64
     \<and> - (2 ^ exp_bits sp) \<le> exp_bias sp \<and> int (frac_bits sp) \<le> 2 - exp_bias sp"

lemma ieee_div_formats: "div_format IEEE16_SPEC_ARGS" "div_format IEEE32_SPEC_ARGS" "div_format IEEE64_SPEC_ARGS"
  by (simp_all add: div_format_def IEEE16_SPEC_ARGS_def IEEE32_SPEC_ARGS_def IEEE64_SPEC_ARGS_def)

lemma div_class_number:
  fixes a :: u64 and sp :: tfspec
  assumes f: "div_format sp" and a: "finite_pattern sp a" "fabs_bits sp a \<noteq> 0"
  shows "div_class (extractFloatExp a (exp_bits sp) (frac_bits sp)) (extractFloatFrac a (frac_bits sp)) sp
    = (FP_CLS_NORMAL, True, False, False, False)"
proof -
  let ?m = "fabs_bits sp a" and ?fb = "frac_bits sp"
  have F: "exc_mode sp = FLOAT_EXC_STD" "has_subnorm sp" "exp_bits sp \<le> 30" using f by (simp_all add: div_format_def)
  note P = pattern_fields(1,2) [of a sp]
  have "?m div 2 ^ ?fb < 2 ^ exp_bits sp - 1"
    using a(1) by (simp add: finite_pattern_def infinity_bits_def div_less_iff_less_mult)
  then have x: "extractFloatExp a (exp_bits sp) ?fb \<noteq> ones (exp_bits sp)"
    using F(3) unat_ones [of "exp_bits sp", where 'a = 64] P(1) by (auto simp del: push_bit_of_1)
  have "?m = ?m div 2 ^ ?fb * 2 ^ ?fb + ?m mod 2 ^ ?fb" by (simp only: div_mult_mod_eq)
  then have z: "\<not> (extractFloatExp a (exp_bits sp) ?fb = 0 \<and> extractFloatFrac a ?fb = 0)"
    using a(2) unfolding word_eq_0_iff_unat P by auto
  show ?thesis using x z F(1,2) unfolding div_class_def Let_def by (simp add: cls_select_def cls_defs exc_defs)
qed

text \<open>A nonzero number, normalised: its value is that of a significand with a leading one and an exponent.\<close>

lemma normalised_operand:
  fixes a :: u64 and sp :: tfspec
  defines "fb \<equiv> frac_bits sp"
  assumes f: "div_format sp" and a: "finite_pattern sp a" "fabs_bits sp a \<noteq> 0"
  shows "\<exists>e g A. div_normalise (extractFloatExp a (exp_bits sp) fb) (extractFloatFrac a fb) sp = (e, g)
    \<and> g OR push_bit fb 1 = of_nat A \<and> 2 ^ fb \<le> A \<and> A < 2 ^ (fb + 1)
    \<and> real (pattern_mag fb (fabs_bits sp a)) = real A * 2 powi (e - 1) \<and> - int fb < e \<and> e \<le> 2 ^ exp_bits sp - 2
    \<and> (normal_pattern sp a \<longrightarrow> A = sig_field sp a \<and> e = int (exp_field sp a))"
proof -
  define m x where "m = fabs_bits sp a" and "x = m mod 2 ^ fb"
  have F: "has_subnorm sp" "1 \<le> fb" "fb \<le> 58" "2 \<le> exp_bits sp" using f by (simp_all add: div_format_def fb_def)
  note P = pattern_fields(1,2) [of a sp, folded fb_def m_def]
  have x: "unat (extractFloatFrac a fb) = x" "x < 2 ^ fb" using P(2) by (simp_all add: x_def)
  have hb: "g OR push_bit fb 1 = of_nat (2 ^ fb + unat g)" if "unat g < 2 ^ fb" for g :: u64
  proof -
    have "unat (g OR push_bit fb 1) = 2 ^ fb + unat g" using hidden_bit [OF that] F(3) by simp
    then have "(of_nat (2 ^ fb + unat g) :: u64) = of_nat (unat (g OR push_bit fb 1))" by (simp only:)
    then show ?thesis by simp
  qed
  show ?thesis
  proof (cases "2 ^ fb \<le> m")
    case True
    then have N: "normal_pattern sp a" using a(1) by (simp add: normal_pattern_def finite_pattern_def m_def fb_def)
    note A = normal_fields [OF N, folded fb_def m_def]
    define e where "e = exp_field sp a"
    have ue: "unat (extractFloatExp a (exp_bits sp) fb) = e" using P(1) by (simp add: e_def exp_field_def m_def fb_def)
    have e0: "extractFloatExp a (exp_bits sp) fb \<noteq> 0" using A(1) unfolding word_eq_0_iff_unat ue by (simp add: e_def)
    have "int (e + 2) \<le> int (2 ^ exp_bits sp)" using A(2) unfolding e_def by (simp only: of_nat_le_iff)
    then have "int e \<le> 2 ^ exp_bits sp - 2" "- int fb < int e" using F(2) by simp_all
    moreover have "real (sig_field sp a * 2 ^ (e - 1)) = real (sig_field sp a) * 2 powi (int e - 1)"
    proof -
      have "int e - 1 = int (e - 1)" using A(1) by (simp add: e_def)
      then have "(2 :: real) powi (int e - 1) = 2 ^ (e - 1)" by (simp only: power_int_of_nat)
      then show ?thesis by simp
    qed
    moreover have "div_normalise (extractFloatExp a (exp_bits sp) fb) (extractFloatFrac a fb) sp = (int e, extractFloatFrac a fb)"
      using e0 unfolding ue [symmetric] by (simp add: div_normalise_def)
    moreover have "extractFloatFrac a fb OR push_bit fb 1 = of_nat (sig_field sp a)"
    proof -
      have "2 ^ fb + unat (extractFloatFrac a fb) = sig_field sp a" by (simp only: sig_field_def fb_def pattern_fields(2))
      then show ?thesis using hb [of "extractFloatFrac a fb"] x by (simp only:)
    qed
    moreover have "pattern_mag fb m = sig_field sp a * 2 ^ (e - 1)" using A(5) by (simp add: e_def)
    ultimately show ?thesis using A(3,4) unfolding m_def [symmetric]
      by (intro exI [of _ "int e"] exI [of _ "extractFloatFrac a fb"] exI [of _ "sig_field sp a"] conjI impI) (simp_all only: e_def)
  next
    case False
    then have e0: "extractFloatExp a (exp_bits sp) fb = 0" and xm: "x = m"
      using P(1) by (simp_all add: word_eq_0_iff_unat x_def)
    have x0: "0 < x" using a(2) xm by (simp add: m_def)
    obtain c where c: "is_clz fb x c" using is_clz_exists [OF x0 x(2)] by blast
    note b = is_clz_mult_less [OF c]
    have cl: "c < fb" using c by (simp add: is_clz_def)
    define lz where "lz = count_leading_zero_runtime_macro fb (extractFloatFrac a fb)"
    have lz: "unat lz = c" "count_leading_zero_lshift_runtime_macro fb (extractFloatFrac a fb) = (lz, push_bit c (extractFloatFrac a fb))"
      unfolding lz_def using count_leading_zero_macros_clz(2,4) [of fb "extractFloatFrac a fb" c] c F(2,3) x(1) by simp_all
    define g where "g = push_bit 1 (push_bit c (extractFloatFrac a fb)) AND ones fb"
    have two: "2 ^ fb = 2 * (2 :: nat) ^ (fb - 1)" using F(2) by (cases fb) simp_all
    have "(2 :: nat) ^ (fb + 1) \<le> 2 ^ 64" using F(3) by (intro power_increasing) auto
    then have l: "x * 2 ^ c * 2 < 2 ^ 64" "x * 2 ^ c < 2 ^ 64" using b by simp_all
    have "unat (push_bit c (extractFloatFrac a fb)) = x * 2 ^ c"
      using l(2) unfolding unat_push_bit_mult x(1) by simp
    then have p: "unat (push_bit 1 (push_bit c (extractFloatFrac a fb))) = 2 * (x * 2 ^ c)"
      using l(1) unat_push_bit_mult [of 1 "push_bit c (extractFloatFrac a fb)"] by (simp only: power_one_right len_of_numeral_defs) simp
    have g: "unat g = 2 * (x * 2 ^ c) - 2 ^ fb"
    proof -
      have y: "2 ^ fb \<le> 2 * (x * 2 ^ c)" "2 * (x * 2 ^ c) < 2 * 2 ^ fb" using b two by simp_all
      then have "2 * (x * 2 ^ c) - 2 ^ fb < 2 ^ fb" "2 * (x * 2 ^ c) = 2 ^ fb + (2 * (x * 2 ^ c) - 2 ^ fb)" by linarith+
      then show ?thesis unfolding g_def and_ones p by (metis mod_add_self1 mod_less)
    qed
    have A: "2 ^ fb + unat g = 2 * (x * 2 ^ c)" using g b two by simp
    have v: "real x = real (2 * (x * 2 ^ c)) * 2 powi (- int c - 1)"
    proof -
      have "- int c - 1 = - int (c + 1)" by simp
      then have "(2 :: real) powi (- int c - 1) = inverse (2 ^ (c + 1))" by (simp only: power_int_minus power_int_of_nat)
      then show ?thesis by (simp add: field_simps)
    qed
    have "extractFloatFrac a fb \<noteq> 0" using x0 x(1) by auto
    then have "div_normalise (extractFloatExp a (exp_bits sp) fb) (extractFloatFrac a fb) sp = (- int c, g)"
    proof -
      assume z: "extractFloatFrac a fb \<noteq> 0"
      have "uint lz = int c" unfolding lz(1) [symmetric] by simp
      then show ?thesis using z e0 F(1)
        by (simp only: div_normalise_def fb_def [symmetric] simp_thms if_True not_False_eq_True lz(2) prod.case Let_def g_def)
    qed
    moreover have "g OR push_bit fb 1 = of_nat (2 * (x * 2 ^ c))" using hb [of g] A b by simp
    moreover have "(4 :: int) \<le> 2 ^ exp_bits sp" using power_increasing [OF F(4), of "2 :: int"] by simp
    moreover have "\<not> normal_pattern sp a" using False by (simp add: normal_pattern_def m_def fb_def)
    moreover have "real (pattern_mag fb m) = real (2 * (x * 2 ^ c)) * 2 powi (- int c - 1)"
      using v False by (simp add: pattern_mag_def fmag_def xm)
    ultimately show ?thesis using A b two cl unfolding m_def [symmetric] 
      by (intro exI [of _ "- int c"] exI [of _ g] exI [of _ "2 * (x * 2 ^ c)"] conjI) simp_all
  qed
qed

text \<open>The leading fraction bit of the divisor.\<close>

lemma divisor_leading_bit:
  assumes "1 \<le> frac_bits sp" "normal_pattern sp b"
  shows "drop_bit (frac_bits sp - 1) b AND 1 \<noteq> 0 \<longleftrightarrow> 3 * 2 ^ (frac_bits sp - 1) \<le> sig_field sp b"
proof -
  obtain k where k: "frac_bits sp = Suc k" using assms(1) by (cases "frac_bits sp") auto
  define x where "x = unat b mod 2 ^ Suc k"
  have "fabs_bits sp b mod 2 ^ Suc k = x" using pattern_fields(2) [of b sp] by (simp only: unat_frac k x_def)
  then have s: "sig_field sp b = 2 ^ Suc k + x" by (simp add: sig_field_def k)
  have x: "x < 2 * 2 ^ k" by (simp add: x_def)
  have "unat b = unat b div 2 ^ Suc k * 2 ^ Suc k + x" by (simp only: x_def div_mult_mod_eq)
  then have "unat b = 2 * (unat b div 2 ^ Suc k) * 2 ^ k + x" by (simp add: ac_simps)
  then have "unat b div 2 ^ k = 2 * (unat b div 2 ^ Suc k) + x div 2 ^ k" by (metis div_mult_self3 power_eq_0_iff zero_neq_numeral)
  then have "odd (unat b div 2 ^ k) \<longleftrightarrow> odd (x div 2 ^ k)" by simp
  also have "\<dots> \<longleftrightarrow> 2 ^ k \<le> x"
  proof (cases "2 ^ k \<le> x")
    case True
    then have "x div 2 ^ k = 1" using x by (simp add: div_nat_eqI)
    then show ?thesis using True by simp
  qed simp
  finally show ?thesis by (simp add: last_bit_odd unat_drop_bit_div k s)
qed

text \<open>The division of a nonzero number by a normal number, on the words.\<close>

lemma float_div_number:
  fixes a b :: u64 and sp :: tfspec and A B fb eb :: nat and ea E :: int
  defines "eb \<equiv> exp_bits sp" and "fb \<equiv> frac_bits sp"
  assumes f: "div_format sp" and a: "finite_pattern sp a" "fabs_bits sp a \<noteq> 0" and b: "normal_pattern sp b"
    and n: "div_normalise (extractFloatExp a eb fb) (extractFloatFrac a fb) sp = (ea, g)" "g OR push_bit fb 1 = of_nat A"
      "2 ^ fb \<le> A" "A < 2 ^ (fb + 1)" "- int fb < ea" "ea \<le> 2 ^ eb - 2"
  defines "B \<equiv> sig_field sp b"
  defines "E \<equiv> ea - int (exp_field sp b) - exp_bias sp - of_bool (A < B)" and "R \<equiv> nearest_quotient (A * 2 ^ (fb + of_bool (A < B))) B"
  shows "unat (float_divSRT4 a b sp) = pattern_bits sp (fsign sp a \<noteq> fsign sp b)
    (if E < 0 then 0 else if E < 2 ^ eb - 1 then nat E else 2 ^ eb - 1) (if 0 \<le> E \<and> E < 2 ^ eb - 1 then R - 2 ^ fb else 0)"
proof -
  have F: "rnd_mode sp = FLOAT_RND_NEVN" "exc_mode sp = FLOAT_EXC_STD" "has_one sp" "sign_spec sp = - 1" "2 \<le> eb" "eb \<le> 30"
    "1 \<le> fb" "fb \<le> 58" "eb + fb < 64" "- (2 ^ eb) \<le> exp_bias sp" "int fb \<le> 2 - exp_bias sp"
    using f by (simp_all add: div_format_def eb_def fb_def)
  note Bn = normal_fields [OF b, folded fb_def eb_def, folded B_def]
  have b2: "finite_pattern sp b" "fabs_bits sp b \<noteq> 0"   proof -
    have "(0 :: nat) < 2 ^ frac_bits sp" by simp
    then show "fabs_bits sp b \<noteq> 0" "finite_pattern sp b" using b unfolding normal_pattern_def finite_pattern_def by linarith+
  qed
  obtain e2 g2 A2 where nb: "div_normalise (extractFloatExp b eb fb) (extractFloatFrac b fb) sp = (e2, g2)" "g2 OR push_bit fb 1 = of_nat A2"
    "A2 = B" "e2 = int (exp_field sp b)"
    using normalised_operand [OF f b2] b unfolding eb_def fb_def B_def by blast
  define m where "m \<longleftrightarrow> drop_bit (fb - 1) b AND 1 \<noteq> 0"
  have m: "m \<longleftrightarrow> 3 * 2 ^ (fb - 1) \<le> B" unfolding m_def B_def fb_def using divisor_leading_bit [OF _ b] F(7) by (simp add: fb_def)
  define q where "q = srt4_quotient (of_nat A) (of_nat B) m fb FLOAT_RND_NEVN False"
  obtain s where q: "unat q = 2 * (A * 2 ^ (fb + 2) div B) + of_bool s" "\<not> s \<longrightarrow> B dvd A * 2 ^ (fb + 2)"
    using srt4_quotient_eq [OF F(7,8) n(4) Bn(3,4) m] unfolding q_def by blast
  obtain Y r where Y: "srt4_significand q fb FLOAT_RND_NEVN = (\<not> A < B, Y, r)" "unat (drop_bit 2 Y) + of_bool r = R - 2 ^ fb"
    using srt4_significand_eq [OF F(7,8) n(3,4) Bn(3,4) q] unfolding R_def by blast
  have R: "R - 2 ^ fb < 2 ^ fb" using quotient_range(3,4) [OF n(3,4) Bn(3,4)] unfolding R_def by simp
  have zc: "div_class_result FP_CLS_NORMAL FP_CLS_NORMAL FLOAT_EXC_STD = FP_CLS_NORMAL"
    by (simp add: div_class_result_def cls_defs exc_defs)
  have E: "div_exponent ea e2 (exp_bias sp) (\<not> A < B) = E" by (simp add: div_exponent_eq E_def nb(4))
  have "int (exp_field sp b + 2) \<le> int (2 ^ eb)" using Bn(2) by (simp only: of_nat_le_iff)
  then have "- (2 ^ eb) \<le> E" "E < 2 ^ (eb + 1)" using n(5,6) F(10,11) Bn(1) by (auto simp: E_def)
  note D = div_number_eq [OF F(1,2) _ F(6)[unfolded eb_def] F(9)[unfolded eb_def fb_def] this [unfolded eb_def] Y(2) [unfolded fb_def] R [unfolded fb_def]]
  have "float_divSRT4 a b sp = div_number (fsign sp a \<noteq> fsign sp b) E Y r sp"
  proof -
    have s1: "(- 1 :: int) \<noteq> 1" by simp
    have sg: "fsign sp x = extractFloatSign x eb fb (- 1)" for x by (simp only: fsign_def eb_def fb_def F(4))
    show ?thesis
      unfolding float_divSRT4_def kernel_float_divSRT4_def
      by (simp only: Let_def eb_def [symmetric] fb_def [symmetric] div_class_number [OF f a, folded eb_def fb_def]
        div_class_number [OF f b2, folded eb_def fb_def] prod.case F(1,2,4) zc n(1) nb(1) m_def [symmetric] F(3) simp_thms of_bool_eq n(2) nb(2,3)
        q_def [symmetric] Y(1) E s1 if_False if_True sg)
  qed
  then show ?thesis using D F(5) by (simp add: eb_def fb_def)
qed

section \<open>Correct rounding\<close>

lemma pattern_mag_multiple:
  assumes "2 ^ (fb + j) \<le> pattern_mag fb x"
  shows "2 ^ j dvd pattern_mag fb x"
proof -
  define e where "e = x div 2 ^ fb"
  have "x mod 2 ^ fb < 2 ^ fb" by simp
  then have "x mod 2 ^ fb < 2 ^ fb" "x mod 2 ^ fb < 2 * 2 ^ fb" by linarith+
  then have hi: "pattern_mag fb x < 2 ^ (fb + max 1 e)"
    using fmag_bounds [of "x mod 2 ^ fb" fb e] by (cases "e = 0") (auto simp: pattern_mag_def e_def [symmetric] fmag_def max_def)
  have "(2 :: nat) ^ (fb + j) < 2 ^ (fb + max 1 e)" using assms hi by linarith
  then have j: "j < max 1 e" by simp
  show ?thesis
  proof (cases "e = 0")
    case False
    then have "j \<le> e - 1" using j by simp
    then have "(2 :: nat) ^ j dvd 2 ^ (e - 1)" by (rule le_imp_power_dvd)
    then show ?thesis using False by (simp add: pattern_mag_def fmag_def e_def)
  qed (use j in simp)
qed

lemma nearest_integer:
  fixes X :: real and R y :: int
  assumes "\<bar>of_int R - X\<bar> \<le> 1 / 2"
  shows "\<bar>of_int R - X\<bar> \<le> \<bar>of_int y - X\<bar>"
proof (cases "y = R")
  case False
  then have "y - R \<le> - 1 \<or> 1 \<le> y - R" by linarith
  then have "of_int y - of_int R \<le> (- 1 :: real) \<or> (1 :: real) \<le> of_int y - of_int R" by (simp only: of_int_diff [symmetric]) linarith
  then show ?thesis using assms by linarith
qed simp

text \<open>A number of the format that is a nearest integer multiple of the unit of its binade is nearest of all
  numbers of the format.\<close>

lemma nearest_of_format:
  fixes sp :: tfspec and X u :: real and R :: nat
  assumes u: "u = 2 ^ j * 2 powi (exp_bias sp + 1 - int (frac_bits sp))"
    and X: "2 ^ frac_bits sp \<le> X" "\<bar>real R - X\<bar> \<le> 1 / 2" and q: "\<bar>q\<bar> = X * u"
    and r: "fval sp r = (if q < 0 then - 1 else 1) * (real R * u)"
  shows "\<bar>fval sp r - q\<bar> \<le> \<bar>fval sp c - q\<bar>"
proof -
  let ?fb = "frac_bits sp" and ?m = "pattern_mag (frac_bits sp) (fabs_bits sp c)"
  define w :: real where "w = 2 powi (exp_bias sp + 1 - int ?fb)"
  have w: "0 < w" "0 < u" "u = 2 ^ j * w" by (simp_all add: w_def u)
  have c: "\<bar>fval sp c\<bar> = real ?m * w" by (simp add: fval_def fint_def abs_mult w_def)
  have "\<bar>fval sp r - q\<bar> = \<bar>real R * u - X * u\<bar>"
  proof (cases "q < 0")
    case True
    then have "q = - (X * u)" using q by simp
    then show ?thesis using r True by (simp add: abs_minus_commute)
  next
    case False
    then show ?thesis using q r by simp
  qed
  also have "\<dots> = \<bar>real R - X\<bar> * u" using w(2) by (simp add: abs_mult left_diff_distrib [symmetric])
  finally have lhs: "\<bar>fval sp r - q\<bar> = \<bar>real R - X\<bar> * u" .
  have "\<bar>real R - X\<bar> * u \<le> \<bar>\<bar>fval sp c\<bar> - \<bar>q\<bar>\<bar>"
  proof (cases "2 ^ (?fb + j) \<le> ?m")
    case True
    then obtain y where "?m = 2 ^ j * y" using pattern_mag_multiple by (meson dvdE)
    then have cu: "\<bar>fval sp c\<bar> = real y * u" unfolding c w(3) by simp
    have "\<bar>real R - X\<bar> * u \<le> \<bar>real y - X\<bar> * u"
      using nearest_integer [of "int R" X "int y"] X(2) w(2) by (intro mult_right_mono) simp_all
    also have "\<dots> = \<bar>\<bar>fval sp c\<bar> - \<bar>q\<bar>\<bar>" unfolding cu q using w(2) by (simp add: abs_mult left_diff_distrib [symmetric])
    finally show ?thesis .
  next
    case False
    then have "real ?m < 2 ^ (?fb + j)" by (metis not_le of_nat_less_iff of_nat_numeral of_nat_power)
    then have lt: "\<bar>fval sp c\<bar> \<le> 2 ^ ?fb * u" unfolding c w(3) using w(1) by (simp add: power_add mult_right_mono less_imp_le flip: mult.assoc)
    have "\<bar>real R - X\<bar> * u \<le> \<bar>2 ^ ?fb - X\<bar> * u"
      using nearest_integer [of "int R" X "2 ^ ?fb"] X(2) w(2) by (intro mult_right_mono) simp_all
    also have "\<dots> = X * u - 2 ^ ?fb * u" using X(1) by (simp add: left_diff_distrib)
    also have "\<dots> \<le> \<bar>\<bar>fval sp c\<bar> - \<bar>q\<bar>\<bar>" using lt unfolding q by linarith
    finally show ?thesis .
  qed
  also have "\<dots> \<le> \<bar>fval sp c - q\<bar>" by (rule abs_triangle_ineq3)
  finally show ?thesis unfolding lhs .
qed

text \<open>The exact quotient, in units of the result.\<close>

lemma exact_quotient:
  fixes a b :: u64 and sp :: tfspec
  defines "q \<equiv> fval sp a / fval sp b" and "fb \<equiv> frac_bits sp"
  assumes a: "real (pattern_mag fb (fabs_bits sp a)) = real A * 2 powi (ea - 1)" "0 < A"
    and b: "real (pattern_mag fb (fabs_bits sp b)) = real B * 2 powi (e2 - 1)" "0 < B"
  shows "\<bar>q\<bar> = real (A * 2 ^ k) / real B * 2 powi (ea - e2 - int k)" and "q < 0 \<longleftrightarrow> fsign sp a \<noteq> fsign sp b"
proof -
  define w :: real where "w = 2 powi (exp_bias sp + 1 - int fb)"
  have w: "0 < w" by (simp add: w_def)
  have ab: "\<bar>fval sp a\<bar> = real A * 2 powi (ea - 1) * w" "\<bar>fval sp b\<bar> = real B * 2 powi (e2 - 1) * w"
    using a(1) b(1) by (simp_all add: fval_def fint_def abs_mult w_def fb_def)
  have "ea - 1 = int k + (ea - e2 - int k) + (e2 - 1)" by simp
  then have "(2 :: real) powi (ea - 1) = 2 ^ k * 2 powi (ea - e2 - int k) * 2 powi (e2 - 1)"
    by (simp only: power_int_add power_int_of_nat zero_neq_numeral [symmetric] simp_thms)
  then show "\<bar>q\<bar> = real (A * 2 ^ k) / real B * 2 powi (ea - e2 - int k)"
    unfolding q_def abs_divide ab using b(2) w by (simp add: field_simps)
  have sg: "fval sp x < 0 \<longleftrightarrow> fsign sp x" "0 < fval sp x \<longleftrightarrow> \<not> fsign sp x" if "fval sp x \<noteq> 0" for x
  proof -
    have "fval sp x = (if fsign sp x then - 1 else 1) * (real (pattern_mag fb (fabs_bits sp x)) * w)"
      by (simp add: fval_def fint_def w_def fb_def)
    then show "fval sp x < 0 \<longleftrightarrow> fsign sp x" "0 < fval sp x \<longleftrightarrow> \<not> fsign sp x"
      using that w by (auto simp: zero_less_mult_iff mult_less_0_iff)
  qed
  have "fval sp a \<noteq> 0" "fval sp b \<noteq> 0" using ab a(2) b(2) w by auto
  then show "q < 0 \<longleftrightarrow> fsign sp a \<noteq> fsign sp b" unfolding q_def divide_less_0_iff using sg by blast
qed

text \<open>The result as exponent \<open>E\<close> and significand \<open>R\<close>, and the exact quotient as \<open>X\<close> in the units of the result.\<close>

lemma float_div_value:
  fixes a b :: u64 and sp :: tfspec
  defines "q \<equiv> fval sp a / fval sp b" and "r \<equiv> float_divSRT4 a b sp"
  assumes f: "div_format sp" and a: "finite_pattern sp a" "fabs_bits sp a \<noteq> 0" and b: "normal_pattern sp b"
  shows "\<exists>E R X. unat r = pattern_bits sp (fsign sp a \<noteq> fsign sp b)
        (if E < 0 then 0 else if E < 2 ^ exp_bits sp - 1 then nat E else 2 ^ exp_bits sp - 1)
        (if 0 \<le> E \<and> E < 2 ^ exp_bits sp - 1 then R - 2 ^ frac_bits sp else 0)
    \<and> 2 ^ frac_bits sp \<le> R \<and> R < 2 ^ (frac_bits sp + 1) \<and> 2 ^ frac_bits sp \<le> X \<and> X < 2 ^ (frac_bits sp + 1) \<and> \<bar>real R - X\<bar> \<le> 1 / 2
    \<and> \<bar>q\<bar> = X * 2 powi (E + exp_bias sp - int (frac_bits sp)) \<and> (q < 0 \<longleftrightarrow> fsign sp a \<noteq> fsign sp b)"
proof -
  let ?eb = "exp_bits sp" and ?fb = "frac_bits sp" and ?bias = "exp_bias sp"
  define s where "s \<longleftrightarrow> fsign sp a \<noteq> fsign sp b"
  define B where "B = sig_field sp b"
  obtain ea g A where n: "div_normalise (extractFloatExp a ?eb ?fb) (extractFloatFrac a ?fb) sp = (ea, g)" "g OR push_bit ?fb 1 = of_nat A"
      "2 ^ ?fb \<le> A" "A < 2 ^ (?fb + 1)" "real (pattern_mag ?fb (fabs_bits sp a)) = real A * 2 powi (ea - 1)" "- int ?fb < ea" "ea \<le> 2 ^ ?eb - 2"
    using normalised_operand [OF f a] by blast
  define k where "k = ?fb + of_bool (A < B)"
  define E where "E = ea - int (exp_field sp b) - ?bias - of_bool (A < B)"
  define R where "R = nearest_quotient (A * 2 ^ k) B"
  note D = float_div_number [OF f a b n(1-4,6,7), folded B_def, folded k_def, folded E_def R_def, folded s_def r_def]
  note Bn = normal_fields [OF b, folded B_def]
  have B0: "0 < B" and A0: "0 < A" using n(3) Bn(3) by (meson less_le_trans zero_less_numeral zero_less_power)+
  note Q = quotient_range [OF n(3,4) Bn(3,4), folded k_def, folded R_def]
  define X where "X = real (A * 2 ^ k) / real B"
  have X: "2 ^ ?fb \<le> X" "X < 2 ^ (?fb + 1)" "\<bar>real R - X\<bar> \<le> 1 / 2"
    using nearest_quotient_real [OF n(3,4) Bn(3,4)] by (simp_all only: X_def R_def k_def)
  have "int (exp_field sp b) - 1 = int (exp_field sp b - 1)" using Bn(1) by simp
  then have "(2 :: real) powi (int (exp_field sp b) - 1) = 2 ^ (exp_field sp b - 1)" by (simp only: power_int_of_nat)
  then have Bv: "real (pattern_mag ?fb (fabs_bits sp b)) = real B * 2 powi (int (exp_field sp b) - 1)" by (simp add: Bn(5))
  have "ea - int (exp_field sp b) - int k = E + ?bias - int ?fb" by (simp add: E_def k_def)
  then have q: "\<bar>q\<bar> = X * 2 powi (E + ?bias - int ?fb)" and q0: "q < 0 \<longleftrightarrow> s"
    using exact_quotient(1) [OF n(5) A0 Bv B0, of k] exact_quotient(2) [OF n(5) A0 Bv B0] by (simp_all only: q_def X_def s_def)
  show ?thesis using D Q(3,4) X q q0 unfolding s_def by blast
qed

lemma binade_bounds:
  fixes X Q :: real and E k :: int and n :: nat
  assumes "2 ^ n \<le> X" "X < 2 ^ (n + 1)" and q: "Q = X * 2 powi (E + k - int n)"
  shows "Q < 2 powi (m + k) \<Longrightarrow> E < m" and "2 powi (m + k) \<le> Q \<Longrightarrow> m \<le> E"
proof -
  have p: "(2 :: real) powi (E + k) = 2 ^ n * 2 powi (E + k - int n)" "(2 :: real) powi (E + k + 1) = 2 ^ (n + 1) * 2 powi (E + k - int n)"
    by (rule powi_shift, simp)+
  have b: "2 powi (E + k) \<le> Q" "Q < 2 powi (E + k + 1)" unfolding p q using assms(1,2) by (simp_all add: mult_strict_right_mono)
  show "E < m" if "Q < 2 powi (m + k)"
  proof (rule ccontr)
    assume "\<not> E < m"
    then have "(2 :: real) powi (m + k) \<le> 2 powi (E + k)" by (intro power_int_increasing) auto
    then show False using that b by linarith
  qed
  show "m \<le> E" if "2 powi (m + k) \<le> Q"
  proof (rule ccontr)
    assume "\<not> m \<le> E"
    then have "(2 :: real) powi (E + k + 1) \<le> 2 powi (m + k)" by (intro power_int_increasing) auto
    then show False using that b by linarith
  qed
qed

text \<open>
  C13. Division is correctly rounded: in every format with round to nearest, IEEE exceptions and subnormals,
  for a nonzero finite dividend, subnormal or not, and a normal divisor, the result has the sign of the quotient and, when the exact quotient \<open>q\<close> is in the
  normal range, is a normal number to which no number of the format is nearer \<open>q\<close>; above the range it is
  infinity. When \<open>q\<close> is below the smallest normal number the exponent field of the result is
  zero, and nothing more holds (see \<open>division_subnormal\<close>).
\<close>

theorem float_div_correct:
  fixes a b c :: u64 and sp :: tfspec
  defines "q \<equiv> fval sp a / fval sp b" and "r \<equiv> float_divSRT4 a b sp"
  assumes f: "div_format sp" and a: "finite_pattern sp a" "fabs_bits sp a \<noteq> 0" and b: "normal_pattern sp b"
  shows "pattern_of sp r \<and> fsign sp r = (fsign sp a \<noteq> fsign sp b)
    \<and> (\<bar>q\<bar> < 2 powi (exp_bias sp + 1) \<longrightarrow> fabs_bits sp r < 2 ^ frac_bits sp)
    \<and> (2 powi (exp_bias sp + 1) \<le> \<bar>q\<bar> \<and> \<bar>q\<bar> < 2 powi (exp_bias sp + 2 ^ exp_bits sp - 1)
        \<longrightarrow> normal_pattern sp r \<and> (finite_pattern sp c \<longrightarrow> \<bar>fval sp r - q\<bar> \<le> \<bar>fval sp c - q\<bar>))
    \<and> (2 powi (exp_bias sp + 2 ^ exp_bits sp - 1) \<le> \<bar>q\<bar> \<longrightarrow> inf_pattern sp r)"
proof -
  let ?eb = "exp_bits sp" and ?fb = "frac_bits sp" and ?bias = "exp_bias sp"
  have F: "sign_spec sp = - 1" "2 \<le> ?eb" using f by (simp_all add: div_format_def)
  define s where "s \<longleftrightarrow> fsign sp a \<noteq> fsign sp b"
  obtain E R X where D: "unat r = pattern_bits sp s (if E < 0 then 0 else if E < 2 ^ ?eb - 1 then nat E else 2 ^ ?eb - 1)
      (if 0 \<le> E \<and> E < 2 ^ ?eb - 1 then R - 2 ^ ?fb else 0)"
    and R: "2 ^ ?fb \<le> R" "R < 2 ^ (?fb + 1)" and X: "2 ^ ?fb \<le> X" "X < 2 ^ (?fb + 1)" "\<bar>real R - X\<bar> \<le> 1 / 2"
    and q: "\<bar>q\<bar> = X * 2 powi (E + ?bias - int ?fb)" "q < 0 \<longleftrightarrow> s"
    using float_div_value [OF f a b] unfolding q_def r_def s_def by blast
  note T = binade_bounds [OF X(1,2) q(1)]
  define e' f' where "e' = (if E < 0 then 0 else if E < 2 ^ ?eb - 1 then nat E else 2 ^ ?eb - 1)"
    and "f' = (if 0 \<le> E \<and> E < 2 ^ ?eb - 1 then R - 2 ^ ?fb else 0)"
  have lim: "nat E < 2 ^ ?eb - 1" if "0 \<le> E" "E < 2 ^ ?eb - 1"
  proof -
    have "int (nat E + 1) < int (2 ^ ?eb)" using that by simp
    then show ?thesis by (simp only: of_nat_less_iff)
  qed
  have "e' < 2 ^ ?eb" "f' < 2 ^ ?fb" using lim R by (auto simp: e'_def f'_def)
  note P = pattern_bits_fields [OF D [folded e'_def f'_def] this F(1)]
  have one: "(1 :: int) < 2 ^ ?eb - 1" using power_increasing [OF F(2), of "2 :: int"] by simp
  have low: "fabs_bits sp r < 2 ^ ?fb" if "\<bar>q\<bar> < 2 powi (?bias + 1)"
    using T(1) [of 1] that \<open>f' < 2 ^ ?fb\<close> P(3) one by (simp add: e'_def add.commute)
  have high: "inf_pattern sp r" if "2 powi (?bias + 2 ^ ?eb - 1) \<le> \<bar>q\<bar>"
    using T(2) [of "2 ^ ?eb - 1"] that P(3) one unfolding inf_pattern_def infinity_bits_def by (auto simp: e'_def f'_def algebra_simps)
  have normal: "normal_pattern sp r \<and> (finite_pattern sp c \<longrightarrow> \<bar>fval sp r - q\<bar> \<le> \<bar>fval sp c - q\<bar>)"
    if "2 powi (?bias + 1) \<le> \<bar>q\<bar>" "\<bar>q\<bar> < 2 powi (?bias + 2 ^ ?eb - 1)"
  proof -
    have E: "1 \<le> E" "E < 2 ^ ?eb - 1" using T(2) [of 1] T(1) [of "2 ^ ?eb - 1"] that by (simp_all add: algebra_simps)
    define j where "j = nat (E - 1)"
    have ef: "e' = j + 1" "f' = R - 2 ^ ?fb" using E by (simp_all add: e'_def f'_def j_def nat_diff_distrib')
    have "(j + 2) * 2 ^ ?fb \<le> (2 ^ ?eb - 1) * 2 ^ ?fb" using lim E ef(1) by (intro mult_le_mono1) (simp add: e'_def)
    then have "normal_pattern sp r" using P(3) ef R unfolding normal_pattern_def infinity_bits_def by simp
    moreover have "\<bar>fval sp r - q\<bar> \<le> \<bar>fval sp c - q\<bar>"
    proof (rule nearest_of_format [OF _ X(1,3) q(1)])
      have "E + ?bias - int ?fb = int j + (?bias + 1 - int ?fb)" using E by (simp add: j_def)
      then show u: "2 powi (E + ?bias - int ?fb) = (2 :: real) ^ j * 2 powi (?bias + 1 - int ?fb)"
        by (rule powi_shift)
      have "pattern_mag ?fb (fabs_bits sp r) = R * 2 ^ j"
        using P(4,5) R(1) by (simp add: pattern_mag_def fmag_def exp_field_def [symmetric] ef)
      then show "fval sp r = (if q < 0 then - 1 else 1) * (real R * 2 powi (E + ?bias - int ?fb))"
        unfolding u by (simp add: fval_def fint_def P(2) q(2))
    qed
    ultimately show ?thesis by blast
  qed
  show ?thesis using P(1,2) low normal high unfolding s_def by blast
qed

lemma float_div_correct_witness:
  "normal_pattern IEEE16_SPEC_ARGS (float_divSRT4 0x3C00 0x4200 IEEE16_SPEC_ARGS)
   \<and> \<bar>fval IEEE16_SPEC_ARGS (float_divSRT4 0x3C00 0x4200 IEEE16_SPEC_ARGS) - 1 / 3\<bar> \<le> \<bar>fval IEEE16_SPEC_ARGS 0x3555 - 1 / 3\<bar>
   \<and> inf_pattern IEEE16_SPEC_ARGS (float_divSRT4 0x7800 0x0400 IEEE16_SPEC_ARGS)"
proof -
  have k: "frac_bits IEEE16_SPEC_ARGS = 10" "exp_bits IEEE16_SPEC_ARGS = 5" "sign_spec IEEE16_SPEC_ARGS = - 1" "exp_bias IEEE16_SPEC_ARGS = - 15"
    by (simp_all add: IEEE16_SPEC_ARGS_def)
  have v: "fint IEEE16_SPEC_ARGS 0x3C00 = 2 ^ 24" "fint IEEE16_SPEC_ARGS 0x4200 = 3 * 2 ^ 24"
    "fint IEEE16_SPEC_ARGS 0x7800 = 2 ^ 39" "fint IEEE16_SPEC_ARGS 0x0400 = 2 ^ 10"
    by (simp_all add: fint_def fsign_def fabs_bits_def k pattern_mag_def fmag_def extractFloatSign_def)
  have q: "fval IEEE16_SPEC_ARGS 0x3C00 / fval IEEE16_SPEC_ARGS 0x4200 = 1 / 3" "fval IEEE16_SPEC_ARGS 0x7800 / fval IEEE16_SPEC_ARGS 0x0400 = 2 ^ 29"
    unfolding fval_def v by simp_all
  have p: "finite_pattern IEEE16_SPEC_ARGS x" "fabs_bits IEEE16_SPEC_ARGS x \<noteq> 0" "normal_pattern IEEE16_SPEC_ARGS x"
    if "x \<in> {0x3C00, 0x4200, 0x7800, 0x0400, 0x3555}" for x
    using that by (auto simp: finite_pattern_def normal_pattern_def fabs_bits_def infinity_bits_def k)
  have b: "(2 :: real) powi (- 14) \<le> 1 / 3" "(1 :: real) / 3 < 2 powi 16" "(2 :: real) powi 16 \<le> 2 ^ 29" by (simp_all add: power_int_minus_divide)
  have "normal_pattern IEEE16_SPEC_ARGS (float_divSRT4 0x3C00 0x4200 IEEE16_SPEC_ARGS)
   \<and> \<bar>fval IEEE16_SPEC_ARGS (float_divSRT4 0x3C00 0x4200 IEEE16_SPEC_ARGS) - 1 / 3\<bar> \<le> \<bar>fval IEEE16_SPEC_ARGS 0x3555 - 1 / 3\<bar>"
    using float_div_correct [OF ieee_div_formats(1), of "0x3C00" "0x4200" "0x3555"] p b unfolding q k by simp
  moreover have "inf_pattern IEEE16_SPEC_ARGS (float_divSRT4 0x7800 0x0400 IEEE16_SPEC_ARGS)"
    using float_div_correct [OF ieee_div_formats(1), of "0x7800" "0x0400" "0x3555"] p b unfolding q k by simp
  ultimately show ?thesis by blast
qed

section \<open>Zeros, infinities and NaNs\<close>

lemma div_class_eq:
  fixes a :: u64 and sp :: tfspec
  assumes f: "exc_mode sp = FLOAT_EXC_STD" "1 \<le> exp_bits sp" "exp_bits sp + frac_bits sp < 64"
  shows "\<exists>n. div_class (extractFloatExp a (exp_bits sp) (frac_bits sp)) (extractFloatFrac a (frac_bits sp)) sp =
    (if nan_pattern sp a then FP_CLS_NAN else if inf_pattern sp a then FP_CLS_INF else if zero_pattern sp a then FP_CLS_ZERO else FP_CLS_NORMAL,
     n, zero_pattern sp a, inf_pattern sp a, nan_pattern sp a)"
  unfolding pattern_classes(1-3) [OF f(2,3)] div_class_def Let_def using f(1) pattern_classes(4) [OF f(2,3)]
  by (auto simp: cls_select_def cls_defs exc_defs simp del: push_bit_of_1)

text \<open>The class of the quotient: 0/0 and the quotient of infinities are NaNs.\<close>

lemma div_class_results:
  "div_class_result FP_CLS_NAN FP_CLS_ZERO FLOAT_EXC_STD = FP_CLS_NAN" "div_class_result FP_CLS_NAN FP_CLS_NORMAL FLOAT_EXC_STD = FP_CLS_NAN"
  "div_class_result FP_CLS_NAN FP_CLS_INF FLOAT_EXC_STD = FP_CLS_NAN" "div_class_result FP_CLS_NAN FP_CLS_NAN FLOAT_EXC_STD = FP_CLS_NAN"
  "div_class_result FP_CLS_ZERO FP_CLS_NAN FLOAT_EXC_STD = FP_CLS_NAN" "div_class_result FP_CLS_NORMAL FP_CLS_NAN FLOAT_EXC_STD = FP_CLS_NAN"
  "div_class_result FP_CLS_INF FP_CLS_NAN FLOAT_EXC_STD = FP_CLS_NAN"
  "div_class_result FP_CLS_ZERO FP_CLS_ZERO FLOAT_EXC_STD = FP_CLS_NAN" "div_class_result FP_CLS_INF FP_CLS_INF FLOAT_EXC_STD = FP_CLS_NAN"
  "div_class_result FP_CLS_INF FP_CLS_ZERO FLOAT_EXC_STD = FP_CLS_INF" "div_class_result FP_CLS_INF FP_CLS_NORMAL FLOAT_EXC_STD = FP_CLS_INF"
  "div_class_result FP_CLS_NORMAL FP_CLS_ZERO FLOAT_EXC_STD = FP_CLS_INF"
  "div_class_result FP_CLS_ZERO FP_CLS_NORMAL FLOAT_EXC_STD = FP_CLS_ZERO" "div_class_result FP_CLS_ZERO FP_CLS_INF FLOAT_EXC_STD = FP_CLS_ZERO"
  "div_class_result FP_CLS_NORMAL FP_CLS_INF FLOAT_EXC_STD = FP_CLS_ZERO"
  by (simp_all add: div_class_result_def cls_defs exc_defs)

text \<open>What the function returns for each class of the quotient.\<close>

lemma float_div_class:
  fixes a b :: u64 and sp :: tfspec
  defines "eb \<equiv> exp_bits sp" and "fb \<equiv> frac_bits sp"
  defines "s \<equiv> fsign sp a \<noteq> fsign sp b" and "r \<equiv> float_divSRT4 a b sp"
  assumes f: "exc_mode sp = FLOAT_EXC_STD" "sign_spec sp = - 1"
    and c: "div_class (extractFloatExp a eb fb) (extractFloatFrac a fb) sp = (ca, na, za, ia, ya)"
      "div_class (extractFloatExp b eb fb) (extractFloatFrac b fb) sp = (cb, nb, zb, ib, yb)"
      "div_class_result ca cb FLOAT_EXC_STD = zc"
  shows "zc = FP_CLS_ZERO \<Longrightarrow> r = push_bit (eb + fb) (of_bool s)"
    and "zc = FP_CLS_INF \<Longrightarrow> r = push_bit (eb + fb) (of_bool s) OR push_bit fb (ones eb)"
    and "zc = FP_CLS_NAN \<Longrightarrow> \<exists>t x. r = push_bit (eb + fb) t OR ((push_bit fb (ones eb) OR push_bit (fb - 1) 1) OR x)"
proof -
  have sg: "fsign sp x = extractFloatSign x eb fb (- 1)" for x by (simp only: fsign_def eb_def fb_def f(2))
  have s1: "(- 1 :: int) \<noteq> 1" by simp
  obtain ea ga where n1: "div_normalise (extractFloatExp a eb fb) (extractFloatFrac a fb) sp = (ea, ga)" by fastforce
  obtain e2 gb where n2: "div_normalise (extractFloatExp b eb fb) (extractFloatFrac b fb) sp = (e2, gb)" by fastforce
  have ne: "FP_CLS_ZERO \<noteq> FP_CLS_NORMAL" "FP_CLS_INF \<noteq> FP_CLS_NORMAL" "FP_CLS_NAN \<noteq> FP_CLS_NORMAL" "FP_CLS_INF \<noteq> FP_CLS_ZERO"
    "FP_CLS_NAN \<noteq> FP_CLS_ZERO" "FP_CLS_INF \<noteq> FP_CLS_NAN" "FLOAT_EXC_STD \<noteq> FLOAT_EXC_NONAN" "FLOAT_EXC_STD \<noteq> FLOAT_EXC_OVF"
    by (simp_all add: cls_defs exc_defs)
  note k = float_divSRT4_def kernel_float_divSRT4_def Let_def eb_def [symmetric] fb_def [symmetric] c n1 n2 f s1 if_False prod.case
  show "r = push_bit (eb + fb) (of_bool s)" if "zc = FP_CLS_ZERO"
    unfolding r_def s_def by (simp only: k that ne simp_thms if_True case_prod_beta fst_conv snd_conv sg)
  show "r = push_bit (eb + fb) (of_bool s) OR push_bit fb (ones eb)" if "zc = FP_CLS_INF"
    unfolding r_def s_def by (simp only: k that ne simp_thms if_True case_prod_beta fst_conv snd_conv sg or.right_neutral)
  show "\<exists>t x. r = push_bit (eb + fb) t OR ((push_bit fb (ones eb) OR push_bit (fb - 1) 1) OR x)" if "zc = FP_CLS_NAN"
    unfolding r_def by (simp only: k that ne simp_thms if_True case_prod_beta fst_conv snd_conv or.assoc) blast
qed

lemma quiet_nan_bits:
  assumes f: "1 \<le> exp_bits sp" "1 \<le> frac_bits sp" "exp_bits sp + frac_bits sp < 64"
    and r: "r = push_bit (exp_bits sp + frac_bits sp) t OR ((push_bit (frac_bits sp) (ones (exp_bits sp)) OR push_bit (frac_bits sp - 1) 1) OR x)"
  shows "nan_pattern sp r"
proof -
  let ?eb = "exp_bits sp" and ?fb = "frac_bits sp" and ?n = "exp_bits sp + frac_bits sp"
  define K where "K = push_bit ?fb (ones ?eb) OR (push_bit (?fb - 1) 1 :: u64)"
  have p: "(2 :: nat) ^ (?fb - 1) < 2 ^ ?fb" using f(2) by (intro power_strict_increasing) auto
  have on: "unat (ones ?eb :: u64) = 2 ^ ?eb - 1" using f(3) by (intro unat_ones) simp
  have u1: "unat (push_bit (?fb - 1) 1 :: u64) = 2 ^ (?fb - 1)" using f(3) by (intro unat_push_1) simp
  have K: "unat K = infinity_bits sp + 2 ^ (?fb - 1)" "unat K < 2 ^ ?n"
  proof -
    have "unat ((push_bit ?n (of_bool False) OR push_bit ?fb (ones ?eb)) OR (push_bit (?fb - 1) 1) :: u64)
      = of_bool False * 2 ^ ?n + (unat (ones ?eb :: u64) * 2 ^ ?fb + unat (push_bit (?fb - 1) 1 :: u64))"
      using f p on u1 by (intro unat_fields) (simp_all del: push_bit_of_1)
    then show k: "unat K = infinity_bits sp + 2 ^ (?fb - 1)"
      by (simp only: K_def infinity_bits_def on u1 of_bool_eq push_bit_of_0 or.left_neutral mult_zero_left add_0)
    have "(2 ^ ?eb - 1) * 2 ^ ?fb + 2 ^ ?fb = (2 :: nat) ^ ?n" by (simp add: power_add diff_mult_distrib)
    then show "unat K < 2 ^ ?n" using p unfolding k infinity_bits_def by linarith
  qed
  have "K AND ones ?n = K" using K(2) by (simp only: word_unat_eq_iff and_ones mod_less)
  then have "r AND ones ?n = (push_bit ?n t AND ones ?n) OR (K OR (x AND ones ?n))"
    unfolding r K_def [symmetric] by (simp only: word_ao_dist)
  then have "r AND ones ?n = K OR ((push_bit ?n t AND ones ?n) OR (x AND ones ?n))" by (simp only: or.left_commute)
  then have "K \<le> r AND ones ?n" by (simp only: le_word_or2)
  then have "unat K \<le> fabs_bits sp r" unfolding word_le_nat_alt and_ones fabs_bits_def .
  moreover have "(0 :: nat) < 2 ^ (?fb - 1)" by simp
  ultimately show ?thesis unfolding nan_pattern_def K(1) by linarith
qed

text \<open>
  C21. Division of and by zeros, infinities and NaNs, in every format with IEEE exceptions: with a NaN, of two zeros and
  of two infinities the result is a NaN; another quotient of an infinity, or by a zero, is the infinity of the sign of the quotient;
  another quotient of a zero, or by an infinity, the zero of that sign. In a format without subnormal numbers
  every operand with a zero exponent counts as zero. No division raises a flag.
\<close>

theorem float_div_special:
  fixes a b :: u64 and sp :: tfspec
  defines "n \<equiv> exp_bits sp + frac_bits sp" and "s \<equiv> fsign sp a \<noteq> fsign sp b" and "r \<equiv> float_divSRT4 a b sp"
  assumes f: "exc_mode sp = FLOAT_EXC_STD" "sign_spec sp = - 1" "1 \<le> exp_bits sp" "1 \<le> frac_bits sp" "n < 64"
  shows "(nan_pattern sp a \<or> nan_pattern sp b \<or> inf_pattern sp a \<and> inf_pattern sp b \<or> zero_pattern sp a \<and> zero_pattern sp b
      \<longrightarrow> nan_pattern sp r)
    \<and> (inf_pattern sp a \<and> \<not> nan_pattern sp b \<and> \<not> inf_pattern sp b \<or> zero_pattern sp b \<and> \<not> nan_pattern sp a \<and> \<not> zero_pattern sp a
      \<longrightarrow> r = push_bit n (of_bool s) OR push_bit (frac_bits sp) (ones (exp_bits sp)))
    \<and> (zero_pattern sp a \<and> \<not> nan_pattern sp b \<and> \<not> zero_pattern sp b \<or> inf_pattern sp b \<and> \<not> nan_pattern sp a \<and> \<not> inf_pattern sp a
      \<longrightarrow> r = push_bit n (of_bool s))"
proof -
  have n: "exp_bits sp + frac_bits sp < 64" using f(5) by (simp add: n_def)
  obtain na nb where c: "div_class (extractFloatExp a (exp_bits sp) (frac_bits sp)) (extractFloatFrac a (frac_bits sp)) sp =
      (if nan_pattern sp a then FP_CLS_NAN else if inf_pattern sp a then FP_CLS_INF else if zero_pattern sp a then FP_CLS_ZERO else FP_CLS_NORMAL,
       na, zero_pattern sp a, inf_pattern sp a, nan_pattern sp a)"
    "div_class (extractFloatExp b (exp_bits sp) (frac_bits sp)) (extractFloatFrac b (frac_bits sp)) sp =
      (if nan_pattern sp b then FP_CLS_NAN else if inf_pattern sp b then FP_CLS_INF else if zero_pattern sp b then FP_CLS_ZERO else FP_CLS_NORMAL,
       nb, zero_pattern sp b, inf_pattern sp b, nan_pattern sp b)"
    using div_class_eq [OF f(1,3) n, of a] div_class_eq [OF f(1,3) n, of b] by blast
  note R = float_div_class [OF f(1,2) c, folded n_def s_def r_def]
  have x: "\<not> (inf_pattern sp y \<and> zero_pattern sp y)" "\<not> (nan_pattern sp y \<and> zero_pattern sp y)" "\<not> (inf_pattern sp y \<and> nan_pattern sp y)" for y
    using pattern_classes(1-3) [OF f(3) n, of y] pattern_classes(4) [OF f(3) n] by auto
  have "nan_pattern sp r" if "nan_pattern sp a \<or> nan_pattern sp b \<or> inf_pattern sp a \<and> inf_pattern sp b \<or> zero_pattern sp a \<and> zero_pattern sp b"
  proof -
    have "\<exists>t y. r = push_bit n t OR ((push_bit (frac_bits sp) (ones (exp_bits sp)) OR push_bit (frac_bits sp - 1) 1) OR y)"
      using that x [of a] x [of b] by (intro R(3) [OF refl]) (auto simp: div_class_results)
    then obtain t y where "r = push_bit n t OR ((push_bit (frac_bits sp) (ones (exp_bits sp)) OR push_bit (frac_bits sp - 1) 1) OR y)" by blast
    then show ?thesis unfolding n_def by (rule quiet_nan_bits [OF f(3,4) n])
  qed
  moreover have "r = push_bit n (of_bool s) OR push_bit (frac_bits sp) (ones (exp_bits sp))"
    if "inf_pattern sp a \<and> \<not> nan_pattern sp b \<and> \<not> inf_pattern sp b \<or> zero_pattern sp b \<and> \<not> nan_pattern sp a \<and> \<not> zero_pattern sp a"
    using that x [of a] x [of b] by (intro R(2) [OF refl]) (auto simp: div_class_results)
  moreover have "r = push_bit n (of_bool s)"
    if "zero_pattern sp a \<and> \<not> nan_pattern sp b \<and> \<not> zero_pattern sp b \<or> inf_pattern sp b \<and> \<not> nan_pattern sp a \<and> \<not> inf_pattern sp a"
    using that x [of a] x [of b] by (intro R(1) [OF refl]) (auto simp: div_class_results)
  ultimately show ?thesis by blast
qed

lemma float_div_special_witness:
  "nan_pattern IEEE16_SPEC_ARGS (float_divSRT4 0x7C00 0xFC00 IEEE16_SPEC_ARGS)
   \<and> float_divSRT4 0xBC00 0 IEEE16_SPEC_ARGS = 0xFC00"
proof -
  have k: "frac_bits IEEE16_SPEC_ARGS = 10" "exp_bits IEEE16_SPEC_ARGS = 5" "sign_spec IEEE16_SPEC_ARGS = - 1" "exc_mode IEEE16_SPEC_ARGS = FLOAT_EXC_STD"
    "has_subnorm IEEE16_SPEC_ARGS"
    by (simp_all add: IEEE16_SPEC_ARGS_def)
  have c: "inf_pattern IEEE16_SPEC_ARGS 0x7C00" "inf_pattern IEEE16_SPEC_ARGS 0xFC00" "zero_pattern IEEE16_SPEC_ARGS 0"
    "\<not> nan_pattern IEEE16_SPEC_ARGS 0xBC00" "\<not> zero_pattern IEEE16_SPEC_ARGS 0xBC00"
    by (simp_all add: inf_pattern_def nan_pattern_def zero_pattern_def fabs_bits_def infinity_bits_def k)
  have s: "fsign IEEE16_SPEC_ARGS 0xBC00" "\<not> fsign IEEE16_SPEC_ARGS 0" by (simp_all add: fsign_def extractFloatSign_def k)
  have "nan_pattern IEEE16_SPEC_ARGS (float_divSRT4 0x7C00 0xFC00 IEEE16_SPEC_ARGS)"
    using float_div_special [of IEEE16_SPEC_ARGS "0x7C00" "0xFC00"] c k by simp
  moreover have "float_divSRT4 0xBC00 0 IEEE16_SPEC_ARGS = push_bit 15 1 OR push_bit 10 (ones 5)"
    using float_div_special [of IEEE16_SPEC_ARGS "0xBC00" 0] c s by (simp add: k)
  ultimately show ?thesis by simp
qed

section \<open>Subnormal numbers\<close>

lemma half_format:
  "frac_bits IEEE16_SPEC_ARGS = 10" "exp_bits IEEE16_SPEC_ARGS = 5" "sign_spec IEEE16_SPEC_ARGS = - 1" "exp_bias IEEE16_SPEC_ARGS = - 15"
  "exc_mode IEEE16_SPEC_ARGS = FLOAT_EXC_STD" "rnd_mode IEEE16_SPEC_ARGS = FLOAT_RND_NEVN" "has_subnorm IEEE16_SPEC_ARGS" "has_one IEEE16_SPEC_ARGS"
  by (simp_all add: IEEE16_SPEC_ARGS_def)

text \<open>The significands 1024 and 1600, with the leading fraction bit taken from the subnormal pattern.\<close>

lemma wrong_digits: "srt4_quotient 1024 1600 False 10 FLOAT_RND_NEVN False = 0x1499"
proof -
  have "srt4_step 1600 False 10 (1024, 0, 0) = (5888, 8, 0)" "srt4_step 1600 False 10 (5888, 8, 0) = (384, 36, 8)"
    "srt4_step 1600 False 10 (384, 36, 8) = (1536, 144, 32)" "srt4_step 1600 False 10 (1536, 144, 32) = (4736, 588, 128)"
    "srt4_step 1600 False 10 (4736, 588, 128) = (3968, 2356, 520)" "srt4_step 1600 False 10 (3968, 2356, 520) = (6272, 9436, 2080)"
    "srt4_step 1600 False 10 (6272, 9436, 2080) = (1920, 37748, 8328)"
    by (simp_all add: srt4_step_def srt4_select_def srt4_digit_def SELECT_BIT_def srt4_multiple_def Let_def)
  then have "srt4_loop 1600 False 10 7 (1024, 0, 0) = (1920, 37748, 8328)" by (simp add: srt4_loop_def eval_nat_numeral)
  then show ?thesis by (simp add: srt4_quotient_def frac_p3_def Let_def)
qed

text \<open>
  The division gets subnormal divisors and subnormal quotients wrong. The digits are selected by the leading fraction bit
  of the divisor, which the code reads before it normalises the divisor: in half precision the least normal number divided by \<open>25\<cdot>2^-24\<close> is
  \<open>1024/25 = 40.96\<close>, and the result is \<open>41.1875\<close>. A quotient below the normal range is packed without its
  hidden bit: the least normal number divided by two is zero.
\<close>

theorem division_subnormal:
  "float_divSRT4 0x0400 0x0019 IEEE16_SPEC_ARGS = 0x5126
   \<and> fval IEEE16_SPEC_ARGS 0x0400 / fval IEEE16_SPEC_ARGS 0x0019 = 1024 / 25 \<and> fval IEEE16_SPEC_ARGS 0x5126 = 41 + 3 / 16
   \<and> float_divSRT4 0x0400 0x4000 IEEE16_SPEC_ARGS = 0
   \<and> fval IEEE16_SPEC_ARGS 0x0400 / fval IEEE16_SPEC_ARGS 0x4000 = fval IEEE16_SPEC_ARGS 0x0200"
proof (intro conjI)
  have v: "fint IEEE16_SPEC_ARGS 0x0400 = 1024" "fint IEEE16_SPEC_ARGS 0x0019 = 25" "fint IEEE16_SPEC_ARGS 0x0200 = 512"
    "fint IEEE16_SPEC_ARGS 0x5126 = 1318 * 2 ^ 19" "fint IEEE16_SPEC_ARGS 0x4000 = 2 ^ 25"
    by (simp_all add: fint_def fsign_def fabs_bits_def half_format pattern_mag_def fmag_def extractFloatSign_def)
  have u: "(2 :: real) powi (- 24) = 1 / 2 ^ 24" by (simp add: power_int_minus_divide)
  show "fval IEEE16_SPEC_ARGS 0x0400 / fval IEEE16_SPEC_ARGS 0x0019 = 1024 / 25" "fval IEEE16_SPEC_ARGS 0x5126 = 41 + 3 / 16"
    "fval IEEE16_SPEC_ARGS 0x0400 / fval IEEE16_SPEC_ARGS 0x4000 = fval IEEE16_SPEC_ARGS 0x0200"
    unfolding fval_def v by (simp_all add: half_format u)
  have c: "div_class 1 0 IEEE16_SPEC_ARGS = (FP_CLS_NORMAL, True, False, False, False)" "div_class 0 25 IEEE16_SPEC_ARGS = (FP_CLS_NORMAL, True, False, False, False)"
    "div_class 16 0 IEEE16_SPEC_ARGS = (FP_CLS_NORMAL, True, False, False, False)"
    "div_class_result FP_CLS_NORMAL FP_CLS_NORMAL FLOAT_EXC_STD = FP_CLS_NORMAL"
    by (simp_all add: div_class_def div_class_result_def half_format cls_defs exc_defs cls_select_def)
  have n: "div_normalise 1 0 IEEE16_SPEC_ARGS = (1, 0)" "div_normalise 16 0 IEEE16_SPEC_ARGS = (16, 0)" "div_normalise 0 25 IEEE16_SPEC_ARGS = (- 5, 576)"
  proof -
    have "is_clz 10 (unat (25 :: u64)) 5" by (simp add: is_clz_def)
    from count_leading_zero_macros_clz(2,4) [OF this]
    have z: "unat (count_leading_zero_runtime_macro 10 25) = 5"
      "count_leading_zero_lshift_runtime_macro 10 25 = (count_leading_zero_runtime_macro 10 25, 800)" by simp_all
    from z(1) have "uint (count_leading_zero_runtime_macro 10 25) = 5" by (metis int_ops(3) uint_nat)
    with z show "div_normalise 0 25 IEEE16_SPEC_ARGS = (- 5, 576)" by (simp add: div_normalise_def half_format)
  qed (simp_all add: div_normalise_def)
  have s: "srt4_significand 0x1499 10 FLOAT_RND_NEVN = (False, 0x499, False)"
    by (simp add: srt4_significand_def frac_p3_def SELECT_BIT_def)
  have f: "extractFloatFrac 0x0400 10 = 0" "extractFloatExp 0x0400 5 10 = 1" "extractFloatFrac 0x0019 10 = 25" "extractFloatExp 0x0019 5 10 = 0"
    "extractFloatSign 0x0400 5 10 (- 1) = False" "extractFloatSign 0x0019 5 10 (- 1) = False"
    by (simp_all add: extractFloatFrac_def extractFloatExp_def extractFloatSign_def)
  have d: "div_number False 20 0x499 False IEEE16_SPEC_ARGS = 0x5126" by (simp add: div_number_def half_format exc_defs)
  show "float_divSRT4 0x0400 0x0019 IEEE16_SPEC_ARGS = 0x5126"
    unfolding float_divSRT4_def kernel_float_divSRT4_def Let_def half_format f c n prod.case
    by (simp add: wrong_digits s div_exponent_eq d half_format(7,8))
  show "float_divSRT4 0x0400 0x4000 IEEE16_SPEC_ARGS = 0"
  proof -
    have f: "finite_pattern IEEE16_SPEC_ARGS 0x0400" "fabs_bits IEEE16_SPEC_ARGS 0x0400 \<noteq> 0" "normal_pattern IEEE16_SPEC_ARGS 0x4000"
      "sig_field IEEE16_SPEC_ARGS 0x4000 = 1024" "exp_field IEEE16_SPEC_ARGS 0x4000 = 16" "\<not> fsign IEEE16_SPEC_ARGS 0x0400" "\<not> fsign IEEE16_SPEC_ARGS 0x4000"
      by (simp_all add: finite_pattern_def normal_pattern_def fabs_bits_def infinity_bits_def sig_field_def exp_field_def fsign_def extractFloatSign_def half_format)
    have "div_normalise (extractFloatExp 0x0400 (exp_bits IEEE16_SPEC_ARGS) (frac_bits IEEE16_SPEC_ARGS)) (extractFloatFrac 0x0400 (frac_bits IEEE16_SPEC_ARGS)) IEEE16_SPEC_ARGS = (1, 0)"
      by (simp only: half_format \<open>extractFloatFrac 0x0400 10 = 0\<close> \<open>extractFloatExp 0x0400 5 10 = 1\<close> n)
    from float_div_number [OF ieee_div_formats(1) f(1-3) this, of 1024]
    have "unat (float_divSRT4 0x0400 0x4000 IEEE16_SPEC_ARGS) = 0"
      by (simp add: half_format f pattern_bits_def nearest_quotient_def)
    then show ?thesis by (simp add: word_eq_0_iff_unat)
  qed
qed

end
