(* ===== verification/FloatDivG.thy ===== *)
theory FloatDivG
  imports FloatDiv DivNewton
begin

text \<open>
  Division by Goldschmidt iteration, \<^verbatim>\<open>__float_divG\<close> of \<^verbatim>\<open>etc/libbambu/softfloat/softfloat.c\<close> and the macro
  \<^verbatim>\<open>GOLDSCHMIDT_MANTISSA_DIVISION_64\<close> of \<^verbatim>\<open>div_utilities.h\<close>: a reciprocal from two tables and two Newton
  steps, one multiplicative step on dividend and divisor, and a comparison of the remainder that settles the last bit.
  The theorems bound the error of every stage, show that the quotient of nonzero finite numbers is a nearest
  number of the format, subnormal operands and quotients included, compare the result with that of the digit
  recurrence, and show what happens to exact quotients.
\<close>

section \<open>The program\<close>

definition softfloat_approxRecip_1k0s :: "u16 list" where
  "softfloat_approxRecip_1k0s =
    [0xFFC4, 0xF0BE, 0xE363, 0xD76F, 0xCCAD, 0xC2F0, 0xBA16, 0xB201, 0xAA97, 0xA3C6, 0x9D7A, 0x97A6, 0x923C, 0x8D32, 0x887E, 0x8417]"

definition softfloat_approxRecip_1k1s :: "u16 list" where
  "softfloat_approxRecip_1k1s =
    [0xF0F1, 0xD62C, 0xBFA1, 0xAC77, 0x9C0A, 0x8DDB, 0x8185, 0x76BA, 0x6D3B, 0x64D4, 0x5D5C, 0x56B1, 0x50B6, 0x4B55, 0x4679, 0x4211]"

text \<open>The high word of a product, assembled from 32-bit halves.\<close>

definition builtin_umulh64 :: "u64 \<Rightarrow> u64 \<Rightarrow> u64" where
  "builtin_umulh64 u v =
    (let u1 = ucast (drop_bit 32 u) :: u32;
         u0 = ucast u :: u32;
         v1 = ucast (drop_bit 32 v) :: u32;
         v0 = ucast v :: u32;
         t = (ucast u0 :: u64) * ucast v0;
         k = ucast (drop_bit 32 t) :: u32;
         t0 = (ucast u1 :: u64) * ucast v0;
         t = t0 + ucast k;
         w1 = ucast t :: u32;
         w2 = ucast (drop_bit 32 t) :: u32;
         t0 = (ucast u0 :: u64) * ucast v1;
         t = t0 + ucast w1;
         k = ucast (drop_bit 32 t) :: u32;
         t0 = (ucast u1 :: u64) * ucast v1;
         t1 = (ucast w2 :: u64) + ucast k
     in t0 + t1)"

text \<open>The reciprocal of the divisor: a table value of 16 bits, and two steps that square its error.\<close>

definition recip_estimate :: "u64 \<Rightarrow> u16" where
  "recip_estimate bSig =
    (let index = drop_bit (27 + 32) bSig AND 0xF;
         eps = ucast (drop_bit (11 + 32) bSig) :: u16
     in softfloat_approxRecip_1k0s ! unat index
        - ucast (drop_bit 20 (ucast (softfloat_approxRecip_1k1s ! unat index) * ucast eps :: u32)))"

definition recip_refine :: "u64 \<Rightarrow> u16 \<Rightarrow> u32" where
  "recip_refine bSig r0 =
    (let sigma0 = NOT (ucast (drop_bit 7 (ucast r0 * drop_bit 32 bSig)) :: u32);
         r = ucast ((ucast (push_bit 16 (ucast r0 :: u32)) :: u64) + drop_bit 24 (ucast r0 * ucast sigma0)) :: u32;
         sqrSigma0 = ucast (drop_bit 32 ((ucast sigma0 :: u64) * ucast sigma0)) :: u32
     in ucast ((ucast r :: u64) + drop_bit 48 ((ucast r :: u64) * ucast sqrSigma0)))"

text \<open>The quotient of two significands: dividend and divisor are multiplied by the reciprocal and by what the divisor lacks
  from a power of two; the last bit is settled by the remainder, and one more bit is always set.\<close>

definition goldschmidt_estimate :: "u64 \<Rightarrow> u64 \<Rightarrow> u64" where
  "goldschmidt_estimate aSig bSig =
    (let r = recip_refine bSig (recip_estimate bSig);
         p = push_bit (15 + 16) (ucast r) :: u64;
         ga0 = push_bit 2 (builtin_umulh64 aSig p);
         gb0 = builtin_umulh64 bSig p;
         gb1 = 0x8000000000000000 - gb0;
         ga1 = push_bit 1 (builtin_umulh64 ga0 gb1)
     in drop_bit 8 (ga1 + 0x10))"

definition goldschmidt_quotient :: "u64 \<Rightarrow> u64 \<Rightarrow> u64" where
  "goldschmidt_quotient aSig bSig =
    (let zSig = goldschmidt_estimate aSig bSig;
         zSigminus1 = zSig - 1;
         zSig = push_bit 9 zSig;
         zSigminus1 = push_bit 9 zSigminus1;
         rem0 = builtin_umulh64 bSig zSig;
         rem = aSig - rem0;
         zSig = (if sint rem \<le> 0 then zSigminus1 else zSig)
     in zSig OR push_bit 8 1)"

definition goldschmidt_mantissa_division :: "int \<Rightarrow> int \<Rightarrow> u64 \<Rightarrow> u64 \<Rightarrow> int \<Rightarrow> nat \<Rightarrow> int \<times> u64" where
  "goldschmidt_mantissa_division aExp bExp aSig bSig bias fb =
    (let zExp = aExp - bExp - bias - 2;
         aSig = push_bit (62 - fb) (aSig OR push_bit fb 1);
         bSig = push_bit (63 - fb) (bSig OR push_bit fb 1);
         (aSig, zExp) = (if bSig \<le> push_bit 1 aSig then (drop_bit 1 aSig, zExp + 1) else (aSig, zExp))
     in (int16 zExp, goldschmidt_quotient aSig bSig))"

definition divG_class :: "int \<Rightarrow> u64 \<Rightarrow> tfspec \<Rightarrow> u8 \<times> bool \<times> bool \<times> bool" where
  "divG_class aExp aSig sp =
    (let exc = exc_mode sp;
         aExpMax = (of_int aExp = (ones (exp_bits sp) :: u64));
         a_c_zero = (aExp = 0 \<and> (aSig = 0 \<or> \<not> has_subnorm sp));
         a_c_inf = (aExpMax \<and> aSig = 0);
         a_c_inf = (if exc = FLOAT_EXC_STD then a_c_inf else False);
         a_c_nan = (aExpMax \<and> aSig \<noteq> 0);
         a_c_nan = (if exc = FLOAT_EXC_STD then a_c_nan else False);
         a_c_normal = (\<not> aExpMax \<and> \<not> a_c_zero);
         a_c_normal = (if exc = FLOAT_EXC_STD then a_c_normal else \<not> a_c_zero)
     in ((cls_select a_c_normal FP_CLS_NORMAL OR cls_select a_c_inf FP_CLS_INF) OR cls_select a_c_nan FP_CLS_NAN,
         a_c_zero, a_c_inf, a_c_nan))"

definition divG_normalise :: "int \<Rightarrow> u64 \<Rightarrow> tfspec \<Rightarrow> int \<times> u64" where
  "divG_normalise aExp aSig sp =
    (if has_subnorm sp \<and> aExp = 0 \<and> aSig \<noteq> 0 then
       (let (subnormal_lz, mshifted) = count_leading_zero_lshift_runtime_macro (frac_bits sp) aSig
        in (int16 (- uint subnormal_lz), push_bit 1 mshifted AND ones (frac_bits sp)))
     else (aExp, aSig))"

definition float_divG :: "fenv \<Rightarrow> u64 \<Rightarrow> u64 \<Rightarrow> tfspec \<Rightarrow> u64 \<times> fenv" where
  "float_divG env a b sp =
    (let eb = exp_bits sp; fb = frac_bits sp; exc = exc_mode sp; sg = sign_spec sp
     in if sg = 1 then (if exc = FLOAT_EXC_STD then float_nan eb fb sg else 0, env)
        else
     (let aSig = extractFloatFrac a fb;
          aExp = int16 (uint (extractFloatExp a eb fb));
          aSign = extractFloatSign a eb fb sg;
          bSig = extractFloatFrac b fb;
          bExp = int16 (uint (extractFloatExp b eb fb));
          bSign = extractFloatSign b eb fb sg;
          zSign = (aSign \<noteq> bSign);
          (a_c, a_c_zero, a_c_inf, a_c_nan) = divG_class aExp aSig sp;
          (b_c, b_c_zero, b_c_inf, b_c_nan) = divG_class bExp bSig sp;
          z_c = div_class_result a_c b_c exc;
          (aExp, aSig) = divG_normalise aExp aSig sp;
          (bExp, bSig) = divG_normalise bExp bSig sp;
          (zExp, zSig) = goldschmidt_mantissa_division aExp bExp aSig bSig (exp_bias sp) fb
      in if z_c = FP_CLS_NORMAL then roundAndPackFloat64 env zSign zExp zSig eb fb exc True
         else if z_c = FP_CLS_NAN then
           (push_bit (eb + fb) ((of_bool (if a_c_nan then aSign else bSign) OR of_bool (a_c_inf \<and> b_c_inf)) OR of_bool (a_c_zero \<and> b_c_zero))
            OR (if exc = FLOAT_EXC_STD
                then (push_bit fb (ones eb) OR push_bit (fb - 1) 1) OR (if a_c_nan then aSig else if b_c_nan then bSig else 0)
                else 0), env)
         else if z_c = FP_CLS_INF then
           ((push_bit (eb + fb) (of_bool zSign) OR push_bit fb (ones eb)) OR (if exc = FLOAT_EXC_STD then 0 else ones fb), env)
         else (push_bit (eb + fb) (of_bool zSign), env)))"

section \<open>The table estimate\<close>

lemma unat_builtin_umulh64 [unat_simps]: "unat (builtin_umulh64 u v) = unat u * unat v div 2 ^ 64"
  by (metis builtin_umulh64_def umulh64_def unat_umulh64)

text \<open>A line through the table values is below the reciprocal, and its product with the divisor is a concave
  function, so that the bounds need to be checked at the ends of each interval only.\<close>

lemma chord_upper:
  fixes r h e k0 k1 B :: int
  assumes r: "2 ^ 20 * r \<le> 2 ^ 20 * (k0 + 1) - k1 * e" and h: "h \<le> B + 2048 * e + 2047" "0 \<le> r" "0 \<le> h" "0 < k1"
    and S: "(k1 * (B + 2047) + 2 ^ 31 * (k0 + 1))\<^sup>2 < 2 ^ 80 * k1"
  shows "r * h < 2 ^ 47"
proof -
  define S where "S = k1 * (B + 2047) + 2 ^ 31 * (k0 + 1)"
  have "2 ^ 31 * r + k1 * h \<le> S"
    using r mult_left_mono [OF h(1), of k1] h(4) by (simp add: S_def algebra_simps)
  moreover have "0 \<le> 2 ^ 31 * r + k1 * h" using h by simp
  ultimately have "(2 ^ 31 * r + k1 * h)\<^sup>2 \<le> S\<^sup>2" by (rule power_mono)
  moreover have "4 * ((2 ^ 31 * r) * (k1 * h)) \<le> (2 ^ 31 * r + k1 * h)\<^sup>2"
    using zero_le_power2 [of "2 ^ 31 * r - k1 * h"] by (simp add: power2_eq_square algebra_simps)
  ultimately have "(2 ^ 33 * k1) * (r * h) < (2 ^ 33 * k1) * 2 ^ 47" using S unfolding S_def by (simp add: algebra_simps)
  then show ?thesis using mult_less_cancel_left_pos [of "2 ^ 33 * k1" "r * h" "2 ^ 47"] h(4) by simp
qed

lemma chord_lower:
  fixes r h e k0 k1 B L :: int
  assumes r: "2 ^ 20 * k0 - k1 * e \<le> 2 ^ 20 * r" "0 \<le> r" and h: "B + 2048 * e \<le> h" "0 \<le> B" and e: "0 \<le> e" "e \<le> 2 ^ 16" and k1: "0 \<le> k1"
    and L: "2 ^ 20 * L \<le> 2 ^ 20 * k0 * B" "2 ^ 20 * L \<le> (2 ^ 20 * k0 - 2 ^ 16 * k1) * (B + 2 ^ 27)"
  shows "L \<le> r * h"
proof -
  define f where "f x = (2 ^ 20 * k0 - k1 * x) * (B + 2048 * x)" for x
  have "2 ^ 16 * (2 ^ 20 * L) = (2 ^ 16 - e) * (2 ^ 20 * L) + e * (2 ^ 20 * L)" by (simp add: algebra_simps)
  also have "\<dots> \<le> (2 ^ 16 - e) * f 0 + e * f (2 ^ 16)"
    using L e by (intro add_mono mult_left_mono) (simp_all add: f_def ac_simps)
  also have "\<dots> \<le> (2 ^ 16 - e) * f 0 + e * f (2 ^ 16) + 2048 * k1 * (2 ^ 16 * (e * (2 ^ 16 - e)))" using e k1 by simp
  also have "\<dots> = 2 ^ 16 * f e" by (simp add: f_def algebra_simps)
  finally have "2 ^ 20 * L \<le> f e" by simp
  also have "f e \<le> 2 ^ 20 * r * (B + 2048 * e)" unfolding f_def using r(1) h(2) e(1) by (intro mult_right_mono) simp_all
  also have "\<dots> \<le> 2 ^ 20 * r * h" using r(2) h(1) by (intro mult_left_mono) simp_all
  finally show ?thesis by simp
qed

definition chord_ok :: "int \<Rightarrow> int \<Rightarrow> nat \<Rightarrow> bool" where
  "chord_ok k0 k1 i \<longleftrightarrow> (let B = 2 ^ 31 + int i * 2 ^ 27 in 0 < k1 \<and> k1 < 2 ^ 16 \<and> 2 ^ 13 \<le> k0 \<and> k0 < 2 ^ 16
     \<and> (k1 * (B + 2047) + 2 ^ 31 * (k0 + 1))\<^sup>2 < 2 ^ 80 * k1
     \<and> 2 ^ 20 * (2 ^ 47 - 2 ^ 39) \<le> 2 ^ 20 * k0 * B \<and> 2 ^ 20 * (2 ^ 47 - 2 ^ 39) \<le> (2 ^ 20 * k0 - 2 ^ 16 * k1) * (B + 2 ^ 27))"

lemma chords_ok: "list_all (\<lambda>i. chord_ok (uint (softfloat_approxRecip_1k0s ! i)) (uint (softfloat_approxRecip_1k1s ! i)) i) [0..<16]"
  by code_simp

lemma recip_estimate_bounds:
  assumes b: "2 ^ 63 \<le> unat b"
  shows "unat (recip_estimate b) * (unat b div 2 ^ 32) < 2 ^ 47"
    and "2 ^ 47 - 2 ^ 39 \<le> unat (recip_estimate b) * (unat b div 2 ^ 32)"
proof -
  define h where "h = unat b div 2 ^ 32"
  define i e where "i = unat b div 2 ^ 59 mod 2 ^ 4" and "e = unat b div 2 ^ 43 mod 2 ^ 16"
  define k0 k1 where "k0 = unat (softfloat_approxRecip_1k0s ! i)" and "k1 = unat (softfloat_approxRecip_1k1s ! i)"
  have i: "i < 16" and e: "e < 2 ^ 16" by (simp_all add: i_def e_def)
  have ok: "chord_ok (int k0) (int k1) i" using list_all_uptD [OF chords_ok _ i] by (simp add: k0_def k1_def)
  then have k: "0 < k1" "k1 < 2 ^ 16" "2 ^ 13 \<le> k0" "k0 < 2 ^ 16" by (simp_all add: chord_ok_def Let_def)
  have h: "2 ^ 31 + i * 2 ^ 27 + 2048 * e \<le> h" "h \<le> 2 ^ 31 + i * 2 ^ 27 + 2048 * e + 2047"
  proof -
    have "unat b < 2 ^ 64" using unat_less_exp [of b] by simp
    then have hb: "2 ^ 31 \<le> h" "h < 2 ^ 32" using b by (simp_all add: h_def less_eq_div_iff_mult_less_eq less_mult_imp_div_less)
    have d: "i = h div 2 ^ 27 mod 2 ^ 4" "e = h div 2 ^ 11 mod 2 ^ 16" by (simp_all add: i_def e_def h_def flip: div_mult2_eq)
    have "16 \<le> h div 2 ^ 27" "h div 2 ^ 27 < 32" using hb by (simp_all add: less_eq_div_iff_mult_less_eq less_mult_imp_div_less)
    then have "h div 2 ^ 27 = 16 + i" using d(1) mod_if [of "h div 2 ^ 27" 16] by simp
    moreover have "h div 2 ^ 11 div 2 ^ 16 = h div 2 ^ 27" by (simp flip: div_mult2_eq)
    moreover have "h = h div 2 ^ 11 * 2 ^ 11 + h mod 2 ^ 11" "h div 2 ^ 11 = h div 2 ^ 11 div 2 ^ 16 * 2 ^ 16 + e"
      unfolding d(2) by (simp_all only: div_mult_mod_eq)
    moreover have "h mod 2 ^ 11 < 2 ^ 11" by simp
    ultimately show "2 ^ 31 + i * 2 ^ 27 + 2048 * e \<le> h" "h \<le> 2 ^ 31 + i * 2 ^ 27 + 2048 * e + 2047" by simp_all
  qed
  have m: "k1 * e < 2 ^ 32" using mult_strict_mono [of k1 "2 ^ 16" e "2 ^ 16"] k e by simp
  then have q: "k1 * e div 2 ^ 20 < 2 ^ 12" by (simp add: less_mult_imp_div_less)
  have idx: "unat (drop_bit (27 + 32) b AND 0xF) = i"
    using and_ones [of "drop_bit (27 + 32) b" 4] by (simp add: unat_drop_bit_div i_def)
  have est: "unat (recip_estimate b) = k0 - k1 * e div 2 ^ 20"
  proof -
    have p: "unat (ucast (softfloat_approxRecip_1k1s ! i) * ucast (ucast (drop_bit (11 + 32) b) :: u16) :: u32) = k1 * e"
      using m k(2) by (simp add: unat_word_ariths unat_ucast_mod unat_drop_bit_div k1_def e_def)
    have "unat (ucast (drop_bit 20 (ucast (softfloat_approxRecip_1k1s ! i) * ucast (ucast (drop_bit (11 + 32) b) :: u16) :: u32)) :: u16) = k1 * e div 2 ^ 20"
      using q unfolding unat_ucast_mod unat_drop_bit_div p by simp
    then show ?thesis using q k unfolding recip_estimate_def Let_def idx by (subst unat_diff_le) (simp_all add: k0_def)
  qed
  define d where "d = k1 * e div 2 ^ 20"
  have d: "d * 2 ^ 20 \<le> k1 * e" "k1 * e < (d + 1) * 2 ^ 20" unfolding d_def by simp_all
  have dk: "d \<le> k0" using q k by (simp add: d_def)
  have di: "int d * 2 ^ 20 \<le> int k1 * int e" "int k1 * int e < (int d + 1) * 2 ^ 20"
    using of_nat_le_iff [of "d * 2 ^ 20" "k1 * e", where 'a = int] of_nat_less_iff [of "k1 * e" "(d + 1) * 2 ^ 20", where 'a = int] d by simp_all
  have hi: "2 ^ 31 + int i * 2 ^ 27 + 2048 * int e \<le> int h" "int h \<le> 2 ^ 31 + int i * 2 ^ 27 + 2048 * int e + 2047"
    using h by simp_all
  have ei: "int e \<le> 2 ^ 16" using e by simp
  have r: "2 ^ 20 * (int k0 - int d) \<le> 2 ^ 20 * (int k0 + 1) - int k1 * int e" "2 ^ 20 * int k0 - int k1 * int e \<le> 2 ^ 20 * (int k0 - int d)"
    "0 \<le> int k0 - int d" "0 \<le> (2 :: int) ^ 31 + int i * 2 ^ 27" using di dk by simp_all
  note C = ok [unfolded chord_ok_def Let_def]
  have "(int k0 - int d) * int h < 2 ^ 47"
    by (rule chord_upper [OF r(1) hi(2) r(3)]) (use C in simp_all)
  moreover have "2 ^ 47 - 2 ^ 39 \<le> (int k0 - int d) * int h"
    by (rule chord_lower [OF r(2,3) hi(1) r(4) _ ei]) (use C in \<open>simp_all only: of_nat_0_le_iff\<close>)
  moreover have "int ((k0 - d) * h) = (int k0 - int d) * int h" using dk by (simp add: of_nat_diff)
  moreover have "int x < int (2 ^ 47) \<longleftrightarrow> int x < 2 ^ 47" "int (2 ^ 47 - 2 ^ 39) \<le> int x \<longleftrightarrow> 2 ^ 47 - 2 ^ 39 \<le> int x" for x by simp_all
  ultimately show "unat (recip_estimate b) * (unat b div 2 ^ 32) < 2 ^ 47" "2 ^ 47 - 2 ^ 39 \<le> unat (recip_estimate b) * (unat b div 2 ^ 32)"
    unfolding est d_def [symmetric] h_def [symmetric] by (simp_all only: of_nat_less_iff of_nat_le_iff)
qed

section \<open>The refined reciprocal\<close>

text \<open>With \<open>c\<close> the error of the table value, in units of \<open>2\<^sup>-\<^sup>4\<^sup>7\<close>: the two steps leave its fourth power,
  and what the words cut off.\<close>

lemma refine_error:
  fixes H r0 c s r1 q r2 :: real
  assumes H: "2 ^ 31 \<le> H" "H < 2 ^ 32" and c: "r0 * H = 2 ^ 47 - c" "0 < c" "c \<le> 2 ^ 39" and r0: "0 \<le> r0"
    and s: "c / 2 ^ 7 - 1 \<le> s" "s \<le> c / 2 ^ 7" "0 \<le> s"
    and r1: "2 ^ 16 * r0 + r0 * s / 2 ^ 24 - 1 \<le> r1" "r1 \<le> 2 ^ 16 * r0 + r0 * s / 2 ^ 24" "0 \<le> r1"
    and q: "s\<^sup>2 / 2 ^ 32 - 1 \<le> q" "q \<le> s\<^sup>2 / 2 ^ 32" "0 \<le> q"
    and r2: "r1 + r1 * q / 2 ^ 48 - 1 \<le> r2" "r2 \<le> r1 + r1 * q / 2 ^ 48"
  shows "r1 * H < 2 ^ 63" "r2 * H < 2 ^ 63" "2 ^ 63 - 3 * 2 ^ 32 \<le> r2 * H"
proof -
  have H0: "0 < H" using H by simp
  have c2: "0 < c\<^sup>2" "c\<^sup>2 \<le> 2 ^ 78" using c power_mono [of c "2 ^ 39" 2] by simp_all
  have c4: "0 < c\<^sup>2 * c\<^sup>2" "c\<^sup>2 * c\<^sup>2 \<le> 2 ^ 156" using c2 mult_mono [of "c\<^sup>2" "2 ^ 78" "c\<^sup>2" "2 ^ 78"] by simp_all
  have rH: "0 \<le> r0 * H" using r0 H0 by simp
  have r1u: "r1 * H \<le> 2 ^ 63 - c\<^sup>2 / 2 ^ 31"
  proof -
    have "r1 * H \<le> (2 ^ 16 * r0 + r0 * s / 2 ^ 24) * H" using r1(2) H0 by simp
    also have "\<dots> = r0 * H * (2 ^ 16 + s / 2 ^ 24)" by (simp add: algebra_simps)
    also have "\<dots> \<le> r0 * H * (2 ^ 16 + c / 2 ^ 31)" using s(2) rH by (intro mult_left_mono) simp_all
    also have "\<dots> = 2 ^ 63 - c\<^sup>2 / 2 ^ 31" unfolding c(1) by (simp add: power2_eq_square field_simps)
    finally show ?thesis .
  qed
  have r1l: "2 ^ 63 - c\<^sup>2 / 2 ^ 31 - 2 ^ 23 - 2 ^ 32 \<le> r1 * H"
  proof -
    have "2 ^ 63 - c\<^sup>2 / 2 ^ 31 - 2 ^ 23 - 2 ^ 32 \<le> (2 ^ 47 - c) * (2 ^ 16 + (c / 2 ^ 7 - 1) / 2 ^ 24) - H"
      using H(2) c(2) by (simp add: power2_eq_square field_simps)
    also have "\<dots> \<le> r0 * H * (2 ^ 16 + s / 2 ^ 24) - H"
      unfolding c(1) [symmetric] using s(1) rH by (intro diff_right_mono mult_left_mono) simp_all
    also have "\<dots> = (2 ^ 16 * r0 + r0 * s / 2 ^ 24 - 1) * H" by (simp add: algebra_simps)
    also have "\<dots> \<le> r1 * H" using r1(1) H0 by simp
    finally show ?thesis .
  qed
  have "0 < c\<^sup>2 / 2 ^ 31" using c2 by simp
  then show "r1 * H < 2 ^ 63" using r1u by linarith
  have qu: "q \<le> c\<^sup>2 / 2 ^ 46"
  proof -
    have "s\<^sup>2 \<le> (c / 2 ^ 7)\<^sup>2" using s by (intro power_mono) simp_all
    then show ?thesis using q(2) by (simp add: power_divide)
  qed
  have ql: "c\<^sup>2 / 2 ^ 46 - 3 \<le> q"
  proof -
    have "(c / 2 ^ 7)\<^sup>2 - 2 * (c / 2 ^ 7) \<le> s\<^sup>2"
    proof (cases "1 \<le> c / 2 ^ 7")
      case True
      then have "(c / 2 ^ 7 - 1)\<^sup>2 \<le> s\<^sup>2" using s(1) by (intro power_mono) simp_all
      then show ?thesis by (simp add: power2_diff)
    next
      case False
      then have "(c / 2 ^ 7) * (c / 2 ^ 7) \<le> 2 * (c / 2 ^ 7)" using c(2) by (intro mult_right_mono) simp_all
      then show ?thesis using zero_le_power2 [of s] unfolding power2_eq_square [of "c / 2 ^ 7"] by linarith
    qed
    then have "(c / 2 ^ 7)\<^sup>2 / 2 ^ 32 - 2 * (c / 2 ^ 7) / 2 ^ 32 - 1 \<le> q" using q(1) by (simp add: field_simps)
    moreover have "2 * (c / 2 ^ 7) / 2 ^ 32 \<le> 2" using c(3) by simp
    ultimately show ?thesis by (simp add: power_divide)
  qed
  have "r2 * H \<le> (r1 + r1 * q / 2 ^ 48) * H" using r2(2) H0 by simp
  also have "\<dots> = r1 * H * (1 + q / 2 ^ 48)" by (simp add: algebra_simps)
  also have "\<dots> \<le> (2 ^ 63 - c\<^sup>2 / 2 ^ 31) * (1 + c\<^sup>2 / 2 ^ 94)"
  proof (rule mult_mono)
    show "1 + q / 2 ^ 48 \<le> 1 + c\<^sup>2 / 2 ^ 94" using qu by (simp add: field_simps)
    show "0 \<le> 2 ^ 63 - c\<^sup>2 / 2 ^ 31" using c2 by (simp add: field_simps)
  qed (use r1u q(3) in simp_all)
  also have "\<dots> = 2 ^ 63 - c\<^sup>2 * c\<^sup>2 / 2 ^ 125" by (simp add: field_simps)
  also have "\<dots> < 2 ^ 63" using divide_pos_pos [OF c4(1)] by (simp only: diff_less_eq less_add_same_cancel1 zero_less_numeral zero_less_power)
  finally show "r2 * H < 2 ^ 63" .
  have "2 ^ 63 - 3 * 2 ^ 32 \<le> (2 ^ 63 - c\<^sup>2 / 2 ^ 31 - 2 ^ 23 - 2 ^ 32) * (1 + c\<^sup>2 / 2 ^ 94) - 3 * 2 ^ 15 - 2 ^ 32"
    using c2 c4 by (simp add: field_simps)
  also have "\<dots> \<le> r1 * H * (1 + c\<^sup>2 / 2 ^ 94) - 3 * 2 ^ 15 - 2 ^ 32"
    using r1l c2 by (intro diff_right_mono mult_right_mono) simp_all
  also have "\<dots> \<le> r1 * H * (1 + c\<^sup>2 / 2 ^ 94) - 3 * (r1 * H) / 2 ^ 48 - H"
  proof -
    have "r1 * H \<le> 2 ^ 63" using r1u c2 \<open>r1 * H < 2 ^ 63\<close> by simp
    then have "3 * (r1 * H) / 2 ^ 48 \<le> 98304" by (simp add: ac_simps)
    moreover have "3 * 2 ^ 15 = (98304 :: real)" by simp
    ultimately show ?thesis using H(2) by linarith
  qed
  also have "\<dots> = r1 * H * (1 + (c\<^sup>2 / 2 ^ 46 - 3) / 2 ^ 48) - H" by (simp add: field_simps)
  also have "\<dots> \<le> r1 * H * (1 + q / 2 ^ 48) - H"
    using ql r1(3) H0 by (intro diff_right_mono mult_left_mono) (simp_all add: divide_right_mono)
  also have "\<dots> = (r1 + r1 * q / 2 ^ 48 - 1) * H" by (simp add: algebra_simps)
  also have "\<dots> \<le> r2 * H" using r2(1) H0 by simp
  finally show "2 ^ 63 - 3 * 2 ^ 32 \<le> r2 * H" .
qed

lemma real_div_bounds: "real x / 2 ^ k - 1 \<le> real (x div 2 ^ k)" "real (x div 2 ^ k) \<le> real x / 2 ^ k"
proof -
  have x: "x mod 2 ^ k < 2 ^ k" by simp
  have "real x = real (x div 2 ^ k * 2 ^ k + x mod 2 ^ k)" by (simp only: div_mult_mod_eq)
  then have "real x = real (x div 2 ^ k) * 2 ^ k + real (x mod 2 ^ k)" by (simp only: of_nat_add of_nat_mult of_nat_power of_nat_numeral)
  moreover have "real (x mod 2 ^ k) < real (2 ^ k)" using x by (simp only: of_nat_less_iff)
  then have "real (x mod 2 ^ k) < 2 ^ k" by simp
  moreover have "0 \<le> real (x mod 2 ^ k)" by simp
  ultimately show "real x / 2 ^ k - 1 \<le> real (x div 2 ^ k)" "real (x div 2 ^ k) \<le> real x / 2 ^ k"
    by (simp_all add: field_simps)
qed

lemma unat_not: "unat (NOT w :: 'a::len word) = 2 ^ LENGTH('a) - 1 - unat w"
proof -
  have "NOT w = - 1 - w" by (simp add: not_eq_complement)
  moreover have "unat w \<le> unat (- 1 :: 'a word)" by (simp add: unsigned_minus_1_eq_mask mask_eq_exp_minus_1 less_eq_iff_succ_less unat_less_exp)
  ultimately show ?thesis by (simp add: unat_diff_le unsigned_minus_1_eq_mask mask_eq_exp_minus_1)
qed

lemma recip_refine_bounds:
  fixes b :: u64
  assumes b: "2 ^ 63 \<le> unat b"
  defines "r \<equiv> unat (recip_refine b (recip_estimate b))"
  shows "real r * real (unat b div 2 ^ 32) < 2 ^ 63" "2 ^ 63 - 3 * 2 ^ 32 \<le> real r * real (unat b div 2 ^ 32)"
proof -
  define H r0 where "H = unat b div 2 ^ 32" and "r0 = unat (recip_estimate b)"
  note e = recip_estimate_bounds [OF b, folded H_def r0_def]
  have "unat b < 2 ^ 64" using unat_less_exp [of b] by simp
  then have H: "2 ^ 31 \<le> H" "H < 2 ^ 32" using b by (simp_all add: H_def less_eq_div_iff_mult_less_eq less_mult_imp_div_less)
  have r0: "r0 < 2 ^ 16" using unat_less_exp [of "recip_estimate b"] by (simp add: r0_def)
  define y where "y = r0 * H div 2 ^ 7"
  have y: "y < 2 ^ 40" "2 ^ 40 - 2 ^ 32 \<le> y" using e by (simp_all add: y_def less_mult_imp_div_less less_eq_div_iff_mult_less_eq)
  define s where "s = 2 ^ 40 - 1 - y"
  have s: "s < 2 ^ 32" using y by (simp add: s_def)
  define r1 q r2 where "r1 = 2 ^ 16 * r0 + r0 * s div 2 ^ 24" and "q = s * s div 2 ^ 32" and "r2 = r1 + r1 * q div 2 ^ 48"
  define c where "c = 2 ^ 47 - real r0 * real H"
  have rH: "real r0 * real H < 2 ^ 47" "2 ^ 47 - 2 ^ 39 \<le> real r0 * real H"
    using e by (metis of_nat_less_iff of_nat_mult of_nat_numeral of_nat_power) (use of_nat_mono [OF e(2), where 'a = real] in simp)
  have HR: "(2 :: real) ^ 31 \<le> real H" "real H < 2 ^ 32" using of_nat_mono [OF H(1), where 'a = real] H(2) by simp_all
  have sc: "c / 2 ^ 7 - 1 \<le> real s" "real s \<le> c / 2 ^ 7"
  proof -
    have "real s = 2 ^ 40 - 1 - real y" using y by (simp add: s_def of_nat_diff)
    moreover have "real r0 * real H / 2 ^ 7 - 1 \<le> real y" "real y \<le> real r0 * real H / 2 ^ 7"
      using real_div_bounds [of "r0 * H" 7] by (simp_all add: y_def)
    ultimately show "c / 2 ^ 7 - 1 \<le> real s" "real s \<le> c / 2 ^ 7" by (simp_all add: c_def field_simps)
  qed
  have B: "real r1 * real H < 2 ^ 63" "real r2 * real H < 2 ^ 63" "2 ^ 63 - 3 * 2 ^ 32 \<le> real r2 * real H"
  proof -
    have "2 ^ 16 * real r0 + real r0 * real s / 2 ^ 24 - 1 \<le> real r1" "real r1 \<le> 2 ^ 16 * real r0 + real r0 * real s / 2 ^ 24"
      using real_div_bounds [of "r0 * s" 24] by (simp_all add: r1_def)
    moreover have "(real s)\<^sup>2 / 2 ^ 32 - 1 \<le> real q" "real q \<le> (real s)\<^sup>2 / 2 ^ 32"
      using real_div_bounds [of "s * s" 32] by (simp_all add: q_def power2_eq_square)
    moreover have "real r1 + real r1 * real q / 2 ^ 48 - 1 \<le> real r2" "real r2 \<le> real r1 + real r1 * real q / 2 ^ 48"
      using real_div_bounds [of "r1 * q" 48] by (simp_all add: r2_def)
    moreover have "real r0 * real H = 2 ^ 47 - c" "0 < c" "c \<le> 2 ^ 39" using rH by (simp_all add: c_def)
    ultimately show "real r1 * real H < 2 ^ 63" "real r2 * real H < 2 ^ 63" "2 ^ 63 - 3 * 2 ^ 32 \<le> real r2 * real H"
      using HR sc by (intro refine_error [of "real H" "real r0" c "real s" "real r1" "real q" "real r2"]; simp only: of_nat_0_le_iff)+
  qed
  have lt: "x < 2 ^ 32" if "real x * real H < 2 ^ 63" for x
  proof (rule ccontr)
    assume "\<not> x < 2 ^ 32"
    then have "(2 :: real) ^ 32 * 2 ^ 31 \<le> real x * real H" using HR of_nat_mono [of "2 ^ 32" x, where 'a = real] by (intro mult_mono) simp_all
    then show False using that by simp
  qed
  have L: "r1 < 2 ^ 32" "r2 < 2 ^ 32" using lt B by blast+
  have q: "q < 2 ^ 32" using mult_strict_mono [OF s s] by (simp add: q_def less_mult_imp_div_less)
  have "r = r2"
  proof -
    define sg where "sg = NOT (ucast (drop_bit 7 (ucast (recip_estimate b) * drop_bit 32 b)) :: u32)"
    have "unat (ucast (recip_estimate b) * drop_bit 32 b :: u64) = r0 * H"
      using e(1) r0 by (simp add: unat_word_ariths unat_ucast_mod unat_drop_bit_div r0_def H_def)
    then have "unat (drop_bit 7 (ucast (recip_estimate b) * drop_bit 32 b :: u64)) = y" by (simp only: unat_drop_bit_div y_def)
    then have "unat sg = 2 ^ 32 - 1 - y mod 2 ^ 32" by (simp add: sg_def unat_not unat_ucast_mod)
    moreover have "y mod 2 ^ 32 = y - (2 ^ 40 - 2 ^ 32)"
    proof -
      have "y = (2 ^ 40 - 2 ^ 32) + (y - (2 ^ 40 - 2 ^ 32))" "y - (2 ^ 40 - 2 ^ 32) < 2 ^ 32" using y by simp_all
      moreover have "(2 ^ 40 - 2 ^ 32 + z) mod 2 ^ 32 = z mod (2 ^ 32 :: nat)" for z :: nat
        using mod_mult_self1 [of z 255 "2 ^ 32"] by (simp add: add.commute)
      ultimately show ?thesis by (metis mod_less)
    qed
    ultimately have sg: "unat sg = s" using y by (simp add: s_def)
    define w1 where "w1 = (ucast ((ucast (push_bit 16 (ucast (recip_estimate b) :: u32)) :: u64) + drop_bit 24 (ucast (recip_estimate b) * ucast sg)) :: u32)"
    have m: "r0 * s < 2 ^ 48" using mult_strict_mono [OF r0 s] by simp
    have "unat (push_bit 16 (ucast (recip_estimate b) :: u32)) = 2 ^ 16 * r0"
      using r0 by (simp add: unat_push_bit_mult unat_ucast_mod r0_def)
    moreover have "unat (ucast (recip_estimate b) * ucast sg :: u64) = r0 * s"
      using m r0 s by (simp add: unat_word_ariths unat_ucast_mod r0_def sg)
    ultimately have w1: "unat w1 = r1"
      using L(1) by (simp add: w1_def unat_ucast_mod unat_word_ariths unat_drop_bit_div r1_def)
    have sq: "unat ((ucast sg :: u64) * ucast sg) = s * s"
      using mult_strict_mono [OF s s] s by (simp add: unat_word_ariths unat_ucast_mod sg)
    define w2 where "w2 = (ucast (drop_bit 32 ((ucast sg :: u64) * ucast sg)) :: u32)"
    have w2: "unat w2 = q"
      using q unfolding w2_def unat_ucast_mod unat_drop_bit_div sq by (simp add: q_def)
    have "unat ((ucast w1 :: u64) * ucast w2) = r1 * q"
      using mult_strict_mono [OF L(1) q] L(1) q by (simp add: unat_word_ariths unat_ucast_mod w1 w2)
    then show ?thesis using L unfolding r_def recip_refine_def Let_def sg_def [symmetric] w1_def [symmetric] w2_def [symmetric]
      by (simp add: unat_ucast_mod unat_word_ariths unat_drop_bit_div w1 r2_def)
  qed
  then show "real r * real (unat b div 2 ^ 32) < 2 ^ 63" "2 ^ 63 - 3 * 2 ^ 32 \<le> real r * real (unat b div 2 ^ 32)"
    using B(2,3) by (simp_all add: H_def)
qed

section \<open>The quotient\<close>

text \<open>One multiplicative step squares the error of the reciprocal once more; what is left is less than one eighth of the last bit.\<close>

lemma goldschmidt_error:
  fixes q t ga0 gb1 ga1 :: real
  assumes q: "0 < q" "q < 1 / 2" and t: "1 - 3 / 2 ^ 31 \<le> t" "t \<le> 1 + 1 / 2 ^ 31"
    and ga0: "q * t * 2 ^ 64 - 4 \<le> ga0" "ga0 \<le> q * t * 2 ^ 64" "0 \<le> ga0"
    and gb1: "2 ^ 62 * (2 - t) \<le> gb1" "gb1 \<le> 2 ^ 62 * (2 - t) + 1"
    and ga1: "ga0 * gb1 / 2 ^ 63 - 2 \<le> ga1" "ga1 \<le> ga0 * gb1 / 2 ^ 63"
  shows "ga1 \<le> q * 2 ^ 63 + 2" "q * 2 ^ 63 - 14 \<le> ga1" "ga0 * gb1 / 2 ^ 64 < 2 ^ 63"
proof -
  have sq: "t * (2 - t) = 1 - (t - 1)\<^sup>2" by (simp add: power2_eq_square algebra_simps)
  have "\<bar>t - 1\<bar> \<le> 3 / 2 ^ 31" using t by (simp add: abs_if)
  then have e: "(t - 1)\<^sup>2 \<le> (3 / 2 ^ 31)\<^sup>2" by (metis abs_ge_zero power2_abs power_mono)
  have t2: "0 < 2 - t" "2 - t \<le> 1 + 3 / 2 ^ 31" "0 < t" using t by simp_all
  have "ga0 * gb1 / 2 ^ 63 \<le> q * t * 2 ^ 64 * (2 ^ 62 * (2 - t) + 1) / 2 ^ 63"
    using ga0 gb1 t2 by (intro divide_right_mono mult_mono) simp_all
  also have "\<dots> = q * 2 ^ 63 * (t * (2 - t)) + 2 * (q * t)" by (simp add: field_simps)
  also have "\<dots> \<le> q * 2 ^ 63 * 1 + 2"
  proof (rule add_mono)
    show "q * 2 ^ 63 * (t * (2 - t)) \<le> q * 2 ^ 63 * 1" unfolding sq using q by (intro mult_left_mono) simp_all
    have "q * t \<le> 1 / 2 * 2" using q t t2 by (intro mult_mono) simp_all
    then show "2 * (q * t) \<le> 2" by simp
  qed
  finally have u: "ga0 * gb1 / 2 ^ 63 \<le> q * 2 ^ 63 + 2" by simp
  then show "ga1 \<le> q * 2 ^ 63 + 2" using ga1 by linarith
  have "q * 2 ^ 63 < 2 ^ 62" using q by simp
  moreover have "ga0 * gb1 / 2 ^ 64 = ga0 * gb1 / 2 ^ 63 / 2" by simp
  ultimately show "ga0 * gb1 / 2 ^ 64 < 2 ^ 63" using u by simp
  have "q * 2 ^ 63 - 9 - 5 \<le> q * 2 ^ 63 * (t * (2 - t)) - 2 * (2 - t) - 2"
  proof -
    have "q * 2 ^ 63 * (t - 1)\<^sup>2 \<le> 2 ^ 62 * (3 / 2 ^ 31)\<^sup>2" using q e by (intro mult_mono) simp_all
    then have "q * 2 ^ 63 * (t - 1)\<^sup>2 \<le> 9" by (simp add: power_divide)
    then show ?thesis using t2(2) unfolding sq by (simp add: algebra_simps)
  qed
  also have "\<dots> = (q * t * 2 ^ 64 - 4) * (2 ^ 62 * (2 - t)) / 2 ^ 63 - 2" by (simp add: field_simps)
  also have "\<dots> \<le> ga0 * (2 ^ 62 * (2 - t)) / 2 ^ 63 - 2"
    using ga0(1) t2(1) by (intro diff_right_mono divide_right_mono mult_right_mono) simp_all
  also have "\<dots> \<le> ga0 * gb1 / 2 ^ 63 - 2" using gb1(1) ga0(3) by (intro diff_right_mono divide_right_mono mult_left_mono) simp_all
  finally show "q * 2 ^ 63 - 14 \<le> ga1" using ga1(1) by linarith
qed

text \<open>The product of the divisor and its reciprocal.\<close>

lemma recip_product:
  fixes b :: u64
  assumes b: "2 ^ 63 \<le> unat b"
  defines "r \<equiv> unat (recip_refine b (recip_estimate b))"
  defines "t \<equiv> real (unat b) * real r / 2 ^ 95"
  shows "1 - 3 / 2 ^ 31 \<le> t" "t \<le> 1 + 1 / 2 ^ 31"
proof -
  define H where "H = unat b div 2 ^ 32"
  note B = recip_refine_bounds [OF b, folded r_def H_def]
  have "unat b = H * 2 ^ 32 + unat b mod 2 ^ 32" unfolding H_def by (simp only: div_mult_mod_eq)
  moreover have "unat b mod 2 ^ 32 < 2 ^ 32" by simp
  ultimately have "H * 2 ^ 32 \<le> unat b" "unat b \<le> (H + 1) * 2 ^ 32" by simp_all
  then have h: "real H * 2 ^ 32 \<le> real (unat b)" "real (unat b) \<le> (real H + 1) * 2 ^ 32"
    using of_nat_mono [where 'a = real, of "H * 2 ^ 32" "unat b"] of_nat_mono [where 'a = real, of "unat b" "(H + 1) * 2 ^ 32"]
    by (simp_all only: of_nat_add of_nat_mult of_nat_power of_nat_numeral of_nat_1)
  have r: "real r \<le> 2 ^ 32"
    using unat_less_exp [of "recip_refine b (recip_estimate b)"] of_nat_mono [of r "2 ^ 32", where 'a = real] by (simp add: r_def)
  have "(2 ^ 63 - 3 * 2 ^ 32) * 2 ^ 32 \<le> real r * real H * 2 ^ 32" using B(2) by (intro mult_right_mono) simp_all
  also have "\<dots> \<le> real (unat b) * real r" using mult_right_mono [OF h(1), of "real r"] by (simp add: ac_simps)
  finally show "1 - 3 / 2 ^ 31 \<le> t" by (simp add: t_def field_simps)
  have "real (unat b) * real r \<le> (real H + 1) * 2 ^ 32 * real r" using h(2) by (intro mult_right_mono) simp_all
  also have "\<dots> \<le> (2 ^ 63 + 2 ^ 32) * 2 ^ 32"
  proof -
    have "(real H + 1) * 2 ^ 32 * real r = (real r * real H + real r) * 2 ^ 32" by (simp add: algebra_simps)
    then show ?thesis using B(1) r by simp
  qed
  finally show "t \<le> 1 + 1 / 2 ^ 31" by (simp add: t_def field_simps)
qed

lemma sint_diff:
  fixes x y :: "'a::len word"
  assumes "unat x < 2 ^ (LENGTH('a) - 1)" "unat y < 2 ^ (LENGTH('a) - 1)"
  shows "sint (x - y) \<le> 0 \<longleftrightarrow> unat x \<le> unat y"
proof -
  have p: "(2 :: nat) ^ LENGTH('a) = 2 * 2 ^ (LENGTH('a) - 1)" by (simp flip: power_Suc)
  have z: "sint (x - y) = 0 \<longleftrightarrow> unat x = unat y" by (simp add: signed_eq_0_iff word_unat_eq_iff [of x y])
  have n: "0 \<le> sint (x - y) \<longleftrightarrow> unat y \<le> unat x"
    using assms unfolding sint_nonneg_iff by (simp add: unat_sub_if_size word_size p) linarith
  show ?thesis using z n by linarith
qed

text \<open>The estimate differs from the quotient by less than one.\<close>

lemma goldschmidt_estimate_bounds:
  fixes a b :: u64
  assumes b: "2 ^ 63 \<le> unat b" and a: "unat b \<le> 4 * unat a" "2 * unat a < unat b"
  defines "q \<equiv> real (unat a) / real (unat b)"
  shows "q * 2 ^ 55 - 1 < real (unat (goldschmidt_estimate a b))" "real (unat (goldschmidt_estimate a b)) < q * 2 ^ 55 + 1"
proof -
  define x y where "x = unat a" and "y = unat b"
  have qx: "q = real x / real y" by (simp only: q_def x_def y_def)
  note b' = b [folded y_def] and a' = a [folded x_def y_def]
  define r where "r = unat (recip_refine b (recip_estimate b))"
  define t where "t = real y * real r / 2 ^ 95"
  note t = recip_product [OF b, folded r_def y_def, folded t_def]
  have b0: "0 < y" by (rule less_le_trans [OF _ b']) simp
  have bl: "y < 2 ^ 64" using unat_less_exp [of b] by (simp add: y_def)
  then have al: "x < 2 ^ 63" using a'(2) by simp
  have rl: "r < 2 ^ 32" using unat_less_exp [of "recip_refine b (recip_estimate b)"] by (simp add: r_def)
  have q: "1 / 4 \<le> q" "q < 1 / 2"
    using of_nat_mono [OF a'(1), where 'a = real] of_nat_less_iff [where 'a = real, THEN iffD2, OF a'(2)] b0
    by (simp_all add: qx field_simps)
  define p where "p = (push_bit (15 + 16) (ucast (recip_refine b (recip_estimate b))) :: u64)"
  have p: "unat p = r * 2 ^ 31" using rl by (simp add: p_def unat_push_bit_mult unat_ucast_mod r_def)
  have mp: "w * (r * 2 ^ 31) div 2 ^ 64 = w * r div 2 ^ 33" for w
    using div_mult_mult2 [of "2 ^ 31" "w * r" "2 ^ 33"] by simp
  define A0 B0 where "A0 = x * r div 2 ^ 33" and "B0 = y * r div 2 ^ 33"
  have A0: "real A0 \<le> q * t * 2 ^ 62" "q * t * 2 ^ 62 - 1 \<le> real A0" and B0: "real B0 \<le> t * 2 ^ 62" "t * 2 ^ 62 - 1 \<le> real B0"
    using real_div_bounds [of "x * r" 33] real_div_bounds [of "y * r" 33] b0
    by (simp_all add: A0_def B0_def qx t_def field_simps)
  have t2: "t < 2" "0 < t" using t by simp_all
  have "q * t < 1 / 2 * 2" using q t2 by (intro mult_strict_mono) simp_all
  then have qt: "q * t < 1" by simp
  have A0l: "A0 < 2 ^ 62"
  proof -
    have "real A0 < 2 ^ 62" using A0(1) qt by simp
    then have "real A0 < real (2 ^ 62)" by simp
    then show ?thesis by (simp only: of_nat_less_iff)
  qed
  have B0l: "B0 < 2 ^ 63"
  proof -
    have "real B0 < 2 ^ 63" using B0(1) t2 by simp
    then have "real B0 < real (2 ^ 63)" by simp
    then show ?thesis by (simp only: of_nat_less_iff)
  qed
  define ga0 gb1 where "ga0 = push_bit 2 (builtin_umulh64 a p)" and "gb1 = 0x8000000000000000 - builtin_umulh64 b p"
  have ua: "unat (builtin_umulh64 a p) = A0" and ub: "unat (builtin_umulh64 b p) = B0"
    unfolding unat_builtin_umulh64 p mp A0_def B0_def x_def y_def by (rule refl)+
  have ga0: "unat ga0 = 4 * A0" using A0l by (simp add: ga0_def unat_push_bit_mult ua)
  have gb1: "unat gb1 = 2 ^ 63 - B0"
    using B0l unfolding gb1_def by (subst unat_diff_le) (simp_all add: ub)
  define G where "G = 4 * A0 * (2 ^ 63 - B0) div 2 ^ 64"
  have gb1r: "real (2 ^ 63 - B0) = 2 ^ 63 - real B0" using B0l by (simp add: of_nat_diff)
  have E: "real (2 * G) \<le> q * 2 ^ 63 + 2" "q * 2 ^ 63 - 14 \<le> real (2 * G)" "real (4 * A0) * real (2 ^ 63 - B0) / 2 ^ 64 < 2 ^ 63"
  proof -
    have 0: "0 < q" using q by linarith
    have 1: "q * t * 2 ^ 64 - 4 \<le> real (4 * A0)" "real (4 * A0) \<le> q * t * 2 ^ 64" "0 \<le> real (4 * A0)" using A0 by simp_all
    have 2: "2 ^ 62 * (2 - t) \<le> real (2 ^ 63 - B0)" "real (2 ^ 63 - B0) \<le> 2 ^ 62 * (2 - t) + 1"
      using B0 unfolding gb1r by (simp_all add: algebra_simps)
    have 3: "real (4 * A0) * real (2 ^ 63 - B0) / 2 ^ 63 - 2 \<le> real (2 * G)" "real (2 * G) \<le> real (4 * A0) * real (2 ^ 63 - B0) / 2 ^ 63"
      using real_div_bounds [of "4 * A0 * (2 ^ 63 - B0)" 64] unfolding G_def by (simp_all only: of_nat_mult) simp_all
    show "real (2 * G) \<le> q * 2 ^ 63 + 2" "q * 2 ^ 63 - 14 \<le> real (2 * G)" "real (4 * A0) * real (2 ^ 63 - B0) / 2 ^ 64 < 2 ^ 63"
      by (rule goldschmidt_error [OF 0 q(2) t 1 2 3])+
  qed
  have Gl: "2 * G < 2 ^ 62 + 2"
  proof -
    have "real (2 * G) < real (2 ^ 62 + 2)" using E(1) q(2) by simp
    then show ?thesis by (simp only: of_nat_less_iff)
  qed
  have "unat (builtin_umulh64 ga0 gb1) = G" by (simp only: unat_builtin_umulh64 ga0 gb1 G_def)
  then have "unat (push_bit 1 (builtin_umulh64 ga0 gb1)) = G * 2 ^ 1 mod 2 ^ LENGTH(64)" by (simp only: unat_push_bit_mult)
  then have "unat (push_bit 1 (builtin_umulh64 ga0 gb1)) = 2 * G" using Gl by simp
  then have c: "unat (goldschmidt_estimate a b) = (2 * G + 16) div 2 ^ 8" using Gl 
    unfolding goldschmidt_estimate_def Let_def p_def [symmetric] ga0_def [symmetric] gb1_def [symmetric]
    by (simp add: unat_drop_bit_div unat_word_ariths)
  show "q * 2 ^ 55 - 1 < real (unat (goldschmidt_estimate a b))" "real (unat (goldschmidt_estimate a b)) < q * 2 ^ 55 + 1"
    using real_div_bounds [of "2 * G + 16" 8] E(1,2) unfolding c by simp_all
qed

text \<open>The quotient in units of \<open>2\<^sup>-\<^sup>5\<^sup>5\<close>: the largest integer below the exact quotient, followed by a set bit. (An exact
  quotient is represented by its predecessor.)\<close>

lemma goldschmidt_quotient_eq:
  fixes a b :: u64
  assumes b: "2 ^ 63 \<le> unat b" and a: "unat b \<le> 4 * unat a" "2 * unat a < unat b"
  shows "\<exists>z. unat (goldschmidt_quotient a b) = z * 2 ^ 9 + 2 ^ 8 \<and> z * unat b < unat a * 2 ^ 55 \<and> unat a * 2 ^ 55 \<le> (z + 1) * unat b
    \<and> z < 2 ^ 54"
proof -
  define x y where "x = unat a" and "y = unat b"
  note b' = b [folded y_def] and a' = a [folded x_def y_def]
  define q where "q = real x / real y"
  have b0: "0 < y" by (rule less_le_trans [OF _ b']) simp
  have bl: "y < 2 ^ 64" using unat_less_exp [of b] by (simp add: y_def)
  then have al: "x < 2 ^ 63" using a'(2) by simp
  have q: "1 / 4 \<le> q" "q < 1 / 2"
    using of_nat_mono [OF a'(1), where 'a = real] of_nat_less_iff [where 'a = real, THEN iffD2, OF a'(2)] b0
    by (simp_all add: q_def field_simps)
  define c where "c = goldschmidt_estimate a b"
  note cq = goldschmidt_estimate_bounds [OF b a, folded x_def y_def, folded q_def c_def]
  have ab: "real x = q * real y" using b0 by (simp add: q_def)
  have c1: "x * 2 ^ 55 < (unat c + 1) * y" "x * 2 ^ 55 + y > unat c * y"
  proof -
    have "q * 2 ^ 55 * real y < (real (unat c) + 1) * real y" "real (unat c) * real y < (q * 2 ^ 55 + 1) * real y"
      using cq b0 by (intro mult_strict_right_mono; simp)+
    then have "real (x * 2 ^ 55) < real ((unat c + 1) * y)" "real (unat c * y) < real (x * 2 ^ 55 + y)"
      unfolding of_nat_mult of_nat_add ab by (simp_all add: algebra_simps)
    then show "x * 2 ^ 55 < (unat c + 1) * y" "x * 2 ^ 55 + y > unat c * y" by (simp_all only: of_nat_less_iff)
  qed
  have c0: "1 \<le> unat c" "unat c \<le> 2 ^ 54"
  proof -
    have "real 0 < real (unat c)" using cq(1) q(1) by simp
    then show "1 \<le> unat c" by (simp only: of_nat_less_iff Suc_le_eq One_nat_def)
    have "real (unat c) < real (2 ^ 54 + 1)" using cq(2) q(2) by simp
    then have "unat c < 2 ^ 54 + 1" by (simp only: of_nat_less_iff)
    then show "unat c \<le> 2 ^ 54" by simp
  qed
  define le where "le \<longleftrightarrow> x * 2 ^ 55 \<le> y * unat c"
  have "sint (a - builtin_umulh64 b (push_bit 9 c)) \<le> 0 \<longleftrightarrow> le"
  proof -
    have "unat (push_bit 9 c) = unat c * 2 ^ 9" using c0 by (simp add: unat_push_bit_mult)
    then have "unat (builtin_umulh64 b (push_bit 9 c)) = y * unat c * 2 ^ 9 div (2 ^ 9 * 2 ^ 55)"
      unfolding unat_builtin_umulh64 y_def by (simp add: ac_simps)
    then have u: "unat (builtin_umulh64 b (push_bit 9 c)) = y * unat c div 2 ^ 55" by (simp only: mult.commute [of "2 ^ 9"] div_mult_mult2) simp
    have "y * unat c \<le> y * 2 ^ 54" using c0(2) by simp
    also have "\<dots> < 2 ^ 64 * 2 ^ 54" using bl by simp
    finally have "unat (builtin_umulh64 b (push_bit 9 c)) < 2 ^ 63" unfolding u by (simp add: less_mult_imp_div_less)
    then show ?thesis using al unfolding le_def by (subst sint_diff) (simp_all add: u x_def [symmetric] less_eq_div_iff_mult_less_eq)
  qed
  then have g: "goldschmidt_quotient a b = push_bit 9 (if le then c - 1 else c) OR push_bit 8 1"
    unfolding goldschmidt_quotient_def Let_def c_def [symmetric] by simp
  define z where "z = (if le then unat c - 1 else unat c)"
  have uz: "unat (if le then c - 1 else c) = z" using c0(1) by (simp add: z_def unat_diff_le)
  have z: "z * y < x * 2 ^ 55" "x * 2 ^ 55 \<le> (z + 1) * y"
  proof -
    obtain d where d: "unat c = d + 1" using c0(1) by (metis le_add_diff_inverse2)
    have "z * y < x * 2 ^ 55 \<and> x * 2 ^ 55 \<le> (z + 1) * y"
    proof (cases le)
      case True
      then have "x * 2 ^ 55 \<le> (d + 1) * y" by (simp only: le_def d mult.commute)
      moreover have "d * y < x * 2 ^ 55" using c1(2) by (simp add: d)
      ultimately show "z * y < x * 2 ^ 55 \<and> x * 2 ^ 55 \<le> (z + 1) * y" using True by (simp_all add: z_def d)
    next
      case False
      then have "unat c * y < x * 2 ^ 55" by (simp only: le_def mult.commute not_le)
      then show "z * y < x * 2 ^ 55 \<and> x * 2 ^ 55 \<le> (z + 1) * y" using False c1(1) by (simp_all add: z_def)
    qed
    then show "z * y < x * 2 ^ 55" "x * 2 ^ 55 \<le> (z + 1) * y" by blast+
  qed
  have "x * 2 ^ 55 \<le> 2 ^ 54 * y" using a'(2) by simp
  with z(1) have "z * y < 2 ^ 54 * y" by (rule less_le_trans)
  then have zl: "z < 2 ^ 54" by (simp only: mult_less_cancel2)
  have "unat (goldschmidt_quotient a b) = z * 2 ^ 9 + 2 ^ 8"
    unfolding g using zl uz by (subst unat_push_or) (simp_all add: unat_push_1 del: push_bit_of_1)
  then show ?thesis using z zl unfolding x_def y_def by blast
qed

section \<open>Rounding\<close>

lemma div_between: "0 < n \<Longrightarrow> a div n * n \<le> a" "0 < n \<Longrightarrow> a + 1 \<le> (a div n + 1) * (n :: nat)"
proof -
  assume "0 < n"
  then have "a div n * n + a mod n = a" "a mod n < n" by (simp_all only: div_mult_mod_eq mod_less_divisor)
  then show "a div n * n \<le> a" "a + 1 \<le> (a div n + 1) * n" unfolding add_mult_distrib by linarith+
qed

lemma round_with_set_bit:
  "round_nat float_round_nearest_even s (z * 2 ^ 9 + 2 ^ 8) (m + 10) = (z + 2 ^ m) div 2 ^ (m + 1)"
proof -
  define h N where "h = (2 :: nat) ^ m" and "N = 2 * h"
  define v where "v = z mod N"
  have h: "0 < h" "v < N" by (simp_all add: h_def v_def N_def)
  have z: "z = z div N * N + v" by (simp add: v_def)
  have p: "(2 :: nat) ^ (m + 10) = 512 * N" "(2 :: nat) ^ (m + 1) = N" by (simp_all add: N_def h_def power_add)
  have w: "z * 2 ^ 9 + 2 ^ 8 = z div N * (512 * N) + (v * 512 + 256)"
    using arg_cong [OF z, of "\<lambda>z. z * 512 + 256"] by (simp add: algebra_simps)
  have r: "(v * 512 + 256) div (512 * N) = 0" "(v * 512 + 256) mod (512 * N) = v * 512 + 256" using h by simp_all
  have d: "(z * 2 ^ 9 + 2 ^ 8) div 2 ^ (m + 10) = z div N" "(z * 2 ^ 9 + 2 ^ 8) mod 2 ^ (m + 10) = v * 512 + 256"
    unfolding p w using h r by simp_all
  have "(z + h) div N = (v + h + z div N * N) div N" by (subst z) (simp only: ac_simps)
  also have "\<dots> = z div N + (v + h) div N" using h by (subst div_mult_self1) simp_all
  finally have "(z + h) div N = z div N + (v + h) div N" .
  moreover have "(v + h) div N = of_bool (h \<le> v)"
    using h by (auto simp: N_def div_nat_eqI)
  moreover have "512 * N < 2 * (v * 512 + 256) \<longleftrightarrow> h \<le> v" by (auto simp: N_def)
  moreover have "2 * (v * 512 + 256) \<noteq> 512 * N" unfolding N_def by presburger
  ultimately show ?thesis unfolding round_nat_def Let_def d unfolding p by (simp add: h_def)
qed

text \<open>Rounding the predecessor of an exact quotient is rounding the quotient, when it cannot be a tie.\<close>

lemma predecessor_rounding:
  fixes A B z m k fb :: nat
  assumes A: "0 < A" "A < 2 ^ (fb + 1)" and B: "0 < B" and z: "z * B < A * 2 ^ (k + m + 1)" "A * 2 ^ (k + m + 1) \<le> (z + 1) * B"
    and H: "2 ^ (fb + 1) * B \<le> A * 2 ^ (k + 1)"
  shows "(z + 2 ^ m) div 2 ^ (m + 1) = nearest_quotient (A * 2 ^ k) B"
proof -
  define X h where "X = A * 2 ^ k" and "h = (2 :: nat) ^ m"
  define R where "R = (z + h) div (2 * h)"
  have X: "A * 2 ^ (k + m + 1) = 2 * X * h" by (simp add: X_def h_def power_add)
  have h: "0 < h" by (simp add: h_def)
  have "0 < 2 * h" using h by simp
  note zh = div_between [OF this, of "z + h", folded R_def]
  have "(2 * X + B) div (2 * B) = R"
  proof (rule div_nat_eqI)
    have "R * (2 * h) * B \<le> (z + h) * B" using zh(1) by (intro mult_le_mono1)
    also have "\<dots> < 2 * X * h + h * B" using z(1) unfolding X by (simp add: add_mult_distrib)
    finally have "h * (R * (2 * B)) < h * (2 * X + B)" by (simp add: algebra_simps)
    then show "2 * B * R \<le> 2 * X + B" using h by (simp add: ac_simps)
    have "(z + h + 1) * B \<le> (R + 1) * (2 * h) * B" using zh(2) by (intro mult_le_mono1) simp
    then have "2 * X * h + h * B \<le> (R + 1) * (2 * h) * B" using z(2) unfolding X by (simp add: add_mult_distrib)
    then have "h * (2 * X + B) \<le> h * ((R + 1) * (2 * B))" by (simp add: algebra_simps)
    then have le: "2 * X + B \<le> (R + 1) * (2 * B)" using h by simp
    moreover have "2 * X + B \<noteq> (R + 1) * (2 * B)"
    proof
      assume "2 * X + B = (R + 1) * (2 * B)"
      then have e: "(2 * R + 1) * B = A * 2 ^ (k + 1)" by (simp add: X_def algebra_simps)
      then have "2 ^ (fb + 1) * B \<le> (2 * R + 1) * B" using H by simp
      then have "2 ^ (fb + 1) \<le> 2 * R + 1" using B by (simp only: mult_le_cancel2)
      then show False using no_tie [OF A(2) _ _ A(1), of "2 * R + 1" B "k + 1"] e by simp
    qed
    ultimately show "2 * X + B < 2 * B * Suc R" by (simp add: algebra_simps)
  qed
  then show ?thesis by (simp add: nearest_quotient_def X_def R_def h_def)
qed

text \<open>Without a tie or with one, the rounded number is a nearest integer.\<close>

lemma predecessor_nearest:
  fixes Q :: real and z m :: nat
  assumes Q: "real z < Q" "Q \<le> real z + 1"
  shows "\<bar>real ((z + 2 ^ m) div 2 ^ (m + 1)) - Q / 2 ^ (m + 1)\<bar> \<le> 1 / 2"
proof -
  define h R where "h = (2 :: nat) ^ m" and "R = (z + h) div (2 * h)"
  have h: "0 < h" by (simp add: h_def)
  have "R * (2 * h) \<le> z + h" "z + h + 1 \<le> (R + 1) * (2 * h)" using div_between [of "2 * h" "z + h"] h by (simp_all only: R_def)
  then have "real (R * (2 * h)) \<le> real (z + h)" "real (z + h + 1) \<le> real ((R + 1) * (2 * h))" by (simp_all only: of_nat_le_iff)
  then have "real R * (2 * real h) \<le> Q + real h" "Q + real h \<le> real R * (2 * real h) + 2 * real h" using Q by (simp_all add: algebra_simps)
  then have "real R \<le> Q / (2 * real h) + 1 / 2" "Q / (2 * real h) + 1 / 2 \<le> real R + 1" using h by (simp_all add: field_simps)
  then have "\<bar>real R - Q / (2 * real h)\<bar> \<le> 1 / 2" unfolding abs_le_iff by linarith
  then show ?thesis by (simp add: R_def h_def)
qed

section \<open>The quotient of two significands\<close>

text \<open>The significands, placed so that the quotient has its leading one in bit 53 or 52, and the exponent.\<close>

lemma mantissa_division_eq:
  fixes A B fb :: nat and ga gb :: u64
  defines "t \<equiv> of_bool (A < B) :: nat"
  assumes fb: "1 \<le> fb" "fb \<le> 52" and A: "2 ^ fb \<le> A" "A < 2 ^ (fb + 1)" and B: "2 ^ fb \<le> B" "B < 2 ^ (fb + 1)"
    and g: "ga OR push_bit fb 1 = of_nat A" "gb OR push_bit fb 1 = of_nat B"
  shows "\<exists>w z. goldschmidt_mantissa_division ea eb ga gb bias fb = (int16 (ea - eb - bias - 1 - int t), w)
    \<and> unat w = z * 2 ^ 9 + 2 ^ 8 \<and> z * B < A * 2 ^ (53 + t) \<and> A * 2 ^ (53 + t) \<le> (z + 1) * B \<and> z < 2 ^ 54"
proof -
  define c where "c = 61 - fb"
  have c: "62 - fb = c + 1" "63 - fb = c + 2" "fb + 1 + (c + 1) = 63" "fb + 1 + (c + 2) = 64" "fb + (c + 2) = 63" using fb by (simp_all add: c_def)
  have p: "(2 :: nat) ^ (fb + 1) * 2 ^ (c + 1) = 2 ^ 63" "(2 :: nat) ^ (fb + 1) * 2 ^ (c + 2) = 2 ^ 64" "(2 :: nat) ^ fb * 2 ^ (c + 2) = 2 ^ 63"
    by (simp_all only: c(3-5) flip: power_add)
  have AB: "A * 2 ^ (c + 1) < 2 ^ 63" "A * 2 ^ (c + 2) < 2 ^ 64" "B * 2 ^ (c + 2) < 2 ^ 64" "2 ^ 63 \<le> B * 2 ^ (c + 2)"
    using A B unfolding p [symmetric] by simp_all
  have "(2 :: nat) ^ (fb + 1) \<le> 2 ^ 64" using fb by (intro power_increasing) auto
  then have un: "unat (of_nat A :: u64) = A" "unat (of_nat B :: u64) = B" using A B by (simp_all add: unat_of_nat_64)
  define x y where "x = push_bit (c + 1) (of_nat A :: u64)" and "y = push_bit (c + 2) (of_nat B :: u64)"
  have x: "unat x = A * 2 ^ (c + 1)" and y: "unat y = B * 2 ^ (c + 2)"
    unfolding x_def y_def unat_push_bit_mult un using AB by simp_all
  have x1: "unat (push_bit 1 x) = A * 2 ^ (c + 2)" unfolding unat_push_bit_mult x using AB(2) by simp
  have le: "y \<le> push_bit 1 x \<longleftrightarrow> \<not> A < B" unfolding word_le_nat_alt x1 y by (simp add: not_less)
  define v where "v = (if A < B then x else drop_bit 1 x)"
  have v: "unat v = A * 2 ^ (c + t)" by (simp add: v_def x t_def unat_drop_bit_div)
  have "goldschmidt_mantissa_division ea eb ga gb bias fb = (int16 (ea - eb - bias - 1 - int t), goldschmidt_quotient v y)"
    unfolding goldschmidt_mantissa_division_def g c x_def [symmetric] y_def [symmetric] le Let_def
    by (simp add: v_def t_def algebra_simps)
  moreover have b: "2 ^ 63 \<le> unat y" using AB(4) by (simp only: y)
  moreover have "unat y \<le> 4 * unat v"
  proof (cases "A < B")
    case True
    have "B \<le> 2 * A" using A B by simp
    then have "B * 2 ^ (c + 2) \<le> 2 * A * 2 ^ (c + 2)" by (rule mult_le_mono1)
    then show ?thesis unfolding y v t_def using True by simp
  qed (simp add: y v t_def)
  moreover have "2 * unat v < unat y"
  proof (cases "A < B")
    case False
    have "A < 2 * B" using A B by simp
    then have "A * 2 ^ (c + 1) < 2 * B * 2 ^ (c + 1)" by simp
    then show ?thesis unfolding y v t_def using False by simp
  qed (simp add: y v t_def)
  ultimately obtain z where z: "unat (goldschmidt_quotient v y) = z * 2 ^ 9 + 2 ^ 8" "z * unat y < unat v * 2 ^ 55"
    "unat v * 2 ^ 55 \<le> (z + 1) * unat y" "z < 2 ^ 54"
    using goldschmidt_quotient_eq [of y v] by blast
  have "unat v * 2 ^ 55 = A * 2 ^ (53 + t) * 2 ^ (c + 2)" unfolding v by (simp add: power_add)
  then have "z * B * 2 ^ (c + 2) < A * 2 ^ (53 + t) * 2 ^ (c + 2)" "A * 2 ^ (53 + t) * 2 ^ (c + 2) \<le> (z + 1) * B * 2 ^ (c + 2)"
    using z(2,3) unfolding y by (simp_all only: mult.assoc)
  then have "z * B < A * 2 ^ (53 + t)" "A * 2 ^ (53 + t) \<le> (z + 1) * B" by (simp_all only: mult_less_cancel2 mult_le_cancel2)
  then show ?thesis using \<open>goldschmidt_mantissa_division ea eb ga gb bias fb = _\<close> z(1,4) by blast
qed

text \<open>
  Formats for which this division is meant: at most 52 bits of fraction, and exponents that stay within 16 bits.
\<close>

definition divG_format :: "tfspec \<Rightarrow> bool" where
  "divG_format sp \<longleftrightarrow> div_format sp \<and> exp_bits sp \<le> 13 \<and> frac_bits sp \<le> 52"

lemma ieee_divG_formats: "divG_format IEEE16_SPEC_ARGS" "divG_format IEEE32_SPEC_ARGS" "divG_format IEEE64_SPEC_ARGS"
  using ieee_div_formats by (simp_all add: divG_format_def IEEE16_SPEC_ARGS_def IEEE32_SPEC_ARGS_def IEEE64_SPEC_ARGS_def)

lemma int16_range: "- (2 ^ 15) \<le> x \<Longrightarrow> x < 2 ^ 15 \<Longrightarrow> int16 x = x"
  by (simp add: int16_def mod_pos_pos_trivial)

text \<open>Exponent fields fit 16 bits; the classes and the normalisation are those of the digit recurrence.\<close>

lemma int16_exponent:
  assumes "exp_bits sp \<le> 13"
  shows "int16 (uint (extractFloatExp a (exp_bits sp) fb)) = uint (extractFloatExp a (exp_bits sp) fb)"
proof -
  have "unat (extractFloatExp a (exp_bits sp) fb) < 2 ^ exp_bits sp" by (simp only: extractFloatExp_def and_ones) simp
  also have "(2 :: nat) ^ exp_bits sp \<le> 2 ^ 13" using assms by (intro power_increasing) auto
  finally have "int (unat (extractFloatExp a (exp_bits sp) fb)) < int (2 ^ 13)" by (simp only: of_nat_less_iff)
  then have "uint (extractFloatExp a (exp_bits sp) fb) < 2 ^ 13" by simp
  also have "(2 :: int) ^ 13 < 2 ^ 15" by simp
  finally show ?thesis by (rule int16_small [OF uint_ge_0])
qed

lemma divG_class_eq:
  assumes "exc_mode sp = FLOAT_EXC_STD" and c: "div_class E F sp = (c, n, z, i, y)"
  shows "divG_class (uint E) F sp = (c, z, i, y)"
proof -
  have "(of_int (uint E) :: u64) = E" by simp
  moreover have "uint E = 0 \<longleftrightarrow> E = 0" by (simp add: uint_0_iff)
  ultimately show ?thesis using c assms(1) unfolding div_class_def divG_class_def Let_def by (auto simp: exc_defs)
qed

lemma divG_normalise_eq:
  assumes c: "div_normalise E F sp = (e, g)" and b: "- (2 ^ 15) \<le> e" "e < 2 ^ 15"
  shows "divG_normalise (uint E) F sp = (e, g)"
proof -
  have "uint E = 0 \<longleftrightarrow> E = 0" by (simp add: uint_0_iff)
  moreover have "int16 e = e" using b by (rule int16_range)
  ultimately show ?thesis using c unfolding div_normalise_def divG_normalise_def
    by (auto split: if_splits prod.splits)
qed

section \<open>Correct rounding\<close>

text \<open>The result of the rounding, for a significand that stands for the predecessor of the quotient.\<close>

lemma nearest_mode_increment:
  assumes "float_rounding_mode env = float_round_nearest_even" "1 \<le> n" "n < 64"
  shows "unat (roundIncrement env s n :: u64) = 2 ^ (n - 1)"
  using assms unat_push_1 [of "n - 1", where 'a = 64] by (simp add: roundIncrement_def round_mode_defs del: push_bit_of_1)

lemma round_predecessor:
  fixes A B fb z :: nat and w :: u64 and env :: fenv and E :: int
  defines "t \<equiv> of_bool (A < B) :: nat"
  defines "R \<equiv> nearest_quotient (A * 2 ^ (fb + t)) B"
  assumes f: "2 \<le> eb" "eb \<le> 30" "1 \<le> fb" "fb \<le> 52" "eb + fb < 64" and env: "float_rounding_mode env = float_round_nearest_even"
    and A: "2 ^ fb \<le> A" "A < 2 ^ (fb + 1)" and B: "2 ^ fb \<le> B" "B < 2 ^ (fb + 1)"
    and w: "unat w = z * 2 ^ 9 + 2 ^ 8" "z * B < A * 2 ^ (53 + t)" "A * 2 ^ (53 + t) \<le> (z + 1) * B" "z < 2 ^ 54"
  shows "0 \<le> E \<Longrightarrow> E < 2 ^ eb - 2 \<Longrightarrow> unat (fst (roundAndPackFloat64 env s E w eb fb FLOAT_EXC_STD True))
      = of_bool s * 2 ^ (eb + fb) + nat E * 2 ^ fb + R"
    and "2 ^ eb - 2 \<le> E \<Longrightarrow> E < 2 ^ 31 \<Longrightarrow> fst (roundAndPackFloat64 env s E w eb fb FLOAT_EXC_STD True)
      = push_bit (eb + fb) (of_bool s) OR push_bit fb (ones eb)"
    and "- (2 ^ 15) < E \<Longrightarrow> E < 0 \<Longrightarrow> unat (fst (roundAndPackFloat64 env s E w eb fb FLOAT_EXC_STD True))
      = of_bool s * 2 ^ (eb + fb) + (z + 2 ^ (52 - fb + nat (- E))) div 2 ^ (52 - fb + nat (- E) + 1)"
proof -
  define m where "m = 52 - fb"
  have m: "62 - fb = m + 10" "fb + m = 52" using f by (simp_all add: m_def)
  have B0: "0 < B" and A0: "0 < A" using A(1) B(1) by (meson less_le_trans zero_less_numeral zero_less_power)+
  note Q = quotient_range [OF A B, folded t_def, folded R_def]
  have H: "2 ^ (fb + 1) * B \<le> A * 2 ^ (fb + t + 1)" using Q(1) B0 by (simp add: less_eq_div_iff_mult_less_eq)
  have e: "fb + t + m + 1 = 53 + t" using m by simp
  have R: "(z + 2 ^ m) div 2 ^ (m + 1) = R"
    using predecessor_rounding [OF A0 A(2) B0 w(2,3) [folded e] H] by (simp only: R_def)
  have rn: "round_nat (float_rounding_mode env) s (unat w) (n + 10) = (z + 2 ^ n) div 2 ^ (n + 1)" for n
    unfolding w(1) env by (rule round_with_set_bit)
  have w63: "unat w < 2 ^ 63" using w(1,4) by simp
  have le: "(4 :: int) \<le> 2 ^ eb" using power_increasing [OF f(1), of "2 :: int"] by simp
  have lim: "exp_limit eb FLOAT_EXC_STD = 2 ^ eb - 3" by (simp add: exp_limit_def)
  show "unat (fst (roundAndPackFloat64 env s E w eb fb FLOAT_EXC_STD True)) = of_bool s * 2 ^ (eb + fb) + nat E * 2 ^ fb + R"
    if E: "0 \<le> E" "E < 2 ^ eb - 2"
  proof -
    have inc: "unat (w + roundIncrement env s (62 - fb)) < 2 ^ 63"
    proof -
      have i: "unat (roundIncrement env s (62 - fb) :: u64) = 2 ^ (m + 9)"
        using nearest_mode_increment [OF env, of "62 - fb" s] f m(1) by simp
      have "(z + 2 ^ m) div 2 ^ (m + 1) < 2 ^ (fb + 1)" using Q(4) by (simp only: R)
      then have "z + 2 ^ m < 2 ^ (fb + 1) * 2 ^ (m + 1)" by (simp only: div_less_iff_less_mult [OF zero_less_power [OF pos2]])
      also have "(2 :: nat) ^ (fb + 1) * 2 ^ (m + 1) = 2 ^ 54" unfolding power_add [symmetric] using m(2) by (simp add: add.assoc)
      finally have "512 * (z + 2 ^ m) + 512 \<le> 2 ^ 63" by simp
      moreover have "(2 :: nat) ^ (m + 9) = 512 * 2 ^ m" by (simp add: power_add)
      ultimately have "unat w + 2 ^ (m + 9) < 2 ^ 63" unfolding w(1) by simp
      then show ?thesis by (subst unat_add_small) (simp_all add: i)
    qed
    have no: "E < exp_limit eb FLOAT_EXC_STD \<or> E = exp_limit eb FLOAT_EXC_STD \<and> unat (w + roundIncrement env s (62 - fb)) < 2 ^ 63"
      using inc E(2) unfolding lim by linarith
    have "int (nat E + 3) \<le> int (2 ^ eb)" using E by simp
    then have "nat E + 3 \<le> 2 ^ eb" by (simp only: of_nat_le_iff)
    then have "(nat E + 3) * 2 ^ fb \<le> 2 ^ (eb + fb)" unfolding power_add by (rule mult_le_mono1)
    then have tot: "nat E * 2 ^ fb + R < 2 ^ (eb + fb)" using Q(4) by (simp add: add_mult_distrib)
    have "(0 :: nat) < 2 ^ fb" by simp
    then have "R \<noteq> 0" using Q(3) by linarith
    note P = roundAndPack64_packs(1) [OF f(5) _ E(1) no w63, of True]
    show ?thesis using P tot \<open>R \<noteq> 0\<close> f(4) unfolding m(1) rn R by simp
  qed
  show "fst (roundAndPackFloat64 env s E w eb fb FLOAT_EXC_STD True) = push_bit (eb + fb) (of_bool s) OR push_bit fb (ones eb)"
    if E: "2 ^ eb - 2 \<le> E" "E < 2 ^ 31"
  proof -
    have "unat (roundIncrement env s (62 - fb) :: u64) \<noteq> 0" using nearest_mode_increment [OF env, of "62 - fb" s] f by simp
    then have "roundIncrement env s (62 - fb) \<noteq> (0 :: u64)" by auto
    then show ?thesis using rounding_overflow [of eb E w env s fb True] E f unfolding lim by simp
  qed
  show "unat (fst (roundAndPackFloat64 env s E w eb fb FLOAT_EXC_STD True))
      = of_bool s * 2 ^ (eb + fb) + (z + 2 ^ (52 - fb + nat (- E))) div 2 ^ (52 - fb + nat (- E) + 1)" if E: "- (2 ^ 15) < E" "E < 0"
  proof -
    have "round_args env s E w eb fb FLOAT_EXC_STD"
      unfolding round_args_def lim using f E w63 le by auto
    note P = roundAndPack64_subnormal(1) [OF this E(2)]
    have "62 - fb + nat (- E) = (m + nat (- E)) + 10" using m(1) by simp
    then show ?thesis using P by (simp only: rn m_def)
  qed
qed

text \<open>The division of two nonzero numbers, subnormal ones included, on the words.\<close>

lemma float_divG_number:
  fixes a b :: u64 and sp :: tfspec and env :: fenv
  defines "eb \<equiv> exp_bits sp" and "fb \<equiv> frac_bits sp" and "s \<equiv> fsign sp a \<noteq> fsign sp b"
  assumes f: "divG_format sp"
    and a: "finite_pattern sp a" "fabs_bits sp a \<noteq> 0" and b: "finite_pattern sp b" "fabs_bits sp b \<noteq> 0"
    and na: "div_normalise (extractFloatExp a eb fb) (extractFloatFrac a fb) sp = (ea, ga)" "ga OR push_bit fb 1 = of_nat A"
      "2 ^ fb \<le> A" "A < 2 ^ (fb + 1)" "- int fb < ea" "ea \<le> 2 ^ eb - 2"
    and nb: "div_normalise (extractFloatExp b eb fb) (extractFloatFrac b fb) sp = (e2, gb)" "gb OR push_bit fb 1 = of_nat B"
      "2 ^ fb \<le> B" "B < 2 ^ (fb + 1)" "- int fb < e2" "e2 \<le> 2 ^ eb - 2"
  defines "E \<equiv> ea - e2 - exp_bias sp - 1 - of_bool (A < B)"
  shows "\<exists>w z. float_divG env a b sp = roundAndPackFloat64 env s E w eb fb FLOAT_EXC_STD True
    \<and> unat w = z * 2 ^ 9 + 2 ^ 8 \<and> z * B < A * 2 ^ (53 + of_bool (A < B)) \<and> A * 2 ^ (53 + of_bool (A < B)) \<le> (z + 1) * B \<and> z < 2 ^ 54
    \<and> - (2 ^ 15) < E \<and> E < 2 ^ 15"
proof -
  have f': "div_format sp" using f by (simp add: divG_format_def)
  have F: "exc_mode sp = FLOAT_EXC_STD" "sign_spec sp = - 1" "2 \<le> eb" "eb \<le> 13" "1 \<le> fb" "fb \<le> 52" "- (2 ^ eb) \<le> exp_bias sp"
    "int fb \<le> 2 - exp_bias sp"
    using f by (simp_all add: divG_format_def div_format_def eb_def fb_def)
  have p: "(2 :: int) ^ eb \<le> 2 ^ 13" using F(4) by (intro power_increasing) auto
  have p': "(2 :: int) ^ 13 = 8192" "(2 :: int) ^ 15 = 32768" by simp_all
  have bnd: "- (2 ^ 15) \<le> ea" "ea < 2 ^ 15" "- (2 ^ 15) \<le> e2" "e2 < 2 ^ 15" "- (2 ^ 15) < E" "E < 2 ^ 15"
    using na(5,6) nb(5,6) F(5-8) p unfolding p' E_def by (auto simp: of_bool_def)
  have e16: "int16 (uint (extractFloatExp x eb fb)) = uint (extractFloatExp x eb fb)" for x
    unfolding eb_def by (rule int16_exponent) (use F(4) in \<open>simp add: eb_def\<close>)
  have cl: "divG_class (uint (extractFloatExp x eb fb)) (extractFloatFrac x fb) sp = (FP_CLS_NORMAL, False, False, False)"
    if "finite_pattern sp x" "fabs_bits sp x \<noteq> 0" for x
    using divG_class_eq [OF F(1) div_class_number [OF f' that]] by (simp only: eb_def fb_def)
  note N = divG_normalise_eq [OF na(1) bnd(1,2)] divG_normalise_eq [OF nb(1) bnd(3,4)]
  obtain w z where w: "goldschmidt_mantissa_division ea e2 ga gb (exp_bias sp) fb = (int16 (ea - e2 - exp_bias sp - 1 - int (of_bool (A < B))), w)"
    "unat w = z * 2 ^ 9 + 2 ^ 8" "z * B < A * 2 ^ (53 + of_bool (A < B))" "A * 2 ^ (53 + of_bool (A < B)) \<le> (z + 1) * B" "z < 2 ^ 54"
    using mantissa_division_eq [OF F(5,6) na(3,4) nb(3,4) na(2) nb(2)] by blast
  have i: "int16 (ea - e2 - exp_bias sp - 1 - int (of_bool (A < B))) = E"
    using int16_range [of E] bnd(5,6) by (simp add: E_def)
  have zc: "div_class_result FP_CLS_NORMAL FP_CLS_NORMAL FLOAT_EXC_STD = FP_CLS_NORMAL"
    by (simp add: div_class_result_def cls_defs exc_defs)
  have sg: "fsign sp x = extractFloatSign x eb fb (- 1)" for x by (simp only: fsign_def eb_def fb_def F(2))
  have s1: "(- 1 :: int) \<noteq> 1" by simp
  have "float_divG env a b sp = roundAndPackFloat64 env s E w eb fb FLOAT_EXC_STD True"
    unfolding float_divG_def
    by (simp only: Let_def eb_def [symmetric] fb_def [symmetric] e16 cl [OF a] cl [OF b] prod.case F(1,2) zc N w(1) i s1 if_False if_True
      simp_thms sg s_def)
  then show ?thesis using w(2-5) bnd(5,6) by blast
qed

text \<open>A nearest integer multiple of the unit of the format is a nearest number of the format.\<close>

lemma nearest_of_units:
  fixes sp :: tfspec and X u :: real and R :: nat
  assumes u: "u = 2 powi (exp_bias sp + 1 - int (frac_bits sp))" and X: "\<bar>real R - X\<bar> \<le> 1 / 2" and q: "\<bar>q\<bar> = X * u"
    and r: "fval sp r = (if q < 0 then - 1 else 1) * (real R * u)"
  shows "\<bar>fval sp r - q\<bar> \<le> \<bar>fval sp c - q\<bar>"
proof -
  have u0: "0 < u" by (simp add: u)
  define i :: int where "i = (if q < 0 then - 1 else 1)"
  have i: "\<bar>i\<bar> = 1" by (simp add: i_def)
  have qi: "q = (of_int i * X) * u" using q by (simp add: i_def abs_if split: if_splits)
  have ri: "fval sp r = of_int (i * int R) * u" unfolding r by (simp add: i_def)
  have "of_int (i * int R) - of_int i * X = of_int i * (real R - X)" by (simp add: algebra_simps)
  then have "\<bar>of_int (i * int R) - of_int i * X\<bar> = \<bar>real_of_int i\<bar> * \<bar>real R - X\<bar>" by (simp only: abs_mult)
  also have "\<bar>real_of_int i\<bar> = 1" using i by (simp add: i_def)
  finally have "\<bar>of_int (i * int R) - of_int i * X\<bar> \<le> 1 / 2" using X by simp
  then have n: "\<bar>of_int (i * int R) - of_int i * X\<bar> \<le> \<bar>of_int (fint sp c) - of_int i * X\<bar>" by (rule nearest_integer)
  have "\<bar>fval sp r - q\<bar> = \<bar>of_int (i * int R) - of_int i * X\<bar> * u" unfolding ri qi using u0 by (simp add: abs_mult left_diff_distrib [symmetric])
  moreover have "\<bar>fval sp c - q\<bar> = \<bar>of_int (fint sp c) - of_int i * X\<bar> * u"
    unfolding fval_def u [symmetric] qi using u0 by (simp add: abs_mult left_diff_distrib [symmetric])
  ultimately show ?thesis using n u0 by (simp add: mult_right_mono)
qed

text \<open>The pattern of infinity.\<close>

lemma infinity_bits_less: "infinity_bits sp < 2 ^ (exp_bits sp + frac_bits sp)"
  unfolding infinity_bits_def power_add by (intro mult_strict_right_mono) simp_all

lemma infinity_word:
  assumes "exp_bits sp + frac_bits sp < 64"
  shows "unat (push_bit (exp_bits sp + frac_bits sp) (of_bool s) OR push_bit (frac_bits sp) (ones (exp_bits sp)) :: u64)
    = pattern_bits sp s (2 ^ exp_bits sp - 1) 0"
proof -
  have "unat (ones (exp_bits sp) :: u64) = 2 ^ exp_bits sp - 1" using assms by (intro unat_ones) simp
  then show ?thesis using unat_fields [of 0 "frac_bits sp" "ones (exp_bits sp)" "exp_bits sp" s] assms by (simp add: pattern_bits_def)
qed

lemma infinity_result:
  assumes f: "format_ok sp" "sign_spec sp = - 1"
    and r: "r = push_bit (exp_bits sp + frac_bits sp) (of_bool s) OR push_bit (frac_bits sp) (ones (exp_bits sp))"
  shows "pattern_of sp r \<and> fsign sp r = s \<and> inf_pattern sp r"
proof -
  have "unat r = pattern_bits sp s (2 ^ exp_bits sp - 1) 0" unfolding r using f(1) by (intro infinity_word) (simp add: format_ok_def)
  from pattern_bits_fields [OF this _ _ f(2)] show ?thesis by (simp add: inf_pattern_def infinity_bits_def)
qed

text \<open>A rounded significand packed with an exponent field below the largest is a finite number of that value.\<close>

lemma finite_result:
  fixes sp :: tfspec and r :: u64 and R :: nat and E :: int
  defines "fb \<equiv> frac_bits sp"
  assumes f: "format_ok sp" "sign_spec sp = - 1" "2 \<le> exp_bits sp"
    and u: "unat r = of_bool s * 2 ^ (exp_bits sp + fb) + nat E * 2 ^ fb + R" and E: "E < 2 ^ exp_bits sp - 2"
    and R: "if 0 \<le> E then 2 ^ fb \<le> R \<and> R < 2 ^ (fb + 1) else R \<le> 2 ^ fb"
  shows "pattern_of sp r" "fsign sp r = s" "finite_pattern sp r"
    "fval sp r = (if s then - 1 else 1) * (real R * 2 powi (int (nat E) + (exp_bias sp + 1 - int fb)))"
proof -
  have Rb: "R \<le> 2 ^ (fb + 1)" "2 ^ fb \<le> R \<or> nat E = 0" using R by (auto split: if_splits)
  have tot: "nat E * 2 ^ fb + R < infinity_bits sp"
  proof (cases "0 \<le> E")
    case True
    have "int (nat E + 3) \<le> int (2 ^ exp_bits sp)" using E True by simp
    then have "nat E + 2 \<le> 2 ^ exp_bits sp - 1" unfolding of_nat_le_iff by simp
    then have "(nat E + 2) * 2 ^ fb \<le> infinity_bits sp" unfolding infinity_bits_def fb_def by (rule mult_le_mono1)
    then show ?thesis using R True by (simp add: add_mult_distrib)
  next
    case False
    have "2 * 2 ^ fb \<le> infinity_bits sp"
      unfolding infinity_bits_def fb_def using power_increasing [OF f(3), of "2 :: nat"] by (intro mult_le_mono1) simp
    moreover have "(0 :: nat) < 2 ^ fb" "R \<le> 2 ^ fb" using R False by simp_all
    ultimately have "R < infinity_bits sp" by linarith
    then show ?thesis using False by simp
  qed
  note V = pack_value [OF f(1,2) u [unfolded fb_def] less_trans [OF tot [unfolded fb_def] infinity_bits_less] Rb [unfolded fb_def]]
  show "pattern_of sp r" "fsign sp r = s" by (rule V)+
  show "finite_pattern sp r" using tot by (simp only: finite_pattern_def V(3) fb_def)
  show "fval sp r = (if s then - 1 else 1) * (real R * 2 powi (int (nat E) + (exp_bias sp + 1 - int fb)))"
    unfolding fval_def V(4) powi_shift [OF refl] fb_def by simp
qed

text \<open>Below the normal range: the shifted significand is a nearest multiple of the unit of the format.\<close>

lemma subnormal_significand:
  fixes A B fb t z N :: nat and E :: int
  defines "X \<equiv> real (A * 2 ^ (fb + t)) / real B" and "R \<equiv> (z + 2 ^ N) div 2 ^ (N + 1)"
  assumes fb: "fb \<le> 52" and E: "E < 0" and N: "N = 52 - fb + nat (- E)" and B: "0 < B"
    and z: "z * B < A * 2 ^ (53 + t)" "A * 2 ^ (53 + t) \<le> (z + 1) * B" "z < 2 ^ 54"
  shows "R \<le> 2 ^ fb" "\<bar>real R - X * 2 powi E\<bar> \<le> 1 / 2"
proof -
  define Q where "Q = real (A * 2 ^ (53 + t)) / real B"
  have "54 \<le> fb + N + 1" using E fb by (simp add: N)
  then have "(2 :: nat) ^ 54 \<le> 2 ^ (fb + N + 1)" by (intro power_increasing) auto
  also have "(2 :: nat) ^ (fb + N + 1) = 2 ^ fb * 2 ^ (N + 1)" by (simp only: power_add mult.assoc)
  finally have "z < 2 ^ fb * 2 ^ (N + 1)" by (rule less_le_trans [OF z(3)])
  moreover have "(2 :: nat) ^ N < 2 ^ (N + 1)" by simp
  ultimately have "z + 2 ^ N < 2 ^ fb * 2 ^ (N + 1) + 2 ^ (N + 1)" by (rule add_strict_mono)
  then have "z + 2 ^ N < (2 ^ fb + 1) * 2 ^ (N + 1)" by (simp only: add_mult_distrib mult_1)
  then have "R < 2 ^ fb + 1" unfolding R_def by (rule less_mult_imp_div_less)
  then show "R \<le> 2 ^ fb" by simp
  have "real (z * B) < real (A * 2 ^ (53 + t))" "real (A * 2 ^ (53 + t)) \<le> real ((z + 1) * B)"
    using z(1,2) by (simp_all only: of_nat_less_iff of_nat_le_iff)
  then have Q: "real z < Q" "Q \<le> real z + 1" using B by (simp_all add: Q_def field_simps)
  have "53 + t = fb + t + (53 - fb)" "N + 1 = (53 - fb) + nat (- E)" using fb by (simp_all add: N)
  then have p: "(2 :: real) ^ (53 + t) = 2 ^ (fb + t) * 2 ^ (53 - fb)" "(2 :: real) ^ (N + 1) = 2 ^ (53 - fb) * 2 ^ nat (- E)"
    by (simp_all only: power_add)
  have "E = - int (nat (- E))" using E by simp
  then have "(2 :: real) powi E = inverse (2 ^ nat (- E))" by (metis power_int_minus power_int_of_nat)
  then have QX: "Q / 2 ^ (N + 1) = X * 2 powi E"
    unfolding Q_def X_def of_nat_mult of_nat_power of_nat_numeral p using B by (simp add: field_simps)
  show "\<bar>real R - X * 2 powi E\<bar> \<le> 1 / 2" using predecessor_nearest [OF Q, of N] unfolding QX R_def .
qed

text \<open>The result as exponent \<open>E\<close> and significand \<open>R\<close>, and the exact quotient as \<open>X\<close> in the units of a result of the normal range.\<close>

lemma float_divG_value:
  fixes a b :: u64 and sp :: tfspec and env :: fenv
  defines "q \<equiv> fval sp a / fval sp b" and "r \<equiv> fst (float_divG env a b sp)" and "s \<equiv> fsign sp a \<noteq> fsign sp b"
  assumes f: "divG_format sp" and env: "float_rounding_mode env = float_round_nearest_even"
    and a: "finite_pattern sp a" "fabs_bits sp a \<noteq> 0" and b: "finite_pattern sp b" "fabs_bits sp b \<noteq> 0"
  shows "\<exists>E R X. (2 ^ exp_bits sp - 2 \<le> E \<longrightarrow> r = push_bit (exp_bits sp + frac_bits sp) (of_bool s) OR push_bit (frac_bits sp) (ones (exp_bits sp)))
    \<and> (E < 2 ^ exp_bits sp - 2 \<longrightarrow> unat r = of_bool s * 2 ^ (exp_bits sp + frac_bits sp) + nat E * 2 ^ frac_bits sp + R)
    \<and> (if 0 \<le> E then 2 ^ frac_bits sp \<le> R \<and> R < 2 ^ (frac_bits sp + 1) else R \<le> 2 ^ frac_bits sp)
    \<and> \<bar>real R - (if 0 \<le> E then X else X * 2 powi E)\<bar> \<le> 1 / 2
    \<and> 2 ^ frac_bits sp \<le> X \<and> X < 2 ^ (frac_bits sp + 1)
    \<and> \<bar>q\<bar> = X * 2 powi (E + 1 + exp_bias sp - int (frac_bits sp)) \<and> (q < 0 \<longleftrightarrow> s)"
proof -
  let ?eb = "exp_bits sp" and ?fb = "frac_bits sp" and ?bias = "exp_bias sp"
  have f': "div_format sp" using f by (simp add: divG_format_def)
  have F: "sign_spec sp = - 1" "2 \<le> ?eb" "?eb \<le> 30" "1 \<le> ?fb" "?fb \<le> 52" "?eb + ?fb < 64"
    using f by (simp_all add: divG_format_def div_format_def)
  obtain ea ga A where n1: "div_normalise (extractFloatExp a ?eb ?fb) (extractFloatFrac a ?fb) sp = (ea, ga)" "ga OR push_bit ?fb 1 = of_nat A"
      "2 ^ ?fb \<le> A" "A < 2 ^ (?fb + 1)" "real (pattern_mag ?fb (fabs_bits sp a)) = real A * 2 powi (ea - 1)" "- int ?fb < ea" "ea \<le> 2 ^ ?eb - 2"
    using normalised_operand [OF f' a] by blast
  obtain e2 gb B where n2: "div_normalise (extractFloatExp b ?eb ?fb) (extractFloatFrac b ?fb) sp = (e2, gb)" "gb OR push_bit ?fb 1 = of_nat B"
      "2 ^ ?fb \<le> B" "B < 2 ^ (?fb + 1)" "real (pattern_mag ?fb (fabs_bits sp b)) = real B * 2 powi (e2 - 1)" "- int ?fb < e2" "e2 \<le> 2 ^ ?eb - 2"
    using normalised_operand [OF f' b] by blast
  define t :: nat where "t = of_bool (A < B)"
  define E where "E = ea - e2 - ?bias - 1 - int t"
  obtain w z where w: "float_divG env a b sp = roundAndPackFloat64 env s E w ?eb ?fb FLOAT_EXC_STD True"
    "unat w = z * 2 ^ 9 + 2 ^ 8" "z * B < A * 2 ^ (53 + t)" "A * 2 ^ (53 + t) \<le> (z + 1) * B" "z < 2 ^ 54" "- (2 ^ 15) < E" "E < 2 ^ 15"
    using float_divG_number [OF f a b n1(1-4,6,7) n2(1-4,6,7), of env] unfolding s_def E_def t_def of_nat_of_bool by blast
  define R where "R = nearest_quotient (A * 2 ^ (?fb + t)) B"
  have P: "r = fst (roundAndPackFloat64 env s E w ?eb ?fb FLOAT_EXC_STD True)" by (simp only: r_def w(1))
  note P = round_predecessor [OF F(2-6) env n1(3,4) n2(3,4), folded t_def, folded R_def, OF w(2-5), of E s, folded P]
  have B0: "0 < B" and A0: "0 < A" using n1(3) n2(3) by (meson less_le_trans zero_less_numeral zero_less_power)+
  have Rb: "2 ^ ?fb \<le> R" "R < 2 ^ (?fb + 1)" using quotient_range(3,4) [OF n1(3,4) n2(3,4)] by (simp_all only: R_def t_def)
  define X where "X = real (A * 2 ^ (?fb + t)) / real B"
  have X: "2 ^ ?fb \<le> X" "X < 2 ^ (?fb + 1)" "\<bar>real R - X\<bar> \<le> 1 / 2"
    unfolding X_def R_def t_def using nearest_quotient_real [OF n1(3,4) n2(3,4)] by simp_all
  have q: "\<bar>q\<bar> = X * 2 powi (E + 1 + ?bias - int ?fb)" "q < 0 \<longleftrightarrow> s"
  proof -
    have "E + 1 + ?bias - int ?fb = ea - e2 - int (?fb + t)" by (simp add: E_def)
    then show "\<bar>q\<bar> = X * 2 powi (E + 1 + ?bias - int ?fb)" "q < 0 \<longleftrightarrow> s"
      using exact_quotient(1) [OF n1(5) A0 n2(5) B0, of "?fb + t"] exact_quotient(2) [OF n1(5) A0 n2(5) B0]
      by (simp_all only: q_def X_def s_def)
  qed
  define N where "N = 52 - ?fb + nat (- E)"
  define R' where "R' = (if 0 \<le> E then R else (z + 2 ^ N) div 2 ^ (N + 1))"
  note S = subnormal_significand [OF F(5) _ N_def B0 w(3-5), folded X_def]
  have "unat r = of_bool s * 2 ^ (?eb + ?fb) + nat E * 2 ^ ?fb + R'" if "E < 2 ^ ?eb - 2"
    using P(1) [OF _ that] P(3) [OF w(6)] unfolding R'_def N_def by (cases "0 \<le> E") simp_all
  moreover have "r = push_bit (?eb + ?fb) (of_bool s) OR push_bit ?fb (ones ?eb)" if "2 ^ ?eb - 2 \<le> E" using P(2) that w(7) by simp
  moreover have "if 0 \<le> E then 2 ^ ?fb \<le> R' \<and> R' < 2 ^ (?fb + 1) else R' \<le> 2 ^ ?fb"
    "\<bar>real R' - (if 0 \<le> E then X else X * 2 powi E)\<bar> \<le> 1 / 2" using Rb X(3) S by (simp_all add: R'_def)
  ultimately show ?thesis using X(1,2) q by blast
qed

text \<open>
  C14. The Goldschmidt division is correctly rounded. In every format of \<open>divG_format\<close>, rounding to nearest, for nonzero finite
  operands, subnormal or not, the result has the sign of the quotient; when the exact quotient \<open>q\<close> is below \<open>2\<close> to the exponent after the
  largest, in the subnormal range too, the result is a finite number to which no number of the format is nearer \<open>q\<close>;
  otherwise it is infinity. (In the normal range no quotient is a tie; a tie of the subnormal range goes to the number of
  smaller magnitude: see \<open>goldschmidt_gaps\<close>.)
\<close>

theorem goldschmidt_division_correct:
  fixes a b c :: u64 and sp :: tfspec and env :: fenv
  defines "q \<equiv> fval sp a / fval sp b" and "r \<equiv> fst (float_divG env a b sp)"
  assumes f: "divG_format sp" and env: "float_rounding_mode env = float_round_nearest_even"
    and a: "finite_pattern sp a" "fabs_bits sp a \<noteq> 0" and b: "finite_pattern sp b" "fabs_bits sp b \<noteq> 0"
  shows "pattern_of sp r \<and> fsign sp r = (fsign sp a \<noteq> fsign sp b)
    \<and> (\<bar>q\<bar> < 2 powi (exp_bias sp + 2 ^ exp_bits sp - 1)
        \<longrightarrow> finite_pattern sp r \<and> (finite_pattern sp c \<longrightarrow> \<bar>fval sp r - q\<bar> \<le> \<bar>fval sp c - q\<bar>))
    \<and> (2 powi (exp_bias sp + 2 ^ exp_bits sp - 1) \<le> \<bar>q\<bar> \<longrightarrow> inf_pattern sp r)"
proof -
  let ?eb = "exp_bits sp" and ?fb = "frac_bits sp" and ?bias = "exp_bias sp"
  have F: "format_ok sp" "sign_spec sp = - 1" "2 \<le> ?eb" using f by (auto simp: divG_format_def div_format_def format_ok_def)
  define s where "s \<longleftrightarrow> fsign sp a \<noteq> fsign sp b"
  obtain E R X where P: "2 ^ ?eb - 2 \<le> E \<longrightarrow> r = push_bit (?eb + ?fb) (of_bool s) OR push_bit ?fb (ones ?eb)"
      "E < 2 ^ ?eb - 2 \<longrightarrow> unat r = of_bool s * 2 ^ (?eb + ?fb) + nat E * 2 ^ ?fb + R"
    and R: "if 0 \<le> E then 2 ^ ?fb \<le> R \<and> R < 2 ^ (?fb + 1) else R \<le> 2 ^ ?fb" "\<bar>real R - (if 0 \<le> E then X else X * 2 powi E)\<bar> \<le> 1 / 2"
    and X: "2 ^ ?fb \<le> X" "X < 2 ^ (?fb + 1)"
    and q: "\<bar>q\<bar> = X * 2 powi (E + 1 + ?bias - int ?fb)" "q < 0 \<longleftrightarrow> s"
    using float_divG_value [OF f env a b] unfolding q_def r_def s_def by blast
  note T = binade_bounds [OF X q(1), of "2 ^ ?eb - 1"]
  have top: "pattern_of sp r \<and> fsign sp r = s \<and> inf_pattern sp r" if "2 ^ ?eb - 2 \<le> E"
    using infinity_result [OF F(1,2) mp [OF P(1) that]] .
  have low: "pattern_of sp r \<and> fsign sp r = s \<and> finite_pattern sp r \<and> (finite_pattern sp c \<longrightarrow> \<bar>fval sp r - q\<bar> \<le> \<bar>fval sp c - q\<bar>)"
    if "E < 2 ^ ?eb - 2"
  proof -
    note V = finite_result [OF F mp [OF P(2) that] that R(1)]
    have "\<bar>fval sp r - q\<bar> \<le> \<bar>fval sp c - q\<bar>"
    proof (cases "0 \<le> E")
      case True
      have e: "E + 1 + ?bias - int ?fb = int (nat E) + (?bias + 1 - int ?fb)" using True by simp
      show ?thesis
      proof (rule nearest_of_format [OF _ X(1) _ q(1)])
        show "2 powi (E + 1 + ?bias - int ?fb) = (2 :: real) ^ nat E * 2 powi (?bias + 1 - int ?fb)" using e by (rule powi_shift)
        show "\<bar>real R - X\<bar> \<le> 1 / 2" using R(2) True by simp
        show "fval sp r = (if q < 0 then - 1 else 1) * (real R * 2 powi (E + 1 + ?bias - int ?fb))"
          unfolding e q(2) by (rule V(4))
      qed
    next
      case False
      show ?thesis
      proof (rule nearest_of_units [OF refl])
        show "\<bar>real R - X * 2 powi E\<bar> \<le> 1 / 2" using R(2) False by simp
        have "E + 1 + ?bias - int ?fb = E + (?bias + 1 - int ?fb)" by simp
        then have "(2 :: real) powi (E + 1 + ?bias - int ?fb) = 2 powi E * 2 powi (?bias + 1 - int ?fb)"
          by (simp only: power_int_add zero_neq_numeral [symmetric] simp_thms)
        then show "\<bar>q\<bar> = X * 2 powi E * 2 powi (?bias + 1 - int ?fb)" unfolding q(1) by (simp only: mult.assoc)
        show "fval sp r = (if q < 0 then - 1 else 1) * (real R * 2 powi (?bias + 1 - int ?fb))"
          using V(4) False by (simp add: q(2))
      qed
    qed
    then show ?thesis using V(1-3) by blast
  qed
  have "E < 2 ^ ?eb - 2 \<or> 2 ^ ?eb - 2 \<le> E" by linarith
  then show ?thesis unfolding s_def [symmetric] using top low T by (auto simp: algebra_simps)
qed

theorem goldschmidt_division_correct_witness:
  "inf_pattern IEEE16_SPEC_ARGS (fst (float_divG fenv_init 0x7800 0x0400 IEEE16_SPEC_ARGS))
   \<and> fval IEEE16_SPEC_ARGS (fst (float_divG fenv_init 0x0400 0x4000 IEEE16_SPEC_ARGS)) = fval IEEE16_SPEC_ARGS 0x0200
   \<and> \<bar>fval IEEE16_SPEC_ARGS (fst (float_divG fenv_init 0x0400 0x0019 IEEE16_SPEC_ARGS)) - 1024 / 25\<bar> \<le> \<bar>fval IEEE16_SPEC_ARGS 0x511F - 1024 / 25\<bar>"
proof -
  note k = half_format(1-4)
  have v: "fint IEEE16_SPEC_ARGS 0x7800 = 2 ^ 39" "fint IEEE16_SPEC_ARGS 0x0400 = 2 ^ 10" "fint IEEE16_SPEC_ARGS 0x4000 = 2 ^ 25"
    "fint IEEE16_SPEC_ARGS 0x0200 = 2 ^ 9" "fint IEEE16_SPEC_ARGS 0x0019 = 25"
    by (simp_all add: fint_def fsign_def fabs_bits_def k pattern_mag_def fmag_def extractFloatSign_def)
  have q: "fval IEEE16_SPEC_ARGS 0x7800 / fval IEEE16_SPEC_ARGS 0x0400 = 2 ^ 29"
    "fval IEEE16_SPEC_ARGS 0x0400 / fval IEEE16_SPEC_ARGS 0x4000 = fval IEEE16_SPEC_ARGS 0x0200"
    "fval IEEE16_SPEC_ARGS 0x0400 / fval IEEE16_SPEC_ARGS 0x0019 = 1024 / 25"
    "\<bar>fval IEEE16_SPEC_ARGS 0x0200\<bar> < 2 powi 16"
    unfolding fval_def v k by (simp_all add: power_int_minus_divide)
  have p: "finite_pattern IEEE16_SPEC_ARGS x" "fabs_bits IEEE16_SPEC_ARGS x \<noteq> 0"
    if "x \<in> {0x7800, 0x0400, 0x4000, 0x0200, 0x0019, 0x511F}" for x
    using that by (auto simp: finite_pattern_def fabs_bits_def infinity_bits_def k)
  have e: "float_rounding_mode fenv_init = float_round_nearest_even" by (simp add: fenv_init_def)
  note G = goldschmidt_division_correct [OF ieee_divG_formats(1) e]
  have "(2 :: real) powi 16 \<le> 2 ^ 29" by simp
  then have "inf_pattern IEEE16_SPEC_ARGS (fst (float_divG fenv_init 0x7800 0x0400 IEEE16_SPEC_ARGS))"
    using G [of "0x7800" "0x0400"] p unfolding q k by simp
  moreover have "fval IEEE16_SPEC_ARGS (fst (float_divG fenv_init 0x0400 0x4000 IEEE16_SPEC_ARGS)) = fval IEEE16_SPEC_ARGS 0x0200"
    using G [of "0x0400" "0x4000" "0x0200"] p q(4) unfolding q k by simp
  moreover have "\<bar>fval IEEE16_SPEC_ARGS (fst (float_divG fenv_init 0x0400 0x0019 IEEE16_SPEC_ARGS)) - 1024 / 25\<bar> \<le> \<bar>fval IEEE16_SPEC_ARGS 0x511F - 1024 / 25\<bar>"
    using G [of "0x0400" "0x0019" "0x511F"] p unfolding q k by simp
  ultimately show ?thesis by blast
qed

section \<open>The two dividers\<close>

text \<open>Unless both operands are nonzero numbers, the result depends on the classes alone, and is computed alike.\<close>

lemma divG_class_agrees:
  fixes a b :: u64 and sp :: tfspec and env :: fenv
  defines "eb \<equiv> exp_bits sp" and "fb \<equiv> frac_bits sp"
  assumes f: "divG_format sp"
    and c: "div_class (extractFloatExp a eb fb) (extractFloatFrac a fb) sp = (ca, na, za, ia, ya)"
      "div_class (extractFloatExp b eb fb) (extractFloatFrac b fb) sp = (cb, nb, zb, ib, yb)"
      "div_class_result ca cb FLOAT_EXC_STD = zc" "zc \<in> {FP_CLS_ZERO, FP_CLS_INF, FP_CLS_NAN}" "ya \<Longrightarrow> \<not> na" "yb \<Longrightarrow> \<not> nb"
  shows "float_divG env a b sp = (float_divSRT4 a b sp, env)"
proof -
  have F: "exc_mode sp = FLOAT_EXC_STD" "sign_spec sp = - 1" "has_subnorm sp" "has_one sp" "exp_bits sp \<le> 13" "fb \<le> 52"
    using f by (simp_all add: divG_format_def div_format_def fb_def)
  have s1: "(- 1 :: int) \<noteq> 1" by simp
  have e16: "int16 (uint (extractFloatExp x eb fb)) = uint (extractFloatExp x eb fb)" for x
    unfolding eb_def using F(5) by (rule int16_exponent)
  obtain ea ga where n1: "div_normalise (extractFloatExp a eb fb) (extractFloatFrac a fb) sp = (ea, ga)" by fastforce
  obtain e2 gb where n2: "div_normalise (extractFloatExp b eb fb) (extractFloatFrac b fb) sp = (e2, gb)" by fastforce
  have g: "\<exists>e. divG_normalise (uint E) G sp = (e, g)" if "div_normalise E G sp = (e', g)" for E G g e'
    using that by (auto simp: div_normalise_def divG_normalise_def uint_0_iff split: if_splits prod.splits)
  obtain ea' where m1: "divG_normalise (uint (extractFloatExp a eb fb)) (extractFloatFrac a fb) sp = (ea', ga)" using g [OF n1] by blast
  obtain e2' where m2: "divG_normalise (uint (extractFloatExp b eb fb)) (extractFloatFrac b fb) sp = (e2', gb)" using g [OF n2] by blast
  note d = divG_class_eq [OF F(1) c(1)] divG_class_eq [OF F(1) c(2)]
  have ne: "FP_CLS_ZERO \<noteq> FP_CLS_NORMAL" "FP_CLS_INF \<noteq> FP_CLS_NORMAL" "FP_CLS_NAN \<noteq> FP_CLS_NORMAL" "FP_CLS_INF \<noteq> FP_CLS_ZERO"
    "FP_CLS_NAN \<noteq> FP_CLS_ZERO" "FP_CLS_INF \<noteq> FP_CLS_NAN" "FP_CLS_ZERO \<noteq> FP_CLS_INF" "FP_CLS_ZERO \<noteq> FP_CLS_NAN"
    "FLOAT_EXC_STD \<noteq> FLOAT_EXC_NONAN" "FLOAT_EXC_STD \<noteq> FLOAT_EXC_OVF"
    by (simp_all add: cls_defs exc_defs)
  have y: "ga OR push_bit fb (of_bool na) = ga" if ya using c(5) that by simp
  have y': "gb OR push_bit fb (of_bool nb) = gb" if yb using c(6) that by simp
  from c(4) consider "zc = FP_CLS_ZERO" | "zc = FP_CLS_INF" | "zc = FP_CLS_NAN" by blast
  then show ?thesis
    by cases (simp_all only: float_divSRT4_def kernel_float_divSRT4_def float_divG_def Let_def eb_def [symmetric] fb_def [symmetric] c(1-3) n1 n2 m1 m2 d
      e16 F(1-4) s1 if_False if_True prod.case case_prod_beta fst_conv snd_conv ne simp_thms or.right_neutral of_bool_eq y y' cong: if_cong)
qed

lemma class_of_numbers:
  "div_class_result FP_CLS_NORMAL FP_CLS_NORMAL FLOAT_EXC_STD = FP_CLS_NORMAL"
  "x \<in> {FP_CLS_NAN, FP_CLS_INF, FP_CLS_ZERO, FP_CLS_NORMAL} \<Longrightarrow> y \<in> {FP_CLS_NAN, FP_CLS_INF, FP_CLS_ZERO, FP_CLS_NORMAL}
    \<Longrightarrow> \<not> (x = FP_CLS_NORMAL \<and> y = FP_CLS_NORMAL) \<Longrightarrow> div_class_result x y FLOAT_EXC_STD \<in> {FP_CLS_ZERO, FP_CLS_INF, FP_CLS_NAN}"
  by (auto simp: div_class_results) (simp add: div_class_result_def cls_defs exc_defs)

lemma div_class_nan_not_normal: "div_class E F sp = (c, n, z, i, y) \<Longrightarrow> exc_mode sp = FLOAT_EXC_STD \<Longrightarrow> y \<Longrightarrow> \<not> n"
  by (auto simp: div_class_def Let_def exc_defs)

text \<open>Of two numbers whose quotient is not below the normal range both round the same quotient of significands.\<close>

lemma divG_number_agrees:
  fixes a b :: u64 and sp :: tfspec and env :: fenv
  assumes f: "divG_format sp" and env: "float_rounding_mode env = float_round_nearest_even"
    and a: "finite_pattern sp a" "fabs_bits sp a \<noteq> 0" and b: "normal_pattern sp b"
    and q: "2 powi (exp_bias sp + 1) \<le> \<bar>fval sp a / fval sp b\<bar>"
  shows "fst (float_divG env a b sp) = float_divSRT4 a b sp"
proof -
  let ?eb = "exp_bits sp" and ?fb = "frac_bits sp"
  have f': "div_format sp" using f by (simp add: divG_format_def)
  have F: "2 \<le> ?eb" "?eb \<le> 30" "1 \<le> ?fb" "?fb \<le> 52" "?eb + ?fb < 64" using f by (simp_all add: divG_format_def div_format_def)
  obtain ea ga A where n1: "div_normalise (extractFloatExp a ?eb ?fb) (extractFloatFrac a ?fb) sp = (ea, ga)" "ga OR push_bit ?fb 1 = of_nat A"
      "2 ^ ?fb \<le> A" "A < 2 ^ (?fb + 1)" "real (pattern_mag ?fb (fabs_bits sp a)) = real A * 2 powi (ea - 1)" "- int ?fb < ea" "ea \<le> 2 ^ ?eb - 2"
    using normalised_operand [OF f' a] by blast
  have "(0 :: nat) < 2 ^ ?fb" by simp
  then have b': "finite_pattern sp b" "fabs_bits sp b \<noteq> 0" using b unfolding normal_pattern_def finite_pattern_def by linarith+
  define B where "B = sig_field sp b"
  obtain e2 gb where n2: "div_normalise (extractFloatExp b ?eb ?fb) (extractFloatFrac b ?fb) sp = (e2, gb)" "gb OR push_bit ?fb 1 = of_nat B"
      "2 ^ ?fb \<le> B" "B < 2 ^ (?fb + 1)" "real (pattern_mag ?fb (fabs_bits sp b)) = real B * 2 powi (e2 - 1)" "- int ?fb < e2" "e2 \<le> 2 ^ ?eb - 2"
      "e2 = int (exp_field sp b)"
    using normalised_operand [OF f' b'] b unfolding B_def by blast
  define s where "s \<longleftrightarrow> fsign sp a \<noteq> fsign sp b"
  define E where "E = ea - e2 - exp_bias sp - 1 - of_bool (A < B)"
  define R where "R = nearest_quotient (A * 2 ^ (?fb + of_bool (A < B))) B"
  obtain w z where w: "float_divG env a b sp = roundAndPackFloat64 env s E w ?eb ?fb FLOAT_EXC_STD True"
    "unat w = z * 2 ^ 9 + 2 ^ 8" "z * B < A * 2 ^ (53 + of_bool (A < B))" "A * 2 ^ (53 + of_bool (A < B)) \<le> (z + 1) * B" "z < 2 ^ 54"
    "- (2 ^ 15) < E" "E < 2 ^ 15"
    using float_divG_number [OF f a b' n1(1-4,6,7) n2(1-4,6,7), of env] unfolding s_def E_def by blast
  note P = round_predecessor(1,2) [OF F env n1(3,4) n2(3,4) w(2-5), folded R_def, of E s, folded w(1)]
  have R: "2 ^ ?fb \<le> R" using quotient_range(3) [OF n1(3,4) n2(3,4)] by (simp only: R_def)
  have e1: "E + 1 = ea - int (exp_field sp b) - exp_bias sp - of_bool (A < B)" unfolding E_def n2(8) by simp
  note S = float_div_number [OF f' a b n1(1-4,6,7), folded B_def, folded R_def, folded e1, folded s_def]
  have E0: "0 \<le> E"
  proof -
    have AB: "0 < A" "0 < B" using n1(3) n2(3) by (meson less_le_trans zero_less_numeral zero_less_power)+
    have x: "ea - e2 - int (?fb + of_bool (A < B)) = E + 1 + exp_bias sp - int ?fb" by (simp add: E_def)
    note X = nearest_quotient_real(1,2) [OF n1(3,4) n2(3,4)]
    have "\<bar>fval sp a / fval sp b\<bar> = real (A * 2 ^ (?fb + of_bool (A < B))) / real B * 2 powi (E + 1 + exp_bias sp - int ?fb)"
      unfolding x [symmetric] by (rule exact_quotient(1) [OF n1(5) AB(1) n2(5) AB(2)])
    from binade_bounds(2) [OF X this, of 1] q show ?thesis by (simp add: add.commute)
  qed
  show ?thesis
  proof (cases "E < 2 ^ ?eb - 2")
    case True
    have n: "nat (E + 1) = nat E + 1" using E0 by simp
    have "unat (float_divSRT4 a b sp) = of_bool s * 2 ^ (?eb + ?fb) + ((nat E + 1) * 2 ^ ?fb + (R - 2 ^ ?fb))"
      using S True E0 n by (simp add: pattern_bits_def)
    also have "(nat E + 1) * 2 ^ ?fb + (R - 2 ^ ?fb) = nat E * 2 ^ ?fb + R" using R by (simp add: add_mult_distrib)
    finally show ?thesis using P(1) [OF E0 True] by (simp add: word_unat_eq_iff)
  next
    case False
    then have "unat (float_divSRT4 a b sp) = pattern_bits sp s (2 ^ ?eb - 1) 0" using S E0 by simp
    then show ?thesis using P(2) False w(7) infinity_word [OF F(5), of s] by (simp add: word_unat_eq_iff)
  qed
qed

text \<open>
  C23. The Goldschmidt division and the digit recurrence return the same pattern: in every format of \<open>divG_format\<close>, rounding to nearest, when
  one of the operands is a zero, an infinity or a NaN, and when a nonzero finite number is divided by a normal one and the quotient
  is not below the normal range.
\<close>

theorem goldschmidt_agrees_with_recurrence:
  fixes a b :: u64 and sp :: tfspec and env :: fenv
  assumes f: "divG_format sp" and env: "float_rounding_mode env = float_round_nearest_even"
    and c: "\<not> (finite_pattern sp a \<and> fabs_bits sp a \<noteq> 0 \<and> finite_pattern sp b \<and> fabs_bits sp b \<noteq> 0)
      \<or> finite_pattern sp a \<and> fabs_bits sp a \<noteq> 0 \<and> normal_pattern sp b \<and> 2 powi (exp_bias sp + 1) \<le> \<bar>fval sp a / fval sp b\<bar>"
  shows "fst (float_divG env a b sp) = float_divSRT4 a b sp"
  using c
proof
  assume nn: "\<not> (finite_pattern sp a \<and> fabs_bits sp a \<noteq> 0 \<and> finite_pattern sp b \<and> fabs_bits sp b \<noteq> 0)"
  have F: "exc_mode sp = FLOAT_EXC_STD" "1 \<le> exp_bits sp" "exp_bits sp + frac_bits sp < 64" "has_subnorm sp"
    using f by (simp_all add: divG_format_def div_format_def)
  obtain na where ca: "div_class (extractFloatExp a (exp_bits sp) (frac_bits sp)) (extractFloatFrac a (frac_bits sp)) sp =
      (if nan_pattern sp a then FP_CLS_NAN else if inf_pattern sp a then FP_CLS_INF else if zero_pattern sp a then FP_CLS_ZERO else FP_CLS_NORMAL,
       na, zero_pattern sp a, inf_pattern sp a, nan_pattern sp a)"
    using div_class_eq [OF F(1-3), of a] by blast
  obtain nb where cb: "div_class (extractFloatExp b (exp_bits sp) (frac_bits sp)) (extractFloatFrac b (frac_bits sp)) sp =
      (if nan_pattern sp b then FP_CLS_NAN else if inf_pattern sp b then FP_CLS_INF else if zero_pattern sp b then FP_CLS_ZERO else FP_CLS_NORMAL,
       nb, zero_pattern sp b, inf_pattern sp b, nan_pattern sp b)"
    using div_class_eq [OF F(1-3), of b] by blast
  have "\<not> nan_pattern sp x \<and> \<not> inf_pattern sp x \<and> \<not> zero_pattern sp x \<longleftrightarrow> finite_pattern sp x \<and> fabs_bits sp x \<noteq> 0" for x
    using F(4) by (auto simp: nan_pattern_def inf_pattern_def zero_pattern_def finite_pattern_def)
  then have "nan_pattern sp a \<or> inf_pattern sp a \<or> zero_pattern sp a \<or> nan_pattern sp b \<or> inf_pattern sp b \<or> zero_pattern sp b"
    using nn by blast
  then have "div_class_result
      (if nan_pattern sp a then FP_CLS_NAN else if inf_pattern sp a then FP_CLS_INF else if zero_pattern sp a then FP_CLS_ZERO else FP_CLS_NORMAL)
      (if nan_pattern sp b then FP_CLS_NAN else if inf_pattern sp b then FP_CLS_INF else if zero_pattern sp b then FP_CLS_ZERO else FP_CLS_NORMAL)
      FLOAT_EXC_STD \<in> {FP_CLS_ZERO, FP_CLS_INF, FP_CLS_NAN}"
    by (intro class_of_numbers(2)) (auto simp: cls_defs)
  from divG_class_agrees [OF f ca cb refl this] div_class_nan_not_normal [OF ca F(1)] div_class_nan_not_normal [OF cb F(1)]
  show ?thesis by simp
next
  assume "finite_pattern sp a \<and> fabs_bits sp a \<noteq> 0 \<and> normal_pattern sp b \<and> 2 powi (exp_bias sp + 1) \<le> \<bar>fval sp a / fval sp b\<bar>"
  then have a: "finite_pattern sp a" "fabs_bits sp a \<noteq> 0" and b: "normal_pattern sp b" and q: "2 powi (exp_bias sp + 1) \<le> \<bar>fval sp a / fval sp b\<bar>"
    by blast+
  then show ?thesis by (rule divG_number_agrees [OF f env])
qed

theorem goldschmidt_agrees_with_recurrence_witness:
  "fst (float_divG fenv_init 0x3C00 0x4200 IEEE16_SPEC_ARGS) = float_divSRT4 0x3C00 0x4200 IEEE16_SPEC_ARGS
   \<and> fst (float_divG fenv_init 0x7C00 0 IEEE16_SPEC_ARGS) = float_divSRT4 0x7C00 0 IEEE16_SPEC_ARGS"
proof -
  note k = half_format(1-4)
  have v: "fint IEEE16_SPEC_ARGS 0x3C00 = 2 ^ 24" "fint IEEE16_SPEC_ARGS 0x4200 = 3 * 2 ^ 24"
    by (simp_all add: fint_def fsign_def fabs_bits_def k pattern_mag_def fmag_def extractFloatSign_def)
  have "2 powi (exp_bias IEEE16_SPEC_ARGS + 1) \<le> \<bar>fval IEEE16_SPEC_ARGS 0x3C00 / fval IEEE16_SPEC_ARGS 0x4200\<bar>"
    unfolding fval_def v k by (simp add: power_int_minus_divide)
  moreover have "finite_pattern IEEE16_SPEC_ARGS 0x3C00" "fabs_bits IEEE16_SPEC_ARGS 0x3C00 \<noteq> 0" "normal_pattern IEEE16_SPEC_ARGS 0x4200"
    and z: "\<not> finite_pattern IEEE16_SPEC_ARGS 0x7C00"
    by (simp_all add: finite_pattern_def normal_pattern_def fabs_bits_def infinity_bits_def k)
  moreover have e: "float_rounding_mode fenv_init = float_round_nearest_even" by (simp add: fenv_init_def)
  note G = goldschmidt_agrees_with_recurrence [OF ieee_divG_formats(1) e]
  ultimately show ?thesis using G [of "0x3C00" "0x4200"] G [of "0x7C00" 0] by blast
qed

text \<open>
  Where the division departs from the exact result: an exact quotient is passed to the rounding as its predecessor with a bit set after
  the last place. It comes out right when rounding to nearest, but in half precision the inexact flag is raised for \<open>1 / 1\<close>, rounding to zero
  makes it the predecessor of 1, and the quotient \<open>3 / 2 \<cdot> 2\<^sup>-\<^sup>2\<^sup>4\<close>, halfway between the two smallest numbers, goes to the odd one.
\<close>

theorem goldschmidt_gaps:
  "float_divG fenv_init 0x3C00 0x3C00 IEEE16_SPEC_ARGS = (0x3C00, float_raise float_flag_inexact fenv_init)
   \<and> fst (float_divG (fenv_init\<lparr>float_rounding_mode := float_round_to_zero\<rparr>) 0x3C00 0x3C00 IEEE16_SPEC_ARGS)
     = 0x3BFF
   \<and> fst (float_divG fenv_init 0x1600 0x7400 IEEE16_SPEC_ARGS) = 1
   \<and> fval IEEE16_SPEC_ARGS 0x1600 / fval IEEE16_SPEC_ARGS 0x7400 = 3 / 2 * fval IEEE16_SPEC_ARGS 1"
proof -
  have k: "frac_bits IEEE16_SPEC_ARGS = 10" "exp_bits IEEE16_SPEC_ARGS = 5" "sign_spec IEEE16_SPEC_ARGS = - 1" "exp_bias IEEE16_SPEC_ARGS = - 15"
    by (simp_all add: IEEE16_SPEC_ARGS_def)
  have v: "fint IEEE16_SPEC_ARGS 0x1600 = 3 * 2 ^ 13" "fint IEEE16_SPEC_ARGS 0x7400 = 2 ^ 38" "fint IEEE16_SPEC_ARGS 1 = 1"
    by (simp_all add: fint_def fsign_def fabs_bits_def k pattern_mag_def fmag_def extractFloatSign_def)
  have "fval IEEE16_SPEC_ARGS 0x1600 / fval IEEE16_SPEC_ARGS 0x7400 = 3 / 2 * fval IEEE16_SPEC_ARGS 1"
    unfolding fval_def v k by (simp add: power_int_minus_divide)
  moreover have "float_divG fenv_init 0x3C00 0x3C00 IEEE16_SPEC_ARGS = (0x3C00, float_raise float_flag_inexact fenv_init)"
    by code_simp
  moreover have "fst (float_divG (fenv_init\<lparr>float_rounding_mode := float_round_to_zero\<rparr>) 0x3C00 0x3C00 IEEE16_SPEC_ARGS)
     = 0x3BFF"
    by code_simp
  moreover have "fst (float_divG fenv_init 0x1600 0x7400 IEEE16_SPEC_ARGS) = 1" by code_simp
  ultimately show ?thesis by blast
qed

end
