(* ===== verification/Spec2Isabelle.thy ===== *)
theory Spec2Isabelle
  imports DivNonrestoring MemMgr FloatCast FloatDivG
begin

text \<open>
  A verification library for \<^verbatim>\<open>libbambu\<close> (\<^verbatim>\<open>src/etc/libbambu\<close>), the C run-time library of the Bambu
  high-level synthesis tool. When Bambu turns a C program into a circuit, integer division,
  floating-point arithmetic, the string functions and the heap of that program become the
  functions of this library, which are synthesised together with it. Its sources are the
  program's own C code; the tool around it is written in C++.

  \<^bold>\<open>Parts and how they interact.\<close>
  The bit macros of \<^verbatim>\<open>bambu_macros.h\<close> (leading-zero counters, logarithms, bit selection) are used by
  the integer dividers and by the soft-float routines. The dividers in \<^verbatim>\<open>softint/\<close> come in three
  families, of which a build chooses one; all have the entry points \<^verbatim>\<open>__udiv*\<close>, \<^verbatim>\<open>__umod*\<close>, \<^verbatim>\<open>__div*\<close>
  and \<^verbatim>\<open>__mod*\<close>. The string functions in \<^verbatim>\<open>string/\<close> work on the byte memory of the program, and two
  of them call \<^verbatim>\<open>malloc\<close> of \<^verbatim>\<open>memmgr.c\<close>, a first-fit allocator over a static pool. The soft-float
  routines in \<^verbatim>\<open>softfloat/\<close> take the format of their operands as eight parameters and are shared by
  all precisions; the classification and sign functions of \<^verbatim>\<open>builtins/\<close> and \<^verbatim>\<open>libm/hls\<close> are thin
  entry points over kernels in \<^verbatim>\<open>softfloat/builtins.h\<close>.

  \<^bold>\<open>Theories and sources.\<close>

  \<^item> \<open>BambuPrelude\<close>: the C integer types as words, and the lemmas on shifts, masks and powers that all
    components share (collections \<open>unat_simps\<close> and \<open>macro_eval\<close>).
  \<^item> \<open>BitMacros\<close>: \<^verbatim>\<open>bambu_macros.h\<close>. Every variant of the leading-zero counter returns the number of
    leading zeros (\<open>is_clz\<close>).
  \<^item> \<open>SoftintCore\<close>: \<^verbatim>\<open>softint/softint.h\<close>. Counters by three methods, double-word multiplication and
    subtraction, and the two-by-one-digit division, which terminates with the exact result.
  \<^item> \<open>DivContract\<close>: the interface of the dividers as the locale \<open>unsigned_divider\<close>, in which the signed
    entry points are proved once; each divider interprets it.
  \<^item> \<open>DivNewton\<close> (\<^verbatim>\<open>divsi3.c\<close>, \<^verbatim>\<open>divdi3.c\<close>, \<^verbatim>\<open>divdi36432.c\<close>: table of reciprocals, Newton iteration and
    correction), \<open>DivAlign\<close> (\<^verbatim>\<open>divsi3as.c\<close>, \<^verbatim>\<open>divdi3as.c\<close>, \<^verbatim>\<open>divdi3as6432.c\<close>: align and subtract),
    \<open>DivNonrestoring\<close> (\<^verbatim>\<open>common_core_nonrestoring_sdiv.h\<close> and the \<^verbatim>\<open>*nr.c\<close> files). For each:
    quotient and remainder are exact for every divisor but zero, and the signed forms truncate
    towards zero.
  \<^item> \<open>CString\<close>: \<^verbatim>\<open>string/*.c\<close>. Memory is a function from addresses to bytes; a function that writes
    returns the new memory. Loops over terminated strings are \<open>partial_function (option)\<close>, so that
    the theorems show that they end. The allocator that \<^verbatim>\<open>strdup\<close> and \<^verbatim>\<open>strndup\<close> call is a locale.
  \<^item> \<open>MemMgr\<close>: \<^verbatim>\<open>memmgr.c\<close>. The free list is a record of header fields by address; \<^verbatim>\<open>malloc\<close> and \<^verbatim>\<open>free\<close>
    search it by \<open>partial_function (option)\<close>. An invariant ties the list to the set of live blocks: together
    they tile what the pool has given out, without a gap. Every history of calls keeps it (for \<^verbatim>\<open>malloc\<close>, of
    requests that do not wrap around: \<open>request_ok\<close>), and the calls refine an abstract allocator, a map of live regions with
    the pool position, whose labelled steps fix the size of a new region and allow a failure only where no
    hole between the regions and no room in the pool is large enough. The theory interprets the allocator locale of \<open>CString\<close>.
  \<^item> \<open>FloatBase\<close>: formats, rounding modes and flags (\<^verbatim>\<open>softfloat_features.h\<close>, \<^verbatim>\<open>softfloat.h\<close>), field
    extraction, jamming shifts, and the value \<open>fval\<close> of a bit pattern: \<open>fint\<close>, an integer multiple
    of the least subnormal number.
  \<^item> \<open>FloatCompare\<close>: the comparisons of \<^verbatim>\<open>softfloat.c\<close>, proved to be those of the values.
  \<^item> \<open>FloatClass\<close>: \<^verbatim>\<open>softfloat/builtins.h\<close>, \<^verbatim>\<open>builtins/*.c\<close>, and the classification, \<^verbatim>\<open>fabs\<close> and
    \<^verbatim>\<open>copysign\<close> files of \<^verbatim>\<open>libm/hls\<close>.
  \<^item> \<open>FloatRound\<close>: \<^verbatim>\<open>__roundAndPackFloat32\<close> and \<^verbatim>\<open>__roundAndPackFloat64\<close>, and rounding of numbers in the
    four modes (\<open>round_nat\<close>).
  \<^item> \<open>FloatConvert\<close>: integers to floating point at every width, and single to double precision and
    back.
  \<^item> \<open>FloatAdd\<close>: \<^verbatim>\<open>__float_addsub\<close>, \<^verbatim>\<open>__float_add\<close> and \<^verbatim>\<open>__float_sub\<close>. Align, add, normalise, round and
    pack, one definition each; for finite operands the result is the exact sum rounded once.
  \<^item> \<open>FloatMul\<close>: \<^verbatim>\<open>__float_mul\<close>. Classes of the operands, the product in one word or two, the decision to
    round up. Products of normal numbers are correctly rounded when they are in the normal range; special operands;
    subnormal numbers.
  \<^item> \<open>FloatToInt\<close>: \<^verbatim>\<open>__float_to_int_impl\<close> and the entry points for every width and sign: the rounded
    value where it is in range, what is returned elsewhere, and the round trip of integers.
  \<^item> \<open>FloatCast\<close>: \<^verbatim>\<open>__float_cast\<close> between any two formats. Widening is exact, widening and narrowing
    again is the identity, and the result agrees with \<^verbatim>\<open>__float32_to_float64_ieee\<close>.
  \<^item> \<open>FloatDiv\<close>: \<^verbatim>\<open>__kernel_float_divSRT4\<close>, as a loop and unrolled. The digit recurrence computes
    quotient and remainder, and the quotient by a normal number is correctly rounded when it is in the normal range.
  \<^item> \<open>FloatDivG\<close>: \<^verbatim>\<open>__float_divG\<close> and \<^verbatim>\<open>div_utilities.h\<close>. Error bounds of the reciprocal from its table to its last
    step, the quotient up to one unit and the correction by the remainder; quotients of all nonzero finite
    numbers, and agreement with \<open>FloatDiv\<close>.

  \<^bold>\<open>Correspondence.\<close> A C function is a definition of the same name without its leading underscores.
  Machine integers are words of their width; where the source mixes signed exponents with unsigned
  comparisons the reduction is written out. The eight format parameters are the record \<open>tfspec\<close>; the
  global rounding mode, tininess mode and exception flags are the record \<open>fenv\<close>, taken and returned.
  Macros that assign several variables return tuples. The model is that of the parametric build
  (\<^verbatim>\<open>NO_PARAMETRIC\<close> undefined), with signalling NaNs (\<^verbatim>\<open>NO_SIGNALLING\<close> undefined).
  Where C leaves an operation undefined the model gives it a value that no property relies on: the shift of \<open>1\<close> by 64 places for
  an unsigned 64-bit target of \<^verbatim>\<open>__float_to_int_impl\<close> out of range (all ones), the negation of the least
  integer in the conversions to floating point (it wraps), and a negative shift count in \<^verbatim>\<open>__float_cast\<close>
  (zero). The exponents of \<^verbatim>\<open>__kernel_float_divSRT4\<close> are unbounded integers; the formats of its theorems
  keep them within 32 bits. The value \<open>fval\<close> reads a pattern as one of a format with a hidden bit and subnormals:
  the theorems on comparison, classification, addition and division ask for such formats, the others take
  every pattern that way.

  \<^bold>\<open>Bounds and fuel.\<close> No definition takes fuel. Loops whose number of rounds the source fixes are
  structural recursions or iterations of a step; loops that search are \<open>partial_function (option)\<close>, and the
  theorems state that the result is \<open>Some\<close>. Theorems on formats assume only what the 64-bit container
  and the 32-bit exponents of the routines can hold.

  \<^bold>\<open>Findings.\<close> Where the code departs from what it means to do, the theorem states what it does:
  among others the span functions and tokenisers that test only the first character of the set
  (\<open>CString\<close>), the unchecked sizes of \<^verbatim>\<open>malloc\<close>, \<^verbatim>\<open>calloc\<close> and \<^verbatim>\<open>memalign\<close> (\<open>MemMgr\<close>), the quiet comparisons
  of negative numbers and \<^verbatim>\<open>_llvm_is_fpclass\<close> (\<open>FloatClass\<close>), and the inverted exception test of
  \<^verbatim>\<open>__roundAndPackFloat32\<close> (\<open>FloatConvert\<close>), the alignment shift of \<^verbatim>\<open>__float_addsub\<close> that is too
  narrow for some formats, bfloat16 among them (\<open>FloatAdd\<close>), subnormal operands and results of
  multiplication and of the digit recurrence (\<open>FloatMul\<close>, \<open>FloatDiv\<close>), exact quotients of the Goldschmidt
  division (\<open>FloatDivG\<close>), conversion to integers without rounding and of
  half-precision infinities (\<open>FloatToInt\<close>), and narrowing by \<^verbatim>\<open>__float_cast\<close> (\<open>FloatCast\<close>).

  \<^bold>\<open>Not modelled.\<close> \<^verbatim>\<open>softcomplex/\<close>, and the elementary functions of \<^verbatim>\<open>libm/hls\<close> and \<^verbatim>\<open>libm/hls_ext\<close>
  (square root, trigonometric functions, \<^verbatim>\<open>powf\<close>), fixed-point approximations with generated tables; \<^verbatim>\<open>libm/musl\<close> and \<^verbatim>\<open>libm/newlib\<close>,
  which are vendored; \<^verbatim>\<open>puts.c\<close> and \<^verbatim>\<open>assert.c\<close>, which only do input and output. Outside the library:
  the C++ sources of the tool, the compiler plugins, the simulation interface \<^verbatim>\<open>libmdpi\<close> and the OpenMP
  run-time, which are not C code of this library, and the regression tests.
\<close>

end
